(* ===== verification/Prelude.thy ===== *)
theory Prelude
  imports Main
begin

text \<open>
  Shared vocabulary of the development.

  Every durable component of the code keeps its state in SQLite tables and
  changes it by single SQL statements.  A table is the list of its rows in
  \<open>rowid\<close> order; the four statement shapes the code uses (a keyed
  \<open>SELECT\<close>, a guarded \<open>UPDATE\<close>, a guarded \<open>DELETE\<close> and
  \<open>INSERT ... ON CONFLICT DO NOTHING\<close>) are the definitions below, and the
  collection \<open>sql\<close> holds their equations.

  The second part is the contract of a single-use identifier: a statement that
  takes an identifier once and reports whether this call took it.  The permit
  redemption table, the consumed-permit record and the transaction consumption
  table are its providers.
\<close>

section \<open>Tables and statements\<close>

named_theorems sql "equations of the SQL statement models"

type_synonym 'r table = "'r list"

definition select_all :: "('r \<Rightarrow> bool) \<Rightarrow> 'r table \<Rightarrow> 'r list" where
  "select_all p t = filter p t"

definition select_first :: "('r \<Rightarrow> bool) \<Rightarrow> 'r table \<Rightarrow> 'r option" where
  "select_first p t = List.find p t"

definition update_where :: "('r \<Rightarrow> bool) \<Rightarrow> ('r \<Rightarrow> 'r) \<Rightarrow> 'r table \<Rightarrow> 'r table" where
  "update_where p f t = map (\<lambda>r. if p r then f r else r) t"

definition delete_where :: "('r \<Rightarrow> bool) \<Rightarrow> 'r table \<Rightarrow> 'r table" where
  "delete_where p t = filter (\<lambda>r. \<not> p r) t"

definition affected :: "('r \<Rightarrow> bool) \<Rightarrow> 'r table \<Rightarrow> nat" where
  "affected p t = length (filter p t)"

definition insert_or_ignore :: "('r \<Rightarrow> 'k) \<Rightarrow> 'r \<Rightarrow> 'r table \<Rightarrow> 'r table \<times> bool" where
  "insert_or_ignore key r t =
     (if key r \<in> set (map key t) then (t, False) else (t @ [r], True))"

definition keyed :: "('r \<Rightarrow> 'k) \<Rightarrow> 'r table \<Rightarrow> bool" where
  "keyed key t \<longleftrightarrow> distinct (map key t)"

lemmas [sql] = select_all_def update_where_def delete_where_def affected_def
  insert_or_ignore_def

lemma select_first_Nil [simp, sql]: "select_first p [] = None"
  by (simp add: select_first_def)

lemma select_first_Cons [simp, sql]:
  "select_first p (r # t) = (if p r then Some r else select_first p t)"
  by (simp add: select_first_def)

lemma select_first_None: "select_first p t = None \<longleftrightarrow> (\<forall>r \<in> set t. \<not> p r)"
  by (auto simp: select_first_def find_None_iff)

lemma select_key_None: "select_first (\<lambda>r. key r = k) t = None \<longleftrightarrow> k \<notin> set (map key t)"
  by (auto simp: select_first_None image_iff)

lemma select_first_SomeD: "select_first p t = Some r \<Longrightarrow> r \<in> set t \<and> p r"
  by (auto simp: select_first_def find_Some_iff)

lemma select_first_append:
  "select_first p (t @ u) =
     (case select_first p t of Some r \<Rightarrow> Some r | None \<Rightarrow> select_first p u)"
  by (induction t) auto

lemma select_first_cong:
  "(\<And>r. r \<in> set t \<Longrightarrow> p r = q r) \<Longrightarrow> select_first p t = select_first q t"
  by (induction t) auto

lemma update_where_keys [simp]:
  "(\<And>r. key (f r) = key r) \<Longrightarrow> map key (update_where p f t) = map key t"
  by (simp add: update_where_def comp_def)

lemma keyed_update:
  "(\<And>r. key (f r) = key r) \<Longrightarrow> keyed key (update_where p f t) = keyed key t"
  by (simp add: keyed_def)

lemma keyed_delete: "keyed key t \<Longrightarrow> keyed key (delete_where p t)"
  by (auto simp: keyed_def delete_where_def intro: distinct_map_filter)

lemma in_delete_where: "r \<in> set (delete_where p t) \<longleftrightarrow> r \<in> set t \<and> \<not> p r"
  by (auto simp: delete_where_def)

lemma keyed_snoc: "keyed key (t @ [r]) \<longleftrightarrow> keyed key t \<and> key r \<notin> set (map key t)"
  by (auto simp: keyed_def)

lemma keyed_insert: "keyed key t \<Longrightarrow> keyed key (fst (insert_or_ignore key r t))"
  by (auto simp: keyed_def insert_or_ignore_def)

lemma keyed_unique:
  assumes "keyed key t" "r \<in> set t" "r' \<in> set t" "key r = key r'"
  shows "r = r'"
  using assms by (auto simp: keyed_def distinct_map inj_on_def)

lemma keyed_select:
  assumes "keyed key t" "r \<in> set t"
  shows "select_first (\<lambda>x. key x = key r) t = Some r"
  using assms by (induction t) (auto simp: keyed_def image_iff)

lemma select_kept: "select_first p t = Some r \<Longrightarrow> \<not> q r \<Longrightarrow> select_first p (delete_where q t) = Some r"
  by (induction t) (auto simp: delete_where_def split: if_splits)

lemma select_extend: "select_first p t = Some r \<Longrightarrow> select_first p (t @ u) = Some r"
  by (simp add: select_first_append)

lemma affected_keyed_le:
  assumes "keyed key t"
  shows "affected (\<lambda>r. key r = k \<and> q r) t \<le> 1"
  using assms
proof (induction t)
  case Nil
  then show ?case by (simp add: affected_def)
next
  case (Cons r t)
  then have tl: "affected (\<lambda>r. key r = k \<and> q r) t \<le> 1" by (simp add: keyed_def)
  have "key r = k \<Longrightarrow> affected (\<lambda>r. key r = k \<and> q r) t = 0"
    using Cons.prems by (simp add: keyed_def affected_def filter_empty_conv) (metis image_eqI)
  with tl show ?case by (auto simp: affected_def)
qed

lemma select_update_where:
  assumes "\<And>r. p (f r) = p r"
  shows "select_first p (update_where q f t) =
    map_option (\<lambda>r. if q r then f r else r) (select_first p t)"
  using assms by (induction t) (auto simp: update_where_def)

section \<open>Single use\<close>

text \<open>
  \<open>wins\<close> counts, over a sequence of attempts, how often an attempt at
  identifier \<open>k\<close> was told that it took the identifier.
\<close>

fun wins :: "('i \<Rightarrow> 'k) \<Rightarrow> ('i \<Rightarrow> 's \<Rightarrow> 's \<times> bool) \<Rightarrow> 's \<Rightarrow> 'i list \<Rightarrow> 'k \<Rightarrow> nat" where
  "wins key tk s [] k = 0"
| "wins key tk s (i # is) k =
     (if key i = k \<and> snd (tk i s) then 1 else 0) + wins key tk (fst (tk i s)) is k"

locale single_use =
  fixes key :: "'i \<Rightarrow> 'k"
    and tk :: "'i \<Rightarrow> 's \<Rightarrow> 's \<times> bool"
    and taken :: "'s \<Rightarrow> 'k \<Rightarrow> bool"
  assumes take_won: "snd (tk i s) \<longleftrightarrow> \<not> taken s (key i)"
    and take_marks: "taken (fst (tk i s)) k \<longleftrightarrow> taken s k \<or> k = key i"
begin

lemma wins_taken: "taken s k \<Longrightarrow> wins key tk s is k = 0"
  by (induction "is" arbitrary: s) (auto simp: take_won take_marks)

lemma wins_once:
  "wins key tk s is k = (if \<not> taken s k \<and> k \<in> set (map key is) then 1 else 0)"
proof (induction "is" arbitrary: s)
  case Nil
  then show ?case by simp
next
  case (Cons i "is")
  show ?case
    by (cases "key i = k") (auto simp: Cons.IH take_won take_marks)
qed

end

section \<open>Exact comparison\<close>

text \<open>
  A three-way comparison that returns \<open>-1\<close>, \<open>0\<close> or \<open>1\<close> and agrees with
  a linear order on the values its operands denote.
\<close>

definition sign3 :: "'v::linorder \<Rightarrow> 'v \<Rightarrow> int" where
  "sign3 x y = (if x < y then -1 else if y < x then 1 else 0)"

locale three_way =
  fixes cmp :: "'a \<Rightarrow> 'a \<Rightarrow> int"
    and ok :: "'a \<Rightarrow> bool"
    and val :: "'a \<Rightarrow> 'v::linorder"
  assumes cmp_sign: "ok a \<Longrightarrow> ok b \<Longrightarrow> cmp a b = sign3 (val a) (val b)"
begin

lemma cmp_le: "ok a \<Longrightarrow> ok b \<Longrightarrow> cmp a b \<le> 0 \<longleftrightarrow> val a \<le> val b"
  by (auto simp: cmp_sign sign3_def not_less)

lemma cmp_ge: "ok a \<Longrightarrow> ok b \<Longrightarrow> cmp a b \<ge> 0 \<longleftrightarrow> val b \<le> val a"
  by (auto simp: cmp_sign sign3_def not_less)

lemma cmp_gt: "ok a \<Longrightarrow> ok b \<Longrightarrow> cmp a b > 0 \<longleftrightarrow> val b < val a"
  by (auto simp: cmp_sign sign3_def)

lemma cmp_lt: "ok a \<Longrightarrow> ok b \<Longrightarrow> cmp a b < 0 \<longleftrightarrow> val a < val b"
  by (auto simp: cmp_sign sign3_def)

lemma cmp_eq: "ok a \<Longrightarrow> ok b \<Longrightarrow> cmp a b = 0 \<longleftrightarrow> val a = val b"
  by (auto simp: cmp_sign sign3_def)

lemma cmp_refl: "ok a \<Longrightarrow> cmp a a = 0"
  by (simp add: cmp_sign sign3_def)

lemma cmp_antisym: "ok a \<Longrightarrow> ok b \<Longrightarrow> cmp b a = - cmp a b"
  by (auto simp: cmp_sign sign3_def)

lemma cmp_trans:
  "ok a \<Longrightarrow> ok b \<Longrightarrow> ok c \<Longrightarrow> cmp a b \<le> 0 \<Longrightarrow> cmp b c \<le> 0 \<Longrightarrow> cmp a c \<le> 0"
  by (auto simp: cmp_le)

end

end
