(* ===== verification/Json.thy ===== *)
theory Json
  imports Complex_Main Prelude
begin

text \<open>
  JSON values as the code handles them, and the canonical form of
  \<^verbatim>\<open>packages/mission-core/src/canonicalize.ts\<close> that every digest and every
  byte comparison of the code is taken over.

  A JavaScript string is a list of characters whose code units are below 256.
  An object is the list of its members in insertion order, each name once
  (\<open>json_wf\<close>); a member whose value is \<open>undefined\<close> is no member.  A finite
  JavaScript number is the decimal its text denotes, the shortest one that reads back as
  it: different numbers have different ones, they are ordered alike, and an integer that
  a double holds exactly below \<open>2 ^ 53\<close> is its own.  \<open>num_text\<close> writes that decimal as
  ECMAScript's \<open>Number::toString\<close> does, and a rational without a finite decimal
  expansion is no number of the code.  The values this code reads are finite, so the
  refusal of a non-finite number is not reachable from a JSON value.
\<close>

section \<open>Values\<close>

datatype json =
    JNull
  | JBool bool
  | JNum rat
  | JStr string
  | JArr "json list"
  | JObj "(string \<times> json) list"

fun json_wf :: "json \<Rightarrow> bool" where
  "json_wf (JArr vs) = (\<forall>v \<in> set vs. json_wf v)"
| "json_wf (JObj ms) = (distinct (map fst ms) \<and> (\<forall>m \<in> set ms. json_wf (snd m)))"
| "json_wf _ = True"

fun members :: "json \<Rightarrow> (string \<times> json) list" where
  "members (JObj ms) = ms"
| "members _ = []"

definition jget :: "string \<Rightarrow> json \<Rightarrow> json option" where
  "jget k v = map_of (members v) k"

definition jkeys :: "json \<Rightarrow> string list" where
  "jkeys v = map fst (members v)"

fun is_obj :: "json \<Rightarrow> bool" where
  "is_obj (JObj _) = True"
| "is_obj _ = False"

definition opt_member :: "string \<Rightarrow> json option \<Rightarrow> (string \<times> json) list" where
  "opt_member k v = (case v of None \<Rightarrow> [] | Some x \<Rightarrow> [(k, x)])"

definition jstrs :: "string list \<Rightarrow> json" where
  "jstrs ss = JArr (map JStr ss)"

definition is_int_num :: "rat \<Rightarrow> bool" where
  "is_int_num r = (of_int \<lfloor>r\<rfloor> = r)"

section \<open>Text\<close>

definition code_unit :: "char \<Rightarrow> nat" where
  "code_unit c = of_char c"

definition is_digit :: "char \<Rightarrow> bool" where
  "is_digit c = (48 \<le> code_unit c \<and> code_unit c \<le> 57)"

definition digit_val :: "char \<Rightarrow> nat" where
  "digit_val c = code_unit c - 48"

definition digit_char :: "nat \<Rightarrow> char" where
  "digit_char d = char_of (48 + d)"

fun nat_text :: "nat \<Rightarrow> string" where
  "nat_text n = (if n < 10 then [digit_char n] else nat_text (n div 10) @ [digit_char (n mod 10)])"

declare nat_text.simps [simp del]

definition int_text :: "int \<Rightarrow> string" where
  "int_text i = (if i < 0 then CHR ''-'' # nat_text (nat (- i)) else nat_text (nat i))"

text \<open>
  \<open>Number::toString\<close>: a positive number is \<open>s * 10 ^ e\<close> with a last digit of \<open>s\<close> that is
  not zero; with \<open>k\<close> digits and the point after digit \<open>n\<close>, it is written out for
  \<open>-6 < n \<le> 21\<close> and with an exponent otherwise.
\<close>

function places :: "nat \<Rightarrow> nat" where
  "places q = (let g = gcd q 10 in if q = 0 \<or> g = 1 then 0 else Suc (places (q div g)))"
  by pat_completeness auto
termination
proof (relation "measure id")
  show "\<And>q x. x = gcd q 10 \<Longrightarrow> \<not> (q = 0 \<or> x = 1) \<Longrightarrow> (q div x, q) \<in> measure id"
    by (metis bot_nat_0.not_eq_extremum div_less_dividend gcd_eq_0_iff id_apply in_measure less_one linorder_neqE_nat)
qed simp

function drop_tens :: "nat \<Rightarrow> nat \<Rightarrow> nat \<times> nat" where
  "drop_tens s z = (if s \<noteq> 0 \<and> s mod 10 = 0 then drop_tens (s div 10) (Suc z) else (s, z))"
  by pat_completeness auto
termination by (relation "measure fst") auto

declare places.simps [simp del] drop_tens.simps [simp del]

definition decimal_of :: "rat \<Rightarrow> nat \<times> int" where
  "decimal_of r =
     (let j = places (nat (snd (quotient_of r))); (s, z) = drop_tens (nat \<lfloor>r * 10 ^ j\<rfloor>) 0
      in (s, int z - int j))"

definition point_text :: "string \<Rightarrow> int \<Rightarrow> string" where
  "point_text ds n =
     (let k = int (length ds); m = n - 1; es = (if m < 0 then CHR ''-'' else CHR ''+'') # nat_text (nat \<bar>m\<bar>) in
      if k \<le> n \<and> n \<le> 21 then ds @ replicate (nat (n - k)) CHR ''0''
      else if 0 < n \<and> n \<le> 21 then take (nat n) ds @ CHR ''.'' # drop (nat n) ds
      else if - 6 < n \<and> n \<le> 0 then ''0.'' @ replicate (nat (- n)) CHR ''0'' @ ds
      else if k = 1 then ds @ CHR ''e'' # es
      else hd ds # CHR ''.'' # tl ds @ CHR ''e'' # es)"

definition num_text :: "rat \<Rightarrow> string" where
  "num_text r =
     (let (s, e) = decimal_of \<bar>r\<bar>; ds = nat_text s in
      if s = 0 then ''0''
      else (if r < 0 then ''-'' else []) @ point_text ds (int (length ds) + e))"

definition hex_char :: "nat \<Rightarrow> char" where
  "hex_char d = (if d < 10 then char_of (48 + d) else char_of (87 + d))"

definition escape_char :: "char \<Rightarrow> string" where
  "escape_char c =
     (if code_unit c = 34 then [char_of (92::nat), char_of (34::nat)]
      else if code_unit c = 92 then [char_of (92::nat), char_of (92::nat)]
      else if code_unit c = 8 then [char_of (92::nat), CHR ''b'']
      else if code_unit c = 9 then [char_of (92::nat), CHR ''t'']
      else if code_unit c = 10 then [char_of (92::nat), CHR ''n'']
      else if code_unit c = 12 then [char_of (92::nat), CHR ''f'']
      else if code_unit c = 13 then [char_of (92::nat), CHR ''r'']
      else if code_unit c < 32 then
        [char_of (92::nat), CHR ''u'', CHR ''0'', CHR ''0'',
         hex_char (code_unit c div 16), hex_char (code_unit c mod 16)]
      else [c])"

definition quoted :: "string \<Rightarrow> string" where
  "quoted s = char_of (34::nat) # concat (map escape_char s) @ [char_of (34::nat)]"

fun join_with :: "string \<Rightarrow> string list \<Rightarrow> string" where
  "join_with sep [] = []"
| "join_with sep [x] = x"
| "join_with sep (x # xs) = x @ sep @ join_with sep xs"

fun compare_utf16 :: "string \<Rightarrow> string \<Rightarrow> int" where
  "compare_utf16 [] [] = 0"
| "compare_utf16 [] (b # bs) = - int (length (b # bs))"
| "compare_utf16 (a # as) [] = int (length (a # as))"
| "compare_utf16 (a # as) (b # bs) =
     (if code_unit a \<noteq> code_unit b then int (code_unit a) - int (code_unit b)
      else compare_utf16 as bs)"

fun insert_member :: "string \<times> 'v \<Rightarrow> (string \<times> 'v) list \<Rightarrow> (string \<times> 'v) list" where
  "insert_member m [] = [m]"
| "insert_member m (n # ns) =
     (if compare_utf16 (fst m) (fst n) \<le> 0 then m # n # ns else n # insert_member m ns)"

definition sort_members :: "(string \<times> 'v) list \<Rightarrow> (string \<times> 'v) list" where
  "sort_members ms = foldr insert_member ms []"

primrec canonicalize :: "json \<Rightarrow> string" where
  "canonicalize JNull = ''null''"
| "canonicalize (JBool b) = (if b then ''true'' else ''false'')"
| "canonicalize (JNum r) = num_text r"
| "canonicalize (JStr s) = quoted s"
| "canonicalize (JArr vs) = ''['' @ join_with '','' (map canonicalize vs) @ '']''"
| "canonicalize (JObj ms) =
     ''{'' @ join_with '',''
       (map (\<lambda>m. quoted (fst m) @ '':'' @ snd m)
         (sort_members (map (map_prod id canonicalize) ms))) @ ''}''"

end
