(* ===== verification/Decimal_Amount.thy ===== *)
theory Decimal_Amount
  imports Json
begin

text \<open>
  Exact decimal amounts, \<^verbatim>\<open>packages/mission-core/src/decimal-amount.ts\<close>: the
  syntax check of an \<open>amount\<close>, the check of a \<open>currency\<close> code and the three-way
  comparison through scaled integers.  \<open>amount_value\<close> is the specification: the
  rational an amount denotes.  The digit-string lemmas at the front are shared
  with the instant comparison.
\<close>

section \<open>Digit strings\<close>

definition parse_digits :: "string \<Rightarrow> nat" where
  "parse_digits ds = foldl (\<lambda>n c. 10 * n + digit_val c) 0 ds"

definition pad_end0 :: "nat \<Rightarrow> string \<Rightarrow> string" where
  "pad_end0 n s = s @ replicate (n - length s) CHR ''0''"

lemma digit_val_zero [simp]: "digit_val CHR ''0'' = 0"
  by (simp add: digit_val_def code_unit_def)

lemma is_digit_zero [simp]: "is_digit CHR ''0''"
  by (simp add: is_digit_def code_unit_def)

lemma digit_val_le: "is_digit c \<Longrightarrow> digit_val c \<le> 9"
  by (auto simp: is_digit_def digit_val_def)

lemma parse_digits_Nil [simp]: "parse_digits [] = 0"
  by (simp add: parse_digits_def)

lemma parse_digits_snoc [simp]: "parse_digits (ds @ [c]) = 10 * parse_digits ds + digit_val c"
  by (simp add: parse_digits_def)

lemma parse_digits_append:
  "parse_digits (as @ bs) = parse_digits as * 10 ^ length bs + parse_digits bs"
proof (induction bs rule: rev_induct)
  case Nil
  then show ?case by simp
next
  case (snoc b bs)
  have "parse_digits (as @ bs @ [b]) = parse_digits ((as @ bs) @ [b])" by simp
  also have "\<dots> = 10 * parse_digits (as @ bs) + digit_val b" by (rule parse_digits_snoc)
  finally show ?case using snoc by (simp add: algebra_simps)
qed

lemma parse_digits_Cons:
  "parse_digits (c # ds) = digit_val c * 10 ^ length ds + parse_digits ds"
  using parse_digits_append[of "[c]" ds] parse_digits_snoc[of "[]" c] by simp

lemma parse_digits_zeros [simp]: "parse_digits (replicate n CHR ''0'') = 0"
  by (induction n) (simp_all add: parse_digits_Cons)

lemma parse_digits_bound: "list_all is_digit ds \<Longrightarrow> parse_digits ds < 10 ^ length ds"
proof (induction ds)
  case Nil
  then show ?case by simp
next
  case (Cons c ds)
  then have "parse_digits ds < 10 ^ length ds" and "digit_val c \<le> 9"
    by (auto dest: digit_val_le)
  then have "digit_val c * 10 ^ length ds + parse_digits ds < 9 * 10 ^ length ds + 10 ^ length ds"
    by (meson add_le_less_mono mult_le_mono1)
  then show ?case by (simp add: parse_digits_Cons)
qed

lemma length_pad_end0: "length s \<le> n \<Longrightarrow> length (pad_end0 n s) = n"
  by (simp add: pad_end0_def)

lemma list_all_pad_end0: "list_all is_digit s \<Longrightarrow> list_all is_digit (pad_end0 n s)"
  by (auto simp: pad_end0_def list_all_iff)

lemma parse_pad_end0:
  "length s \<le> n \<Longrightarrow> parse_digits (pad_end0 n s) = parse_digits s * 10 ^ (n - length s)"
  by (simp add: pad_end0_def parse_digits_append)

definition frac_value :: "string \<Rightarrow> rat" where
  "frac_value ds = of_nat (parse_digits ds) / 10 ^ length ds"

lemma frac_value_pad:
  assumes "length s \<le> n"
  shows "frac_value s = of_nat (parse_digits (pad_end0 n s)) / 10 ^ n"
proof -
  obtain k where "n = length s + k" using assms nat_le_iff_add by blast
  then show ?thesis by (simp add: frac_value_def parse_pad_end0 power_add)
qed

lemma frac_value_less_1: "list_all is_digit ds \<Longrightarrow> frac_value ds < 1"
  using parse_digits_bound[of ds] of_nat_less_iff[of "parse_digits ds" "10 ^ length ds", where 'a=rat]
  by (simp add: frac_value_def)

lemma frac_value_nonneg: "0 \<le> frac_value ds"
  by (simp add: frac_value_def)

section \<open>The amount checks\<close>

text \<open>The regular expression \<open>^\d+(\.\d{1,18})?$\<close>, read left to right.\<close>

definition is_valid_amount :: "string \<Rightarrow> bool" where
  "is_valid_amount s =
     (let whole = takeWhile is_digit s; rest = dropWhile is_digit s
      in whole \<noteq> [] \<and>
         (case rest of
            [] \<Rightarrow> True
          | c # fs \<Rightarrow> c = CHR ''.'' \<and> list_all is_digit fs \<and> 1 \<le> length fs \<and> length fs \<le> 18))"

definition is_currency_code :: "json \<Rightarrow> bool" where
  "is_currency_code v =
     (case v of
        JStr s \<Rightarrow> length s = 3 \<and> list_all (\<lambda>c. 65 \<le> code_unit c \<and> code_unit c \<le> 90) s
      | _ \<Rightarrow> False)"

text \<open>\<open>amount.split(".")\<close>, destructured as \<open>[int, frac = ""]\<close>.\<close>

definition amount_whole :: "string \<Rightarrow> string" where
  "amount_whole s = takeWhile (\<lambda>c. c \<noteq> CHR ''.'') s"

definition amount_frac :: "string \<Rightarrow> string" where
  "amount_frac s = takeWhile (\<lambda>c. c \<noteq> CHR ''.'') (tl (dropWhile (\<lambda>c. c \<noteq> CHR ''.'') s))"

datatype amount_error = InvalidAmount string

definition compare_amounts :: "string \<Rightarrow> string \<Rightarrow> amount_error + int" where
  "compare_amounts a b =
     (if \<not> is_valid_amount a then Inl (InvalidAmount a)
      else if \<not> is_valid_amount b then Inl (InvalidAmount b)
      else
        let scale = max (length (amount_frac a)) (length (amount_frac b));
            a_scaled = parse_digits (amount_whole a @ pad_end0 scale (amount_frac a));
            b_scaled = parse_digits (amount_whole b @ pad_end0 scale (amount_frac b))
        in if a_scaled < b_scaled then Inr (- 1)
           else if a_scaled > b_scaled then Inr 1
           else Inr 0)"

section \<open>What an amount denotes\<close>

definition amount_value :: "string \<Rightarrow> rat" where
  "amount_value s = of_nat (parse_digits (amount_whole s)) + frac_value (amount_frac s)"

lemma scaled_value:
  assumes "length (amount_frac s) \<le> n"
  shows "of_nat (parse_digits (amount_whole s @ pad_end0 n (amount_frac s))) =
         amount_value s * (10 ^ n :: rat)"
proof -
  have len: "length (pad_end0 n (amount_frac s)) = n"
    using assms by (rule length_pad_end0)
  show ?thesis
    by (simp add: parse_digits_append len amount_value_def frac_value_pad[OF assms] field_simps)
qed

lemma compare_amounts_value:
  assumes "is_valid_amount a" "is_valid_amount b"
  shows "compare_amounts a b = Inr (sign3 (amount_value a) (amount_value b))"
proof -
  define n where "n = max (length (amount_frac a)) (length (amount_frac b))"
  define sa where "sa = parse_digits (amount_whole a @ pad_end0 n (amount_frac a))"
  define sb where "sb = parse_digits (amount_whole b @ pad_end0 n (amount_frac b))"
  have "of_nat sa = amount_value a * (10 ^ n :: rat)" "of_nat sb = amount_value b * (10 ^ n :: rat)"
    by (simp_all add: sa_def sb_def scaled_value n_def)
  then have "sa < sb \<longleftrightarrow> amount_value a < amount_value b" "sb < sa \<longleftrightarrow> amount_value b < amount_value a"
    by (metis of_nat_less_iff mult_less_cancel_right_pos zero_less_power zero_less_numeral)+
  then show ?thesis
    using assms unfolding compare_amounts_def Let_def n_def[symmetric] sa_def[symmetric] sb_def[symmetric]
    by (simp add: sign3_def)
qed

definition compare_valid :: "string \<Rightarrow> string \<Rightarrow> int" where
  "compare_valid a b = (case compare_amounts a b of Inr i \<Rightarrow> i | Inl _ \<Rightarrow> 0)"

interpretation amount: three_way compare_valid is_valid_amount amount_value
  by unfold_locales (simp add: compare_valid_def compare_amounts_value)

lemma compare_amounts_Inr:
  "compare_amounts a b = Inr i \<longleftrightarrow>
     is_valid_amount a \<and> is_valid_amount b \<and> i = sign3 (amount_value a) (amount_value b)"
proof (cases "is_valid_amount a \<and> is_valid_amount b")
  case True
  then show ?thesis by (auto simp: compare_amounts_value)
next
  case False
  then show ?thesis by (auto simp: compare_amounts_def)
qed

section \<open>Properties\<close>

text \<open>
  Comparison of two decimal amounts is comparison of the rational numbers they
  denote, exactly and at any digit count: it returns -1, 0 or 1 as the first is
  below, equal to or above the second, and it refuses exactly when an operand is
  not a well-formed amount, naming the first such operand.
\<close>

theorem compare_amounts_exact:
  "compare_amounts a b =
     (if \<not> is_valid_amount a then Inl (InvalidAmount a)
      else if \<not> is_valid_amount b then Inl (InvalidAmount b)
      else Inr (if amount_value a < amount_value b then - 1
                else if amount_value b < amount_value a then 1 else 0))"
  by (cases "is_valid_amount a"; cases "is_valid_amount b")
    (simp_all add: compare_amounts_value sign3_def, simp_all add: compare_amounts_def)

end
