(* ===== verification/Rfc3339_Instant.thy ===== *)
theory Rfc3339_Instant
  imports Decimal_Amount "HOL-Library.Monad_Syntax"
begin

text \<open>
  RFC 3339 instants, \<^verbatim>\<open>packages/mission-core/src/rfc3339-instant.ts\<close>: the strict
  parser, the exact comparison and the millisecond conversions.  The
  \<open>Date\<close> arithmetic the parser uses (\<open>setUTCFullYear\<close>, \<open>getTime\<close>) is written out
  as ECMAScript specifies it: a calendar date whose day does not exist rolls
  over and is refused, and the time value is the day number since 1970 times
  86400 seconds.  An instant denotes a rational number of seconds
  (\<open>instant_value\<close>).
\<close>

record instant =
  seconds :: int
  fraction :: string

section \<open>The calendar\<close>

definition leap_year :: "nat \<Rightarrow> bool" where
  "leap_year y = (y mod 4 = 0 \<and> (y mod 100 \<noteq> 0 \<or> y mod 400 = 0))"

definition month_lengths :: "nat \<Rightarrow> nat list" where
  "month_lengths y = [31, if leap_year y then 29 else 28, 31, 30, 31, 30, 31, 31, 30, 31, 30, 31]"

definition days_in_month :: "nat \<Rightarrow> nat \<Rightarrow> nat" where
  "days_in_month y m = month_lengths y ! (m - 1)"

definition day_from_year :: "nat \<Rightarrow> int" where
  "day_from_year y =
     365 * (int y - 1970) + (int y - 1969) div 4 - (int y - 1901) div 100 + (int y - 1601) div 400"

definition day_number :: "nat \<Rightarrow> nat \<Rightarrow> nat \<Rightarrow> int" where
  "day_number y m d =
     day_from_year y + int (sum_list (take (m - 1) (month_lengths y))) + int d - 1"

section \<open>The parser\<close>

definition take_digits :: "nat \<Rightarrow> string \<Rightarrow> (nat \<times> string) option" where
  "take_digits n s =
     (if n \<le> length s \<and> list_all is_digit (take n s)
      then Some (parse_digits (take n s), drop n s) else None)"

fun expect :: "char list \<Rightarrow> string \<Rightarrow> string option" where
  "expect cs [] = None"
| "expect cs (c # s) = (if c \<in> set cs then Some s else None)"

text \<open>The optional group \<open>(?:\.(\d+))?\<close>: the digits, empty when the group is absent.\<close>

definition take_fraction :: "string \<Rightarrow> (string \<times> string) option" where
  "take_fraction s =
     (case s of
        c # rest \<Rightarrow>
          if c = CHR ''.'' then
            (if takeWhile is_digit rest = [] then None
             else Some (takeWhile is_digit rest, dropWhile is_digit rest))
          else Some ([], s)
      | [] \<Rightarrow> Some ([], s))"

text \<open>The zone: \<open>Z\<close>, or a sign with hours and minutes, as an offset in seconds.\<close>

definition parse_zone :: "string \<Rightarrow> int option" where
  "parse_zone s =
     (case s of
        [] \<Rightarrow> None
      | c # rest \<Rightarrow>
          if c \<in> {CHR ''Z'', CHR ''z''} then (if rest = [] then Some 0 else None)
          else if c \<in> {CHR ''+'', CHR ''-''} then do {
            (h, r1) \<leftarrow> take_digits 2 rest;
            r2 \<leftarrow> expect [CHR '':''] r1;
            (m, r3) \<leftarrow> take_digits 2 r2;
            if r3 \<noteq> [] \<or> h > 23 \<or> m > 59 then None
            else Some ((int h * 60 + int m) * 60 * (if c = CHR ''-'' then - 1 else 1))
          }
          else None)"

definition strip_zeros :: "string \<Rightarrow> string" where
  "strip_zeros s = rev (dropWhile (\<lambda>c. c = CHR ''0'') (rev s))"

definition parse_instant_text :: "string \<Rightarrow> instant option" where
  "parse_instant_text s = do {
     (year, s1) \<leftarrow> take_digits 4 s;
     s2 \<leftarrow> expect [CHR ''-''] s1;
     (month, s3) \<leftarrow> take_digits 2 s2;
     s4 \<leftarrow> expect [CHR ''-''] s3;
     (day, s5) \<leftarrow> take_digits 2 s4;
     s6 \<leftarrow> expect [CHR ''T'', CHR ''t''] s5;
     (hour, s7) \<leftarrow> take_digits 2 s6;
     s8 \<leftarrow> expect [CHR '':''] s7;
     (minute, s9) \<leftarrow> take_digits 2 s8;
     s10 \<leftarrow> expect [CHR '':''] s9;
     (second, s11) \<leftarrow> take_digits 2 s10;
     (frac, s12) \<leftarrow> take_fraction s11;
     offset \<leftarrow> parse_zone s12;
     if month < 1 \<or> month > 12 \<or> day < 1 \<or> hour > 23 \<or> minute > 59 \<or> second > 59 then None
     else if day > days_in_month year month then None
     else Some \<lparr>seconds = day_number year month day * 86400
                  + int hour * 3600 + int minute * 60 + int second - offset,
                fraction = strip_zeros frac\<rparr>
   }"

definition parse_rfc3339_instant :: "json \<Rightarrow> instant option" where
  "parse_rfc3339_instant v = (case v of JStr s \<Rightarrow> parse_instant_text s | _ \<Rightarrow> None)"

section \<open>Comparison and milliseconds\<close>

text \<open>JavaScript's \<open><\<close> on strings compares code units.\<close>

definition compare_instants :: "instant \<Rightarrow> instant \<Rightarrow> int" where
  "compare_instants a b =
     (if seconds a \<noteq> seconds b then (if seconds a < seconds b then - 1 else 1)
      else
        let width = max (length (fraction a)) (length (fraction b));
            fa = pad_end0 width (fraction a);
            fb = pad_end0 width (fraction b)
        in if fa = fb then 0
           else if compare_utf16 fa fb < 0 then - 1 else 1)"

definition instant_from_ms :: "int \<Rightarrow> instant" where
  "instant_from_ms ms =
     (let whole = ms div 1000;
          millis = nat (ms - whole * 1000);
          text = nat_text millis
      in \<lparr>seconds = whole,
           fraction = strip_zeros (replicate (3 - length text) CHR ''0'' @ text)\<rparr>)"

definition instant_floor_ms :: "instant \<Rightarrow> int" where
  "instant_floor_ms i =
     seconds i * 1000 + int (parse_digits (pad_end0 3 (take 3 (fraction i))))"

section \<open>What an instant denotes\<close>

definition instant_ok :: "instant \<Rightarrow> bool" where
  "instant_ok i = list_all is_digit (fraction i)"

definition instant_value :: "instant \<Rightarrow> rat" where
  "instant_value i = of_int (seconds i) + frac_value (fraction i)"

lemma code_unit_inject [simp]: "code_unit a = code_unit b \<longleftrightarrow> a = b"
  by (simp add: code_unit_def)

lemma digit_eq: "is_digit a \<Longrightarrow> is_digit b \<Longrightarrow> digit_val a = digit_val b \<Longrightarrow> a = b"
proof -
  assume "is_digit a" "is_digit b" "digit_val a = digit_val b"
  then have "code_unit a = code_unit b" unfolding is_digit_def digit_val_def by linarith
  then show "a = b" by simp
qed

lemma compare_utf16_digits:
  assumes "length as = length bs" "list_all is_digit as" "list_all is_digit bs"
  shows "compare_utf16 as bs < 0 \<longleftrightarrow> parse_digits as < parse_digits bs"
    and "as = bs \<longleftrightarrow> parse_digits as = parse_digits bs"
  using assms
proof (induction as bs rule: list_induct2)
  case Nil
  {
    case 1
    then show ?case by simp
  next
    case 2
    then show ?case by simp
  }
next
  case (Cons a as b bs)
  have dig: "is_digit a" "is_digit b" "list_all is_digit as" "list_all is_digit bs"
    if "list_all is_digit (a # as)" "list_all is_digit (b # bs)"
    using that by auto
  have far: "parse_digits (x # xs) < parse_digits (y # ys)"
    if "digit_val x < digit_val y" "length xs = length ys" "list_all is_digit xs" for x y xs ys
  proof -
    have "parse_digits (x # xs) < (digit_val x + 1) * 10 ^ length xs"
      using parse_digits_bound[OF that(3)] by (simp add: parse_digits_Cons algebra_simps)
    also have "\<dots> \<le> digit_val y * 10 ^ length ys"
      using that(1,2) by (simp only: mult_le_mono1)
    finally show ?thesis by (simp add: parse_digits_Cons)
  qed
  have ord: "code_unit x < code_unit y \<longleftrightarrow> digit_val x < digit_val y"
    if "is_digit x" "is_digit y" for x y
    using that by (auto simp: is_digit_def digit_val_def)
  {
    case 1
    note d = dig[OF 1]
    show ?case
    proof (cases "a = b")
      case True
      then show ?thesis using Cons.IH(1)[OF d(3,4)] Cons.hyps by (simp add: parse_digits_Cons)
    next
      case False
      then have "digit_val a \<noteq> digit_val b" and ne: "code_unit a \<noteq> code_unit b"
        using d(1,2) digit_eq by (auto simp: code_unit_def)
      then consider "digit_val a < digit_val b" | "digit_val b < digit_val a" by linarith
      then show ?thesis
      proof cases
        case 1
        with far[OF 1 Cons.hyps d(3)] ord[OF d(1,2)] ne show ?thesis by simp
      next
        case 2
        with far[OF 2 Cons.hyps[symmetric] d(4)] ord[OF d(2,1)] ne show ?thesis by simp
      qed
    qed
  next
    case 2
    note d = dig[OF 2]
    show ?case
    proof (cases "a = b")
      case True
      then show ?thesis using Cons.IH(2)[OF d(3,4)] Cons.hyps by (simp add: parse_digits_Cons)
    next
      case False
      then have "digit_val a \<noteq> digit_val b" using d(1,2) digit_eq by auto
      then consider "digit_val a < digit_val b" | "digit_val b < digit_val a" by linarith
      then show ?thesis
        using far[of a b as bs] far[of b a bs as] Cons.hyps d False by cases auto
    qed
  }
qed

lemma instant_value_lex:
  assumes "instant_ok a" "instant_ok b"
  shows "instant_value a < instant_value b \<longleftrightarrow>
    seconds a < seconds b \<or> seconds a = seconds b \<and> frac_value (fraction a) < frac_value (fraction b)"
proof -
  have fa: "0 \<le> frac_value (fraction a)" "frac_value (fraction a) < 1"
    and fb: "0 \<le> frac_value (fraction b)" "frac_value (fraction b) < 1"
    using assms by (simp_all add: instant_ok_def frac_value_nonneg frac_value_less_1)
  consider "seconds a < seconds b" | "seconds a = seconds b" | "seconds b < seconds a" by linarith
  then show ?thesis
  proof cases
    case 1
    then have "(of_int (seconds a) :: rat) + 1 \<le> of_int (seconds b)"
      by (metis add.commute of_int_1 of_int_add of_int_le_iff zless_imp_add1_zle add1_zle_eq)
    with 1 fa fb show ?thesis by (simp add: instant_value_def)
  next
    case 2
    then show ?thesis by (simp add: instant_value_def)
  next
    case 3
    then have "(of_int (seconds b) :: rat) + 1 \<le> of_int (seconds a)"
      by (metis add.commute of_int_1 of_int_add of_int_le_iff zless_imp_add1_zle add1_zle_eq)
    with 3 fa fb show ?thesis by (simp add: instant_value_def)
  qed
qed

lemma compare_instants_value:
  assumes "instant_ok a" "instant_ok b"
  shows "compare_instants a b = sign3 (instant_value a) (instant_value b)"
proof (cases "seconds a = seconds b")
  case False
  then show ?thesis
    using instant_value_lex[OF assms] instant_value_lex[OF assms(2,1)]
    by (auto simp: compare_instants_def sign3_def)
next
  case True
  define n where "n = max (length (fraction a)) (length (fraction b))"
  let ?fa = "pad_end0 n (fraction a)" and ?fb = "pad_end0 n (fraction b)"
  have la: "length ?fa = length ?fb" by (simp add: length_pad_end0 n_def)
  have dg: "list_all is_digit ?fa" "list_all is_digit ?fb"
    using assms by (simp_all add: instant_ok_def list_all_pad_end0)
  have va: "frac_value (fraction a) = of_nat (parse_digits ?fa) / 10 ^ n"
    and vb: "frac_value (fraction b) = of_nat (parse_digits ?fb) / 10 ^ n"
    by (simp_all add: frac_value_pad n_def)
  have "frac_value (fraction a) < frac_value (fraction b) \<longleftrightarrow> parse_digits ?fa < parse_digits ?fb"
    "frac_value (fraction b) < frac_value (fraction a) \<longleftrightarrow> parse_digits ?fb < parse_digits ?fa"
    by (simp_all add: va vb divide_less_cancel)
  then show ?thesis
    using True compare_utf16_digits[OF la dg]
      instant_value_lex[OF assms] instant_value_lex[OF assms(2,1)]
    by (auto simp: compare_instants_def sign3_def n_def[symmetric] Let_def)
qed

interpretation inst: three_way compare_instants instant_ok instant_value
  by unfold_locales (rule compare_instants_value)


section \<open>Parsed and clock instants\<close>

lemma strip_zeros_append: "\<exists>k. s = strip_zeros s @ replicate k CHR ''0''"
proof -
  let ?p = "\<lambda>c. c = CHR ''0''"
  have "s = rev (takeWhile ?p (rev s) @ dropWhile ?p (rev s))" by simp
  also have "\<dots> = strip_zeros s @ rev (takeWhile ?p (rev s))" by (simp add: strip_zeros_def del: takeWhile_dropWhile_id)
  also have "takeWhile ?p (rev s) = replicate (length (takeWhile ?p (rev s))) CHR ''0''"
    by (intro replicate_eqI) (auto dest: set_takeWhileD)
  finally show ?thesis by (metis rev_replicate)
qed

lemma frac_value_strip [simp]: "frac_value (strip_zeros s) = frac_value s"
proof -
  obtain k where "s = strip_zeros s @ replicate k CHR ''0''" using strip_zeros_append by blast
  then have "frac_value s = frac_value (strip_zeros s @ replicate k CHR ''0'')" by simp
  then show ?thesis by (simp add: frac_value_def parse_digits_append power_add)
qed

lemma list_all_strip: "list_all is_digit s \<Longrightarrow> list_all is_digit (strip_zeros s)"
  using strip_zeros_append[of s] by (metis list_all_append)

lemma take_fraction_ok: "take_fraction s = Some (f, r) \<Longrightarrow> list_all is_digit f"
  by (auto simp: take_fraction_def list_all_iff split: list.splits if_splits dest: set_takeWhileD)

lemma parse_instant_text_ok: "parse_instant_text s = Some i \<Longrightarrow> instant_ok i"
  by (auto simp: parse_instant_text_def instant_ok_def list_all_strip dest!: take_fraction_ok
      split: Option.bind_splits if_splits prod.splits)

lemma parse_instant_ok: "parse_rfc3339_instant v = Some i \<Longrightarrow> instant_ok i"
  by (auto simp: parse_rfc3339_instant_def parse_instant_text_ok split: json.splits)

lemma digit_char_val: "d < 10 \<Longrightarrow> digit_val (digit_char d) = d \<and> is_digit (digit_char d)"
  by (simp add: digit_val_def digit_char_def is_digit_def code_unit_def)

lemma nat_text_parse: "parse_digits (nat_text n) = n \<and> list_all is_digit (nat_text n)"
proof (induction n rule: nat_text.induct)
  case (1 n)
  show ?case
  proof (cases "n < 10")
    case True
    then show ?thesis
      by (subst (1 2) nat_text.simps) (simp add: digit_char_val parse_digits_Cons)
  next
    case False
    with 1 show ?thesis by (subst (1 2) nat_text.simps) (simp add: digit_char_val)
  qed
qed

lemma length_nat_text: "n < 10 ^ Suc k \<Longrightarrow> length (nat_text n) \<le> Suc k"
proof (induction k arbitrary: n)
  case 0
  then show ?case by (subst nat_text.simps) simp
next
  case (Suc k)
  then have "n div 10 < 10 ^ Suc k" by (simp add: less_mult_imp_div_less mult.commute)
  then have "length (nat_text (n div 10)) \<le> Suc k" by (rule Suc.IH)
  then show ?case by (subst nat_text.simps) simp
qed

lemma instant_from_ms_value:
  "instant_value (instant_from_ms ms) = of_int ms / 1000 \<and> instant_ok (instant_from_ms ms)"
proof -
  define m where "m = nat (ms - ms div 1000 * 1000)"
  have m: "int m = ms mod 1000" by (simp add: m_def minus_div_mult_eq_mod)
  then have "m < 10 ^ Suc 2" using pos_mod_bound[of 1000 ms] by simp
  then have len: "length (nat_text m) \<le> 3" using length_nat_text[of m 2] by simp
  let ?t = "replicate (3 - length (nat_text m)) CHR ''0'' @ nat_text m"
  have "frac_value ?t = of_nat m / 1000"
    using len by (simp add: frac_value_def parse_digits_append nat_text_parse)
  moreover have "(of_nat m :: rat) = of_int (ms mod 1000)" by (metis m of_int_of_nat_eq)
  moreover have "(of_int ms :: rat) = of_int (ms div 1000) * 1000 + of_int (ms mod 1000)"
    by (metis div_mult_mod_eq of_int_add of_int_mult of_int_numeral)
  moreover have "list_all is_digit ?t" using nat_text_parse[of m] by (auto simp: list_all_iff)
  moreover have "instant_from_ms ms = \<lparr>seconds = ms div 1000, fraction = strip_zeros ?t\<rparr>"
    by (simp only: instant_from_ms_def Let_def m_def)
  ultimately show ?thesis
    by (simp add: instant_value_def instant_ok_def list_all_strip field_simps)
qed

lemma floor_digits_3:
  assumes "list_all is_digit ds"
  shows "\<lfloor>frac_value ds * 1000\<rfloor> = int (parse_digits (pad_end0 3 (take 3 ds)))"
proof (cases "length ds \<le> 3")
  case True
  then show ?thesis by (simp add: frac_value_pad[OF True])
next
  case False
  define hd3 tl3 where "hd3 = take 3 ds" and "tl3 = drop 3 ds"
  have ds: "ds = hd3 @ tl3" and l3: "length hd3 = 3"
    using False by (simp_all add: hd3_def tl3_def)
  have "list_all is_digit tl3" using assms ds by (metis list_all_append)
  then have f: "0 \<le> frac_value tl3" "frac_value tl3 < 1"
    by (simp_all add: frac_value_nonneg frac_value_less_1)
  have "frac_value ds * 1000 = of_nat (parse_digits hd3) + frac_value tl3"
    by (simp add: ds frac_value_def parse_digits_append power_add l3 field_simps)
  then have "\<lfloor>frac_value ds * 1000\<rfloor> = int (parse_digits hd3)"
    using f by (simp add: floor_eq_iff)
  then show ?thesis by (simp add: pad_end0_def l3 hd3_def[symmetric])
qed

lemma instant_floor_ms_value:
  assumes "instant_ok i"
  shows "instant_floor_ms i = \<lfloor>instant_value i * 1000\<rfloor>"
proof -
  have "instant_value i * 1000 = of_int (seconds i * 1000) + frac_value (fraction i) * 1000"
    by (simp add: instant_value_def algebra_simps)
  then have "\<lfloor>instant_value i * 1000\<rfloor> = seconds i * 1000 + \<lfloor>frac_value (fraction i) * 1000\<rfloor>"
    by (metis floor_add_int add.commute)
  then show ?thesis using assms by (simp add: instant_floor_ms_def instant_ok_def floor_digits_3)
qed

section \<open>Properties\<close>

text \<open>
  The millisecond conversions are exact: a clock reading of \<open>ms\<close> milliseconds
  denotes \<open>ms / 1000\<close> seconds and reads back as itself, and the millisecond ceiling
  of a parsed instant is the greatest whole millisecond at or before the instant it
  denotes, so a permit bounded by it never outlives that instant.
\<close>

theorem instant_ms_exact:
  "instant_floor_ms (instant_from_ms ms) = ms \<and>
   instant_value (instant_from_ms ms) = of_int ms / 1000 \<and>
   (parse_rfc3339_instant v = Some i \<longrightarrow>
      of_int (instant_floor_ms i) / 1000 \<le> instant_value i \<and>
      instant_value i < of_int (instant_floor_ms i + 1) / 1000)"
proof -
  have 1: "instant_floor_ms (instant_from_ms ms) = ms"
    by (simp add: instant_floor_ms_value instant_from_ms_value)
  have 2: "of_int (instant_floor_ms i) / 1000 \<le> instant_value i \<and>
      instant_value i < of_int (instant_floor_ms i + 1) / 1000"
    if "parse_rfc3339_instant v = Some i"
    using floor_correct[of "instant_value i * 1000"]
    by (simp add: instant_floor_ms_value[OF parse_instant_ok[OF that]] field_simps)
  show ?thesis using 1 2 instant_from_ms_value by blast
qed

theorem instant_ms_exact_witness:
  "parse_rfc3339_instant (JStr ''1970-01-01T00:00:01.5009Z'') =
     Some \<lparr>seconds = 1, fraction = ''5009''\<rparr> \<and>
   instant_floor_ms \<lparr>seconds = 1, fraction = ''5009''\<rparr> = 1500 \<and>
   instant_value \<lparr>seconds = 1, fraction = ''5009''\<rparr> < of_int (1500 + 1) / 1000"
proof -
  have p: "parse_rfc3339_instant (JStr ''1970-01-01T00:00:01.5009Z'') =
     Some \<lparr>seconds = 1, fraction = ''5009''\<rparr>" by code_simp
  have f: "instant_floor_ms \<lparr>seconds = 1, fraction = ''5009''\<rparr> = 1500" by code_simp
  show ?thesis
    using instant_ms_exact[where ms = 0 and v = "JStr ''1970-01-01T00:00:01.5009Z''"
        and i = "\<lparr>seconds = 1, fraction = ''5009''\<rparr>"] p f
    by simp
qed

end
