(* ===== verification/A_Label.thy ===== *)
theory A_Label
  imports Rfc3339_Instant
begin

text \<open>
  The structural check of an \<^verbatim>\<open>xn--\<close> label,
  \<^verbatim>\<open>packages/mission-core/src/a-label.ts\<close>: Punycode decoding and encoding
  (RFC 3492) over integer code points, and the conditions an A-label meets.

  The three questions the code asks of the Unicode tables of the runtime (is the
  decoded label in NFC, its lower case, does it begin with a combining mark) are
  the parameter \<open>unicode\<close>.  JavaScript numbers are integers here; every value the
  code computes stays below \<open>2 ^ 53\<close> for a decodable label.
\<close>

record unicode =
  is_nfc :: "int list \<Rightarrow> bool"
  lower_cps :: "int list \<Rightarrow> int list"
  starts_with_mark :: "int list \<Rightarrow> bool"

section \<open>Strings\<close>

text \<open>\<open>toLowerCase\<close> on characters below 256.\<close>

definition lower_char :: "char \<Rightarrow> char" where
  "lower_char c =
     (let u = code_unit c
      in if 65 \<le> u \<and> u \<le> 90 \<or> 192 \<le> u \<and> u \<le> 222 \<and> u \<noteq> 215 then char_of (u + 32) else c)"

definition to_lower :: "string \<Rightarrow> string" where
  "to_lower s = map lower_char s"

fun last_index :: "char \<Rightarrow> string \<Rightarrow> int" where
  "last_index c [] = - 1"
| "last_index c (x # xs) =
     (if last_index c xs \<ge> 0 then last_index c xs + 1 else if x = c then 0 else - 1)"

definition nth_opt :: "'a list \<Rightarrow> nat \<Rightarrow> 'a option" where
  "nth_opt xs n = (if n < length xs then Some (xs ! n) else None)"

lemma lower_char_idem [simp]: "lower_char (lower_char c) = lower_char c"
proof -
  have u: "code_unit c < 256" by (simp add: code_unit_def)
  then show ?thesis by (auto simp: lower_char_def Let_def code_unit_def)
qed

lemma to_lower_idem [simp]: "to_lower (to_lower s) = to_lower s"
  by (simp add: to_lower_def)

lemma to_lower_append [simp]: "to_lower (s @ t) = to_lower s @ to_lower t"
  by (simp add: to_lower_def)

section \<open>Punycode\<close>

definition MAX_INT :: int where "MAX_INT = 2147483647"
definition MAX_CODE_POINT :: int where "MAX_CODE_POINT = 1114111"

function adapt_loop :: "int \<Rightarrow> int \<Rightarrow> int \<times> int" where
  "adapt_loop d k = (if d > 455 then adapt_loop (d div 35) (k + 36) else (d, k))"
  by pat_completeness auto
termination by (relation "measure (\<lambda>(d, k). nat d)") (auto simp: int_div_less_self)

definition adapt :: "int \<Rightarrow> int \<Rightarrow> bool \<Rightarrow> int" where
  "adapt delta num_points first_time =
     (let d0 = (if first_time then delta div 700 else delta div 2);
          (d, k) = adapt_loop (d0 + d0 div num_points) 0
      in k + (36 * d) div (d + 38))"

definition threshold :: "int \<Rightarrow> int \<Rightarrow> int" where
  "threshold k bias = (if k \<le> bias then 1 else if k \<ge> bias + 26 then 26 else k - bias)"

definition digit_value :: "char \<Rightarrow> int" where
  "digit_value ch =
     (let c = int (code_unit ch)
      in if c \<ge> 97 \<and> c \<le> 122 then c - 97
         else if c \<ge> 48 \<and> c \<le> 57 then c - 48 + 26 else 36)"

definition puny_char :: "int \<Rightarrow> char" where
  "puny_char d = char_of (nat (if d < 26 then 97 + d else 48 + d - 26))"

fun decode_int :: "int \<Rightarrow> int \<Rightarrow> int \<Rightarrow> int \<Rightarrow> string \<Rightarrow> (int \<times> string) option" where
  "decode_int bias k i w [] = None"
| "decode_int bias k i w (c # cs) =
     (let digit = digit_value c; t = threshold k bias
      in if digit \<ge> 36 then None
         else if digit > (MAX_INT - i) div w then None
         else if digit < t then Some (i + digit * w, cs)
         else if w > MAX_INT div (36 - t) then None
         else decode_int bias (k + 36) (i + digit * w) (w * (36 - t)) cs)"

lemma decode_int_shorter: "decode_int bias k i w cs = Some (i', cs') \<Longrightarrow> length cs' < length cs"
  by (induction bias k i w cs rule: decode_int.induct)
    (auto simp: Let_def split: if_splits intro: less_SucI)

text \<open>The body of the outer loop past the integer, then the loop.\<close>

function decode_loop :: "int \<Rightarrow> int \<Rightarrow> int \<Rightarrow> int list \<Rightarrow> string \<Rightarrow> int list option" where
  "decode_loop n i bias out cs =
     (if cs = [] then Some out
      else case decode_int bias 36 i 1 cs of
        None \<Rightarrow> None
      | Some (i', rest) \<Rightarrow>
          let len = int (length out) + 1;
              bias' = adapt (i' - i) len (i = 0);
              n' = n + i' div len;
              pos = i' mod len
          in if i' div len > MAX_INT - n then None
             else if n' > MAX_CODE_POINT \<or> n' \<ge> 55296 \<and> n' \<le> 57343 then None
             else decode_loop n' (pos + 1) bias' (take (nat pos) out @ n' # drop (nat pos) out) rest)"
  by pat_completeness auto
termination
  by (relation "measure (\<lambda>(n, i, bias, out, cs). length cs)") (auto dest: decode_int_shorter)

declare decode_loop.simps [simp del] adapt_loop.simps [simp del]

definition punycode_decode :: "string \<Rightarrow> int list option" where
  "punycode_decode input =
     (let b = nat (max (last_index CHR ''-'' input) 0);
          basic = map (\<lambda>c. int (code_unit c)) (take b input)
      in if \<exists>c \<in> set basic. c \<ge> 128 then None
         else decode_loop 128 0 72 basic (drop (if b > 0 then b + 1 else 0) input))"

function encode_int :: "int \<Rightarrow> int \<Rightarrow> int \<Rightarrow> string" where
  "encode_int bias k q =
     (let t = threshold k bias
      in if q < t then [puny_char q]
         else puny_char (t + (q - t) mod (36 - t)) #
              encode_int bias (k + 36) ((q - t) div (36 - t)))"
  by pat_completeness auto
termination
proof (relation "measure (\<lambda>(bias, k, q). nat q)", goal_cases)
  case 1
  then show ?case by simp
next
  case (2 bias k q t)
  then have t: "1 \<le> t" "t \<le> 26" "t \<le> q" by (auto simp: threshold_def split: if_splits)
  then have "(q - t) div (36 - t) \<le> (q - t) div 1" by (intro zdiv_mono2) auto
  then show ?case using t by simp
qed

declare encode_int.simps [simp del]

record encode_state =
  enc_delta :: int
  enc_bias :: int
  enc_h :: nat
  enc_out :: string

definition encode_point :: "int \<Rightarrow> nat \<Rightarrow> int \<Rightarrow> encode_state \<Rightarrow> encode_state" where
  "encode_point n b c s =
     (let s1 = (if c < n then s\<lparr>enc_delta := enc_delta s + 1\<rparr> else s)
      in if c = n then
           s1\<lparr>enc_out := enc_out s1 @ encode_int (enc_bias s1) 36 (enc_delta s1),
              enc_bias := adapt (enc_delta s1) (int (enc_h s1) + 1) (enc_h s1 = b),
              enc_delta := 0,
              enc_h := enc_h s1 + 1\<rparr>
         else s1)"

lemma foldl_min_in: "foldl min (c::int) cs \<in> insert c (set cs)"
proof (induction cs arbitrary: c)
  case (Cons x cs)
  from Cons[of "min c x"] show ?case by (auto simp: min_def split: if_splits)
qed simp

text \<open>
  The outer loop.  \<open>m\<close> is the smallest code point at or above \<open>n\<close>; while
  \<open>h\<close> is below the length of the input there is one, so the branch without a
  candidate is not reached.
\<close>

function encode_loop :: "int list \<Rightarrow> nat \<Rightarrow> int \<Rightarrow> encode_state \<Rightarrow> string" where
  "encode_loop input b n s =
     (if enc_h s \<ge> length input then enc_out s
      else case filter (\<lambda>c. c \<ge> n) input of
        [] \<Rightarrow> enc_out s
      | c # cs \<Rightarrow>
          let m = foldl min c cs;
              s1 = s\<lparr>enc_delta := enc_delta s + (m - n) * (int (enc_h s) + 1)\<rparr>;
              s2 = fold (encode_point m b) input s1
          in encode_loop input b (m + 1) (s2\<lparr>enc_delta := enc_delta s2 + 1\<rparr>))"
  by pat_completeness auto
termination
proof (relation "measure (\<lambda>(input, b, n, s). length (filter (\<lambda>c. c \<ge> n) input))", goal_cases)
  case 1
  then show ?case by simp
next
  case (2 input b n s c cs m s1 s2)
  have m: "m \<in> set (filter (\<lambda>c. c \<ge> n) input)"
    using foldl_min_in[of c cs] 2 by auto
  have "filter (\<lambda>c. c \<ge> m + 1) input = filter (\<lambda>c. c \<ge> m + 1) (filter (\<lambda>c. c \<ge> n) input)"
    using m by (auto intro: filter_cong)
  moreover have "length (filter (\<lambda>c. c \<ge> m + 1) (filter (\<lambda>c. c \<ge> n) input)) <
      length (filter (\<lambda>c. c \<ge> n) input)"
    using m by (intro length_filter_less) auto
  ultimately show ?case by simp
qed

declare encode_loop.simps [simp del]

definition punycode_encode :: "int list \<Rightarrow> string" where
  "punycode_encode input =
     (let basic = map (\<lambda>c. char_of (nat c)) (filter (\<lambda>c. c < 128) input); b = length basic
      in encode_loop input b 128
           \<lparr>enc_delta = 0, enc_bias = 72, enc_h = b,
            enc_out = basic @ (if b > 0 then ''-'' else [])\<rparr>)"

section \<open>The check\<close>

definition a_label_violation :: "unicode \<Rightarrow> string \<Rightarrow> string option" where
  "a_label_violation uc label =
     (let ascii = to_lower label
      in if take 4 ascii \<noteq> ''xn--'' then None
         else let encoded = drop 4 ascii
           in case punycode_decode encoded of
             None \<Rightarrow> Some ''does not decode under Punycode''
           | Some cps \<Rightarrow>
               if punycode_encode cps \<noteq> encoded then Some ''does not encode back to itself''
               else if \<forall>c \<in> set cps. c < 128 then Some ''decodes to an ASCII-only label''
               else if \<not> is_nfc uc cps then Some ''decodes to a label not in NFC''
               else if lower_cps uc cps \<noteq> cps then
                 Some ''decodes to a label with an upper-case character''
               else if starts_with_mark uc cps then
                 Some ''decodes to a label beginning with a combining mark''
               else if nth_opt cps 0 = Some 45 \<or> nth_opt (rev cps) 0 = Some 45 then
                 Some ''decodes to a label beginning or ending with a hyphen''
               else if nth_opt cps 2 = Some 45 \<and> nth_opt cps 3 = Some 45 then
                 Some ''decodes to a label with hyphens in its third and fourth positions''
               else None)"

lemma a_label_lower [simp]: "a_label_violation uc (to_lower l) = a_label_violation uc l"
  by (simp add: a_label_violation_def)

section \<open>Decoding is bounded\<close>

definition scalar_value :: "int \<Rightarrow> bool" where
  "scalar_value c = (0 \<le> c \<and> c \<le> MAX_CODE_POINT \<and> \<not> (55296 \<le> c \<and> c \<le> 57343))"

lemma digit_value_nonneg: "0 \<le> digit_value c"
  by (simp add: digit_value_def Let_def)

lemma threshold_range: "1 \<le> threshold k bias" "threshold k bias \<le> 26"
  by (auto simp: threshold_def)

lemma decode_int_bounds:
  assumes "decode_int bias k i w cs = Some (i', cs')" "0 \<le> i" "0 < w"
  shows "i \<le> i' \<and> i' \<le> MAX_INT"
  using assms
proof (induction bias k i w cs rule: decode_int.induct)
  case (1 bias k i w)
  then show ?case by simp
next
  case (2 bias k i w c cs)
  define d where "d = digit_value c"
  define t where "t = threshold k bias"
  have d: "0 \<le> d" and t: "t \<le> 26" by (simp_all add: d_def t_def digit_value_nonneg threshold_range)
  have le: "d \<le> (MAX_INT - i) div w"
    using 2(2) by (auto simp: Let_def d_def[symmetric] split: if_splits)
  then have "d * w \<le> (MAX_INT - i) div w * w" using 2(4) by (intro mult_right_mono) simp_all
  also have "\<dots> \<le> MAX_INT - i"
    using 2(4) pos_mod_sign[of w "MAX_INT - i"] div_mult_mod_eq[of "MAX_INT - i" w] by linarith
  finally have "d * w \<le> MAX_INT - i" .
  moreover have "0 \<le> d * w" using d 2(4) by simp
  moreover have "0 < w * (36 - t)" using 2(4) t by simp
  ultimately show ?case
  proof (cases "d < t")
    case True
    then show ?thesis
      using 2(2) \<open>0 \<le> d * w\<close> \<open>d * w \<le> MAX_INT - i\<close>
      by (auto simp: Let_def d_def[symmetric] t_def[symmetric] split: if_splits)
  next
    case False
    then have "decode_int bias (k + 36) (i + d * w) (w * (36 - t)) cs = Some (i', cs')"
      and "\<not> 36 \<le> d" "\<not> MAX_INT div (36 - t) < w"
      using 2(2) by (auto simp: Let_def d_def[symmetric] t_def[symmetric] split: if_splits)
    then have "i + d * w \<le> i' \<and> i' \<le> MAX_INT"
      using 2(1)[OF d_def t_def] le False 2(3) \<open>0 \<le> d * w\<close> \<open>0 < w * (36 - t)\<close> by simp
    then show ?thesis using \<open>0 \<le> d * w\<close> by simp
  qed
qed

lemma decode_loop_scalar:
  assumes "decode_loop n i bias out cs = Some res" "0 \<le> n" "0 \<le> i"
    and "\<forall>c \<in> set out. scalar_value c"
  shows "\<forall>c \<in> set res. scalar_value c"
  using assms
proof (induction n i bias out cs rule: decode_loop.induct)
  case (1 n i bias out cs)
  show ?case
  proof (cases "cs = []")
    case True
    then show ?thesis using 1(2,5) by (simp add: decode_loop.simps)
  next
    case False
    then obtain i' rest where d: "decode_int bias 36 i 1 cs = Some (i', rest)"
      using 1(2) by (auto simp: decode_loop.simps split: option.splits)
    have i': "0 \<le> i'" using decode_int_bounds[OF d] 1(4) by simp
    define len where "len = int (length out) + 1"
    have len: "0 < len" by (simp add: len_def)
    define n' where "n' = n + i' div len"
    have n': "0 \<le> n'" using 1(3) i' len by (simp add: n'_def pos_imp_zdiv_nonneg_iff)
    let ?out = "take (nat (i' mod len)) out @ n' # drop (nat (i' mod len)) out"
    have ok: "\<not> n' > MAX_CODE_POINT" "\<not> (n' \<ge> 55296 \<and> n' \<le> 57343)" "\<not> i' div len > MAX_INT - n"
      and rec: "decode_loop n' (i' mod len + 1) (adapt (i' - i) len (i = 0)) ?out rest = Some res"
      using 1(2) False d unfolding decode_loop.simps[of n i bias out cs] n'_def len_def
      by (auto simp: Let_def split: if_splits)
    have "scalar_value n'" using n' ok(1,2) by (simp add: scalar_value_def)
    then have out: "\<forall>c \<in> set ?out. scalar_value c"
      using 1(5) by (auto dest: in_set_takeD in_set_dropD)
    have pos: "0 \<le> i' mod len + 1" using len by simp
    show ?thesis
      by (rule 1(1)[OF False d refl len_def refl n'_def refl ok(3) _ rec n' pos out])
        (use ok(1,2) in blast)
  qed
qed

lemma punycode_decode_ok:
  assumes "punycode_decode s = Some cps"
  shows "\<forall>c \<in> set cps. scalar_value c"
proof -
  define b where "b = nat (max (last_index CHR ''-'' s) 0)"
  define basic where "basic = map (\<lambda>c. int (code_unit c)) (take b s)"
  have lt: "\<not> (\<exists>c \<in> set basic. c \<ge> 128)"
    and dec: "decode_loop 128 0 72 basic (drop (if b > 0 then b + 1 else 0) s) = Some cps"
    using assms unfolding punycode_decode_def Let_def b_def[symmetric] basic_def[symmetric]
    by (simp_all split: if_splits)
  have "scalar_value c" if "c \<in> set basic" for c
    using lt that by (force simp: scalar_value_def MAX_CODE_POINT_def basic_def)
  then show ?thesis by (intro decode_loop_scalar[OF dec]) simp_all
qed

section \<open>Properties\<close>

text \<open>
  The Punycode decoder is total and safe: every code point of a label it decodes
  is a Unicode scalar value, in range and no surrogate, so turning the decoded code
  points into a string cannot throw; and the A-label verdict of a label is that of its
  lower-case form, so it does not depend on the spelling's case.
\<close>

theorem punycode_decode_scalar:
  "(punycode_decode s = Some cps \<longrightarrow> (\<forall>c \<in> set cps. 0 \<le> c \<and> c \<le> 1114111 \<and> (c < 55296 \<or> 57343 < c))) \<and>
   a_label_violation uc (to_lower s) = a_label_violation uc s"
proof -
  have "\<forall>c \<in> set cps. 0 \<le> c \<and> c \<le> 1114111 \<and> (c < 55296 \<or> 57343 < c)"
    if "punycode_decode s = Some cps"
    using punycode_decode_ok[OF that] unfolding scalar_value_def MAX_CODE_POINT_def by auto
  then show ?thesis by simp
qed

theorem punycode_decode_scalar_witness:
  "punycode_decode ''mnchen-3ya'' = Some [109, 252, 110, 99, 104, 101, 110] \<and>
   list_all (\<lambda>c. c \<le> 1114111) [109, 252, 110, 99, 104, 101, 110::int]"
proof -
  have d: "punycode_decode ''mnchen-3ya'' = Some [109, 252, 110, 99, 104, 101, 110]" by code_simp
  have b: "\<forall>c \<in> set [109, 252, 110, 99, 104, 101, 110::int]. 0 \<le> c \<and> c \<le> 1114111 \<and> (c < 55296 \<or> 57343 < c)"
    by (rule mp[OF conjunct1[OF punycode_decode_scalar] d])
  show ?thesis using d b by (simp add: list_all_iff)
qed

end
