(* ===== verification/Common_Constraints.thy ===== *)
theory Common_Constraints
  imports A_Label
begin

text \<open>
  The Mission Resource Access common constraints,
  \<^verbatim>\<open>packages/mission-core/src/common-constraints.ts\<close>: one value syntax, subset
  rule, intersection rule and enforcement rule per key, in the table \<open>SEMANTICS\<close>,
  and the operations every path reads through that table.

  The locale \<open>constraint_laws\<close> is the contract of one row: the subset rule is a
  preorder on well-formed values and sound for enforcement, and the intersection
  admits exactly the facts both operands admit.  Each of the seven rows is an
  interpretation, and the operations on whole \<open>constraints\<close> objects use nothing else.

  A \<open>constraints\<close> object is \<open>json option\<close> (\<open>undefined\<close> is \<open>None\<close>); the trusted clock
  reads integer milliseconds.  The reason texts of a refusal are kept.
\<close>

record constraint_facts =
  resource_issued_at :: "string option"
  tenant :: "string option"
  now :: "int option"
  recipients :: "string list option"
  data_classification :: "string list option"
  tool :: "string option"

record semantics =
  valid :: "json \<Rightarrow> bool"
  no_broader :: "json \<Rightarrow> json \<Rightarrow> bool"
  intersect :: "json \<Rightarrow> json \<Rightarrow> json option"
  satisfied :: "json \<Rightarrow> constraint_facts \<Rightarrow> bool"
  admits_nothing :: "json \<Rightarrow> bool"

section \<open>Issuance bounds and tenant\<close>

definition to_instant :: "json \<Rightarrow> instant" where
  "to_instant v =
     (case parse_rfc3339_instant v of Some i \<Rightarrow> i | None \<Rightarrow> \<lparr>seconds = 0, fraction = []\<rparr>)"

definition issued_instant :: "constraint_facts \<Rightarrow> instant option" where
  "issued_instant f = Option.bind (resource_issued_at f) (\<lambda>s. parse_rfc3339_instant (JStr s))"

definition RESOURCE_ISSUED_AFTER :: semantics where
  "RESOURCE_ISSUED_AFTER =
     \<lparr>valid = (\<lambda>v. parse_rfc3339_instant v \<noteq> None),
      no_broader = (\<lambda>c r. compare_instants (to_instant c) (to_instant r) \<ge> 0),
      intersect = (\<lambda>a b. Some (if compare_instants (to_instant a) (to_instant b) \<ge> 0 then a else b)),
      satisfied = (\<lambda>v f. case issued_instant f of None \<Rightarrow> False
                         | Some i \<Rightarrow> compare_instants i (to_instant v) \<ge> 0),
      admits_nothing = (\<lambda>_. False)\<rparr>"

definition RESOURCE_ISSUED_BEFORE :: semantics where
  "RESOURCE_ISSUED_BEFORE =
     \<lparr>valid = (\<lambda>v. parse_rfc3339_instant v \<noteq> None),
      no_broader = (\<lambda>c r. compare_instants (to_instant c) (to_instant r) \<le> 0),
      intersect = (\<lambda>a b. Some (if compare_instants (to_instant a) (to_instant b) \<le> 0 then a else b)),
      satisfied = (\<lambda>v f. case issued_instant f of None \<Rightarrow> False
                         | Some i \<Rightarrow> compare_instants i (to_instant v) \<le> 0),
      admits_nothing = (\<lambda>_. False)\<rparr>"

fun non_empty_string :: "json \<Rightarrow> bool" where
  "non_empty_string (JStr s) = (s \<noteq> [])"
| "non_empty_string _ = False"

definition TENANT :: semantics where
  "TENANT =
     \<lparr>valid = non_empty_string,
      no_broader = (\<lambda>c r. c = r),
      intersect = (\<lambda>a b. if a = b then Some a else None),
      satisfied = (\<lambda>v f. case tenant f of None \<Rightarrow> False | Some t \<Rightarrow> JStr t = v),
      admits_nothing = (\<lambda>_. False)\<rparr>"

section \<open>Time window\<close>

definition later :: "json option \<Rightarrow> json option \<Rightarrow> json option" where
  "later a b =
     (case a of None \<Rightarrow> b
      | Some x \<Rightarrow> (case b of None \<Rightarrow> a
        | Some y \<Rightarrow> if compare_instants (to_instant x) (to_instant y) \<ge> 0 then a else b))"

definition earlier :: "json option \<Rightarrow> json option \<Rightarrow> json option" where
  "earlier a b =
     (case a of None \<Rightarrow> b
      | Some x \<Rightarrow> (case b of None \<Rightarrow> a
        | Some y \<Rightarrow> if compare_instants (to_instant x) (to_instant y) \<le> 0 then a else b))"

definition inverted :: "json option \<Rightarrow> json option \<Rightarrow> bool" where
  "inverted not_before not_after =
     (case (not_before, not_after) of
        (Some x, Some y) \<Rightarrow> compare_instants (to_instant x) (to_instant y) > 0
      | _ \<Rightarrow> False)"

definition WINDOW_MEMBERS :: "string list" where
  "WINDOW_MEMBERS = [''not_before'', ''not_after'']"

definition window_valid :: "json \<Rightarrow> bool" where
  "window_valid v =
     (is_obj v \<and> jkeys v \<noteq> [] \<and> list_all (\<lambda>k. k \<in> set WINDOW_MEMBERS) (jkeys v) \<and>
      list_all (\<lambda>k. Option.bind (jget k v) parse_rfc3339_instant \<noteq> None) (jkeys v) \<and>
      \<not> inverted (jget ''not_before'' v) (jget ''not_after'' v))"

definition window_no_broader :: "json \<Rightarrow> json \<Rightarrow> bool" where
  "window_no_broader c r =
     ((case jget ''not_before'' r of None \<Rightarrow> True
       | Some y \<Rightarrow> (case jget ''not_before'' c of None \<Rightarrow> False
         | Some x \<Rightarrow> \<not> compare_instants (to_instant x) (to_instant y) < 0)) \<and>
      (case jget ''not_after'' r of None \<Rightarrow> True
       | Some y \<Rightarrow> (case jget ''not_after'' c of None \<Rightarrow> False
         | Some x \<Rightarrow> \<not> compare_instants (to_instant x) (to_instant y) > 0)))"

definition window_intersect :: "json \<Rightarrow> json \<Rightarrow> json option" where
  "window_intersect a b =
     (let not_before = later (jget ''not_before'' a) (jget ''not_before'' b);
          not_after = earlier (jget ''not_after'' a) (jget ''not_after'' b)
      in if inverted not_before not_after then None
         else Some (JObj (opt_member ''not_before'' not_before @ opt_member ''not_after'' not_after)))"

definition window_satisfied :: "json \<Rightarrow> constraint_facts \<Rightarrow> bool" where
  "window_satisfied v f =
     (case now f of None \<Rightarrow> False
      | Some ms \<Rightarrow>
          (case jget ''not_before'' v of None \<Rightarrow> True
           | Some x \<Rightarrow> \<not> compare_instants (instant_from_ms ms) (to_instant x) < 0) \<and>
          (case jget ''not_after'' v of None \<Rightarrow> True
           | Some x \<Rightarrow> \<not> compare_instants (instant_from_ms ms) (to_instant x) > 0))"

definition TIME_WINDOW :: semantics where
  "TIME_WINDOW =
     \<lparr>valid = window_valid, no_broader = window_no_broader, intersect = window_intersect,
      satisfied = window_satisfied, admits_nothing = (\<lambda>_. False)\<rparr>"

section \<open>Recipient domain\<close>

fun split_on :: "char \<Rightarrow> string \<Rightarrow> string list" where
  "split_on c [] = [[]]"
| "split_on c (x # xs) =
     (if x = c then [] # split_on c xs
      else case split_on c xs of w # ws \<Rightarrow> (x # w) # ws | [] \<Rightarrow> [[x]])"

definition is_alnum :: "char \<Rightarrow> bool" where
  "is_alnum c =
     (let u = code_unit c
      in 48 \<le> u \<and> u \<le> 57 \<or> 65 \<le> u \<and> u \<le> 90 \<or> 97 \<le> u \<and> u \<le> 122)"

definition dns_label :: "string \<Rightarrow> bool" where
  "dns_label l =
     (l \<noteq> [] \<and> length l \<le> 63 \<and> is_alnum (hd l) \<and> is_alnum (last l) \<and>
      list_all (\<lambda>c. is_alnum c \<or> c = CHR ''-'') l)"

definition is_dns_name :: "string \<Rightarrow> bool" where
  "is_dns_name v = (length v \<le> 253 \<and> list_all dns_label (split_on CHR ''.'' v))"

fun is_recipient_domain :: "unicode \<Rightarrow> json \<Rightarrow> bool" where
  "is_recipient_domain uc (JStr v) =
     (is_dns_name v \<and> list_all (\<lambda>l. a_label_violation uc l = None) (split_on CHR ''.'' v))"
| "is_recipient_domain uc _ = False"

definition ends_with :: "string \<Rightarrow> string \<Rightarrow> bool" where
  "ends_with s t = (length t \<le> length s \<and> drop (length s - length t) s = t)"

definition within_domain :: "string \<Rightarrow> string \<Rightarrow> bool" where
  "within_domain name domain =
     (let n = to_lower name; d = to_lower domain in n = d \<or> ends_with n (CHR ''.'' # d))"

definition address_domain :: "string \<Rightarrow> string option" where
  "address_domain address =
     (let pre = takeWhile (\<lambda>c. c \<noteq> CHR ''@'') address; rest = dropWhile (\<lambda>c. c \<noteq> CHR ''@'') address
      in if rest = [] \<or> pre = [] \<or> CHR ''@'' \<in> set (tl rest) then None
         else if is_dns_name (tl rest) then Some (tl rest) else None)"

fun jstring :: "json \<Rightarrow> string" where
  "jstring (JStr s) = s"
| "jstring _ = []"

definition recipients_within :: "string \<Rightarrow> constraint_facts \<Rightarrow> bool" where
  "recipients_within v f =
     (case recipients f of None \<Rightarrow> False
      | Some rs \<Rightarrow> rs \<noteq> [] \<and>
          list_all (\<lambda>r. case address_domain r of None \<Rightarrow> False | Some d \<Rightarrow> within_domain d v) rs)"

definition RECIPIENT_DOMAIN :: "unicode \<Rightarrow> semantics" where
  "RECIPIENT_DOMAIN uc =
     \<lparr>valid = is_recipient_domain uc,
      no_broader = (\<lambda>c r. within_domain (jstring c) (jstring r)),
      intersect = (\<lambda>a b. if within_domain (jstring a) (jstring b) then Some a
                         else if within_domain (jstring b) (jstring a) then Some b else None),
      satisfied = (\<lambda>v f. recipients_within (jstring v) f),
      admits_nothing = (\<lambda>_. False)\<rparr>"

section \<open>Label lists\<close>

fun is_label_list :: "json \<Rightarrow> bool" where
  "is_label_list (JArr vs) = list_all non_empty_string vs"
| "is_label_list _ = False"

fun elements :: "json \<Rightarrow> json list" where
  "elements (JArr vs) = vs"
| "elements _ = []"

text \<open>\<open>[...new Set(xs)]\<close>: the first occurrence of each element, in order.\<close>

definition uniq :: "'a list \<Rightarrow> 'a list" where
  "uniq xs = rev (remdups (rev xs))"

definition common_members :: "json \<Rightarrow> json \<Rightarrow> json option" where
  "common_members a b =
     (let out = uniq (filter (\<lambda>x. x \<in> set (elements b)) (elements a))
      in if out \<noteq> [] then Some (JArr out) else None)"

definition members_within :: "json \<Rightarrow> json \<Rightarrow> bool" where
  "members_within c r = list_all (\<lambda>x. x \<in> set (elements r)) (elements c)"

definition DATA_CLASSIFICATION :: semantics where
  "DATA_CLASSIFICATION =
     \<lparr>valid = is_label_list, no_broader = members_within, intersect = common_members,
      satisfied = (\<lambda>v f. case data_classification f of None \<Rightarrow> False
                         | Some ls \<Rightarrow> ls \<noteq> [] \<and> list_all (\<lambda>l. JStr l \<in> set (elements v)) ls),
      admits_nothing = (\<lambda>v. elements v = [])\<rparr>"

definition ALLOWED_TOOLS :: semantics where
  "ALLOWED_TOOLS =
     \<lparr>valid = is_label_list, no_broader = members_within, intersect = common_members,
      satisfied = (\<lambda>v f. case tool f of None \<Rightarrow> False | Some t \<Rightarrow> JStr t \<in> set (elements v)),
      admits_nothing = (\<lambda>v. elements v = [])\<rparr>"

section \<open>The table and its readers\<close>

definition SEMANTICS :: "unicode \<Rightarrow> (string \<times> semantics) list" where
  "SEMANTICS uc =
     [(''resource_issued_after'', RESOURCE_ISSUED_AFTER),
      (''resource_issued_before'', RESOURCE_ISSUED_BEFORE),
      (''tenant'', TENANT),
      (''time_window'', TIME_WINDOW),
      (''recipient_domain'', RECIPIENT_DOMAIN uc),
      (''data_classification'', DATA_CLASSIFICATION),
      (''allowed_tools'', ALLOWED_TOOLS)]"

definition IMPLEMENTED_COMMON_CONSTRAINTS :: "unicode \<Rightarrow> string list" where
  "IMPLEMENTED_COMMON_CONSTRAINTS uc = map fst (SEMANTICS uc)"

definition is_implemented_common_constraint :: "unicode \<Rightarrow> string \<Rightarrow> bool" where
  "is_implemented_common_constraint uc k = (k \<in> set (IMPLEMENTED_COMMON_CONSTRAINTS uc))"

definition valid_common_constraint :: "unicode \<Rightarrow> string \<Rightarrow> json \<Rightarrow> bool" where
  "valid_common_constraint uc k v =
     (case map_of (SEMANTICS uc) k of None \<Rightarrow> False | Some s \<Rightarrow> valid s v)"

type_synonym constraints = "json option"

definition cget :: "string \<Rightarrow> constraints \<Rightarrow> json option" where
  "cget k c = Option.bind c (jget k)"

definition key_no_broader :: "semantics \<Rightarrow> json option \<Rightarrow> json option \<Rightarrow> bool" where
  "key_no_broader s c r =
     (if (case c of Some cv \<Rightarrow> \<not> valid s cv | None \<Rightarrow> False) then False
      else case r of None \<Rightarrow> True
        | Some rv \<Rightarrow> (case c of None \<Rightarrow> False
          | Some cv \<Rightarrow> valid s rv \<and> no_broader s cv rv))"

definition common_constraints_no_broader :: "unicode \<Rightarrow> constraints \<Rightarrow> constraints \<Rightarrow> bool" where
  "common_constraints_no_broader uc candidate reference =
     list_all (\<lambda>(k, s). key_no_broader s (cget k candidate) (cget k reference)) (SEMANTICS uc)"

datatype refusal = Refusal (refused_key: string) (refused_reason: string)

definition intersect_key ::
    "string \<Rightarrow> semantics \<Rightarrow> json option \<Rightarrow> json option \<Rightarrow> refusal + json option" where
  "intersect_key k s av bv =
     (if av = None \<and> bv = None then Inr None
      else if (case av of Some v \<Rightarrow> \<not> valid s v | None \<Rightarrow> False) \<or>
              (case bv of Some v \<Rightarrow> \<not> valid s v | None \<Rightarrow> False)
      then Inl (Refusal k (''malformed '' @ k @ '' value''))
      else let v = (case (av, bv) of
                      (Some x, Some y) \<Rightarrow> intersect s x y
                    | (Some x, None) \<Rightarrow> Some x
                    | (None, y) \<Rightarrow> y)
        in case v of
          None \<Rightarrow> Inl (Refusal k (k @ '' values have no intersection''))
        | Some x \<Rightarrow>
            if admits_nothing s x then Inl (Refusal k (k @ '' values have no intersection''))
            else Inr (Some x))"

fun intersect_keys ::
    "(string \<times> semantics) list \<Rightarrow> constraints \<Rightarrow> constraints \<Rightarrow> refusal + (string \<times> json) list" where
  "intersect_keys [] a b = Inr []"
| "intersect_keys ((k, s) # ks) a b =
     (case intersect_key k s (cget k a) (cget k b) of
        Inl e \<Rightarrow> Inl e
      | Inr v \<Rightarrow> (case intersect_keys ks a b of
          Inl e \<Rightarrow> Inl e
        | Inr vs \<Rightarrow> Inr (opt_member k v @ vs)))"

definition intersect_common_constraints ::
    "unicode \<Rightarrow> constraints \<Rightarrow> constraints \<Rightarrow> refusal + json" where
  "intersect_common_constraints uc a b =
     (case intersect_keys (SEMANTICS uc) a b of
        Inl e \<Rightarrow> Inl e
      | Inr values \<Rightarrow>
          (case (map_of values ''resource_issued_after'', map_of values ''resource_issued_before'') of
             (Some after, Some before) \<Rightarrow>
               if compare_instants (to_instant after) (to_instant before) > 0
               then Inl (Refusal ''resource_issued_after''
                 ''resource_issued_after is later than resource_issued_before: the issuance window is empty'')
               else Inr (JObj values)
           | _ \<Rightarrow> Inr (JObj values)))"

record gate_trace =
  gates_satisfied :: bool
  evaluated :: "string list"

fun run_gates ::
    "(string \<times> semantics) list \<Rightarrow> constraints \<Rightarrow> constraint_facts \<Rightarrow> string list \<Rightarrow> gate_trace" where
  "run_gates [] c f done_keys = \<lparr>gates_satisfied = True, evaluated = done_keys\<rparr>"
| "run_gates ((k, s) # ks) c f done_keys =
     (case cget k c of
        None \<Rightarrow> run_gates ks c f done_keys
      | Some v \<Rightarrow>
          if \<not> valid s v \<or> \<not> satisfied s v f
          then \<lparr>gates_satisfied = False, evaluated = done_keys @ [k]\<rparr>
          else run_gates ks c f (done_keys @ [k]))"

definition common_constraint_gates :: "unicode \<Rightarrow> constraints \<Rightarrow> constraint_facts \<Rightarrow> gate_trace" where
  "common_constraint_gates uc c f = run_gates (SEMANTICS uc) c f []"

section \<open>Collections\<close>

definition MEMBER_FACT_CONSTRAINTS :: "string list" where
  "MEMBER_FACT_CONSTRAINTS =
     [''resource_issued_after'', ''resource_issued_before'', ''tenant'', ''data_classification'']"

definition MEMBER_FIELDS :: "string list" where
  "MEMBER_FIELDS = [''id'', ''issued_at'', ''tenant'', ''data_classification'']"

definition no_facts :: constraint_facts where
  "no_facts = \<lparr>resource_issued_at = None, tenant = None, now = None, recipients = None,
               data_classification = None, tool = None\<rparr>"

fun opt_string :: "json option \<Rightarrow> string option" where
  "opt_string (Some (JStr s)) = Some s"
| "opt_string _ = None"

definition string_or_absent :: "json option \<Rightarrow> bool" where
  "string_or_absent v = (v = None \<or> opt_string v \<noteq> None)"

definition collection_member_constraint_facts :: "json \<Rightarrow> constraint_facts option" where
  "collection_member_constraint_facts m =
     (if \<not> is_obj m then None
      else if \<exists>k \<in> set (jkeys m). k \<notin> set MEMBER_FIELDS then None
      else if \<not> (case opt_string (jget ''id'' m) of Some s \<Rightarrow> s \<noteq> [] | None \<Rightarrow> False) then None
      else if \<exists>k \<in> set [''issued_at'', ''tenant'', ''data_classification''].
                \<not> string_or_absent (jget k m) then None
      else Some (no_facts
        \<lparr>resource_issued_at := opt_string (jget ''issued_at'' m),
         tenant := opt_string (jget ''tenant'' m),
         data_classification := map_option (\<lambda>l. [l]) (opt_string (jget ''data_classification'' m))\<rparr>))"

definition or_else :: "'a option \<Rightarrow> 'a option \<Rightarrow> 'a option" where
  "or_else a b = (case a of None \<Rightarrow> b | Some _ \<Rightarrow> a)"

text \<open>\<open>{...shared, ...member}\<close>: the member's facts over the shared ones.\<close>

definition merge_facts :: "constraint_facts \<Rightarrow> constraint_facts \<Rightarrow> constraint_facts" where
  "merge_facts shared member =
     \<lparr>resource_issued_at = or_else (resource_issued_at member) (resource_issued_at shared),
      tenant = or_else (tenant member) (tenant shared),
      now = or_else (now member) (now shared),
      recipients = or_else (recipients member) (recipients shared),
      data_classification = or_else (data_classification member) (data_classification shared),
      tool = or_else (tool member) (tool shared)\<rparr>"

definition shared_facts :: "constraint_facts \<Rightarrow> constraint_facts" where
  "shared_facts f = f\<lparr>resource_issued_at := None, tenant := None, data_classification := None\<rparr>"

definition add_new :: "'a list \<Rightarrow> 'a list \<Rightarrow> 'a list" where
  "add_new acc ks = fold (\<lambda>k acc. if k \<in> set acc then acc else acc @ [k]) ks acc"

fun gates_each ::
    "unicode \<Rightarrow> constraints \<Rightarrow> constraint_facts \<Rightarrow> constraint_facts list \<Rightarrow> string list \<Rightarrow> gate_trace" where
  "gates_each uc c shared [] acc = \<lparr>gates_satisfied = True, evaluated = acc\<rparr>"
| "gates_each uc c shared (m # ms) acc =
     (let trace = common_constraint_gates uc c (merge_facts shared m);
          acc' = add_new acc (evaluated trace)
      in if \<not> gates_satisfied trace then \<lparr>gates_satisfied = False, evaluated = acc'\<rparr>
         else gates_each uc c shared ms acc')"

definition common_constraint_gates_over_members ::
    "unicode \<Rightarrow> constraints \<Rightarrow> constraint_facts \<Rightarrow> constraint_facts list option \<Rightarrow> gate_trace" where
  "common_constraint_gates_over_members uc c f ms =
     (case ms of
        None \<Rightarrow> common_constraint_gates uc c f
      | Some [] \<Rightarrow> common_constraint_gates uc c (shared_facts f)
      | Some (m # rest) \<Rightarrow> gates_each uc c (shared_facts f) (m # rest) [])"

definition time_window_end_ms :: "constraints \<Rightarrow> int option" where
  "time_window_end_ms c =
     (case cget ''time_window'' c of
        None \<Rightarrow> None
      | Some w \<Rightarrow>
          if \<not> window_valid w then None
          else map_option (\<lambda>n. instant_floor_ms (to_instant n)) (jget ''not_after'' w))"

section \<open>The contract of one constraint\<close>

definition key_satisfied :: "semantics \<Rightarrow> json option \<Rightarrow> constraint_facts \<Rightarrow> bool" where
  "key_satisfied s c f = (case c of None \<Rightarrow> True | Some v \<Rightarrow> valid s v \<and> satisfied s v f)"

locale constraint_laws =
  fixes s :: semantics
  assumes nb_refl: "valid s v \<Longrightarrow> no_broader s v v"
    and nb_trans: "valid s a \<Longrightarrow> valid s b \<Longrightarrow> valid s c \<Longrightarrow>
          no_broader s a b \<Longrightarrow> no_broader s b c \<Longrightarrow> no_broader s a c"
    and nb_sound: "valid s c \<Longrightarrow> valid s r \<Longrightarrow> no_broader s c r \<Longrightarrow> satisfied s c f \<Longrightarrow> satisfied s r f"
    and meet_valid: "valid s a \<Longrightarrow> valid s b \<Longrightarrow> intersect s a b = Some v \<Longrightarrow> valid s v"
    and meet_lower: "valid s a \<Longrightarrow> valid s b \<Longrightarrow> intersect s a b = Some v \<Longrightarrow>
          no_broader s v a \<and> no_broader s v b"
    and meet_complete: "valid s a \<Longrightarrow> valid s b \<Longrightarrow> satisfied s a f \<Longrightarrow> satisfied s b f \<Longrightarrow>
          \<exists>v. intersect s a b = Some v \<and> satisfied s v f"
    and empty_unsatisfied: "valid s v \<Longrightarrow> admits_nothing s v \<Longrightarrow> \<not> satisfied s v f"
begin

lemma meet_exact:
  assumes "valid s a" "valid s b"
  shows "(case intersect s a b of None \<Rightarrow> False | Some v \<Rightarrow> satisfied s v f) \<longleftrightarrow>
         satisfied s a f \<and> satisfied s b f"
proof (cases "intersect s a b")
  case None
  then show ?thesis using meet_complete[OF assms] by auto
next
  case (Some v)
  then have "satisfied s a f \<and> satisfied s b f" if "satisfied s v f"
    using that assms meet_valid meet_lower nb_sound by blast
  then show ?thesis using Some meet_complete[OF assms, of f] by auto
qed

lemma key_refl: "(\<And>v. c = Some v \<Longrightarrow> valid s v) \<Longrightarrow> key_no_broader s c c"
  by (auto simp: key_no_broader_def nb_refl split: option.splits)

lemma key_trans: "key_no_broader s a b \<Longrightarrow> key_no_broader s b c \<Longrightarrow> key_no_broader s a c"
  by (auto simp: key_no_broader_def split: option.splits if_splits intro: nb_trans)

lemma key_sound: "key_no_broader s c r \<Longrightarrow> key_satisfied s c f \<Longrightarrow> key_satisfied s r f"
  by (auto simp: key_no_broader_def key_satisfied_def split: option.splits if_splits intro: nb_sound)

lemma intersect_key_exact:
  "(case intersect_key k s a b of Inl _ \<Rightarrow> False | Inr v \<Rightarrow> key_satisfied s v f) \<longleftrightarrow>
   key_satisfied s a f \<and> key_satisfied s b f"
proof (cases a; cases b)
  fix x y assume ab: "a = Some x" "b = Some y"
  show ?thesis
  proof (cases "valid s x \<and> valid s y")
    case True
    then show ?thesis
      using ab meet_exact[of x y f] meet_valid[of x y] empty_unsatisfied
      by (auto simp: intersect_key_def key_satisfied_def split: option.splits if_splits)
  next
    case False
    then show ?thesis using ab by (auto simp: intersect_key_def key_satisfied_def)
  qed
qed (auto simp: intersect_key_def key_satisfied_def empty_unsatisfied split: option.splits)

lemma intersect_key_lower:
  assumes "intersect_key k s a b = Inr v"
  shows "key_no_broader s v a \<and> key_no_broader s v b"
proof (cases "a = None \<or> b = None")
  case True
  then show ?thesis
    using assms by (auto simp: intersect_key_def key_no_broader_def nb_refl split: option.splits if_splits)
next
  case False
  then obtain x y where ab: "a = Some x" "b = Some y" by auto
  then have vs: "valid s x" "valid s y" and "v = intersect s x y" "v \<noteq> None"
    using assms by (auto simp: intersect_key_def dest: sym split: option.splits if_splits)
  then obtain w where w: "v = Some w" "intersect s x y = Some w" by auto
  then show ?thesis
    using ab vs meet_valid[OF vs w(2)] meet_lower[OF vs w(2)] by (simp add: key_no_broader_def)
qed

end

section \<open>The rows keep the contract\<close>

definition ival :: "json \<Rightarrow> rat" where
  "ival v = instant_value (to_instant v)"

lemma to_instant_ok: "parse_rfc3339_instant v = Some i \<Longrightarrow> instant_ok (to_instant v)"
  using parse_instant_ok[of v] by (simp add: to_instant_def)

lemma issued_instant_ok: "issued_instant f = Some i \<Longrightarrow> instant_ok i"
  by (auto simp: issued_instant_def intro: parse_instant_ok split: Option.bind_splits)

lemmas instant_order = inst.cmp_le inst.cmp_ge inst.cmp_gt inst.cmp_lt to_instant_ok issued_instant_ok
  instant_from_ms_value

interpretation issued_after: constraint_laws RESOURCE_ISSUED_AFTER
  by unfold_locales
    (auto simp: RESOURCE_ISSUED_AFTER_def instant_order split: option.splits if_splits)

interpretation issued_before: constraint_laws RESOURCE_ISSUED_BEFORE
  by unfold_locales
    (auto simp: RESOURCE_ISSUED_BEFORE_def instant_order split: option.splits if_splits)

interpretation tenant_laws: constraint_laws TENANT
  by unfold_locales (auto simp: TENANT_def split: option.splits if_splits)

lemma elements_uniq [simp]: "set (uniq xs) = set xs"
  by (simp add: uniq_def)

lemma uniq_eq_Nil [simp]: "uniq xs = [] \<longleftrightarrow> xs = []"
  by (metis elements_uniq set_empty)

lemma is_label_listD: "is_label_list v \<Longrightarrow> v = JArr (elements v)"
  by (cases v) auto

lemma common_members_laws:
  assumes "common_members a b = Some v"
  shows "set (elements v) = set (elements a) \<inter> set (elements b)" "elements v \<noteq> []"
    "is_label_list a \<Longrightarrow> is_label_list v"
proof -
  from assms have v: "v = JArr (uniq (filter (\<lambda>x. x \<in> set (elements b)) (elements a)))"
    and ne: "uniq (filter (\<lambda>x. x \<in> set (elements b)) (elements a)) \<noteq> []"
    by (simp_all add: common_members_def Let_def split: if_splits)
  show "set (elements v) = set (elements a) \<inter> set (elements b)" "elements v \<noteq> []"
    using v ne by (auto simp del: uniq_eq_Nil)
  show "is_label_list v" if "is_label_list a"
    using v that by (cases a) (auto simp: list_all_iff)
qed

lemma common_members_Some:
  "x \<in> set (elements a) \<Longrightarrow> x \<in> set (elements b) \<Longrightarrow> \<exists>v. common_members a b = Some v"
  by (auto simp: common_members_def Let_def filter_empty_conv)

lemma members_within_iff: "members_within c r \<longleftrightarrow> set (elements c) \<subseteq> set (elements r)"
  by (auto simp: members_within_def list_all_iff)

interpretation data_classification_laws: constraint_laws DATA_CLASSIFICATION
proof (unfold_locales, goal_cases)
  case (6 a b f)
  then obtain ls where ls: "data_classification f = Some ls" "ls \<noteq> []"
      "list_all (\<lambda>l. JStr l \<in> set (elements a)) ls" "list_all (\<lambda>l. JStr l \<in> set (elements b)) ls"
    by (auto simp: DATA_CLASSIFICATION_def split: option.splits)
  then obtain v where "common_members a b = Some v"
    using common_members_Some[of "JStr (hd ls)" a b] by (auto simp: list_all_iff)
  then show ?case
    using ls common_members_laws(1) by (auto simp: DATA_CLASSIFICATION_def list_all_iff)
next
  case (7 v f)
  then show ?case by (auto simp: DATA_CLASSIFICATION_def list_all_iff split: option.splits)
qed (auto simp: DATA_CLASSIFICATION_def members_within_iff common_members_laws list_all_iff
    split: option.splits)

interpretation allowed_tools_laws: constraint_laws ALLOWED_TOOLS
proof (unfold_locales, goal_cases)
  case (6 a b f)
  then obtain t where t: "tool f = Some t" "JStr t \<in> set (elements a)" "JStr t \<in> set (elements b)"
    by (auto simp: ALLOWED_TOOLS_def split: option.splits)
  then obtain v where "common_members a b = Some v" using common_members_Some by blast
  then show ?case using t common_members_laws(1) by (auto simp: ALLOWED_TOOLS_def)
qed (auto simp: ALLOWED_TOOLS_def members_within_iff common_members_laws split: option.splits)

subsection \<open>The time window\<close>

definition wlo :: "json \<Rightarrow> rat option" where
  "wlo v = map_option ival (jget ''not_before'' v)"

definition whi :: "json \<Rightarrow> rat option" where
  "whi v = map_option ival (jget ''not_after'' v)"

lemma jget_key: "jget k v = Some x \<Longrightarrow> k \<in> set (jkeys v)"
  by (auto simp: jget_def jkeys_def dest!: map_of_SomeD intro: image_eqI[rotated])

lemma window_bound_ok:
  assumes "window_valid v" "jget k v = Some x"
  shows "instant_ok (to_instant x)" "parse_rfc3339_instant x \<noteq> None"
  using assms jget_key[OF assms(2)] by (auto simp: window_valid_def list_all_iff to_instant_ok)

lemma jget_window [simp]:
  "jget ''not_before'' (JObj (opt_member ''not_before'' l @ opt_member ''not_after'' h)) = l"
  "jget ''not_after'' (JObj (opt_member ''not_before'' l @ opt_member ''not_after'' h)) = h"
  by (auto simp: jget_def opt_member_def split: option.splits)

lemma window_no_broader_iff:
  assumes "window_valid c" "window_valid r"
  shows "window_no_broader c r \<longleftrightarrow>
    (\<forall>y. wlo r = Some y \<longrightarrow> (\<exists>x. wlo c = Some x \<and> y \<le> x)) \<and>
    (\<forall>y. whi r = Some y \<longrightarrow> (\<exists>x. whi c = Some x \<and> x \<le> y))"
  by (auto simp: window_no_broader_def wlo_def whi_def ival_def inst.cmp_le inst.cmp_ge inst.cmp_lt
      inst.cmp_gt window_bound_ok(1)[OF assms(1)] window_bound_ok(1)[OF assms(2)] not_less
      split: option.splits)

lemma window_satisfied_iff:
  assumes "window_valid v"
  shows "window_satisfied v f \<longleftrightarrow>
    (\<exists>ms. now f = Some ms \<and> (\<forall>x. wlo v = Some x \<longrightarrow> x \<le> of_int ms / 1000) \<and>
          (\<forall>x. whi v = Some x \<longrightarrow> of_int ms / 1000 \<le> x))"
  by (auto simp: window_satisfied_def wlo_def whi_def ival_def inst.cmp_lt inst.cmp_gt not_less
      window_bound_ok(1)[OF assms] instant_from_ms_value split: option.splits)

lemma later_cases: "later a b = None \<and> a = None \<and> b = None \<or> later a b = a \<and> a \<noteq> None \<or> later a b = b \<and> b \<noteq> None"
  by (auto simp: later_def split: option.splits)

lemma earlier_cases: "earlier a b = None \<and> a = None \<and> b = None \<or> earlier a b = a \<and> a \<noteq> None \<or> earlier a b = b \<and> b \<noteq> None"
  by (auto simp: earlier_def split: option.splits)

text \<open>The bounds of the overlap: the greater lower bound, the smaller upper bound.\<close>

definition max_opt :: "rat option \<Rightarrow> rat option \<Rightarrow> rat option" where
  "max_opt a b = (case (a, b) of (Some x, Some y) \<Rightarrow> Some (max x y) | (None, _) \<Rightarrow> b | _ \<Rightarrow> a)"

definition min_opt :: "rat option \<Rightarrow> rat option \<Rightarrow> rat option" where
  "min_opt a b = (case (a, b) of (Some x, Some y) \<Rightarrow> Some (min x y) | (None, _) \<Rightarrow> b | _ \<Rightarrow> a)"

lemma later_value:
  assumes "window_valid a" "window_valid b"
  shows "map_option ival (later (jget ''not_before'' a) (jget ''not_before'' b)) =
         max_opt (wlo a) (wlo b)"
  by (auto simp: later_def max_opt_def wlo_def ival_def inst.cmp_ge window_bound_ok(1)[OF assms(1)]
      window_bound_ok(1)[OF assms(2)] split: option.splits)

lemma earlier_value:
  assumes "window_valid a" "window_valid b"
  shows "map_option ival (earlier (jget ''not_after'' a) (jget ''not_after'' b)) =
         min_opt (whi a) (whi b)"
  by (auto simp: earlier_def min_opt_def whi_def ival_def inst.cmp_le window_bound_ok(1)[OF assms(1)]
      window_bound_ok(1)[OF assms(2)] split: option.splits)

lemma window_intersect_Some:
  assumes "window_valid a" "window_valid b" "window_intersect a b = Some v"
  shows "window_valid v" "wlo v = max_opt (wlo a) (wlo b)" "whi v = min_opt (whi a) (whi b)"
proof -
  define l where "l = later (jget ''not_before'' a) (jget ''not_before'' b)"
  define h where "h = earlier (jget ''not_after'' a) (jget ''not_after'' b)"
  have v: "v = JObj (opt_member ''not_before'' l @ opt_member ''not_after'' h)" and ni: "\<not> inverted l h"
    using assms(3) by (auto simp: window_intersect_def Let_def l_def h_def split: if_splits)
  show "wlo v = max_opt (wlo a) (wlo b)" "whi v = min_opt (whi a) (whi b)"
    using later_value[OF assms(1,2)] earlier_value[OF assms(1,2)]
    by (simp_all add: v wlo_def[of "JObj _"] whi_def[of "JObj _"] l_def h_def)
  have l: "parse_rfc3339_instant x \<noteq> None" if "l = Some x" for x
    using later_cases[of "jget ''not_before'' a" "jget ''not_before'' b"] that
      window_bound_ok(2)[OF assms(1)] window_bound_ok(2)[OF assms(2)]
    unfolding l_def by metis
  have h: "parse_rfc3339_instant x \<noteq> None" if "h = Some x" for x
    using earlier_cases[of "jget ''not_after'' a" "jget ''not_after'' b"] that
      window_bound_ok(2)[OF assms(1)] window_bound_ok(2)[OF assms(2)]
    unfolding h_def by metis
  have "\<exists>k \<in> set WINDOW_MEMBERS. jget k a \<noteq> None"
    using assms(1) unfolding window_valid_def
    by (cases a; cases "members a") (auto simp: jget_def jkeys_def list_all_iff)
  then have "l \<noteq> None \<or> h \<noteq> None"
    using later_cases[of "jget ''not_before'' a" "jget ''not_before'' b"]
      earlier_cases[of "jget ''not_after'' a" "jget ''not_after'' b"]
    unfolding l_def h_def by (auto simp: WINDOW_MEMBERS_def)
  then have "is_obj v" "jkeys v \<noteq> []" "list_all (\<lambda>k. k \<in> set WINDOW_MEMBERS) (jkeys v)"
    by (auto simp: v jkeys_def opt_member_def WINDOW_MEMBERS_def split: option.splits)
  moreover have "list_all (\<lambda>k. Option.bind (jget k v) parse_rfc3339_instant \<noteq> None) (jkeys v)"
    using l h by (auto simp: v jkeys_def list_all_iff opt_member_def jget_def split: option.splits)
  moreover have "\<not> inverted (jget ''not_before'' v) (jget ''not_after'' v)"
    using ni by (simp add: v)
  ultimately show "window_valid v" by (simp add: window_valid_def)
qed

lemma window_intersect_None:
  assumes "window_valid a" "window_valid b" "window_intersect a b = None"
  shows "\<exists>x y. max_opt (wlo a) (wlo b) = Some x \<and> min_opt (whi a) (whi b) = Some y \<and> y < x"
proof -
  define l where "l = later (jget ''not_before'' a) (jget ''not_before'' b)"
  define h where "h = earlier (jget ''not_after'' a) (jget ''not_after'' b)"
  obtain x y where xy: "l = Some x" "h = Some y" and gt: "compare_instants (to_instant x) (to_instant y) > 0"
    using assms(3) by (auto simp: window_intersect_def Let_def l_def h_def inverted_def
        split: if_splits option.splits)
  have "instant_ok (to_instant x)"
    using later_cases[of "jget ''not_before'' a" "jget ''not_before'' b"] xy(1)
      window_bound_ok(1)[OF assms(1)] window_bound_ok(1)[OF assms(2)]
    unfolding l_def by metis
  moreover have "instant_ok (to_instant y)"
    using earlier_cases[of "jget ''not_after'' a" "jget ''not_after'' b"] xy(2)
      window_bound_ok(1)[OF assms(1)] window_bound_ok(1)[OF assms(2)]
    unfolding h_def by metis
  ultimately have "ival y < ival x" using gt by (simp add: ival_def inst.cmp_gt)
  then show ?thesis
    using later_value[OF assms(1,2)] earlier_value[OF assms(1,2)] xy
    by (intro exI[of _ "ival x"] exI[of _ "ival y"]) (simp add: l_def h_def)
qed

interpretation time_window_laws: constraint_laws TIME_WINDOW
proof (unfold_locales, goal_cases)
  case (1 v)
  then show ?case by (simp add: TIME_WINDOW_def window_no_broader_iff)
next
  case (2 a b c)
  then show ?case by (simp add: TIME_WINDOW_def window_no_broader_iff) (meson order.trans)
next
  case (3 c r f)
  then have w: "window_valid c" "window_valid r" "window_no_broader c r" "window_satisfied c f"
    by (simp_all add: TIME_WINDOW_def)
  then obtain ms where ms: "now f = Some ms" "\<And>x. wlo c = Some x \<Longrightarrow> x \<le> of_int ms / 1000"
      "\<And>x. whi c = Some x \<Longrightarrow> of_int ms / 1000 \<le> x"
    unfolding window_satisfied_iff[OF w(1)] by blast
  note nb = w(3)[unfolded window_no_broader_iff[OF w(1,2)]]
  have "y \<le> of_int ms / 1000" if "wlo r = Some y" for y
  proof -
    from nb that obtain x where "wlo c = Some x" "y \<le> x" by blast
    with ms(2) show ?thesis by (meson order.trans)
  qed
  moreover have "of_int ms / 1000 \<le> y" if "whi r = Some y" for y
  proof -
    from nb that obtain x where "whi c = Some x" "x \<le> y" by blast
    with ms(3) show ?thesis by (meson order.trans)
  qed
  ultimately have "window_satisfied r f" using ms(1) unfolding window_satisfied_iff[OF w(2)] by blast
  then show ?case by (simp add: TIME_WINDOW_def)
next
  case (4 a b v)
  then show ?case
    using window_intersect_Some(1)[of a b v] by (simp add: TIME_WINDOW_def)
next
  case (5 a b v)
  then have w: "window_valid a" "window_valid b" "window_intersect a b = Some v"
    by (simp_all add: TIME_WINDOW_def)
  show ?case
    using w window_intersect_Some[OF w]
    by (auto simp: TIME_WINDOW_def window_no_broader_iff max_opt_def min_opt_def split: option.splits)
next
  case (6 a b f)
  then have w: "window_valid a" "window_valid b" "window_satisfied a f" "window_satisfied b f"
    by (simp_all add: TIME_WINDOW_def)
  show ?case
  proof (cases "window_intersect a b")
    case None
    from window_intersect_None[OF w(1,2) this] w show ?thesis
      by (auto simp: window_satisfied_iff max_opt_def min_opt_def split: option.splits)
  next
    case (Some v)
    with window_intersect_Some[OF w(1,2) this] w show ?thesis
      by (auto simp: TIME_WINDOW_def window_satisfied_iff max_opt_def min_opt_def split: option.splits)
  qed
next
  case (7 v f)
  then show ?case by (simp add: TIME_WINDOW_def)
qed

subsection \<open>The recipient domain\<close>

lemma ends_with_iff: "ends_with s t \<longleftrightarrow> (\<exists>p. s = p @ t)"
  by (auto simp: ends_with_def intro: exI[of _ "take (length s - length t) s"])
    (metis append_take_drop_id)

lemma within_iff:
  "within_domain n d \<longleftrightarrow>
     to_lower n = to_lower d \<or> (\<exists>p. to_lower n = p @ CHR ''.'' # to_lower d)"
  by (auto simp: within_domain_def Let_def ends_with_iff)

lemma within_refl: "within_domain d d"
  by (simp add: within_iff)

lemma within_trans: "within_domain a b \<Longrightarrow> within_domain b c \<Longrightarrow> within_domain a c"
  unfolding within_iff by (elim disjE exE) (metis append.assoc append_Cons)+

lemma label_suffixes:
  assumes "p @ CHR ''.'' # a = q @ CHR ''.'' # (b::string)" "length a < length b"
  shows "\<exists>r. b = r @ CHR ''.'' # a"
proof -
  from assms(1) obtain us where
    "p = q @ us \<and> us @ CHR ''.'' # a = CHR ''.'' # b \<or> p @ us = q \<and> CHR ''.'' # a = us @ CHR ''.'' # b"
    by (auto simp: append_eq_append_conv2)
  then show ?thesis
  proof
    assume u: "p = q @ us \<and> us @ CHR ''.'' # a = CHR ''.'' # b"
    with assms(2) have "us \<noteq> []" by auto
    with u show ?thesis by (cases us) auto
  next
    assume u: "p @ us = q \<and> CHR ''.'' # a = us @ CHR ''.'' # b"
    then have "length (CHR ''.'' # a) = length us + length (CHR ''.'' # b)" by (metis length_append)
    with assms(2) show ?thesis by simp
  qed
qed

lemma within_common:
  assumes "within_domain n a" "within_domain n b"
  shows "within_domain a b \<or> within_domain b a"
proof -
  consider "to_lower n = to_lower a" | "to_lower n = to_lower b"
    | p q where "p @ CHR ''.'' # to_lower a = q @ CHR ''.'' # to_lower b"
    using assms unfolding within_iff by metis
  then show ?thesis
  proof cases
    case 1
    then show ?thesis using assms unfolding within_iff by auto
  next
    case 2
    then show ?thesis using assms unfolding within_iff by auto
  next
    case 3
    consider "length (to_lower a) < length (to_lower b)" | "length (to_lower b) < length (to_lower a)"
      | "length (to_lower a) = length (to_lower b)" by linarith
    then show ?thesis
    proof cases
      case 1
      from label_suffixes[OF 3 1] show ?thesis by (simp add: within_iff)
    next
      case 2
      from label_suffixes[OF 3[symmetric] 2] show ?thesis by (simp add: within_iff)
    next
      case eq: 3
      with 3 show ?thesis by (simp add: within_iff)
    qed
  qed
qed

lemma recipients_within_iff:
  "recipients_within v f \<longleftrightarrow>
     (\<exists>rs. recipients f = Some rs \<and> rs \<noteq> [] \<and>
        (\<forall>r \<in> set rs. \<exists>d. address_domain r = Some d \<and> within_domain d v))"
  by (auto simp: recipients_within_def list_all_iff split: option.splits)

lemma recipients_within_mono:
  "within_domain c r \<Longrightarrow> recipients_within c f \<Longrightarrow> recipients_within r f"
  unfolding recipients_within_iff by (meson within_trans)

interpretation recipient_domain_laws: constraint_laws "RECIPIENT_DOMAIN uc" for uc
proof (unfold_locales, goal_cases)
  case (1 v)
  then show ?case by (simp add: RECIPIENT_DOMAIN_def within_refl)
next
  case (2 a b c)
  then show ?case by (auto simp: RECIPIENT_DOMAIN_def intro: within_trans)
next
  case (3 c r f)
  then show ?case by (auto simp: RECIPIENT_DOMAIN_def intro: recipients_within_mono)
next
  case (4 a b v)
  then show ?case by (auto simp: RECIPIENT_DOMAIN_def split: if_splits)
next
  case (5 a b v)
  then show ?case by (auto simp: RECIPIENT_DOMAIN_def within_refl split: if_splits)
next
  case (6 a b f)
  then have sat: "recipients_within (jstring a) f" "recipients_within (jstring b) f"
    by (simp_all add: RECIPIENT_DOMAIN_def)
  then obtain r d d' rs where "recipients f = Some rs" "r \<in> set rs"
    "address_domain r = Some d" "within_domain d (jstring a)" "within_domain d (jstring b)"
    unfolding recipients_within_iff by (metis last_in_set option.inject)
  then have "within_domain (jstring a) (jstring b) \<or> within_domain (jstring b) (jstring a)"
    by (intro within_common)
  then show ?case using sat by (auto simp: RECIPIENT_DOMAIN_def)
next
  case (7 v f)
  then show ?case by (simp add: RECIPIENT_DOMAIN_def)
qed

section \<open>Whole objects\<close>

lemma semantics_laws: "(k, s) \<in> set (SEMANTICS uc) \<Longrightarrow> constraint_laws s"
  unfolding SEMANTICS_def
  by (auto intro: issued_after.constraint_laws_axioms issued_before.constraint_laws_axioms
      tenant_laws.constraint_laws_axioms time_window_laws.constraint_laws_axioms
      recipient_domain_laws.constraint_laws_axioms data_classification_laws.constraint_laws_axioms
      allowed_tools_laws.constraint_laws_axioms)

lemma semantics_keys: "distinct (map fst (SEMANTICS uc))"
  by (simp add: SEMANTICS_def)

definition holds_on ::
    "(string \<times> semantics) list \<Rightarrow> constraints \<Rightarrow> constraint_facts \<Rightarrow> bool" where
  "holds_on ks c f = (\<forall>(k, s) \<in> set ks. key_satisfied s (cget k c) f)"

lemma run_gates_satisfied: "gates_satisfied (run_gates ks c f acc) = holds_on ks c f"
  by (induction ks c f acc rule: run_gates.induct) (auto simp: holds_on_def key_satisfied_def split: option.splits)

abbreviation constraints_hold :: "unicode \<Rightarrow> constraints \<Rightarrow> constraint_facts \<Rightarrow> bool" where
  "constraints_hold uc c f \<equiv> gates_satisfied (common_constraint_gates uc c f)"

lemma constraints_hold_iff: "constraints_hold uc c f = holds_on (SEMANTICS uc) c f"
  by (simp add: common_constraint_gates_def run_gates_satisfied)

definition constraints_valid :: "unicode \<Rightarrow> constraints \<Rightarrow> bool" where
  "constraints_valid uc c = (\<forall>(k, s) \<in> set (SEMANTICS uc). \<forall>v. cget k c = Some v \<longrightarrow> valid s v)"

lemma no_broader_iff:
  "common_constraints_no_broader uc c r \<longleftrightarrow>
     (\<forall>(k, s) \<in> set (SEMANTICS uc). key_no_broader s (cget k c) (cget k r))"
  by (simp add: common_constraints_no_broader_def list_all_iff)

lemma no_broader_refl:
  assumes "constraints_valid uc c"
  shows "common_constraints_no_broader uc c c"
proof -
  have "key_no_broader s (cget k c) (cget k c)" if k: "(k, s) \<in> set (SEMANTICS uc)" for k s
    by (rule constraint_laws.key_refl[OF semantics_laws[OF k]])
      (use assms k in \<open>auto simp: constraints_valid_def\<close>)
  then show ?thesis unfolding no_broader_iff by blast
qed

lemma no_broader_trans:
  assumes "common_constraints_no_broader uc a b" "common_constraints_no_broader uc b c"
  shows "common_constraints_no_broader uc a c"
proof -
  have "key_no_broader s (cget k a) (cget k c)" if k: "(k, s) \<in> set (SEMANTICS uc)" for k s
    by (rule constraint_laws.key_trans[OF semantics_laws[OF k], of _ "cget k b"])
      (use assms k in \<open>auto simp: no_broader_iff\<close>)
  then show ?thesis unfolding no_broader_iff by blast
qed

lemma no_broader_sound:
  assumes "common_constraints_no_broader uc c r" "constraints_hold uc c f"
  shows "constraints_hold uc r f"
proof -
  have "key_satisfied s (cget k r) f" if k: "(k, s) \<in> set (SEMANTICS uc)" for k s
  proof (rule constraint_laws.key_sound[OF semantics_laws[OF k]])
    show "key_no_broader s (cget k c) (cget k r)" using assms(1) k unfolding no_broader_iff by blast
    show "key_satisfied s (cget k c) f"
      using assms(2) k unfolding constraints_hold_iff holds_on_def by blast
  qed
  then show ?thesis unfolding constraints_hold_iff holds_on_def by blast
qed

subsection \<open>Intersection\<close>

lemma intersect_keys_dom:
  assumes "intersect_keys ks a b = Inr vs"
  shows "set (map fst vs) \<subseteq> set (map fst ks)"
  using assms
proof (induction ks arbitrary: vs)
  case Nil
  then show ?case by simp
next
  case (Cons x ks)
  then obtain v us where us: "intersect_keys ks a b = Inr us" "vs = opt_member (fst x) v @ us"
    by (cases x) (auto split: sum.splits)
  then show ?case using Cons.IH[OF us(1)] by (auto simp: opt_member_def split: option.splits)
qed

lemma cget_cons [simp]:
  "k' \<notin> set (map fst vs) \<Longrightarrow> cget k' (Some (JObj (opt_member k' v @ vs))) = v"
  "k \<noteq> k' \<Longrightarrow> cget k (Some (JObj (opt_member k' v @ vs))) = cget k (Some (JObj vs))"
  by (auto simp: cget_def jget_def opt_member_def map_of_eq_None_iff split: option.splits)

lemma intersect_keys_cons:
  assumes "intersect_keys ((k, s) # ks) a b = Inr ws" "distinct (map fst ((k, s) # ks))"
  obtains v vs where "intersect_key k s (cget k a) (cget k b) = Inr v" "intersect_keys ks a b = Inr vs"
    "cget k (Some (JObj ws)) = v"
    "\<And>k' s'. (k', s') \<in> set ks \<Longrightarrow> cget k' (Some (JObj ws)) = cget k' (Some (JObj vs))"
proof -
  from assms(1) obtain v vs where vs: "intersect_key k s (cget k a) (cget k b) = Inr v"
      "intersect_keys ks a b = Inr vs" "ws = opt_member k v @ vs"
    by (auto split: sum.splits)
  moreover have "k \<notin> set (map fst vs)" using intersect_keys_dom[OF vs(2)] assms(2) by auto
  moreover have "cget k' (Some (JObj ws)) = cget k' (Some (JObj vs))" if "(k', s') \<in> set ks" for k' s'
  proof -
    have "k' \<noteq> k" using that assms(2) by force
    then show ?thesis by (simp add: vs(3))
  qed
  ultimately show thesis by (intro that[OF vs(1,2)]) (simp_all add: vs(3))
qed

lemma holds_on_Cons: "holds_on ((k, s) # ks) c f \<longleftrightarrow> key_satisfied s (cget k c) f \<and> holds_on ks c f"
  by (auto simp: holds_on_def)

lemma intersect_keys_exact:
  assumes "distinct (map fst ks)" "\<forall>x \<in> set ks. constraint_laws (snd x)"
  shows "(case intersect_keys ks a b of Inl _ \<Rightarrow> False | Inr vs \<Rightarrow> holds_on ks (Some (JObj vs)) f) \<longleftrightarrow>
         holds_on ks a f \<and> holds_on ks b f"
  using assms
proof (induction ks)
  case Nil
  then show ?case by (simp add: holds_on_def)
next
  case (Cons x ks)
  obtain k s where x: "x = (k, s)" by (cases x)
  have ex: "(case intersect_key k s (cget k a) (cget k b) of Inl _ \<Rightarrow> False | Inr v \<Rightarrow> key_satisfied s v f) \<longleftrightarrow>
      key_satisfied s (cget k a) f \<and> key_satisfied s (cget k b) f"
    by (rule constraint_laws.intersect_key_exact) (use Cons.prems(2) in \<open>simp add: x\<close>)
  have ih: "(case intersect_keys ks a b of Inl _ \<Rightarrow> False | Inr vs \<Rightarrow> holds_on ks (Some (JObj vs)) f) \<longleftrightarrow>
      holds_on ks a f \<and> holds_on ks b f"
    using Cons by simp
  show ?case
  proof (cases "intersect_keys (x # ks) a b")
    case (Inl e)
    then show ?thesis using ex ih by (auto simp: x holds_on_Cons split: sum.splits)
  next
    case (Inr ws)
    from intersect_keys_cons[of k s ks a b ws] Inr Cons.prems(1) obtain v vs where
      v: "intersect_key k s (cget k a) (cget k b) = Inr v" "intersect_keys ks a b = Inr vs"
      "cget k (Some (JObj ws)) = v"
      "\<And>k' s'. (k', s') \<in> set ks \<Longrightarrow> cget k' (Some (JObj ws)) = cget k' (Some (JObj vs))"
      unfolding x by blast
    have "holds_on ks (Some (JObj ws)) f = holds_on ks (Some (JObj vs)) f"
      using v(4) by (fastforce simp: holds_on_def)
    then show ?thesis using Inr ex ih v(1-3) by (auto simp: x holds_on_Cons simp del: intersect_keys.simps)
  qed
qed

lemma intersect_keys_lower:
  assumes "intersect_keys ks a b = Inr ws" "distinct (map fst ks)"
    and "\<forall>x \<in> set ks. constraint_laws (snd x)"
  shows "\<forall>(k, s) \<in> set ks. key_no_broader s (cget k (Some (JObj ws))) (cget k a) \<and>
                           key_no_broader s (cget k (Some (JObj ws))) (cget k b)"
  using assms
proof (induction ks arbitrary: ws)
  case Nil
  then show ?case by simp
next
  case (Cons x ks)
  obtain k s where x: "x = (k, s)" by (cases x)
  from intersect_keys_cons[of k s ks a b ws] Cons.prems(1,2) obtain v vs where
    v: "intersect_key k s (cget k a) (cget k b) = Inr v" "intersect_keys ks a b = Inr vs"
    "cget k (Some (JObj ws)) = v"
    "\<And>k' s'. (k', s') \<in> set ks \<Longrightarrow> cget k' (Some (JObj ws)) = cget k' (Some (JObj vs))"
    unfolding x by blast
  have "key_no_broader s v (cget k a) \<and> key_no_broader s v (cget k b)"
    by (rule constraint_laws.intersect_key_lower[OF _ v(1)]) (use Cons.prems(3) in \<open>simp add: x\<close>)
  moreover have "\<forall>(k, s) \<in> set ks. key_no_broader s (cget k (Some (JObj vs))) (cget k a) \<and>
      key_no_broader s (cget k (Some (JObj vs))) (cget k b)"
    using Cons.IH[OF v(2)] Cons.prems(2,3) by simp
  ultimately show ?case using v(3,4) by (fastforce simp: x)
qed

lemma cget_values: "cget k (Some (JObj vs)) = map_of vs k"
  by (simp add: cget_def jget_def)

lemma issuance_window:
  assumes "holds_on (SEMANTICS uc) (Some (JObj vs)) f"
    and "map_of vs ''resource_issued_after'' = Some a" "map_of vs ''resource_issued_before'' = Some b"
  shows "\<not> compare_instants (to_instant a) (to_instant b) > 0"
proof -
  have "key_satisfied RESOURCE_ISSUED_AFTER (Some a) f" "key_satisfied RESOURCE_ISSUED_BEFORE (Some b) f"
    using assms by (auto simp: holds_on_def SEMANTICS_def cget_values)
  moreover from calculation obtain i where i: "issued_instant f = Some i"
    by (auto simp: key_satisfied_def RESOURCE_ISSUED_AFTER_def split: option.splits)
  ultimately have "instant_ok i" "instant_ok (to_instant a)" "instant_ok (to_instant b)"
      "compare_instants i (to_instant a) \<ge> 0" "compare_instants i (to_instant b) \<le> 0"
    by (auto simp: key_satisfied_def RESOURCE_ISSUED_AFTER_def RESOURCE_ISSUED_BEFORE_def
        to_instant_ok issued_instant_ok)
  then show ?thesis by (auto simp: inst.cmp_ge inst.cmp_le inst.cmp_gt)
qed

lemma semantics_laws_all: "\<forall>x \<in> set (SEMANTICS uc). constraint_laws (snd x)"
  using semantics_laws by (metis prod.collapse)

lemma intersect_exact:
  "(case intersect_common_constraints uc a b of Inl _ \<Rightarrow> False | Inr v \<Rightarrow> constraints_hold uc (Some v) f) \<longleftrightarrow>
   constraints_hold uc a f \<and> constraints_hold uc b f"
  using intersect_keys_exact[OF semantics_keys[of uc] semantics_laws_all[of uc],
      where a = a and b = b and f = f]
    issuance_window[of uc _ f]
  unfolding intersect_common_constraints_def constraints_hold_iff
  by (auto split: sum.splits option.splits if_splits)

lemma intersect_lower:
  "intersect_common_constraints uc a b = Inr v \<Longrightarrow>
   common_constraints_no_broader uc (Some v) a \<and> common_constraints_no_broader uc (Some v) b"
  using intersect_keys_lower[of "SEMANTICS uc" a b, OF _ semantics_keys semantics_laws_all]
  unfolding intersect_common_constraints_def no_broader_iff
  by (auto split: sum.splits option.splits if_splits)

subsection \<open>Collections and the window's end\<close>

lemma gates_each_satisfied:
  "gates_satisfied (gates_each uc c sh ms acc) \<longleftrightarrow>
     (\<forall>m \<in> set ms. constraints_hold uc c (merge_facts sh m))"
  by (induction uc c sh ms acc rule: gates_each.induct) (auto simp: Let_def)

lemma window_end:
  assumes "cget ''time_window'' c = Some w" "window_valid w" "jget ''not_after'' w = Some n"
    and "instant_value (instant_from_ms ms) \<le> ival n"
  shows "time_window_end_ms c = Some (\<lfloor>ival n * 1000\<rfloor>) \<and> ms \<le> \<lfloor>ival n * 1000\<rfloor>"
proof -
  have "instant_ok (to_instant n)" using window_bound_ok(1)[OF assms(2,3)] .
  then show ?thesis
    using assms by (simp add: time_window_end_ms_def instant_floor_ms_value ival_def
        instant_from_ms_value le_floor_iff field_simps)
qed

section \<open>Properties\<close>

text \<open>
  C30. The subset test on common constraints is a sound preorder: it is reflexive on
  well-formed objects, it is transitive, so narrowing along a delegation chain never
  widens, and whenever a candidate passes it every operation the candidate admits is
  admitted by the reference, for every combination of the resource's own facts.
\<close>

theorem common_constraints_subset_sound:
  "(constraints_valid uc c \<longrightarrow> common_constraints_no_broader uc c c) \<and>
   (common_constraints_no_broader uc c r \<and> common_constraints_no_broader uc r q \<longrightarrow>
      common_constraints_no_broader uc c q) \<and>
   (common_constraints_no_broader uc c r \<and> gates_satisfied (common_constraint_gates uc c f) \<longrightarrow>
      gates_satisfied (common_constraint_gates uc r f))"
  using no_broader_refl no_broader_trans no_broader_sound by blast

definition plain_unicode :: unicode where
  "plain_unicode = \<lparr>is_nfc = \<lambda>_. True, lower_cps = \<lambda>cs. cs, starts_with_mark = \<lambda>_. False\<rparr>"

theorem common_constraints_subset_sound_witness:
  "let narrow = Some (JObj [(''allowed_tools'', jstrs [''a'']), (''tenant'', JStr ''t'')]);
       wide = Some (JObj [(''allowed_tools'', jstrs [''a'', ''b''])]);
       f = no_facts\<lparr>tool := Some ''a'', tenant := Some ''t''\<rparr>
   in common_constraints_no_broader plain_unicode narrow wide \<and>
      \<not> common_constraints_no_broader plain_unicode wide narrow \<and>
      gates_satisfied (common_constraint_gates plain_unicode narrow f) \<and>
      gates_satisfied (common_constraint_gates plain_unicode wide f)"
proof -
  let ?narrow = "Some (JObj [(''allowed_tools'', jstrs [''a'']), (''tenant'', JStr ''t'')])"
  let ?wide = "Some (JObj [(''allowed_tools'', jstrs [''a'', ''b''])])"
  let ?f = "no_facts\<lparr>tool := Some ''a'', tenant := Some ''t''\<rparr>"
  have 1: "common_constraints_no_broader plain_unicode ?narrow ?wide"
    and 2: "\<not> common_constraints_no_broader plain_unicode ?wide ?narrow"
    and 3: "gates_satisfied (common_constraint_gates plain_unicode ?narrow ?f)"
    by code_simp+
  show ?thesis unfolding Let_def
    using common_constraints_subset_sound[of plain_unicode ?narrow ?wide ?wide ?f] 1 2 3 by blast
qed

text \<open>
  C31. The intersection of two constraint objects is exact: a combination that
  succeeds is no broader than either operand and admits precisely the facts both
  admit, and a combination that is refused loses nothing, because no facts satisfy
  both operands.
\<close>

theorem intersect_common_constraints_exact:
  "case intersect_common_constraints uc a b of
     Inr v \<Rightarrow>
       common_constraints_no_broader uc (Some v) a \<and> common_constraints_no_broader uc (Some v) b \<and>
       gates_satisfied (common_constraint_gates uc (Some v) f) =
         (gates_satisfied (common_constraint_gates uc a f) \<and>
          gates_satisfied (common_constraint_gates uc b f))
   | Inl _ \<Rightarrow>
       \<not> (gates_satisfied (common_constraint_gates uc a f) \<and>
          gates_satisfied (common_constraint_gates uc b f))"
  using intersect_exact[where uc = uc and a = a and b = b and f = f]
    intersect_lower[of uc a b] by (auto split: sum.splits)

text \<open>
  An operation over a collection is admitted only when every member passes: with
  members given, the verdict is that of each member's own facts merged over the
  shared ones, and a fact of the single resource is never read in their place.
\<close>

theorem gates_over_members:
  "gates_satisfied (common_constraint_gates_over_members uc c f (Some ms)) =
     (if ms = [] then gates_satisfied (common_constraint_gates uc c (shared_facts f))
      else list_all (\<lambda>m. gates_satisfied (common_constraint_gates uc c (merge_facts (shared_facts f) m))) ms) \<and>
   common_constraint_gates_over_members uc c f (Some ms) =
     common_constraint_gates_over_members uc c
       (f\<lparr>resource_issued_at := i, tenant := t, data_classification := d\<rparr>) (Some ms)"
proof -
  have "shared_facts (f\<lparr>resource_issued_at := i, tenant := t, data_classification := d\<rparr>) = shared_facts f"
    by (simp add: shared_facts_def)
  then show ?thesis
    by (cases ms) (auto simp: common_constraint_gates_over_members_def gates_each_satisfied
        list_all_iff simp del: gates_each.simps)
qed

text \<open>
  A permit bounded by the window's end stays inside the window: whenever a
  constraint object with an upper bound is satisfied at a clock reading, the
  millisecond end computed for it exists, is not before that reading, and is not
  after the bound itself.
\<close>

theorem time_window_end_covers:
  assumes "gates_satisfied (common_constraint_gates uc c f)" "now f = Some ms"
    and "cget ''time_window'' c = Some w" "jget ''not_after'' w = Some n"
  shows "\<exists>e. time_window_end_ms c = Some e \<and> ms \<le> e \<and>
             of_int e / 1000 \<le> instant_value (to_instant n)"
proof -
  have "key_satisfied TIME_WINDOW (Some w) f"
    using assms(1,3) unfolding constraints_hold_iff by (auto simp: holds_on_def SEMANTICS_def)
  then have w: "window_valid w" "window_satisfied w f"
    by (simp_all add: key_satisfied_def TIME_WINDOW_def)
  then have "instant_value (instant_from_ms ms) \<le> ival n"
    using assms(2,4) by (auto simp: window_satisfied_iff whi_def instant_from_ms_value)
  from window_end[OF assms(3) w(1) assms(4) this] show ?thesis
    using of_int_floor_le[of "ival n * 1000"] by (simp add: ival_def field_simps)
qed

theorem time_window_end_covers_witness:
  "time_window_end_ms (Some (JObj [(''time_window'',
     JObj [(''not_after'', JStr ''1970-01-01T00:00:01.5009Z'')])])) = Some 1500"
proof -
  let ?n = "JStr ''1970-01-01T00:00:01.5009Z''"
  let ?w = "JObj [(''not_after'', ?n)]"
  let ?c = "Some (JObj [(''time_window'', ?w)])"
  have "gates_satisfied (common_constraint_gates plain_unicode ?c (no_facts\<lparr>now := Some 1499\<rparr>))"
    by code_simp
  then have "\<exists>e. time_window_end_ms ?c = Some e \<and> 1499 \<le> e \<and> of_int e / 1000 \<le> instant_value (to_instant ?n)"
    by (rule time_window_end_covers[where w = ?w]) code_simp+
  moreover have "time_window_end_ms ?c = Some 1500" by code_simp
  ultimately show ?thesis by simp
qed

end
