(* ===== verification/Mission_Types.thy ===== *)
theory Mission_Types
  imports Rfc3339_Instant
begin

text \<open>
  The kernel's data, \<^verbatim>\<open>services/authorization-server/src/kernel/types.ts\<close>: the
  lifecycle states, the termination, the suspension schedule, the containment
  overlay, the Mission record and the lifecycle commit.

  The record holds the members the lifecycle, derivation and containment
  operations read or write; the approval-time content members (intent, anchors,
  basis, provenance), which no operation here reads, are left out.  An entry of the
  authority set is its JSON object.  A time is the ISO text the code stores;
  \<open>iso_text\<close> and \<open>date_parse\<close> are \<open>Date.toISOString\<close> and \<open>Date.parse\<close> on the forms
  the code writes, over integer milliseconds.
\<close>

section \<open>Time\<close>

definition pad_start0 :: "nat \<Rightarrow> string \<Rightarrow> string" where
  "pad_start0 n s = replicate (n - length s) CHR ''0'' @ s"

text \<open>The civil date of a day number counted from 1970-01-01.\<close>

definition civil_date :: "int \<Rightarrow> int \<times> int \<times> int" where
  "civil_date days =
     (let z = days + 719468;
          era = z div 146097;
          doe = z mod 146097;
          yoe = (doe - doe div 1460 + doe div 36524 - doe div 146096) div 365;
          doy = doe - (365 * yoe + yoe div 4 - yoe div 100);
          mp = (5 * doy + 2) div 153;
          d = doy - (153 * mp + 2) div 5 + 1;
          m = (if mp < 10 then mp + 3 else mp - 9);
          y = yoe + era * 400 + (if m \<le> 2 then 1 else 0)
      in (y, m, d))"

definition iso_text :: "int \<Rightarrow> string" where
  "iso_text ms =
     (let days = ms div 86400000; r = ms mod 86400000;
          (y, m, d) = civil_date days;
          p = (\<lambda>n i. pad_start0 n (nat_text (nat i)))
      in p 4 y @ ''-'' @ p 2 m @ ''-'' @ p 2 d @ ''T'' @ p 2 (r div 3600000) @ '':'' @
         p 2 (r div 60000 mod 60) @ '':'' @ p 2 (r div 1000 mod 60) @ ''.'' @ p 3 (r mod 1000) @ ''Z'')"

definition date_parse :: "string \<Rightarrow> int option" where
  "date_parse s = map_option instant_floor_ms (parse_rfc3339_instant (JStr s))"

text \<open>\<open>Date.parse(s) <= nowMs\<close>: a text that is no date compares false.\<close>

definition due_by :: "string \<Rightarrow> int \<Rightarrow> bool" where
  "due_by s now_ms = (case date_parse s of None \<Rightarrow> False | Some t \<Rightarrow> t \<le> now_ms)"

section \<open>The lifecycle\<close>

datatype mission_state = Active | Suspended | Terminated

definition state_text :: "mission_state \<Rightarrow> string" where
  "state_text s = (case s of Active \<Rightarrow> ''active'' | Suspended \<Rightarrow> ''suspended''
                   | Terminated \<Rightarrow> ''terminated'')"

record mission_termination =
  t_reason :: string
  t_terminated_at :: "string option"
  t_version :: "int option"
  t_successor :: "string option"
  t_parent :: "string option"
  t_origin :: "string option"
  t_origin_reason :: "string option"
  t_carried_to :: "string option"

definition bare_termination :: "string \<Rightarrow> mission_termination" where
  "bare_termination reason =
     \<lparr>t_reason = reason, t_terminated_at = None, t_version = None, t_successor = None,
      t_parent = None, t_origin = None, t_origin_reason = None, t_carried_to = None\<rparr>"

datatype lifecycle_operation = Revoke | Suspend | Resume | Complete

datatype on_expiry = OnResume | OnRevoke

record schedule_request =
  suspend_until :: string
  on_expiry :: on_expiry
  committing_party :: string

record suspension_schedule = schedule_request +
  generation :: int

record transition_rule =
  rule_from :: "mission_state list"
  rule_to :: mission_state
  rule_reason :: "string option"

definition LEGAL_TRANSITIONS :: "lifecycle_operation \<Rightarrow> transition_rule" where
  "LEGAL_TRANSITIONS op =
     (case op of
        Revoke \<Rightarrow> \<lparr>rule_from = [Active, Suspended], rule_to = Terminated, rule_reason = Some ''revoked''\<rparr>
      | Suspend \<Rightarrow> \<lparr>rule_from = [Active], rule_to = Suspended, rule_reason = None\<rparr>
      | Resume \<Rightarrow> \<lparr>rule_from = [Suspended], rule_to = Active, rule_reason = None\<rparr>
      | Complete \<Rightarrow> \<lparr>rule_from = [Active, Suspended], rule_to = Terminated, rule_reason = Some ''completed''\<rparr>)"

definition TERMINATION_REASONS :: "string list" where
  "TERMINATION_REASONS =
     [''revoked'', ''expired'', ''completed'', ''superseded'', ''parent_terminated'']"

definition COMMIT_IS_EFFECT_REASONS :: "string list" where
  "COMMIT_IS_EFFECT_REASONS = [''revoked'', ''completed'', ''superseded'']"

section \<open>Containment\<close>

datatype resource_match = Exact | Prefix

record containment_selector =
  sel_resource :: string
  sel_match :: resource_match
  sel_actions :: "string list option"

record containment_event =
  ev_type :: string
  ev_source :: string
  ev_observed_at :: string
  ev_id :: string
  ev_removed :: "containment_selector list"

record mission_containment =
  containment_version :: int
  contained :: "containment_selector list"
  containment_events :: "containment_event list"

section \<open>The record and the commit\<close>

record mission =
  m_id :: string
  m_issuer :: string
  m_state :: mission_state
  m_termination :: "mission_termination option"
  m_authority_set :: "json list"
  m_client_id :: string
  m_created_at :: string
  m_expires_at :: string
  m_version :: int
  m_derivation_limit :: "int option"
  m_derivation_count :: int
  m_grant_id :: "string option"
  m_predecessor :: "string option"
  m_parent :: "string option"
  m_projected_from :: "mission_state option"
  m_schedule :: "suspension_schedule option"
  m_containment :: "mission_containment option"
  m_discharged :: "string list"

record commit =
  c_id :: string
  c_issuer :: string
  c_prior_state :: "mission_state option"
  c_state :: mission_state
  c_termination :: "mission_termination option"
  c_version :: int
  c_committed_at :: string
  c_expires_at :: string
  c_event_id :: string
  c_authority_changed :: bool
  c_containment_version :: "int option"
  c_schedule :: "schedule_request option"
  c_applied_schedule :: "(int \<times> string) option"
  c_created_at :: "string option"
  c_client_id :: "string option"

definition is_activating_commit :: "commit \<Rightarrow> bool" where
  "is_activating_commit c =
     (c_version c = 1 \<and> c_prior_state c = None \<and> c_state c = Active \<and>
      c_created_at c \<noteq> None \<and> c_client_id c \<noteq> None)"

end
