(* ===== verification/Termination.thy ===== *)
theory Termination
  imports Mission_Types
begin

text \<open>
  The pure lifecycle views, \<^verbatim>\<open>services/authorization-server/src/kernel/termination.ts\<close>:
  reading a stored or received \<open>termination\<close>, the fail-closed normalization of a
  stored row, the expiry observation, the termination a cascade gives a child, and
  the normalization of a commit stored before the termination vocabulary.

  \<open>JSON.parse\<close> of a stored text is the parameter \<open>json_parse\<close>.
\<close>

definition LEGACY_TERMINAL_REASONS :: "(string \<times> string) list" where
  "LEGACY_TERMINAL_REASONS =
     [(''revoked'', ''revoked''), (''expired'', ''expired''), (''completed'', ''completed''),
      (''superseded'', ''superseded''), (''cascaded'', ''parent_terminated'')]"

definition UNKNOWN_TERMINATION_REASON :: string where
  "UNKNOWN_TERMINATION_REASON = ''unknown''"

text \<open>A member kept only when it is a non-empty string.\<close>

fun text_member :: "json option \<Rightarrow> string option" where
  "text_member (Some (JStr s)) = (if s = [] then None else Some s)"
| "text_member _ = None"

text \<open>\<open>Number.isSafeInteger(v) && v >= low\<close>.\<close>

fun version_member :: "int \<Rightarrow> json option \<Rightarrow> int option" where
  "version_member low (Some (JNum r)) =
     (if is_int_num r \<and> \<bar>\<lfloor>r\<rfloor>\<bar> \<le> 9007199254740991 \<and> \<lfloor>r\<rfloor> \<ge> low then Some \<lfloor>r\<rfloor> else None)"
| "version_member low _ = None"

text \<open>The members of a \<open>termination\<close> object; the version bound is the only difference
  between the stored reader and the receiver of \<^verbatim>\<open>mission-core/src/binding.ts\<close>.\<close>

definition read_termination :: "int \<Rightarrow> json \<Rightarrow> mission_termination option" where
  "read_termination low v =
     (if \<not> is_obj v then None
      else case text_member (jget ''reason'' v) of
        None \<Rightarrow> None
      | Some reason \<Rightarrow> Some
          \<lparr>t_reason = reason,
           t_terminated_at = text_member (jget ''terminated_at'' v),
           t_version = version_member low (jget ''version'' v),
           t_successor = text_member (jget ''successor'' v),
           t_parent = text_member (jget ''parent'' v),
           t_origin = text_member (jget ''origin'' v),
           t_origin_reason = text_member (jget ''origin_reason'' v),
           t_carried_to = text_member (jget ''carried_to'' v)\<rparr>)"

definition read_mission_termination :: "json \<Rightarrow> mission_termination option" where
  "read_mission_termination v = read_termination 0 v"

definition parse_termination :: "(string \<Rightarrow> json option) \<Rightarrow> json \<Rightarrow> mission_termination option" where
  "parse_termination json_parse value =
     (case value of
        JStr s \<Rightarrow> (case json_parse s of None \<Rightarrow> None | Some v \<Rightarrow> read_termination 1 v)
      | v \<Rightarrow> read_termination 1 v)"

section \<open>Stored rows\<close>

record stored_row =
  s_state :: json
  s_termination :: "json option"
  s_successor :: "json option"
  s_carried_to :: "json option"
  s_parent_id :: "json option"
  s_version :: "json option"
  s_expires_at :: "json option"
  s_committed_at :: "json option"

definition stored_state :: "json \<Rightarrow> mission_state option" where
  "stored_state v =
     (if v = JStr ''active'' then Some Active
      else if v = JStr ''suspended'' then Some Suspended
      else if v = JStr ''terminated'' then Some Terminated else None)"

definition legacy_termination :: "stored_row \<Rightarrow> string \<Rightarrow> mission_termination" where
  "legacy_termination row legacy =
     (bare_termination legacy)
       \<lparr>t_successor := (if legacy = ''superseded'' then text_member (s_successor row) else None),
        t_parent := (if legacy = ''parent_terminated'' then text_member (s_parent_id row) else None),
        t_carried_to := (if legacy = ''parent_terminated'' then text_member (s_carried_to row) else None),
        t_version := version_member 1 (s_version row),
        t_terminated_at :=
          (if legacy = ''expired'' then text_member (s_expires_at row)
           else if legacy \<in> set COMMIT_IS_EFFECT_REASONS then text_member (s_committed_at row)
           else None)\<rparr>"

definition normalize_stored_lifecycle ::
    "(string \<Rightarrow> json option) \<Rightarrow> stored_row \<Rightarrow> mission_state \<times> mission_termination option" where
  "normalize_stored_lifecycle json_parse row =
     (let stored = (if s_termination row = Some JNull then None else s_termination row);
          st = stored_state (s_state row)
      in if (st = Some Active \<or> st = Some Suspended) \<and> stored = None then (the st, None)
         else if st \<noteq> None then
           (Terminated, Some (case Option.bind stored (parse_termination json_parse) of
              Some t \<Rightarrow> t | None \<Rightarrow> bare_termination UNKNOWN_TERMINATION_REASON))
         else case text_member (Some (s_state row)) of
           None \<Rightarrow> (Terminated, Some (bare_termination UNKNOWN_TERMINATION_REASON))
         | Some s \<Rightarrow>
             (case map_of LEGACY_TERMINAL_REASONS s of
                None \<Rightarrow> (Terminated, Some (bare_termination s))
              | Some legacy \<Rightarrow> (Terminated, Some (legacy_termination row legacy))))"

section \<open>Observation\<close>

definition observe_expiry :: "mission \<Rightarrow> int \<Rightarrow> mission" where
  "observe_expiry r now_ms =
     (if (m_state r = Active \<or> m_state r = Suspended) \<and> due_by (m_expires_at r) now_ms
      then r\<lparr>m_state := Terminated,
             m_termination := Some ((bare_termination ''expired'')
               \<lparr>t_terminated_at := Some (m_expires_at r)\<rparr>)\<rparr>
      else r)"

fun non_empty :: "string option \<Rightarrow> string option" where
  "non_empty (Some s) = (if s = [] then None else Some s)"
| "non_empty None = None"

definition parent_terminated_termination :: "mission \<Rightarrow> mission_termination" where
  "parent_terminated_termination parent =
     (let pt = m_termination parent;
          inherited = (map_option t_reason pt = Some ''parent_terminated'')
      in (bare_termination ''parent_terminated'')
           \<lparr>t_terminated_at := non_empty (Option.bind pt t_terminated_at),
            t_parent := Some (m_id parent),
            t_origin := non_empty (if inherited then Option.bind pt t_origin else Some (m_id parent)),
            t_origin_reason :=
              non_empty (if inherited then Option.bind pt t_origin_reason else map_option t_reason pt)\<rparr>)"

section \<open>Stored commits\<close>

text \<open>A persisted commit as read back: its state is whatever text was stored, and a
  commit of the old vocabulary carries two top-level references.\<close>

record stored_commit =
  sc_state :: json
  sc_successor :: "json option"
  sc_carried_to :: "json option"
  sc_rest :: commit

definition normalize_legacy_commit :: "(string \<Rightarrow> json option) \<Rightarrow> stored_commit \<Rightarrow> commit" where
  "normalize_legacy_commit json_parse raw =
     (let rest = sc_rest raw
      in case stored_state (sc_state raw) of
        Some st \<Rightarrow> rest\<lparr>c_state := st\<rparr>
      | None \<Rightarrow>
          (let (st, tm) = normalize_stored_lifecycle json_parse
             \<lparr>s_state = sc_state raw, s_termination = None, s_successor = sc_successor raw,
              s_carried_to = sc_carried_to raw, s_parent_id = None,
              s_version = Some (JNum (of_int (c_version rest))),
              s_expires_at = Some (JStr (c_expires_at rest)),
              s_committed_at = Some (JStr (c_committed_at rest))\<rparr>
           in rest\<lparr>c_state := st,
                   c_termination := (case tm of Some t \<Rightarrow> Some t | None \<Rightarrow> c_termination rest)\<rparr>))"

section \<open>Lemmas\<close>

lemma normalize_terminated_iff:
  "normalize_stored_lifecycle jp row = (st, tm) \<Longrightarrow> (st = Terminated) = (tm \<noteq> None)"
  by (auto simp: normalize_stored_lifecycle_def Let_def dest: sym split: if_splits option.splits)

lemma normalize_live:
  "normalize_stored_lifecycle jp row = (st, tm) \<Longrightarrow> st \<noteq> Terminated \<Longrightarrow>
   s_state row = JStr (state_text st) \<and> (s_termination row = None \<or> s_termination row = Some JNull)"
  by (auto simp: normalize_stored_lifecycle_def Let_def state_text_def stored_state_def
      split: if_splits option.splits)

lemma normalize_stored_live:
  "s_state row = JStr (state_text st) \<Longrightarrow> st \<noteq> Terminated \<Longrightarrow>
   s_termination row = None \<or> s_termination row = Some JNull \<Longrightarrow>
   normalize_stored_lifecycle jp row = (st, None)"
  by (cases st) (auto simp: normalize_stored_lifecycle_def Let_def state_text_def stored_state_def)

lemma observe_expiry_terminated [simp]: "m_state r = Terminated \<Longrightarrow> observe_expiry r n = r"
  by (simp add: observe_expiry_def)

lemma observe_expiry_idem [simp]: "observe_expiry (observe_expiry r n) n = observe_expiry r n"
  by (simp add: observe_expiry_def)

lemma observe_expiry_state: "m_state (observe_expiry r n) = m_state r \<or> m_state (observe_expiry r n) = Terminated"
  by (simp add: observe_expiry_def)

lemma observe_expiry_id [simp]: "m_id (observe_expiry r n) = m_id r"
  by (simp add: observe_expiry_def)

lemma due_mono: "due_by s n \<Longrightarrow> n \<le> n' \<Longrightarrow> due_by s n'"
  by (auto simp: due_by_def split: option.splits)

lemma observe_expiry_mono:
  "m_state (observe_expiry r n) = Terminated \<Longrightarrow> n \<le> n' \<Longrightarrow> observe_expiry r n' = observe_expiry r n"
  by (cases "m_state r") (auto simp: observe_expiry_def due_mono split: if_splits)

section \<open>Properties\<close>

text \<open>
  C39. Reading a stored row fails closed: it reads as \<open>active\<close> or \<open>suspended\<close> only when
  exactly that state is stored and no termination is, everything else reads as
  terminated, and a row reads as terminated precisely when it reads with a
  termination.
\<close>

theorem stored_lifecycle_fail_closed:
  "case normalize_stored_lifecycle jp row of (st, tm) \<Rightarrow>
     (st = Terminated) = (tm \<noteq> None) \<and>
     (st = Active) = (s_state row = JStr ''active'' \<and> s_termination row \<in> {None, Some JNull}) \<and>
     (st = Suspended) = (s_state row = JStr ''suspended'' \<and> s_termination row \<in> {None, Some JNull})"
proof -
  obtain st tm where n: "normalize_stored_lifecycle jp row = (st, tm)" by fastforce
  have live: "s_state row = JStr (state_text st) \<and> s_termination row \<in> {None, Some JNull}"
    if "st \<noteq> Terminated" using normalize_live[OF n that] by auto
  have "normalize_stored_lifecycle jp row = (s, None)"
    if "s_state row = JStr (state_text s)" "s_termination row \<in> {None, Some JNull}" "s \<noteq> Terminated" for s
    using normalize_stored_live[OF that(1,3)] that(2) by blast
  then show ?thesis
    using n live normalize_terminated_iff[OF n] by (cases st) (force simp: state_text_def)+
qed

end
