(* ===== verification/Tombstones.thy ===== *)
theory Tombstones
  imports Termination
begin

text \<open>
  The terminal-state tombstones,
  \<^verbatim>\<open>services/authorization-server/src/kernel/tombstones.ts\<close>: the table, the
  composed retention horizon, the first-write-wins insert, the lookups and the
  pruning of details past the horizon.  A transition time is a text the kernel's own
  clock wrote, so \<open>Date.parse\<close> reads it; a text that is no date would store no row.
\<close>

record tombstone_row =
  tb_issuer :: string
  tb_mission_id :: string
  tb_terminal_state :: "string option"
  tb_final_version :: "int option"
  tb_transition_at :: "string option"
  tb_commit_event_id :: "string option"
  tb_detail_expires_at :: int
  tb_detail_pruned :: bool
  tb_termination_reason :: "string option"
  tb_termination :: "mission_termination option"

type_synonym tombstones = "tombstone_row table"

definition tb_key :: "tombstone_row \<Rightarrow> string \<times> string" where
  "tb_key r = (tb_issuer r, tb_mission_id r)"

record retention_inputs =
  credential_artifact_lifetime_seconds :: int
  state_staleness_seconds :: int
  clock_skew_seconds :: int
  idempotency_retry_seconds :: int
  child_cascade_seconds :: int
  audit_retention_seconds :: int

datatype retention_error = NegativeHorizon string

definition horizon_entries :: "retention_inputs \<Rightarrow> (string \<times> int) list" where
  "horizon_entries i =
     [(''credential_artifact_lifetime_seconds'', credential_artifact_lifetime_seconds i),
      (''state_staleness_seconds'', state_staleness_seconds i),
      (''clock_skew_seconds'', clock_skew_seconds i),
      (''idempotency_retry_seconds'', idempotency_retry_seconds i),
      (''child_cascade_seconds'', child_cascade_seconds i),
      (''audit_retention_seconds'', audit_retention_seconds i)]"

definition compose_tombstone_retention_seconds :: "retention_inputs \<Rightarrow> retention_error + int" where
  "compose_tombstone_retention_seconds i =
     (case List.find (\<lambda>(k, v). v < 0) (horizon_entries i) of
        Some (k, v) \<Rightarrow> Inl (NegativeHorizon k)
      | None \<Rightarrow> Inr (foldl max (credential_artifact_lifetime_seconds i)
          [state_staleness_seconds i + clock_skew_seconds i,
           idempotency_retry_seconds i, child_cascade_seconds i, audit_retention_seconds i]))"

record tombstone_input =
  ti_issuer :: string
  ti_mission_id :: string
  ti_terminal_state :: mission_state
  ti_reason :: "string option"
  ti_termination :: "mission_termination option"
  ti_final_version :: int
  ti_transition_at :: string
  ti_commit_event_id :: string

definition tombstone_of :: "int \<Rightarrow> tombstone_input \<Rightarrow> tombstone_row option" where
  "tombstone_of retention_seconds i =
     map_option (\<lambda>ms. \<lparr>tb_issuer = ti_issuer i, tb_mission_id = ti_mission_id i,
        tb_terminal_state = Some (state_text (ti_terminal_state i)),
        tb_final_version = Some (ti_final_version i),
        tb_transition_at = Some (ti_transition_at i),
        tb_commit_event_id = Some (ti_commit_event_id i),
        tb_detail_expires_at = ms + retention_seconds * 1000,
        tb_detail_pruned = False,
        tb_termination_reason = ti_reason i,
        tb_termination = ti_termination i\<rparr>) (date_parse (ti_transition_at i))"

definition record_tombstone :: "int \<Rightarrow> tombstone_input \<Rightarrow> tombstones \<Rightarrow> tombstones" where
  "record_tombstone retention_seconds i t =
     (case tombstone_of retention_seconds i of
        None \<Rightarrow> t
      | Some r \<Rightarrow> fst (insert_or_ignore tb_key r t))"

definition tombstone_exists :: "string \<Rightarrow> string \<Rightarrow> tombstones \<Rightarrow> bool" where
  "tombstone_exists issuer mid t = (select_first (\<lambda>r. tb_key r = (issuer, mid)) t \<noteq> None)"

record tombstone_view =
  tv_terminal_state :: "mission_state option"
  tv_reason :: "string option"
  tv_termination :: "mission_termination option"
  tv_final_version :: "int option"
  tv_transition_at :: "string option"
  tv_commit_event_id :: "string option"
  tv_detail_expires_at :: int
  tv_detail_pruned :: bool

text \<open>A stored termination reason is handed on as the object \<open>{reason}\<close>.\<close>

definition tombstone_lifecycle ::
    "(string \<Rightarrow> json option) \<Rightarrow> tombstone_row \<Rightarrow> (mission_state \<times> mission_termination option) option" where
  "tombstone_lifecycle json_parse r =
     map_option (\<lambda>st. normalize_stored_lifecycle json_parse
        \<lparr>s_state = JStr st,
         s_termination = map_option (\<lambda>x. JObj [(''reason'', JStr x)]) (non_empty (tb_termination_reason r)),
         s_successor = None, s_carried_to = None, s_parent_id = None, s_version = None,
         s_expires_at = None, s_committed_at = None\<rparr>)
       (non_empty (tb_terminal_state r))"

definition find_tombstone ::
    "(string \<Rightarrow> json option) \<Rightarrow> string \<Rightarrow> string \<Rightarrow> tombstones \<Rightarrow> tombstone_view option" where
  "find_tombstone json_parse issuer mid t =
     map_option (\<lambda>r.
       \<lparr>tv_terminal_state = map_option fst (tombstone_lifecycle json_parse r),
        tv_reason = map_option t_reason (Option.bind (tombstone_lifecycle json_parse r) snd),
        tv_termination = tb_termination r,
        tv_final_version = tb_final_version r,
        tv_transition_at = non_empty (tb_transition_at r),
        tv_commit_event_id = non_empty (tb_commit_event_id r),
        tv_detail_expires_at = tb_detail_expires_at r,
        tv_detail_pruned = tb_detail_pruned r\<rparr>)
       (select_first (\<lambda>r. tb_key r = (issuer, mid)) t)"

definition prunable :: "int \<Rightarrow> tombstone_row \<Rightarrow> bool" where
  "prunable now_ms r = (\<not> tb_detail_pruned r \<and> tb_detail_expires_at r \<le> now_ms)"

definition prune_row :: "tombstone_row \<Rightarrow> tombstone_row" where
  "prune_row r = r\<lparr>tb_terminal_state := None, tb_termination_reason := None, tb_termination := None,
     tb_final_version := None, tb_transition_at := None, tb_commit_event_id := None,
     tb_detail_pruned := True\<rparr>"

definition prune_details :: "int \<Rightarrow> tombstones \<Rightarrow> tombstones \<times> nat" where
  "prune_details now_ms t =
     (update_where (prunable now_ms) prune_row t, affected (prunable now_ms) t)"

section \<open>Histories\<close>

datatype tombstone_op = TRecord tombstone_input | TPrune int

fun run_tombstone_op :: "int \<Rightarrow> tombstone_op \<Rightarrow> tombstones \<Rightarrow> tombstones" where
  "run_tombstone_op ret (TRecord i) t = record_tombstone ret i t"
| "run_tombstone_op ret (TPrune now_ms) t = fst (prune_details now_ms t)"

definition run_tombstone_ops :: "int \<Rightarrow> tombstone_op list \<Rightarrow> tombstones \<Rightarrow> tombstones" where
  "run_tombstone_ops ret ops t = fold (run_tombstone_op ret) ops t"

lemma prune_row_key [simp]: "tb_key (prune_row r) = tb_key r"
  by (simp add: prune_row_def tb_key_def)

lemma record_tombstone_select:
  "select_first (\<lambda>r. tb_key r = k) (record_tombstone ret i t) =
     (case select_first (\<lambda>r. tb_key r = k) t of
        Some r \<Rightarrow> Some r
      | None \<Rightarrow> (case tombstone_of ret i of None \<Rightarrow> None
          | Some r \<Rightarrow> if tb_key r = k then Some r else None))"
  by (auto simp: record_tombstone_def insert_or_ignore_def select_first_append select_first_None
      image_iff split: option.splits dest: select_first_SomeD)

lemma prune_select:
  "select_first (\<lambda>r. tb_key r = k) (fst (prune_details n t)) =
   map_option (\<lambda>r. if prunable n r then prune_row r else r) (select_first (\<lambda>r. tb_key r = k) t)"
  by (simp add: prune_details_def select_update_where)

lemma run_tombstone_op_exists:
  "tombstone_exists iss mid t \<Longrightarrow> tombstone_exists iss mid (run_tombstone_op ret op t)"
  by (cases op) (auto simp: tombstone_exists_def record_tombstone_select prune_select split: option.splits)

lemma run_tombstone_ops_exists:
  "tombstone_exists iss mid t \<Longrightarrow> tombstone_exists iss mid (run_tombstone_ops ret ops t)"
  by (induction ops arbitrary: t) (auto simp: run_tombstone_ops_def run_tombstone_op_exists)

definition prunes_before :: "int \<Rightarrow> tombstone_op \<Rightarrow> bool" where
  "prunes_before limit op = (case op of TRecord _ \<Rightarrow> True | TPrune n \<Rightarrow> n < limit)"

lemma run_tombstone_ops_kept:
  assumes "select_first (\<lambda>r. tb_key r = k) t = Some r"
    and "list_all (prunes_before (tb_detail_expires_at r)) ops"
  shows "select_first (\<lambda>r. tb_key r = k) (run_tombstone_ops ret ops t) = Some r"
  using assms
proof (induction ops arbitrary: t)
  case Nil
  then show ?case by (simp add: run_tombstone_ops_def)
next
  case (Cons op ops)
  have "select_first (\<lambda>r. tb_key r = k) (run_tombstone_op ret op t) = Some r"
    using Cons.prems
    by (cases op) (auto simp: record_tombstone_select prune_select prunable_def prunes_before_def)
  then show ?case using Cons.IH Cons.prems(2) by (simp add: run_tombstone_ops_def)
qed

lemma compose_retention_max:
  assumes "compose_tombstone_retention_seconds i = Inr s"
  shows "credential_artifact_lifetime_seconds i \<le> s \<and>
    state_staleness_seconds i + clock_skew_seconds i \<le> s \<and>
    idempotency_retry_seconds i \<le> s \<and> child_cascade_seconds i \<le> s \<and> audit_retention_seconds i \<le> s"
  using assms by (auto simp: compose_tombstone_retention_seconds_def split: option.splits)

section \<open>Properties\<close>

text \<open>
  C34. A tombstone is permanent: under any later sequence of recordings and prunings
  the identifier of a Mission that reached a terminal state stays marked, and until
  its horizon passes its first recording is returned unchanged, no matter what is
  recorded for the same identifier afterwards.
\<close>

theorem tombstone_permanent:
  assumes "tombstone_of ret i = Some r" and "\<not> tombstone_exists (ti_issuer i) (ti_mission_id i) t"
    and "list_all (prunes_before (tb_detail_expires_at r)) ops"
  shows "tombstone_exists (ti_issuer i) (ti_mission_id i)
           (run_tombstone_ops ret (later_ops) (run_tombstone_ops ret ops (record_tombstone ret i t))) \<and>
         find_tombstone jp (ti_issuer i) (ti_mission_id i)
           (run_tombstone_ops ret ops (record_tombstone ret i t)) =
         find_tombstone jp (ti_issuer i) (ti_mission_id i) (record_tombstone ret i t) \<and>
         find_tombstone jp (ti_issuer i) (ti_mission_id i) (record_tombstone ret i t) \<noteq> None"
proof -
  let ?k = "(ti_issuer i, ti_mission_id i)"
  have "tb_key r = ?k" using assms(1) by (auto simp: tombstone_of_def tb_key_def)
  then have s: "select_first (\<lambda>r. tb_key r = ?k) (record_tombstone ret i t) = Some r"
    using assms(1,2) by (simp add: record_tombstone_select tombstone_exists_def)
  from run_tombstone_ops_kept[OF s assms(3), of ret]
  have k: "select_first (\<lambda>r. tb_key r = ?k) (run_tombstone_ops ret ops (record_tombstone ret i t)) = Some r" .
  then have "tombstone_exists (ti_issuer i) (ti_mission_id i) (run_tombstone_ops ret ops (record_tombstone ret i t))"
    by (simp add: tombstone_exists_def)
  then show ?thesis using s k by (simp add: run_tombstone_ops_exists find_tombstone_def)
qed

theorem tombstone_permanent_witness:
  "tombstone_exists ''as'' ''m1''
     (run_tombstone_ops 10 [TPrune 99999999999999]
       (run_tombstone_ops 10 [TPrune 1000, TPrune 10999]
         (record_tombstone 10
           \<lparr>ti_issuer = ''as'', ti_mission_id = ''m1'', ti_terminal_state = Terminated, ti_reason = Some ''revoked'',
            ti_termination = None, ti_final_version = 2, ti_transition_at = ''1970-01-01T00:00:01.000Z'',
            ti_commit_event_id = ''set_1''\<rparr> [])))"
proof -
  let ?i = "\<lparr>ti_issuer = ''as'', ti_mission_id = ''m1'', ti_terminal_state = Terminated, ti_reason = Some ''revoked'',
            ti_termination = None, ti_final_version = 2, ti_transition_at = ''1970-01-01T00:00:01.000Z'',
            ti_commit_event_id = ''set_1''\<rparr>"
  obtain r where r: "tombstone_of 10 ?i = Some r" "tb_detail_expires_at r = 11000"
  proof -
    have "map_option tb_detail_expires_at (tombstone_of 10 ?i) = Some 11000" by code_simp
    with that show thesis by blast
  qed
  show ?thesis
    using tombstone_permanent[of 10 ?i r "[]" "[TPrune 1000, TPrune 10999]" "[TPrune 99999999999999]"] r
    by (simp add: tombstone_exists_def prunes_before_def)
qed

end
