(* ===== verification/Continuation_Store.thy ===== *)
theory Continuation_Store
  imports Mission_Types
begin

text \<open>
  The continuation anchors and handles,
  \<^verbatim>\<open>services/authorization-server/src/kernel/continuation-store.ts\<close>.  The random
  identifiers are drawn from the counter \<open>cs_fresh\<close>: the model's random source never
  repeats.  A write that a table's primary key refuses is \<open>None\<close>.  Every operation
  here runs in the kernel's transaction.
\<close>

datatype anchor_type = GrantAnchor | SessionAnchor
datatype continuation_state = CActive | CTerminal

record auth_envelope =
  auth_time :: "int option"
  acr :: "string option"
  amr :: "string list option"

record anchor_row =
  a_id :: string
  a_type :: anchor_type
  a_mission_id :: string
  a_session_id :: "string option"
  a_env :: auth_envelope
  a_state :: continuation_state
  a_created_at :: int

record handle_row =
  h_handle :: string
  h_anchor_id :: string
  h_mission_id :: string
  h_actor_iss :: "string option"
  h_actor_sub :: "string option"
  h_cnf_jkt :: "string option"
  h_prior :: "string option"
  h_audience :: string
  h_state :: continuation_state
  h_created_at :: int

record continuation_db =
  anchors :: "anchor_row table"
  handles :: "handle_row table"
  cs_fresh :: nat

definition insert_anchor ::
    "int \<Rightarrow> anchor_type \<Rightarrow> string \<Rightarrow> string option \<Rightarrow> auth_envelope \<Rightarrow> continuation_db \<Rightarrow>
     continuation_db \<times> string" where
  "insert_anchor now_ms ty mission_id session_id env db =
     (let anchor_id = ''cta_'' @ nat_text (cs_fresh db);
          row = \<lparr>a_id = anchor_id, a_type = ty, a_mission_id = mission_id, a_session_id = session_id,
                 a_env = env, a_state = CActive, a_created_at = now_ms\<rparr>
      in (db\<lparr>anchors := anchors db @ [row], cs_fresh := cs_fresh db + 1\<rparr>, anchor_id))"

definition root_grant_anchor ::
    "int \<Rightarrow> string \<Rightarrow> auth_envelope \<Rightarrow> continuation_db \<Rightarrow> continuation_db \<times> string" where
  "root_grant_anchor now_ms mission_id env db = insert_anchor now_ms GrantAnchor mission_id None env db"

definition root_session_anchor ::
    "int \<Rightarrow> string \<Rightarrow> string \<Rightarrow> auth_envelope \<Rightarrow> continuation_db \<Rightarrow> continuation_db \<times> string" where
  "root_session_anchor now_ms mission_id session_id env db =
     insert_anchor now_ms SessionAnchor mission_id (Some session_id) env db"

record mint_input =
  mi_handle :: "string option"
  mi_anchor_id :: string
  mi_mission_id :: string
  mi_actor_iss :: string
  mi_actor_sub :: string
  mi_cnf_jkt :: "string option"
  mi_prior :: "string option"
  mi_audience :: string

definition mint :: "int \<Rightarrow> mint_input \<Rightarrow> continuation_db \<Rightarrow> (continuation_db \<times> string) option" where
  "mint now_ms i db =
     (let (db1, handle) =
            (case mi_handle i of
               Some h \<Rightarrow> (db, h)
             | None \<Rightarrow> (db\<lparr>cs_fresh := cs_fresh db + 1\<rparr>, ''ich_'' @ nat_text (cs_fresh db)));
          row = \<lparr>h_handle = handle, h_anchor_id = mi_anchor_id i, h_mission_id = mi_mission_id i,
                 h_actor_iss = Some (mi_actor_iss i), h_actor_sub = Some (mi_actor_sub i),
                 h_cnf_jkt = mi_cnf_jkt i, h_prior = mi_prior i, h_audience = mi_audience i,
                 h_state = CActive, h_created_at = now_ms\<rparr>
      in if handle \<in> set (map h_handle (handles db)) then None
         else Some (db1\<lparr>handles := handles db1 @ [row]\<rparr>, handle))"

definition root_grant ::
    "int \<Rightarrow> string \<Rightarrow> string \<Rightarrow> string \<Rightarrow> string \<Rightarrow> continuation_db \<Rightarrow> continuation_db option" where
  "root_grant now_ms mission_id issuer client_id created_at db =
     (if (\<exists>a \<in> set (anchors db). a_mission_id a = mission_id) \<or>
         (\<exists>h \<in> set (handles db). h_mission_id h = mission_id)
      then Some db
      else let (db1, anchor_id) = root_grant_anchor now_ms mission_id
                 \<lparr>auth_time = map_option (\<lambda>t. t div 1000) (date_parse created_at), acr = None, amr = None\<rparr> db
        in map_option fst (mint now_ms
             \<lparr>mi_handle = None, mi_anchor_id = anchor_id, mi_mission_id = mission_id,
              mi_actor_iss = issuer, mi_actor_sub = client_id, mi_cnf_jkt = None, mi_prior = None,
              mi_audience = issuer\<rparr> db1))"

section \<open>Reading\<close>

definition find_handle :: "string \<Rightarrow> continuation_db \<Rightarrow> handle_row option" where
  "find_handle h db = select_first (\<lambda>r. h_handle r = h) (handles db)"

definition find_anchor :: "string \<Rightarrow> continuation_db \<Rightarrow> anchor_row option" where
  "find_anchor a db = select_first (\<lambda>r. a_id r = a) (anchors db)"

definition hop_audience :: "string \<Rightarrow> continuation_db \<Rightarrow> string option" where
  "hop_audience h db = map_option h_audience (find_handle h db)"

datatype handle_lookup = HUnknown | HTerminal | HActive handle_row anchor_row

definition lookup_handle :: "string \<Rightarrow> continuation_db \<Rightarrow> handle_lookup" where
  "lookup_handle handle db =
     (case find_handle handle db of
        None \<Rightarrow> HUnknown
      | Some h \<Rightarrow>
          if h_state h = CTerminal then HTerminal
          else (case find_anchor (h_anchor_id h) db of
            None \<Rightarrow> HTerminal
          | Some a \<Rightarrow> if a_state a = CTerminal then HTerminal else HActive h a))"

definition resolve_handle :: "string \<Rightarrow> continuation_db \<Rightarrow> (handle_row \<times> anchor_row) option" where
  "resolve_handle handle db =
     (case lookup_handle handle db of HActive h a \<Rightarrow> Some (h, a) | _ \<Rightarrow> None)"

definition hop_count :: "string \<Rightarrow> continuation_db \<Rightarrow> nat" where
  "hop_count anchor_id db = length (select_all (\<lambda>h. h_anchor_id h = anchor_id) (handles db))"

datatype lineage_error = Cyclic | Broken | CrossesAnchors | NoActor

text \<open>The walk from a hop to its root; the result is leaf first.\<close>

function lineage_walk ::
    "handle_row table \<Rightarrow> string list \<Rightarrow> string option \<Rightarrow> string option \<Rightarrow>
     lineage_error + (string \<times> string) list" where
  "lineage_walk t seen anchor next =
     (case next of
        None \<Rightarrow> Inr []
      | Some h \<Rightarrow>
          if h \<in> set seen then Inl Cyclic
          else case select_first (\<lambda>r. h_handle r = h) t of
            None \<Rightarrow> Inl Broken
          | Some row \<Rightarrow>
              if anchor \<noteq> None \<and> anchor \<noteq> Some (h_anchor_id row) then Inl CrossesAnchors
              else case (h_actor_iss row, h_actor_sub row) of
                (Some i, Some s) \<Rightarrow>
                  (case lineage_walk t (h # seen) (Some (h_anchor_id row)) (h_prior row) of
                     Inl e \<Rightarrow> Inl e
                   | Inr rest \<Rightarrow> Inr ((i, s) # rest))
              | _ \<Rightarrow> Inl NoActor)"
  by pat_completeness auto
termination
proof (relation "measure (\<lambda>(t, seen, a, n). length (filter (\<lambda>r. h_handle r \<notin> set seen) t))", goal_cases)
  case 1
  then show ?case by simp
next
  case (2 t seen anchor n h row p q i s)
  then have r: "row \<in> set t" "h_handle row = h" by (auto dest: select_first_SomeD)
  have "filter (\<lambda>r. h_handle r \<notin> set (h # seen)) t =
    filter (\<lambda>r. h_handle r \<noteq> h) (filter (\<lambda>r. h_handle r \<notin> set seen) t)"
    by (auto intro: filter_cong)
  also have "length \<dots> < length (filter (\<lambda>r. h_handle r \<notin> set seen) t)"
    using r 2 by (intro length_filter_less[of row]) auto
  finally show ?case by simp
qed

declare lineage_walk.simps [simp del]

definition lineage :: "string \<Rightarrow> continuation_db \<Rightarrow> lineage_error + (string \<times> string) list" where
  "lineage handle db =
     (case lineage_walk (handles db) [] None (Some handle) of
        Inl e \<Rightarrow> Inl e | Inr leaf_first \<Rightarrow> Inr (rev leaf_first))"

section \<open>Ending\<close>

definition terminate_continuations :: "string \<Rightarrow> continuation_db \<Rightarrow> continuation_db" where
  "terminate_continuations mission_id db =
     db\<lparr>anchors := update_where (\<lambda>a. a_mission_id a = mission_id) (\<lambda>a. a\<lparr>a_state := CTerminal\<rparr>) (anchors db),
        handles := update_where (\<lambda>h. h_mission_id h = mission_id) (\<lambda>h. h\<lparr>h_state := CTerminal\<rparr>) (handles db)\<rparr>"

definition session_anchor :: "string \<Rightarrow> anchor_row \<Rightarrow> bool" where
  "session_anchor session_id a = (a_type a = SessionAnchor \<and> a_session_id a = Some session_id)"

definition terminate_session :: "string \<Rightarrow> continuation_db \<Rightarrow> continuation_db" where
  "terminate_session session_id db =
     (let ids = map a_id (select_all (session_anchor session_id) (anchors db))
      in db\<lparr>handles := update_where (\<lambda>h. h_anchor_id h \<in> set ids) (\<lambda>h. h\<lparr>h_state := CTerminal\<rparr>) (handles db),
            anchors := update_where (session_anchor session_id) (\<lambda>a. a\<lparr>a_state := CTerminal\<rparr>) (anchors db)\<rparr>)"

section \<open>Lemmas\<close>

text \<open>The operations as steps: each either fails on a key or yields a store.\<close>

inductive continuation_step :: "continuation_db \<Rightarrow> continuation_db \<Rightarrow> bool" where
  root: "root_grant n m iss c at_text db = Some db' \<Longrightarrow> continuation_step db db'"
| anchor: "fst (insert_anchor n ty m sid env db) = db' \<Longrightarrow> continuation_step db db'"
| hop: "mint n i db = Some (db', h) \<Longrightarrow> continuation_step db db'"
| end_mission: "terminate_continuations m db = db' \<Longrightarrow> continuation_step db db'"
| end_session: "terminate_session s db = db' \<Longrightarrow> continuation_step db db'"

text \<open>Once a handle is terminal no later operation lets it resolve: the terminal mark
  of its row or of its anchor's row stays.  Anchor rows are found by identifier, which
  the counter never repeats.\<close>

definition dead :: "string \<Rightarrow> continuation_db \<Rightarrow> bool" where
  "dead h db = (\<exists>r. find_handle h db = Some r \<and>
     (h_state r = CTerminal \<or> (\<exists>a. find_anchor (h_anchor_id r) db = Some a \<and> a_state a = CTerminal)))"

lemma dead_lookup: "dead h db \<Longrightarrow> lookup_handle h db = HTerminal"
  by (auto simp: dead_def lookup_handle_def)

lemma find_handle_append:
  "find_handle h db = Some r \<Longrightarrow> find_handle h (db\<lparr>handles := handles db @ rs\<rparr>) = Some r"
  by (simp add: find_handle_def select_first_append)

lemma dead_grow:
  assumes "dead h db" "anchors db' = anchors db @ as" "handles db' = handles db @ hs"
  shows "dead h db'"
  using assms by (auto simp: dead_def find_handle_def find_anchor_def select_first_append)

lemma mint_grow:
  "mint n i db = Some (db', h) \<Longrightarrow> anchors db' = anchors db \<and> (\<exists>hs. handles db' = handles db @ hs)"
  by (auto simp: mint_def Let_def split: option.splits if_splits)

lemma root_grow:
  "root_grant n m iss c tx db = Some db' \<Longrightarrow>
   \<exists>as hs. anchors db' = anchors db @ as \<and> handles db' = handles db @ hs"
  by (auto simp: root_grant_def root_grant_anchor_def insert_anchor_def Let_def
      dest!: mint_grow split: if_splits)

lemma root_grant_rows:
  assumes "root_grant n m iss c tx db = Some db'"
  shows "\<exists>as hs. anchors db' = anchors db @ as \<and> handles db' = handles db @ hs \<and>
    (\<forall>a \<in> set as. a_mission_id a = m) \<and> (\<forall>h \<in> set hs. h_mission_id h = m)"
  using assms
  by (auto simp: root_grant_def root_grant_anchor_def insert_anchor_def mint_def Let_def split: if_splits)

lemma dead_update:
  assumes "dead h db"
    and "handles db' = update_where p (\<lambda>h. h\<lparr>h_state := CTerminal\<rparr>) (handles db)"
    and "anchors db' = update_where q (\<lambda>a. a\<lparr>a_state := CTerminal\<rparr>) (anchors db)"
  shows "dead h db'"
proof -
  obtain r where r: "find_handle h db = Some r"
    and d: "h_state r = CTerminal \<or> (\<exists>a. find_anchor (h_anchor_id r) db = Some a \<and> a_state a = CTerminal)"
    using assms(1) by (auto simp: dead_def)
  have "find_handle h db' = Some (if p r then r\<lparr>h_state := CTerminal\<rparr> else r)"
    using r by (simp add: find_handle_def assms(2) select_update_where)
  moreover have "find_anchor k db' = map_option (\<lambda>a. if q a then a\<lparr>a_state := CTerminal\<rparr> else a) (find_anchor k db)" for k
    by (simp add: find_anchor_def assms(3) select_update_where)
  ultimately show ?thesis
    using d by (cases "h_state r = CTerminal") (auto simp: dead_def intro!: exI[of _ "if q _ then _ else _"])
qed

lemma dead_step:
  assumes "continuation_step db db'" "dead h db"
  shows "dead h db'"
  using assms
proof (cases rule: continuation_step.cases)
  case (root n m iss c tx)
  then show ?thesis using root_grow dead_grow assms(2) by blast
next
  case (anchor n ty m sid env)
  then show ?thesis
    using dead_grow[OF assms(2), of db' _ "[]"] by (auto simp: insert_anchor_def Let_def)
next
  case (hop n i x)
  then show ?thesis using mint_grow[OF hop] dead_grow[OF assms(2), of db' "[]"] by auto
next
  case (end_mission m)
  then show ?thesis by (intro dead_update[OF assms(2)]) (auto simp: terminate_continuations_def)
next
  case (end_session s)
  then show ?thesis by (intro dead_update[OF assms(2)]) (auto simp: terminate_session_def Let_def)
qed

lemma dead_steps: "continuation_step\<^sup>*\<^sup>* db db' \<Longrightarrow> dead h db \<Longrightarrow> dead h db'"
  by (induction rule: rtranclp_induct) (auto intro: dead_step)

lemma terminate_kills:
  assumes "find_handle h db = Some r" "h_mission_id r = m"
  shows "dead h (terminate_continuations m db)"
  using assms by (auto simp: dead_def find_handle_def terminate_continuations_def select_update_where)

section \<open>The lineage\<close>

text \<open>\<open>hops\<close> is a path of rows through the parent references, leaf first.\<close>

fun hop_path :: "handle_row table \<Rightarrow> string option \<Rightarrow> handle_row list \<Rightarrow> bool" where
  "hop_path t next [] = (next = None)"
| "hop_path t next (r # rs) =
     (next = Some (h_handle r) \<and> select_first (\<lambda>x. h_handle x = h_handle r) t = Some r \<and>
      hop_path t (h_prior r) rs)"

definition hop_actor :: "handle_row \<Rightarrow> string \<times> string" where
  "hop_actor r = (the (h_actor_iss r), the (h_actor_sub r))"

lemma lineage_walk_path:
  assumes "lineage_walk t seen anchor next = Inr acts"
  shows "\<exists>rs. hop_path t next rs \<and> acts = map hop_actor rs \<and>
    list_all (\<lambda>r. anchor = None \<or> anchor = Some (h_anchor_id r)) rs \<and>
    (\<exists>a. list_all (\<lambda>r. h_anchor_id r = a) rs) \<and>
    distinct (map h_handle rs) \<and> (\<forall>r \<in> set rs. h_handle r \<notin> set seen)"
  using assms
proof (induction t seen anchor "next" arbitrary: acts rule: lineage_walk.induct)
  case (1 t seen anchor nx)
  show ?case
  proof (cases nx)
    case None
    then show ?thesis using 1(2) by (intro exI[of _ "[]"]) (simp add: lineage_walk.simps)
  next
    case (Some h)
    then obtain row i s rest where
      row: "h \<notin> set seen" "select_first (\<lambda>r. h_handle r = h) t = Some row"
        "\<not> (anchor \<noteq> None \<and> anchor \<noteq> Some (h_anchor_id row))"
        "h_actor_iss row = Some i" "h_actor_sub row = Some s"
        "lineage_walk t (h # seen) (Some (h_anchor_id row)) (h_prior row) = Inr rest"
        "acts = (i, s) # rest"
      using 1(2) unfolding lineage_walk.simps[of t seen anchor nx]
      by (simp split: option.splits if_splits sum.splits)
    have h: "h_handle row = h" using row(2) by (auto dest: select_first_SomeD)
    from 1(1)[OF Some row(1,2,3) refl row(4,5,6)] show ?thesis
    proof (elim exE conjE, goal_cases)
      case (1 rs a)
      then have anch: "list_all (\<lambda>r. h_anchor_id r = h_anchor_id row) (row # rs)"
        by (auto simp: list_all_iff)
      have "list_all (\<lambda>r. anchor = None \<or> anchor = Some (h_anchor_id r)) (row # rs)"
        using anch row(3) by (auto simp: list_all_iff)
      moreover have "hop_path t nx (row # rs)" "acts = map hop_actor (row # rs)"
        using 1 Some row h by (simp_all add: hop_actor_def)
      moreover have "distinct (map h_handle (row # rs))" "\<forall>r \<in> set (row # rs). h_handle r \<notin> set seen"
        using 1 row(1) h by auto
      ultimately show ?case using anch by blast
    qed
  qed
qed

section \<open>Properties\<close>

text \<open>
  C16. Ending a Mission ends its continuation lineages for good: after the terminal
  commit no handle of that Mission resolves, and no later operation, rooting,
  continuing or ending any lineage, makes one resolve again.
\<close>

theorem terminated_lineage_never_resolves:
  assumes "find_handle h db = Some r" "continuation_step\<^sup>*\<^sup>* (terminate_continuations (h_mission_id r) db) db'"
  shows "lookup_handle h db' = HTerminal \<and> resolve_handle h db' = None"
  using dead_lookup[OF dead_steps[OF assms(2) terminate_kills[OF assms(1) refl]]]
  by (simp add: resolve_handle_def)

definition sample_db :: continuation_db where
  "sample_db = the (root_grant 5 ''m1'' ''as'' ''agent'' ''1970-01-01T00:00:01Z''
     \<lparr>anchors = [], handles = [], cs_fresh = 0\<rparr>)"

theorem terminated_lineage_never_resolves_witness:
  "lookup_handle ''ich_1'' sample_db \<noteq> HTerminal \<and>
   lookup_handle ''ich_1'' (fst (root_grant_anchor 6 ''m1'' \<lparr>auth_time = None, acr = None, amr = None\<rparr>
     (terminate_continuations ''m1'' sample_db))) = HTerminal"
proof -
  let ?db = "terminate_continuations ''m1'' sample_db"
  obtain r where r: "find_handle ''ich_1'' sample_db = Some r" "h_mission_id r = ''m1''"
  proof -
    have "map_option h_mission_id (find_handle ''ich_1'' sample_db) = Some ''m1''" by code_simp
    with that show thesis by auto
  qed
  have "continuation_step\<^sup>*\<^sup>* ?db (fst (root_grant_anchor 6 ''m1'' \<lparr>auth_time = None, acr = None, amr = None\<rparr> ?db))"
    by (rule r_into_rtranclp, rule continuation_step.anchor) (simp add: root_grant_anchor_def)
  moreover have "lookup_handle ''ich_1'' sample_db \<noteq> HTerminal" by code_simp
  ultimately show ?thesis
    using terminated_lineage_never_resolves[of "''ich_1''" sample_db r] r by auto
qed

text \<open>
  C38. The actor lineage of a hop terminates on every store and, when it is answered,
  is exactly the recorded actors along the hop's own parent references, root first:
  the path ends at a hop without a parent, never visits a hop twice and never leaves
  one anchor.
\<close>

theorem lineage_is_parent_path:
  assumes "lineage h db = Inr acts"
  shows "\<exists>rs. hop_path (handles db) (Some h) rs \<and> acts = rev (map hop_actor rs) \<and>
    distinct (map h_handle rs) \<and> (\<exists>a. list_all (\<lambda>r. h_anchor_id r = a) rs)"
proof -
  obtain lf where lf: "lineage_walk (handles db) [] None (Some h) = Inr lf" "acts = rev lf"
    using assms by (auto simp: lineage_def split: sum.splits)
  with lineage_walk_path[OF lf(1)] show ?thesis by blast
qed

theorem lineage_is_parent_path_witness:
  "\<exists>rs. hop_path (handles sample_db) (Some ''ich_1'') rs \<and> [(''as'', ''agent'')] = rev (map hop_actor rs) \<and>
    distinct (map h_handle rs) \<and> (\<exists>a. list_all (\<lambda>r. h_anchor_id r = a) rs)"
proof -
  have "lineage ''ich_1'' sample_db = Inr [(''as'', ''agent'')]" by code_simp
  then show ?thesis by (rule lineage_is_parent_path)
qed

end
