(* ===== verification/Delegation_Families.thy ===== *)
theory Delegation_Families
  imports Continuation_Store
begin

text \<open>
  The delegation family table,
  \<^verbatim>\<open>services/authorization-server/src/kernel/delegation-family-store.ts\<close>.  A grant
  recorded twice violates the primary key and is \<open>None\<close>.
\<close>

record family_row =
  f_grant_id :: string
  f_mission_id :: string
  f_state :: continuation_state
  f_created_at :: string

type_synonym families = "family_row table"

definition find_family :: "string \<Rightarrow> families \<Rightarrow> family_row option" where
  "find_family g t = select_first (\<lambda>r. f_grant_id r = g) t"

definition record_family :: "int \<Rightarrow> string \<Rightarrow> string \<Rightarrow> families \<Rightarrow> families option" where
  "record_family now_ms grant_id mission_id t =
     (if grant_id \<in> set (map f_grant_id t) then None
      else Some (t @ [\<lparr>f_grant_id = grant_id, f_mission_id = mission_id, f_state = CActive,
                      f_created_at = iso_text now_ms\<rparr>]))"

definition resolve_family :: "string \<Rightarrow> families \<Rightarrow> (string \<times> continuation_state) option" where
  "resolve_family g t =
     (case find_family g t of None \<Rightarrow> None
      | Some r \<Rightarrow> if f_state r = CTerminal then None else Some (f_mission_id r, f_state r))"

definition terminate_families :: "string \<Rightarrow> families \<Rightarrow> families" where
  "terminate_families mission_id t =
     update_where (\<lambda>r. f_mission_id r = mission_id) (\<lambda>r. r\<lparr>f_state := CTerminal\<rparr>) t"

definition invalidate_family :: "string \<Rightarrow> families \<Rightarrow> families" where
  "invalidate_family grant_id t =
     update_where (\<lambda>r. f_grant_id r = grant_id) (\<lambda>r. r\<lparr>f_state := CTerminal\<rparr>) t"

definition was_ever_family :: "string \<Rightarrow> families \<Rightarrow> bool" where
  "was_ever_family g t = (find_family g t \<noteq> None)"

text \<open>\<open>ORDER BY created_at\<close>: rows are recorded in clock order, which is table order.\<close>

definition families_for_mission :: "string \<Rightarrow> families \<Rightarrow> string list" where
  "families_for_mission m t = map f_grant_id (select_all (\<lambda>r. f_mission_id r = m) t)"

datatype family_op = FRecord int string string | FTerminate string | FInvalidate string

fun run_family_op :: "family_op \<Rightarrow> families \<Rightarrow> families" where
  "run_family_op (FRecord n g m) t = (case record_family n g m t of None \<Rightarrow> t | Some t' \<Rightarrow> t')"
| "run_family_op (FTerminate m) t = terminate_families m t"
| "run_family_op (FInvalidate g) t = invalidate_family g t"

text \<open>The operations that end the family of a row: its Mission ends, or its own grant is
  invalidated.\<close>

definition ends_family :: "family_row \<Rightarrow> family_op \<Rightarrow> bool" where
  "ends_family r op = (op = FTerminate (f_mission_id r) \<or> op = FInvalidate (f_grant_id r))"

lemma find_family_op:
  assumes "find_family g t = Some r"
  shows "find_family g (run_family_op op t) = Some (if ends_family r op then r\<lparr>f_state := CTerminal\<rparr> else r)"
proof -
  have g: "f_grant_id r = g" using assms by (auto simp: find_family_def dest: select_first_SomeD)
  show ?thesis
  proof (cases op)
    case (FRecord n h m)
    then show ?thesis
      using assms by (auto simp: ends_family_def record_family_def find_family_def select_first_append split: option.splits)
  next
    case (FTerminate m)
    then show ?thesis
      using assms by (auto simp: ends_family_def terminate_families_def find_family_def select_update_where)
  next
    case (FInvalidate h)
    then show ?thesis
      using assms g by (auto simp: ends_family_def invalidate_family_def find_family_def select_update_where)
  qed
qed

lemma find_family_ops:
  "find_family g t = Some r \<Longrightarrow>
   find_family g (fold run_family_op ops t) =
     Some (if \<exists>op \<in> set ops. ends_family r op then r\<lparr>f_state := CTerminal\<rparr> else r)"
proof (induction ops arbitrary: t r)
  case Nil
  then show ?case by simp
next
  case (Cons op ops)
  have e: "ends_family (r\<lparr>f_state := st\<rparr>) = ends_family r" for st by (rule ext) (simp add: ends_family_def)
  have "fold run_family_op (op # ops) t = fold run_family_op ops (run_family_op op t)" by simp
  then show ?case using Cons.IH[OF find_family_op[OF Cons.prems, of op]] by (simp add: e split: if_splits)
qed

text \<open>
  C35. A delegation family outlives its liveness: whatever is recorded, terminated or
  invalidated later, a grant once recorded stays known under the same Mission, so it
  still can be revoked.  It resolves, to that Mission, exactly as long as it was not
  terminal, its Mission was not terminated and its own grant was not invalidated; after
  either of these it never resolves again.
\<close>

theorem family_terminal_forever:
  assumes "find_family g t = Some r"
  shows "was_ever_family g (fold run_family_op ops t) \<and>
    g \<in> set (families_for_mission (f_mission_id r) (fold run_family_op ops t)) \<and>
    resolve_family g (fold run_family_op ops t) =
      (if f_state r = CTerminal \<or> FTerminate (f_mission_id r) \<in> set ops \<or> FInvalidate g \<in> set ops then None
       else Some (f_mission_id r, f_state r))"
proof -
  have g: "f_grant_id r = g" using assms by (auto simp: find_family_def dest: select_first_SomeD)
  let ?r = "if \<exists>op \<in> set ops. ends_family r op then r\<lparr>f_state := CTerminal\<rparr> else r"
  have f: "find_family g (fold run_family_op ops t) = Some ?r" using find_family_ops[OF assms] .
  then have "?r \<in> set (fold run_family_op ops t)" unfolding find_family_def by (rule select_first_SomeD[THEN conjunct1])
  then have "?r \<in> {x \<in> set (fold run_family_op ops t). f_mission_id x = f_mission_id r}" by simp
  then have "f_grant_id ?r \<in> set (families_for_mission (f_mission_id r) (fold run_family_op ops t))"
    unfolding families_for_mission_def select_all_def set_map set_filter by (rule imageI)
  then have "g \<in> set (families_for_mission (f_mission_id r) (fold run_family_op ops t))" using g by (simp split: if_splits)
  moreover have "(\<exists>op \<in> set ops. ends_family r op) \<longleftrightarrow> FTerminate (f_mission_id r) \<in> set ops \<or> FInvalidate g \<in> set ops"
    using g by (auto simp: ends_family_def)
  ultimately show ?thesis using f by (simp add: was_ever_family_def resolve_family_def)
qed

theorem family_terminal_forever_witness:
  "resolve_family ''g'' (fold run_family_op [FInvalidate ''h'', FRecord 2 ''h'' ''m'', FInvalidate ''g'', FRecord 3 ''g'' ''m'']
     (the (record_family 1 ''g'' ''m'' []))) = None \<and>
   resolve_family ''g'' (fold run_family_op [FInvalidate ''h'', FRecord 2 ''h'' ''m'']
     (the (record_family 1 ''g'' ''m'' []))) = Some (''m'', CActive)"
proof -
  let ?t = "the (record_family 1 ''g'' ''m'' [])"
  have f: "find_family ''g'' ?t =
    Some \<lparr>f_grant_id = ''g'', f_mission_id = ''m'', f_state = CActive, f_created_at = iso_text 1\<rparr>"
    by (simp add: find_family_def record_family_def)
  show ?thesis
    using family_terminal_forever[OF f, of "[FInvalidate ''h'', FRecord 2 ''h'' ''m'', FInvalidate ''g'', FRecord 3 ''g'' ''m'']"]
      family_terminal_forever[OF f, of "[FInvalidate ''h'', FRecord 2 ''h'' ''m'']"] by simp
qed

end
