(* ===== verification/Lifecycle_Outbox.thy ===== *)
theory Lifecycle_Outbox
  imports Termination "HOL-Library.Char_ord" "HOL-Library.List_Lexorder" "HOL-Library.Product_Lexorder"
begin

text \<open>
  The durable lifecycle fan-out,
  \<^verbatim>\<open>services/authorization-server/src/kernel/lifecycle-outbox.ts\<close>: the event and
  delivery tables, the enqueue inside the state write's transaction, publication with
  and without isolation, the guarded settlement of a delivery, boot reconciliation
  and pruning.

  What leaves the process is a parameter: \<open>publish\<close> is the synchronous subscriber
  chain, \<open>recover\<close> the cascade re-run of a migrated job and \<open>deliver\<close> a durable
  subscriber, each answering the message of the exception it throws, if any.  The
  promise machinery that serializes drains is not modelled; instead an attempt is
  settled from the row its pass had read, which may be stale.
\<close>

datatype disposition = Pending | Accepted | SubscriberRemoved | Abandoned

record event_row =
  e_seq :: nat
  e_event_id :: string
  e_issuer :: string
  e_mission_id :: string
  e_version :: int
  e_payload_version :: nat
  e_committed_at :: string
  e_commit :: stored_commit
  e_cascade :: "string option"
  e_published :: bool
  e_publish_attempts :: nat
  e_last_error :: "string option"

record delivery_row =
  d_seq :: nat
  d_subscriber :: string
  d_disposition :: disposition
  d_attempts :: nat
  d_next_attempt_at :: int
  d_payload :: json
  d_last_error :: "string option"
  d_disposed_at :: "int option"

record subscriber =
  sub_id :: string
  sub_capture :: "commit \<Rightarrow> json option"

record retry_policy =
  retry_base_ms :: int
  retry_cap_ms :: int
  max_attempts :: nat

record outbox =
  ob_events :: "event_row table"
  ob_deliveries :: "delivery_row table"
  ob_next_seq :: nat
  ob_fresh :: nat
  ob_subscribers :: "subscriber list"

datatype outbox_error =
    AlreadyRegistered string
  | DuplicateEvent
  | UnrecognizedPayload nat
  | NoEventIdentity nat
  | PublishFailed nat string

definition LIFECYCLE_EVENT_PAYLOAD_VERSION :: nat where
  "LIFECYCLE_EVENT_PAYLOAD_VERSION = 2"

definition LEGACY_LIFECYCLE_EVENT_PAYLOAD_VERSION :: nat where
  "LEGACY_LIFECYCLE_EVENT_PAYLOAD_VERSION = 1"

definition default_retry :: retry_policy where
  "default_retry = \<lparr>retry_base_ms = 250, retry_cap_ms = 30000, max_attempts = 8\<rparr>"

definition read_persisted_commit ::
    "(string \<Rightarrow> json option) \<Rightarrow> nat \<Rightarrow> stored_commit \<Rightarrow> outbox_error + commit" where
  "read_persisted_commit json_parse payload_version raw =
     (if payload_version = LIFECYCLE_EVENT_PAYLOAD_VERSION then Inr (sc_rest raw)
      else if payload_version = LEGACY_LIFECYCLE_EVENT_PAYLOAD_VERSION
      then Inr (normalize_legacy_commit json_parse raw)
      else Inl (UnrecognizedPayload payload_version))"

section \<open>Enqueueing\<close>

definition register_subscriber :: "subscriber \<Rightarrow> outbox \<Rightarrow> outbox_error + outbox" where
  "register_subscriber s ob =
     (if sub_id s \<in> set (map sub_id (ob_subscribers ob)) then Inl (AlreadyRegistered (sub_id s))
      else Inr (ob\<lparr>ob_subscribers := ob_subscribers ob @ [s]\<rparr>))"

definition insert_event ::
    "commit \<Rightarrow> stored_commit \<Rightarrow> string option \<Rightarrow> nat \<Rightarrow> outbox \<Rightarrow> outbox_error + outbox \<times> nat" where
  "insert_event c raw cascade payload_version ob =
     (if c_event_id c \<in> set (map e_event_id (ob_events ob)) then Inl DuplicateEvent
      else Inr (ob\<lparr>ob_events := ob_events ob @
          [\<lparr>e_seq = ob_next_seq ob, e_event_id = c_event_id c, e_issuer = c_issuer c,
            e_mission_id = c_id c, e_version = c_version c, e_payload_version = payload_version,
            e_committed_at = c_committed_at c, e_commit = raw, e_cascade = cascade,
            e_published = False, e_publish_attempts = 0, e_last_error = None\<rparr>],
          ob_next_seq := ob_next_seq ob + 1\<rparr>, ob_next_seq ob))"

definition current_commit :: "commit \<Rightarrow> stored_commit" where
  "current_commit c =
     \<lparr>sc_state = JStr (state_text (c_state c)), sc_successor = None, sc_carried_to = None, sc_rest = c\<rparr>"

definition owed_deliveries :: "nat \<Rightarrow> commit \<Rightarrow> subscriber list \<Rightarrow> delivery_row list" where
  "owed_deliveries sq c ss =
     List.map_filter (\<lambda>s. map_option (\<lambda>p.
        \<lparr>d_seq = sq, d_subscriber = sub_id s, d_disposition = Pending, d_attempts = 0,
         d_next_attempt_at = 0, d_payload = p, d_last_error = None, d_disposed_at = None\<rparr>)
       (sub_capture s c)) ss"

text \<open>The event identity is the commit's own, or a fresh one.\<close>

definition persist_commit :: "string option \<Rightarrow> commit \<Rightarrow> outbox \<Rightarrow> outbox \<times> commit" where
  "persist_commit given c ob =
     (case given of
        Some e \<Rightarrow> (ob, c\<lparr>c_event_id := e\<rparr>)
      | None \<Rightarrow> (ob\<lparr>ob_fresh := ob_fresh ob + 1\<rparr>, c\<lparr>c_event_id := ''set_'' @ nat_text (ob_fresh ob)\<rparr>))"

definition enqueue :: "string option \<Rightarrow> commit \<Rightarrow> outbox \<Rightarrow> outbox_error + outbox \<times> commit" where
  "enqueue given c ob =
     (let (ob1, persisted) = persist_commit given c ob
      in case insert_event persisted (current_commit persisted) None LIFECYCLE_EVENT_PAYLOAD_VERSION ob1 of
        Inl e \<Rightarrow> Inl e
      | Inr (ob2, sq) \<Rightarrow>
          Inr (ob2\<lparr>ob_deliveries := ob_deliveries ob2 @ owed_deliveries sq persisted (ob_subscribers ob2)\<rparr>,
               persisted))"

section \<open>The migration of the previous outbox\<close>

record legacy_job =
  lj_id :: nat
  lj_mission_id :: string
  lj_done :: bool
  lj_activation :: stored_commit
  lj_supersession :: stored_commit

definition migrate_payload ::
    "nat \<Rightarrow> string option \<Rightarrow> stored_commit \<Rightarrow> outbox_error + outbox \<Rightarrow> outbox_error + outbox" where
  "migrate_payload job cascade raw r =
     (case r of
        Inl e \<Rightarrow> Inl e
      | Inr ob \<Rightarrow>
          if c_event_id (sc_rest raw) = [] then Inl (NoEventIdentity job)
          else (case insert_event (sc_rest raw) raw cascade LEGACY_LIFECYCLE_EVENT_PAYLOAD_VERSION ob of
            Inl e \<Rightarrow> Inl e | Inr (ob', _) \<Rightarrow> Inr ob'))"

definition migrate_legacy_outbox :: "legacy_job list \<Rightarrow> outbox \<Rightarrow> outbox_error + outbox" where
  "migrate_legacy_outbox jobs ob =
     fold (\<lambda>j r. migrate_payload (lj_id j) None (lj_supersession j)
                 (migrate_payload (lj_id j) (Some (lj_mission_id j)) (lj_activation j) r))
       (filter (\<lambda>j. \<not> lj_done j) jobs) (Inr ob)"

section \<open>Publication\<close>

type_synonym effects = "(commit \<Rightarrow> string option) \<times> (string \<Rightarrow> string option)"

text \<open>What delivering one event row throws: an unreadable payload, the cascade re-run or
  the subscriber chain, in that order.\<close>

definition error_text :: "outbox_error \<Rightarrow> string" where
  "error_text e = (case e of UnrecognizedPayload n \<Rightarrow> ''unrecognized payload version '' @ nat_text n
     | PublishFailed _ m \<Rightarrow> m | _ \<Rightarrow> ''error'')"

definition event_failure :: "(string \<Rightarrow> json option) \<Rightarrow> effects \<Rightarrow> event_row \<Rightarrow> string option" where
  "event_failure json_parse eff row =
     (case read_persisted_commit json_parse (e_payload_version row) (e_commit row) of
        Inl e \<Rightarrow> Some (error_text e)
      | Inr c \<Rightarrow>
          (case Option.bind (e_cascade row) (snd eff) of
             Some m \<Rightarrow> Some m
           | None \<Rightarrow> fst eff c))"

definition mark_published :: "nat \<Rightarrow> outbox \<Rightarrow> outbox" where
  "mark_published sq ob =
     ob\<lparr>ob_events := update_where (\<lambda>r. e_seq r = sq) (\<lambda>r. r\<lparr>e_published := True\<rparr>) (ob_events ob)\<rparr>"

definition note_failure :: "nat \<Rightarrow> string \<Rightarrow> outbox \<Rightarrow> outbox" where
  "note_failure sq msg ob =
     ob\<lparr>ob_events := update_where (\<lambda>r. e_seq r = sq)
        (\<lambda>r. r\<lparr>e_publish_attempts := e_publish_attempts r + 1, e_last_error := Some msg\<rparr>) (ob_events ob)\<rparr>"

definition deliver_event_row ::
    "(string \<Rightarrow> json option) \<Rightarrow> effects \<Rightarrow> bool \<Rightarrow> event_row \<Rightarrow> outbox \<Rightarrow> outbox_error + outbox \<times> bool" where
  "deliver_event_row json_parse eff isolate row ob =
     (case event_failure json_parse eff row of
        None \<Rightarrow> Inr (mark_published (e_seq row) ob, True)
      | Some msg \<Rightarrow>
          if \<not> isolate then Inl (PublishFailed (e_seq row) msg)
          else Inr (note_failure (e_seq row) msg ob, False))"

definition publish_one ::
    "(string \<Rightarrow> json option) \<Rightarrow> effects \<Rightarrow> nat \<Rightarrow> outbox \<Rightarrow> outbox_error + outbox" where
  "publish_one json_parse eff sq ob =
     (case select_first (\<lambda>r. e_seq r = sq \<and> \<not> e_published r) (ob_events ob) of
        None \<Rightarrow> Inr ob
      | Some row \<Rightarrow> map_sum id fst (deliver_event_row json_parse eff False row ob))"

fun publish_rows ::
    "(string \<Rightarrow> json option) \<Rightarrow> effects \<Rightarrow> event_row list \<Rightarrow> outbox \<times> nat \<Rightarrow> outbox \<times> nat" where
  "publish_rows jp eff [] acc = acc"
| "publish_rows jp eff (row # rows) (ob, n) =
     (case deliver_event_row jp eff True row ob of
        Inl _ \<Rightarrow> publish_rows jp eff rows (ob, n)
      | Inr (ob', ok) \<Rightarrow> publish_rows jp eff rows (ob', if ok then n + 1 else n))"

definition publish_pending ::
    "(string \<Rightarrow> json option) \<Rightarrow> effects \<Rightarrow> outbox \<Rightarrow> outbox \<times> nat" where
  "publish_pending jp eff ob =
     publish_rows jp eff (sort_key e_seq (select_all (\<lambda>r. \<not> e_published r) (ob_events ob))) (ob, 0)"

section \<open>Delivery\<close>

definition pending_attempt :: "delivery_row \<Rightarrow> delivery_row \<Rightarrow> bool" where
  "pending_attempt row d =
     (d_seq d = d_seq row \<and> d_subscriber d = d_subscriber row \<and> d_disposition d = Pending \<and>
      d_attempts d = d_attempts row)"

definition update_deliveries :: "(delivery_row \<Rightarrow> bool) \<Rightarrow> (delivery_row \<Rightarrow> delivery_row) \<Rightarrow> outbox \<Rightarrow> outbox" where
  "update_deliveries p f ob = ob\<lparr>ob_deliveries := update_where p f (ob_deliveries ob)\<rparr>"

definition settle_delivery ::
    "retry_policy \<Rightarrow> int \<Rightarrow> delivery_row \<Rightarrow> string option \<Rightarrow> outbox \<Rightarrow> outbox" where
  "settle_delivery rp now_ms row outcome ob =
     (case outcome of
        None \<Rightarrow> update_deliveries (pending_attempt row)
          (\<lambda>d. d\<lparr>d_disposition := Accepted, d_attempts := d_attempts d + 1,
                 d_disposed_at := Some now_ms, d_last_error := None\<rparr>) ob
      | Some msg \<Rightarrow>
          let n = d_attempts row + 1
          in if n \<ge> max_attempts rp then
               update_deliveries (pending_attempt row)
                 (\<lambda>d. d\<lparr>d_disposition := Abandoned, d_attempts := n, d_disposed_at := Some now_ms,
                        d_last_error := Some msg\<rparr>) ob
             else
               update_deliveries (pending_attempt row)
                 (\<lambda>d. d\<lparr>d_attempts := n,
                        d_next_attempt_at := now_ms + min (retry_cap_ms rp) (retry_base_ms rp * 2 ^ (n - 1)),
                        d_last_error := Some msg\<rparr>) ob)"

definition mark_removed :: "int \<Rightarrow> nat option \<Rightarrow> string \<Rightarrow> outbox \<Rightarrow> outbox \<times> nat" where
  "mark_removed now_ms sq sub ob =
     (let p = (\<lambda>d. (sq = None \<or> sq = Some (d_seq d)) \<and> d_subscriber d = sub \<and> d_disposition d = Pending)
      in (update_deliveries p (\<lambda>d. d\<lparr>d_disposition := SubscriberRemoved, d_disposed_at := Some now_ms\<rparr>) ob,
          affected p (ob_deliveries ob)))"

definition runnable :: "int \<Rightarrow> outbox \<Rightarrow> (delivery_row \<times> event_row) list" where
  "runnable now_ms ob =
     sort_key (\<lambda>(d, e). (d_seq d, d_subscriber d))
       (concat (map (\<lambda>d. map (\<lambda>e. (d, e)) (select_all (\<lambda>e. e_seq e = d_seq d) (ob_events ob)))
          (select_all (\<lambda>d. d_disposition d = Pending \<and> d_next_attempt_at d \<le> now_ms) (ob_deliveries ob))))"

type_synonym deliverer = "string \<Rightarrow> json \<Rightarrow> commit \<Rightarrow> string option"

fun deliver_rows ::
    "(string \<Rightarrow> json option) \<Rightarrow> deliverer \<Rightarrow> retry_policy \<Rightarrow> int \<Rightarrow> (delivery_row \<times> event_row) list \<Rightarrow>
     outbox \<Rightarrow> outbox \<times> outbox_error option" where
  "deliver_rows jp del rp now_ms [] ob = (ob, None)"
| "deliver_rows jp del rp now_ms ((d, e) # rest) ob =
     (if d_subscriber d \<notin> set (map sub_id (ob_subscribers ob))
      then deliver_rows jp del rp now_ms rest (fst (mark_removed now_ms (Some (d_seq d)) (d_subscriber d) ob))
      else case read_persisted_commit jp (e_payload_version e) (e_commit e) of
        Inl err \<Rightarrow> (ob, Some err)
      | Inr c \<Rightarrow> deliver_rows jp del rp now_ms rest
          (settle_delivery rp now_ms d (del (d_subscriber d) (d_payload d) c) ob))"

definition deliver_runnable ::
    "(string \<Rightarrow> json option) \<Rightarrow> effects \<Rightarrow> deliverer \<Rightarrow> retry_policy \<Rightarrow> int \<Rightarrow> outbox \<Rightarrow>
     outbox \<times> outbox_error option" where
  "deliver_runnable jp eff del rp now_ms ob =
     (let ob1 = fst (publish_pending jp eff ob)
      in deliver_rows jp del rp now_ms (runnable now_ms ob1) ob1)"

section \<open>Boot and pruning\<close>

definition reconcile_removed_subscribers :: "int \<Rightarrow> outbox \<Rightarrow> outbox \<times> nat" where
  "reconcile_removed_subscribers now_ms ob =
     fold (\<lambda>sub (o1, n).
         if sub \<in> set (map sub_id (ob_subscribers o1)) then (o1, n)
         else case mark_removed now_ms None sub o1 of (o2, k) \<Rightarrow> (o2, n + k))
       (remdups (map d_subscriber (select_all (\<lambda>d. d_disposition d = Pending) (ob_deliveries ob)))) (ob, 0)"

definition settled :: "outbox \<Rightarrow> string \<Rightarrow> event_row \<Rightarrow> bool" where
  "settled ob cutoff e =
     (e_published e \<and> e_committed_at e < cutoff \<and>
      e_seq e \<notin> set (map d_seq (select_all (\<lambda>d. d_disposition d = Pending) (ob_deliveries ob))))"

definition prune_settled :: "int \<Rightarrow> int \<Rightarrow> outbox \<Rightarrow> outbox \<times> nat" where
  "prune_settled now_ms retention_seconds ob =
     (let cutoff = iso_text (now_ms - retention_seconds * 1000);
          stale = map e_seq (select_all (settled ob cutoff) (ob_events ob))
      in (ob\<lparr>ob_deliveries := delete_where (\<lambda>d. d_seq d \<in> set stale) (ob_deliveries ob),
             ob_events := delete_where (\<lambda>e. e_seq e \<in> set stale) (ob_events ob)\<rparr>,
          length stale))"

definition commit_sequence :: "outbox \<Rightarrow> nat" where
  "commit_sequence ob = foldl max 0 (map e_seq (ob_events ob))"

definition pending_event_count :: "outbox \<Rightarrow> nat" where
  "pending_event_count ob = affected (\<lambda>e. \<not> e_published e) (ob_events ob)"

section \<open>Histories\<close>

inductive outbox_step :: "retry_policy \<Rightarrow> outbox \<Rightarrow> outbox \<Rightarrow> bool" for rp where
  register: "register_subscriber s ob = Inr ob' \<Longrightarrow> outbox_step rp ob ob'"
| commit: "enqueue given c ob = Inr (ob', c') \<Longrightarrow> outbox_step rp ob ob'"
| publish: "publish_one jp eff sq ob = Inr ob' \<Longrightarrow> outbox_step rp ob ob'"
| replay: "publish_pending jp eff ob = (ob', n) \<Longrightarrow> outbox_step rp ob ob'"
| settle: "settle_delivery rp now_ms row outcome ob = ob' \<Longrightarrow> outbox_step rp ob ob'"
| removed: "mark_removed now_ms sq sub ob = (ob', n) \<Longrightarrow> outbox_step rp ob ob'"
| prune: "prune_settled now_ms ret ob = (ob', n) \<Longrightarrow> outbox_step rp ob ob'"

definition find_delivery :: "nat \<Rightarrow> string \<Rightarrow> outbox \<Rightarrow> delivery_row option" where
  "find_delivery sq sub ob = select_first (\<lambda>d. d_seq d = sq \<and> d_subscriber d = sub) (ob_deliveries ob)"

definition find_event :: "nat \<Rightarrow> outbox \<Rightarrow> event_row option" where
  "find_event sq ob = select_first (\<lambda>e. e_seq e = sq) (ob_events ob)"

lemma publish_rows_deliveries:
  "ob_deliveries (fst (publish_rows jp eff rows acc)) = ob_deliveries (fst acc) \<and>
   ob_next_seq (fst (publish_rows jp eff rows acc)) = ob_next_seq (fst acc)"
proof (induction rows arbitrary: acc)
  case Nil
  then show ?case by simp
next
  case (Cons row rows)
  obtain ob n where acc: "acc = (ob, n)" by (cases acc)
  show ?case
    using Cons.IH by (simp add: acc deliver_event_row_def mark_published_def note_failure_def
        split: option.splits)
qed

lemma publish_deliveries:
  "publish_pending jp eff ob = (ob', n) \<Longrightarrow>
     ob_deliveries ob' = ob_deliveries ob \<and> ob_next_seq ob' = ob_next_seq ob"
  using publish_rows_deliveries[of jp eff _ "(ob, 0)"]
  by (metis fst_conv publish_pending_def)

lemma publish_one_deliveries:
  "publish_one jp eff sq ob = Inr ob' \<Longrightarrow>
     ob_deliveries ob' = ob_deliveries ob \<and> ob_next_seq ob' = ob_next_seq ob"
  by (auto simp: publish_one_def deliver_event_row_def mark_published_def note_failure_def
      split: option.splits)

lemma enqueue_grow:
  assumes "enqueue given c ob = Inr (ob', c')"
  shows "\<exists>ds e. ob_deliveries ob' = ob_deliveries ob @ ds \<and> (\<forall>d \<in> set ds. d_seq d = ob_next_seq ob \<and>
      d_disposition d = Pending \<and> d_attempts d = 0) \<and> ob_events ob' = ob_events ob @ [e] \<and>
      e_seq e = ob_next_seq ob \<and> ob_next_seq ob' = ob_next_seq ob + 1"
  using assms
  by (auto simp: enqueue_def persist_commit_def insert_event_def owed_deliveries_def Let_def
      List.map_filter_def split: option.splits if_splits)

lemma settle_update:
  "\<exists>f. settle_delivery rp n row outcome ob = update_deliveries (pending_attempt row) f ob \<and>
     (\<forall>d. d_seq (f d) = d_seq d \<and> d_subscriber (f d) = d_subscriber d) \<and>
     (\<forall>d. d_attempts (f d) \<le> max (d_attempts d + 1) (d_attempts row + 1)) \<and>
     (\<forall>d. d_disposition (f d) = Pending \<longrightarrow> d_attempts row + 1 < max_attempts rp \<and> d_attempts (f d) = d_attempts row + 1)"
  by (cases outcome; cases "d_attempts row + 1 \<ge> max_attempts rp")
    (auto simp: settle_delivery_def Let_def intro!: exI conjI)

text \<open>What holds of one delivery row in every later state: it is the same row, or gone.\<close>

definition kept :: "nat \<Rightarrow> string \<Rightarrow> delivery_row \<Rightarrow> outbox \<Rightarrow> bool" where
  "kept sq sub d ob = (sq < ob_next_seq ob \<and> (find_delivery sq sub ob = None \<or> find_delivery sq sub ob = Some d))"

lemma find_delivery_update:
  assumes "\<And>d. d_seq (f d) = d_seq d \<and> d_subscriber (f d) = d_subscriber d"
  shows "find_delivery sq sub (update_deliveries p f ob) =
    map_option (\<lambda>d. if p d then f d else d) (find_delivery sq sub ob)"
  using assms by (simp add: find_delivery_def update_deliveries_def select_update_where)

lemma kept_update:
  assumes "kept sq sub d ob" "\<not> p d" "\<And>d. d_seq (f d) = d_seq d \<and> d_subscriber (f d) = d_subscriber d"
  shows "kept sq sub d (update_deliveries p f ob)"
  using assms by (auto simp: kept_def find_delivery_update) (simp_all add: update_deliveries_def)

lemma kept_same:
  "kept sq sub d ob \<Longrightarrow> ob_deliveries ob' = ob_deliveries ob \<Longrightarrow> ob_next_seq ob' = ob_next_seq ob \<Longrightarrow>
   kept sq sub d ob'"
  by (simp add: kept_def find_delivery_def)

lemma select_first_delete:
  assumes "\<And>r. r \<in> set t \<Longrightarrow> p r \<Longrightarrow> q r = b"
  shows "select_first p (delete_where q t) = (if b then None else select_first p t)"
  using assms by (induction t) (auto simp: delete_where_def select_first_None)

lemma kept_step:
  assumes "outbox_step rp ob ob'" "kept sq sub d ob" "d_disposition d \<noteq> Pending"
  shows "kept sq sub d ob'"
  using assms(1)
proof (cases rule: outbox_step.cases)
  case (register s)
  then show ?thesis using assms(2) by (auto simp: register_subscriber_def intro: kept_same split: if_splits)
next
  case (commit given c c')
  from enqueue_grow[OF this] obtain ds where ds: "ob_deliveries ob' = ob_deliveries ob @ ds"
    "\<forall>d \<in> set ds. d_seq d = ob_next_seq ob" "ob_next_seq ob' = ob_next_seq ob + 1" by blast
  have "select_first (\<lambda>d. d_seq d = sq \<and> d_subscriber d = sub) ds = None"
    using ds(2) assms(2) by (auto simp: select_first_None kept_def)
  then show ?thesis
    using assms(2) ds by (auto simp: kept_def find_delivery_def select_first_append)
next
  case (publish jp eff sq')
  then show ?thesis using publish_one_deliveries kept_same assms(2) by blast
next
  case (replay jp eff n)
  then show ?thesis using publish_deliveries kept_same assms(2) by blast
next
  case (settle n row outcome)
  obtain f where "ob' = update_deliveries (pending_attempt row) f ob"
    "\<forall>d. d_seq (f d) = d_seq d \<and> d_subscriber (f d) = d_subscriber d"
    using settle_update settle by metis
  then show ?thesis using kept_update[OF assms(2)] assms(3) by (simp add: pending_attempt_def)
next
  case (removed n sq' sub' k)
  then show ?thesis
    using kept_update[OF assms(2)] assms(3) by (auto simp: mark_removed_def Let_def)
next
  case (prune n ret k)
  define stale where "stale = map e_seq (select_all (settled ob (iso_text (n - ret * 1000))) (ob_events ob))"
  have ob': "ob_deliveries ob' = delete_where (\<lambda>d. d_seq d \<in> set stale) (ob_deliveries ob)"
    using prune unfolding prune_settled_def Let_def stale_def[symmetric] by auto
  have "find_delivery sq sub ob' = (if sq \<in> set stale then None else find_delivery sq sub ob)"
    unfolding find_delivery_def ob' by (rule select_first_delete) auto
  then show ?thesis using assms(2) prune by (auto simp: kept_def prune_settled_def Let_def)
qed

lemma kept_steps:
  "(outbox_step rp)\<^sup>*\<^sup>* ob ob' \<Longrightarrow> kept sq sub d ob \<Longrightarrow> d_disposition d \<noteq> Pending \<Longrightarrow> kept sq sub d ob'"
  by (induction rule: rtranclp_induct) (auto intro: kept_step)

definition attempts_bounded :: "retry_policy \<Rightarrow> outbox \<Rightarrow> bool" where
  "attempts_bounded rp ob = (\<forall>d \<in> set (ob_deliveries ob). d_attempts d \<le> max_attempts rp \<and>
     (d_disposition d = Pending \<longrightarrow> d_attempts d < max_attempts rp))"

lemma attempts_step:
  assumes "outbox_step rp ob ob'" "attempts_bounded rp ob" "0 < max_attempts rp"
  shows "attempts_bounded rp ob'"
  using assms(1)
proof (cases rule: outbox_step.cases)
  case (register s)
  then show ?thesis using assms(2) by (auto simp: register_subscriber_def attempts_bounded_def split: if_splits)
next
  case (commit given c c')
  from enqueue_grow[OF this] show ?thesis using assms(2,3) by (auto simp: attempts_bounded_def)
next
  case (publish jp eff sq')
  then show ?thesis using publish_one_deliveries assms(2) by (auto simp: attempts_bounded_def)
next
  case (replay jp eff n)
  then show ?thesis using publish_deliveries assms(2) by (auto simp: attempts_bounded_def)
next
  case (settle n row outcome)
  obtain f where f: "ob' = update_deliveries (pending_attempt row) f ob"
    "\<forall>d. d_attempts (f d) \<le> max (d_attempts d + 1) (d_attempts row + 1)"
    "\<forall>d. d_disposition (f d) = Pending \<longrightarrow> d_attempts row + 1 < max_attempts rp \<and> d_attempts (f d) = d_attempts row + 1"
    using settle_update settle by metis
  have "d_attempts (f d) \<le> max_attempts rp" if "d \<in> set (ob_deliveries ob)" "pending_attempt row d" for d
  proof -
    have "d_attempts d = d_attempts row" "d_attempts d < max_attempts rp"
      using that assms(2) by (auto simp: attempts_bounded_def pending_attempt_def)
    then show ?thesis using f(2)[rule_format, of d] by simp
  qed
  then show ?thesis
    using f(1,3) assms(2) by (auto simp: attempts_bounded_def update_deliveries_def update_where_def)
next
  case (removed n sq' sub' k)
  then show ?thesis
    using assms(2) by (auto simp: mark_removed_def Let_def attempts_bounded_def update_deliveries_def update_where_def)
next
  case (prune n ret k)
  then show ?thesis
    using assms(2) by (auto simp: prune_settled_def Let_def attempts_bounded_def delete_where_def)
qed

lemma attempts_steps:
  "(outbox_step rp)\<^sup>*\<^sup>* ob ob' \<Longrightarrow> attempts_bounded rp ob \<Longrightarrow> 0 < max_attempts rp \<Longrightarrow> attempts_bounded rp ob'"
  by (induction rule: rtranclp_induct) (auto intro: attempts_step)

section \<open>Replaying publications\<close>

definition publish_effect :: "(string \<Rightarrow> json option) \<Rightarrow> effects \<Rightarrow> event_row \<Rightarrow> event_row \<Rightarrow> event_row" where
  "publish_effect jp eff row r =
     (case event_failure jp eff row of
        None \<Rightarrow> r\<lparr>e_published := True\<rparr>
      | Some m \<Rightarrow> r\<lparr>e_publish_attempts := e_publish_attempts r + 1, e_last_error := Some m\<rparr>)"

lemma publish_effect_seq [simp]: "e_seq (publish_effect jp eff row r) = e_seq r"
  by (simp add: publish_effect_def split: option.splits)

lemma publish_rows_find:
  assumes "distinct (map e_seq rows)"
  shows "find_event sq (fst (publish_rows jp eff rows (ob, n))) =
    (case select_first (\<lambda>r. e_seq r = sq) rows of
       None \<Rightarrow> find_event sq ob
     | Some row \<Rightarrow> map_option (publish_effect jp eff row) (find_event sq ob)) \<and>
    snd (publish_rows jp eff rows (ob, n)) = n + affected (\<lambda>r. event_failure jp eff r = None) rows"
  using assms
proof (induction rows arbitrary: ob n)
  case Nil
  then show ?case by (simp add: affected_def)
next
  case (Cons row rows)
  define ob1 where "ob1 = ob\<lparr>ob_events := update_where (\<lambda>r. e_seq r = e_seq row) (publish_effect jp eff row) (ob_events ob)\<rparr>"
  have step: "publish_rows jp eff (row # rows) (ob, n) =
      publish_rows jp eff rows (ob1, if event_failure jp eff row = None then n + 1 else n)"
    by (cases "event_failure jp eff row")
      (simp_all add: deliver_event_row_def mark_published_def note_failure_def ob1_def publish_effect_def[abs_def])
  have find1: "find_event sq ob1 =
      (if e_seq row = sq then map_option (publish_effect jp eff row) (find_event sq ob) else find_event sq ob)"
    by (cases "select_first (\<lambda>e. e_seq e = sq) (ob_events ob)")
      (auto simp: find_event_def ob1_def select_update_where dest: select_first_SomeD)
  have none: "select_first (\<lambda>r. e_seq r = sq) rows = None" if "e_seq row = sq"
    using Cons.prems that by (auto simp: select_first_None image_iff)
  show ?case
    using Cons.IH[of ob1] Cons.prems none
    by (auto simp: step find1 affected_def split: option.splits simp del: publish_rows.simps)
qed

lemma find_event_unpublished:
  assumes "keyed e_seq (ob_events ob)" "find_event sq ob = Some e"
  shows "select_first (\<lambda>r. e_seq r = sq) (sort_key e_seq (select_all (\<lambda>r. \<not> e_published r) (ob_events ob))) =
    (if e_published e then None else Some e)"
proof -
  let ?rows = "sort_key e_seq (select_all (\<lambda>r. \<not> e_published r) (ob_events ob))"
  have e: "e \<in> set (ob_events ob)" "e_seq e = sq"
    using assms(2) by (auto simp: find_event_def dest: select_first_SomeD)
  have k: "keyed e_seq ?rows"
    using assms(1) by (auto simp: keyed_def select_all_def distinct_map intro: inj_on_subset)
  show ?thesis
  proof (cases "e_published e")
    case True
    then show ?thesis
      using e assms(1) by (auto simp: select_first_None select_all_def dest: keyed_unique)
  next
    case False
    then have "e \<in> set ?rows" using e by (simp add: select_all_def)
    from keyed_select[OF k this] show ?thesis using e False by simp
  qed
qed

section \<open>Properties\<close>

definition empty_outbox :: outbox where
  "empty_outbox = \<lparr>ob_events = [], ob_deliveries = [], ob_next_seq = 1, ob_fresh = 0, ob_subscribers = []\<rparr>"

text \<open>
  C33. A delivery is settled once: from any state, a row that has left \<open>pending\<close> is never
  changed by any later enqueue, publication, settlement from a stale read, removal or
  pruning (it is the same row or has been pruned), and from an empty outbox no delivery
  is attempted more often than the retry bound, a pending one strictly less.
\<close>

theorem delivery_settled_once:
  assumes "find_delivery sq sub ob = Some d" "d_disposition d \<noteq> Pending" "sq < ob_next_seq ob"
    and "(outbox_step rp)\<^sup>*\<^sup>* ob ob'" and "(outbox_step rp)\<^sup>*\<^sup>* empty_outbox ob" and "0 < max_attempts rp"
  shows "find_delivery sq sub ob' \<in> {None, Some d} \<and>
    (\<forall>x \<in> set (ob_deliveries ob'). d_attempts x \<le> max_attempts rp \<and>
       (d_disposition x = Pending \<longrightarrow> d_attempts x < max_attempts rp))"
proof -
  have "kept sq sub d ob" using assms(1,3) by (simp add: kept_def)
  then have "find_delivery sq sub ob' \<in> {None, Some d}"
    using kept_steps[OF assms(4) _ assms(2)] by (auto simp: kept_def)
  moreover have "attempts_bounded rp empty_outbox" by (simp add: attempts_bounded_def empty_outbox_def)
  then have "attempts_bounded rp ob'"
    using attempts_steps[OF rtranclp_trans[OF assms(5,4)]] assms(6) by blast
  ultimately show ?thesis unfolding attempts_bounded_def by blast
qed

definition sample_commit :: commit where
  "sample_commit = \<lparr>c_id = ''m1'', c_issuer = ''as'', c_prior_state = None, c_state = Active,
     c_termination = None, c_version = 1, c_committed_at = ''1970-01-01T00:00:01.000Z'',
     c_expires_at = ''1970-01-02T00:00:01.000Z'', c_event_id = [], c_authority_changed = False,
     c_containment_version = None, c_schedule = None, c_applied_schedule = None,
     c_created_at = None, c_client_id = None\<rparr>"

definition sample_registered :: outbox where
  "sample_registered = empty_outbox\<lparr>ob_subscribers := [\<lparr>sub_id = ''sub'', sub_capture = \<lambda>_. Some JNull\<rparr>]\<rparr>"

definition sample_enqueued :: outbox where
  "sample_enqueued = (case enqueue None sample_commit sample_registered of Inr (ob, _) \<Rightarrow> ob | Inl _ \<Rightarrow> empty_outbox)"

definition sample_removed :: outbox where
  "sample_removed = fst (mark_removed 9 None ''sub'' sample_enqueued)"

lemma sample_reached: "(outbox_step rp)\<^sup>*\<^sup>* empty_outbox sample_removed"
proof -
  have 1: "outbox_step rp empty_outbox sample_registered"
    by (rule outbox_step.register[of "\<lparr>sub_id = ''sub'', sub_capture = \<lambda>_. Some JNull\<rparr>"])
      (simp add: register_subscriber_def empty_outbox_def sample_registered_def)
  have 2: "outbox_step rp sample_registered sample_enqueued"
  proof -
    have "\<exists>c'. enqueue None sample_commit sample_registered = Inr (sample_enqueued, c')"
      by (simp add: sample_enqueued_def enqueue_def persist_commit_def insert_event_def
          sample_registered_def empty_outbox_def Let_def)
    then show ?thesis by (auto intro: outbox_step.commit)
  qed
  have 3: "outbox_step rp sample_enqueued sample_removed"
    by (rule outbox_step.removed[of 9 None "''sub''" _ _ "snd (mark_removed 9 None ''sub'' sample_enqueued)"])
      (simp add: sample_removed_def)
  from 1 2 3 show ?thesis by (meson rtranclp.rtrancl_into_rtrancl rtranclp.rtrancl_refl)
qed

theorem delivery_settled_once_witness:
  "find_delivery 1 ''sub'' (settle_delivery default_retry 10 ((the (find_delivery 1 ''sub'' sample_removed))
     \<lparr>d_disposition := Pending\<rparr>) None sample_removed) \<in> {None, find_delivery 1 ''sub'' sample_removed}"
proof -
  let ?row = "(the (find_delivery 1 ''sub'' sample_removed))\<lparr>d_disposition := Pending\<rparr>"
  have "map_option d_disposition (find_delivery 1 ''sub'' sample_removed) = Some SubscriberRemoved"
    by code_simp
  then obtain d where d: "find_delivery 1 ''sub'' sample_removed = Some d" "d_disposition d = SubscriberRemoved"
    by auto
  have n: "1 < ob_next_seq sample_removed" by code_simp
  have "(outbox_step default_retry)\<^sup>*\<^sup>* sample_removed (settle_delivery default_retry 10 ?row None sample_removed)"
    by (rule r_into_rtranclp, rule outbox_step.settle, rule refl)
  from delivery_settled_once[OF d(1) _ n this sample_reached] d show ?thesis
    by (simp add: default_retry_def)
qed

text \<open>
  Replaying publications is exact: an event already published is left alone; an
  unpublished one becomes published exactly when its payload reads, its owed cascade
  re-runs and the subscriber chain accepts it, and otherwise stays unpublished with
  the attempt counted and the error recorded; one failing event never stops the
  others; and the number returned is the number accepted.
\<close>

theorem publish_pending_exact:
  assumes "keyed e_seq (ob_events ob)" "find_event sq ob = Some e"
  shows "find_event sq (fst (publish_pending jp eff ob)) =
      Some (if e_published e then e
            else case event_failure jp eff e of
              None \<Rightarrow> e\<lparr>e_published := True\<rparr>
            | Some m \<Rightarrow> e\<lparr>e_publish_attempts := e_publish_attempts e + 1, e_last_error := Some m\<rparr>) \<and>
    snd (publish_pending jp eff ob) =
      length (filter (\<lambda>r. \<not> e_published r \<and> event_failure jp eff r = None) (ob_events ob))"
proof -
  let ?rows = "sort_key e_seq (select_all (\<lambda>r. \<not> e_published r) (ob_events ob))"
  have d: "distinct (map e_seq ?rows)"
    using assms(1) by (auto simp: keyed_def select_all_def distinct_map intro: inj_on_subset)
  have "length (filter (\<lambda>r. event_failure jp eff r = None) ?rows) =
      length (filter (\<lambda>r. \<not> e_published r \<and> event_failure jp eff r = None) (ob_events ob))"
    by (simp add: select_all_def filter_sort conj_commute)
  then show ?thesis
    using publish_rows_find[OF d, of sq jp eff ob 0] find_event_unpublished[OF assms] assms(2)
    by (simp add: publish_pending_def publish_effect_def affected_def split: option.splits)
qed

text \<open>
  Nothing owed is pruned: pruning keeps every event that is unpublished or still
  has a pending delivery, together with all its deliveries, whatever the horizon.
\<close>

theorem prune_keeps_owed_work:
  assumes "find_event sq ob = Some e"
    and "\<not> e_published e \<or> (\<exists>d \<in> set (ob_deliveries ob). d_seq d = sq \<and> d_disposition d = Pending)"
    and "keyed e_seq (ob_events ob)"
  shows "find_event sq (fst (prune_settled now_ms ret ob)) = Some e \<and>
    filter (\<lambda>d. d_seq d = sq) (ob_deliveries (fst (prune_settled now_ms ret ob))) =
    filter (\<lambda>d. d_seq d = sq) (ob_deliveries ob)"
proof -
  define stale where
    "stale = map e_seq (select_all (settled ob (iso_text (now_ms - ret * 1000))) (ob_events ob))"
  have e: "e \<in> set (ob_events ob)" "e_seq e = sq"
    using assms(1) by (auto simp: find_event_def dest: select_first_SomeD)
  have "sq \<notin> set stale"
  proof
    assume "sq \<in> set stale"
    then obtain r where r: "r \<in> set (ob_events ob)" "e_seq r = sq" "settled ob (iso_text (now_ms - ret * 1000)) r"
      by (auto simp: stale_def select_all_def)
    then have "r = e" using keyed_unique[OF assms(3) r(1) e(1)] e(2) by simp
    with r(3) assms(2) e show False by (auto simp: settled_def select_all_def image_iff)
  qed
  moreover have p: "fst (prune_settled now_ms ret ob) =
      ob\<lparr>ob_deliveries := delete_where (\<lambda>d. d_seq d \<in> set stale) (ob_deliveries ob),
         ob_events := delete_where (\<lambda>e. e_seq e \<in> set stale) (ob_events ob)\<rparr>"
    by (simp add: prune_settled_def Let_def stale_def)
  ultimately have "find_event sq (fst (prune_settled now_ms ret ob)) = find_event sq ob"
    unfolding find_event_def p
    by (simp, subst select_first_delete[where b = False]) auto
  moreover have "filter (\<lambda>d. d_seq d = sq) (delete_where (\<lambda>d. d_seq d \<in> set stale) (ob_deliveries ob)) =
      filter (\<lambda>d. d_seq d = sq) (ob_deliveries ob)"
    using \<open>sq \<notin> set stale\<close> by (auto simp: delete_where_def intro: filter_cong)
  ultimately show ?thesis using assms(1) by (simp add: p)
qed

definition sample_effects :: effects where
  "sample_effects = (\<lambda>c. if c_id c = ''m1'' then None else Some ''down'', \<lambda>_. None)"

theorem publish_pending_exact_witness:
  "map_option e_published (find_event 1 (fst (publish_pending (\<lambda>_. None) sample_effects sample_removed))) = Some True"
proof -
  have k: "keyed e_seq (ob_events sample_removed)" by code_simp
  have "map_option (\<lambda>e. (e_published e, event_failure (\<lambda>_. None) sample_effects e)) (find_event 1 sample_removed)
      = Some (False, None)" by code_simp
  then obtain e where "find_event 1 sample_removed = Some e" "\<not> e_published e"
    "event_failure (\<lambda>_. None) sample_effects e = None" by auto
  with publish_pending_exact[OF k this(1), of "\<lambda>_. None" sample_effects] show ?thesis by simp
qed

theorem prune_keeps_owed_work_witness:
  "find_event 1 (fst (prune_settled 99999999999 10 sample_removed)) \<noteq> None"
proof -
  have k: "keyed e_seq (ob_events sample_removed)" by code_simp
  have "map_option e_published (find_event 1 sample_removed) = Some False" by code_simp
  then obtain e where "find_event 1 sample_removed = Some e" "\<not> e_published e" by auto
  with prune_keeps_owed_work[OF this(1) _ k, of 99999999999 10] show ?thesis by simp
qed

end
