(* ===== verification/Kernel_State.thy ===== *)
theory Kernel_State
  imports Tombstones Delegation_Families Lifecycle_Outbox
begin

text \<open>
  The kernel's database and the primitives every operation of
  \<^verbatim>\<open>services/authorization-server/src/kernel/kernel.ts\<close> is built from: the row
  lookups and \<open>emitCommit\<close>, which writes the outbox event, the continuation root of an
  activation, and for a terminal commit the tombstone and the end of the Mission's
  lineages, all in the state write's transaction.

  A thrown error is a value of \<open>kernel_error\<close>.  A function that runs inside one
  transaction answers \<open>kernel_error + kernel \<times> 'a\<close>: on \<open>Inl\<close> the transaction is
  rolled back, so its caller keeps the kernel it had.  A function that may commit and
  then throw answers \<open>kernel \<times> (kernel_error + 'a)\<close>.  The clock is read once per
  operation; the after-commit publication of an event is the separate step
  \<open>publish_one\<close> of the outbox.
\<close>

datatype kernel_error =
    NotFound string
  | Conflict string
  | StaleVersion
  | StateUnavailable string
  | GateError string
  | InvalidCall string
  | SqlConstraint
  | IdReuse string
  | ExpiryPassed string
  | SubtreeChanged string
  | OutOfFuel

record kernel =
  missions :: "mission table"
  k_outbox :: outbox
  k_tombstones :: tombstones
  continuations :: continuation_db
  delegation_families :: families
  bound_grants :: "(string \<times> string) table"
  clock :: int
  tombstone_retention :: int

definition get_mission :: "string \<Rightarrow> kernel \<Rightarrow> mission option" where
  "get_mission mid k = select_first (\<lambda>m. m_id m = mid) (missions k)"

definition must_get :: "string \<Rightarrow> kernel \<Rightarrow> kernel_error + mission" where
  "must_get mid k = (case get_mission mid k of None \<Rightarrow> Inl (NotFound mid) | Some m \<Rightarrow> Inr m)"

definition find_children :: "string \<Rightarrow> kernel \<Rightarrow> mission list" where
  "find_children parent k = select_all (\<lambda>m. m_parent m = Some parent) (missions k)"

definition find_by_grant :: "string \<Rightarrow> kernel \<Rightarrow> mission option" where
  "find_by_grant g k = select_first (\<lambda>m. m_grant_id m = Some g) (missions k)"

definition update_missions :: "(mission \<Rightarrow> bool) \<Rightarrow> (mission \<Rightarrow> mission) \<Rightarrow> kernel \<Rightarrow> kernel" where
  "update_missions p f k = k\<lparr>missions := update_where p f (missions k)\<rparr>"

section \<open>Emitting a commit\<close>

record commit_extra =
  x_schedule :: "schedule_request option"
  x_applied :: "suspension_schedule option"

definition no_extra :: commit_extra where
  "no_extra = \<lparr>x_schedule = None, x_applied = None\<rparr>"

definition commit_of ::
    "mission \<Rightarrow> mission_state option \<Rightarrow> bool \<Rightarrow> string \<Rightarrow> commit_extra \<Rightarrow> commit" where
  "commit_of r prior authority_changed committed_at x =
     \<lparr>c_id = m_id r, c_issuer = m_issuer r, c_prior_state = prior, c_state = m_state r,
      c_termination = (if m_state r = Terminated then m_termination r else None),
      c_version = m_version r, c_committed_at = committed_at, c_expires_at = m_expires_at r,
      c_event_id = [], c_authority_changed = authority_changed,
      c_containment_version = map_option containment_version (m_containment r),
      c_schedule = x_schedule x,
      c_applied_schedule = map_option (\<lambda>s. (generation s, committing_party s)) (x_applied x),
      c_created_at = Some (m_created_at r), c_client_id = Some (m_client_id r)\<rparr>"

definition end_lineages :: "mission \<Rightarrow> commit \<Rightarrow> kernel \<Rightarrow> kernel" where
  "end_lineages r c k =
     k\<lparr>k_tombstones := record_tombstone (tombstone_retention k)
         \<lparr>ti_issuer = m_issuer r, ti_mission_id = m_id r, ti_terminal_state = m_state r,
          ti_reason = map_option t_reason (m_termination r), ti_termination = m_termination r,
          ti_final_version = m_version r, ti_transition_at = c_committed_at c,
          ti_commit_event_id = c_event_id c\<rparr> (k_tombstones k),
       continuations := terminate_continuations (m_id r) (continuations k),
       delegation_families := terminate_families (m_id r) (delegation_families k)\<rparr>"

definition emit_commit ::
    "mission \<Rightarrow> mission_state option \<Rightarrow> bool \<Rightarrow> string \<Rightarrow> commit_extra \<Rightarrow> kernel \<Rightarrow> kernel_error + kernel" where
  "emit_commit r prior authority_changed committed_at x k =
     (case enqueue None (commit_of r prior authority_changed committed_at x) (k_outbox k) of
        Inl _ \<Rightarrow> Inl SqlConstraint
      | Inr (ob, persisted) \<Rightarrow>
          let k1 = k\<lparr>k_outbox := ob\<rparr>
          in case (if is_activating_commit persisted
                   then root_grant (clock k) (c_id persisted) (c_issuer persisted)
                          (the (c_client_id persisted)) (the (c_created_at persisted)) (continuations k1)
                   else Some (continuations k1)) of
               None \<Rightarrow> Inl SqlConstraint
             | Some cs \<Rightarrow>
                 let k2 = k1\<lparr>continuations := cs\<rparr>
                 in Inr (if m_state r = Terminated then end_lineages r persisted k2 else k2))"

section \<open>What holds of every kernel\<close>

text \<open>\<open>content\<close> is what neither a lifecycle operation nor a containment changes after the
  record is created; \<open>life\<close> is what the lifecycle operations write.\<close>

definition content :: "mission \<Rightarrow> mission" where
  "content m = m\<lparr>m_state := Active, m_termination := None, m_version := 0, m_projected_from := None,
     m_schedule := None, m_containment := None, m_discharged := [], m_grant_id := None\<rparr>"

definition life ::
    "mission \<Rightarrow> mission_state \<times> mission_termination option \<times> int \<times> mission_state option \<times> suspension_schedule option" where
  "life m = (m_state m, m_termination m, m_version m, m_projected_from m, m_schedule m)"

lemma content_simps [simp]:
  "content (m\<lparr>m_state := s\<rparr>) = content m" "content (m\<lparr>m_termination := tm\<rparr>) = content m"
  "content (m\<lparr>m_version := v\<rparr>) = content m" "content (m\<lparr>m_projected_from := p\<rparr>) = content m"
  "content (m\<lparr>m_schedule := sc\<rparr>) = content m" "content (m\<lparr>m_containment := co\<rparr>) = content m"
  "content (m\<lparr>m_discharged := ds\<rparr>) = content m"
  "content (m\<lparr>m_grant_id := g\<rparr>) = content m"
  by (simp_all add: content_def)

lemma content_fields:
  "content m = content m' \<Longrightarrow> m_id m = m_id m' \<and> m_parent m = m_parent m' \<and> m_expires_at m = m_expires_at m' \<and>
     m_issuer m = m_issuer m' \<and> m_authority_set m = m_authority_set m' \<and> m_predecessor m = m_predecessor m' \<and>
     m_derivation_limit m = m_derivation_limit m' \<and> m_derivation_count m = m_derivation_count m'"
  by (cases m; cases m') (simp add: content_def)

abbreviation mission_keyed :: "kernel \<Rightarrow> bool" where
  "mission_keyed k \<equiv> keyed m_id (missions k)"

text \<open>Every event identity was drawn from the outbox's random source.\<close>

definition outbox_fresh :: "outbox \<Rightarrow> bool" where
  "outbox_fresh ob = (\<forall>e \<in> set (ob_events ob). \<exists>i < ob_fresh ob. e_event_id e = ''set_'' @ nat_text i)"

lemma nat_text_inject [simp]: "nat_text i = nat_text j \<longleftrightarrow> i = j"
  by (metis nat_text_parse)

lemma enqueue_fresh:
  assumes "outbox_fresh ob"
  shows "\<exists>ob' c'. enqueue None c ob = Inr (ob', c') \<and> outbox_fresh ob' \<and>
    c' = c\<lparr>c_event_id := ''set_'' @ nat_text (ob_fresh ob)\<rparr> \<and>
    (\<exists>e. ob_events ob' = ob_events ob @ [e] \<and> sc_rest (e_commit e) = c' \<and> \<not> e_published e)"
proof -
  have "''set_'' @ nat_text (ob_fresh ob) \<notin> set (map e_event_id (ob_events ob))"
    using assms by (auto simp: outbox_fresh_def)
  then show ?thesis
    using assms by (auto simp: enqueue_def persist_commit_def insert_event_def Let_def outbox_fresh_def
        current_commit_def less_Suc_eq)
qed

lemma emit_commit_ok:
  assumes "outbox_fresh (k_outbox k)" "prior \<noteq> None"
  shows "\<exists>k'. emit_commit r prior ch at_text x k = Inr k' \<and> outbox_fresh (k_outbox k') \<and>
    missions k' = missions k \<and> clock k' = clock k"
proof -
  from enqueue_fresh[OF assms(1)] obtain ob c where
    e: "enqueue None (commit_of r prior ch at_text x) (k_outbox k) = Inr (ob, c)" "outbox_fresh ob"
      "c_prior_state c = prior"
    by (fastforce simp: commit_of_def)
  then have "\<not> is_activating_commit c" using assms(2) by (simp add: is_activating_commit_def)
  then show ?thesis using e by (simp add: emit_commit_def end_lineages_def Let_def)
qed

lemma emit_commit_frame:
  "emit_commit r prior ch at_text x k = Inr k' \<Longrightarrow> missions k' = missions k \<and> clock k' = clock k"
  by (auto simp: emit_commit_def end_lineages_def Let_def split: sum.splits option.splits if_splits)

section \<open>Sealed Missions\<close>

text \<open>What a terminal commit leaves beside the row: its tombstone, and no live lineage.\<close>

definition clock_ok :: "kernel \<Rightarrow> bool" where
  "clock_ok k = (date_parse (iso_text (clock k)) \<noteq> None)"

definition sealed_row :: "kernel \<Rightarrow> mission \<Rightarrow> bool" where
  "sealed_row k m = (tombstone_exists (m_issuer m) (m_id m) (k_tombstones k) \<and>
     list_all (\<lambda>h. h_mission_id h = m_id m \<longrightarrow> h_state h = CTerminal) (handles (continuations k)) \<and>
     list_all (\<lambda>a. a_mission_id a = m_id m \<longrightarrow> a_state a = CTerminal) (anchors (continuations k)) \<and>
     list_all (\<lambda>f. f_mission_id f = m_id m \<longrightarrow> f_state f = CTerminal) (delegation_families k))"

definition sealed :: "kernel \<Rightarrow> bool" where
  "sealed k = list_all (\<lambda>m. m_state m = Terminated \<longrightarrow> sealed_row k m) (missions k)"

lemma sealed_row_cong:
  "m_id m = m_id m' \<Longrightarrow> m_issuer m = m_issuer m' \<Longrightarrow> k_tombstones k = k_tombstones k' \<Longrightarrow>
   continuations k = continuations k' \<Longrightarrow> delegation_families k = delegation_families k' \<Longrightarrow>
   sealed_row k m = sealed_row k' m'"
  by (simp add: sealed_row_def)

lemma tombstone_exists_record:
  "tombstone_exists iss mid t \<Longrightarrow> tombstone_exists iss mid (record_tombstone ret i t)"
  using run_tombstone_op_exists[of iss mid t ret "TRecord i"] by simp

lemma tombstone_recorded:
  "date_parse (ti_transition_at i) \<noteq> None \<Longrightarrow>
   tombstone_exists (ti_issuer i) (ti_mission_id i) (record_tombstone ret i t)"
  unfolding tombstone_exists_def record_tombstone_select
  by (auto simp: tombstone_of_def tb_key_def split: option.splits)

lemma end_lineages_keeps: "sealed_row k m \<Longrightarrow> sealed_row (end_lineages r c k) m"
  by (auto simp: sealed_row_def end_lineages_def tombstone_exists_record terminate_continuations_def
      terminate_families_def list_all_iff update_where_def)

lemma end_lineages_seals:
  "date_parse (c_committed_at c) \<noteq> None \<Longrightarrow> m_id m = m_id r \<Longrightarrow> m_issuer m = m_issuer r \<Longrightarrow>
   sealed_row (end_lineages r c k) m"
  using tombstone_recorded[of "\<lparr>ti_issuer = m_issuer r, ti_mission_id = m_id r, ti_terminal_state = m_state r,
      ti_reason = map_option t_reason (m_termination r), ti_termination = m_termination r,
      ti_final_version = m_version r, ti_transition_at = c_committed_at c, ti_commit_event_id = c_event_id c\<rparr>"]
  by (auto simp: sealed_row_def end_lineages_def terminate_continuations_def
      terminate_families_def list_all_iff update_where_def)

lemma enqueue_InrD:
  "enqueue None c ob = Inr (ob', c') \<Longrightarrow> outbox_fresh ob \<Longrightarrow>
   outbox_fresh ob'"
  using enqueue_fresh[of ob c] by auto

lemma enqueue_commit:
  "enqueue None c ob = Inr (ob', c') \<Longrightarrow> c' = c\<lparr>c_event_id := ''set_'' @ nat_text (ob_fresh ob)\<rparr>"
  by (auto simp: enqueue_def persist_commit_def Let_def split: sum.splits)

lemma emit_commit_cases:
  assumes "emit_commit r prior ch tx x k = Inr k'"
  obtains ob c cs where "enqueue None (commit_of r prior ch tx x) (k_outbox k) = Inr (ob, c)"
    "k' = (if m_state r = Terminated then end_lineages r c (k\<lparr>k_outbox := ob, continuations := cs\<rparr>)
           else k\<lparr>k_outbox := ob, continuations := cs\<rparr>)"
    "c_committed_at c = tx" "c_id c = m_id r" "c_prior_state c = prior"
    "cs = continuations k \<or> is_activating_commit c \<and>
       root_grant (clock k) (m_id r) (c_issuer c) (the (c_client_id c)) (the (c_created_at c)) (continuations k) = Some cs"
proof -
  obtain ob c where e: "enqueue None (commit_of r prior ch tx x) (k_outbox k) = Inr (ob, c)"
    using assms by (auto simp: emit_commit_def split: sum.splits)
  have c: "c_committed_at c = tx" "c_id c = m_id r" "c_prior_state c = prior"
    using enqueue_commit[OF e] by (simp_all add: commit_of_def)
  show thesis
  proof (cases "is_activating_commit c")
    case True
    then obtain cs where "root_grant (clock k) (m_id r) (c_issuer c) (the (c_client_id c)) (the (c_created_at c))
        (continuations k) = Some cs"
      "k' = (if m_state r = Terminated then end_lineages r c (k\<lparr>k_outbox := ob, continuations := cs\<rparr>)
           else k\<lparr>k_outbox := ob, continuations := cs\<rparr>)"
      using assms c(2) by (auto simp: emit_commit_def e Let_def split: option.splits)
    then show thesis using that e c True by blast
  next
    case False
    then have "k' = (if m_state r = Terminated
           then end_lineages r c (k\<lparr>k_outbox := ob, continuations := continuations k\<rparr>)
           else k\<lparr>k_outbox := ob, continuations := continuations k\<rparr>)"
      using assms by (auto simp: emit_commit_def e Let_def)
    then show thesis using that e c by blast
  qed
qed

lemma end_lineages_frame [simp]:
  "missions (end_lineages r c k) = missions k" "clock (end_lineages r c k) = clock k"
  "k_outbox (end_lineages r c k) = k_outbox k"
  by (simp_all add: end_lineages_def)

lemma emit_commit_fresh:
  assumes "emit_commit r prior ch tx x k = Inr k'" "outbox_fresh (k_outbox k)"
  shows "outbox_fresh (k_outbox k')"
  using assms(1)
proof (rule emit_commit_cases)
  fix ob c cs
  assume "enqueue None (commit_of r prior ch tx x) (k_outbox k) = Inr (ob, c)"
    "k' = (if m_state r = Terminated then end_lineages r c (k\<lparr>k_outbox := ob, continuations := cs\<rparr>)
           else k\<lparr>k_outbox := ob, continuations := cs\<rparr>)"
  then show ?thesis using enqueue_InrD assms(2) by auto
qed

text \<open>A transition keeps every seal and seals the Mission it terminates.\<close>

lemma emit_commit_seals:
  assumes "emit_commit r (Some st) ch (iso_text (clock k)) x k = Inr k'"
  shows "sealed_row k m \<Longrightarrow> sealed_row k' m"
    "m_state r = Terminated \<Longrightarrow> clock_ok k \<Longrightarrow> m_id m = m_id r \<Longrightarrow> m_issuer m = m_issuer r \<Longrightarrow> sealed_row k' m"
proof -
  obtain ob c cs where e:
    "k' = (if m_state r = Terminated then end_lineages r c (k\<lparr>k_outbox := ob, continuations := cs\<rparr>)
           else k\<lparr>k_outbox := ob, continuations := cs\<rparr>)"
    "c_committed_at c = iso_text (clock k)" "cs = continuations k"
    using assms by (rule emit_commit_cases) (auto simp: is_activating_commit_def)
  have "sealed_row (k\<lparr>k_outbox := ob, continuations := cs\<rparr>) m = sealed_row k m"
    using e(3) by (intro sealed_row_cong) simp_all
  then show "sealed_row k m \<Longrightarrow> sealed_row k' m" using e end_lineages_keeps by auto
  show "m_state r = Terminated \<Longrightarrow> clock_ok k \<Longrightarrow> m_id m = m_id r \<Longrightarrow> m_issuer m = m_issuer r \<Longrightarrow> sealed_row k' m"
    using e by (auto simp: clock_ok_def intro!: end_lineages_seals)
qed

end
