(* ===== verification/Lifecycle.thy ===== *)
theory Lifecycle
  imports Kernel_State
begin

text \<open>
  The Mission lifecycle of
  \<^verbatim>\<open>services/authorization-server/src/kernel/kernel.ts\<close>: observation, the guarded
  state write, the cascade of a termination, the projection of a suspension and its
  restoration on resume, the expiry clock with its due schedules, the requested
  transitions, supersession and the carried terminal transition.

  \<open>setState\<close> re-enters itself for the children it cascades to, projects to or
  restores.  The nesting is counted by a fuel argument: one unit per generation.
  The top-level operations spend one more unit than there are rows, which is enough
  when every parent's row precedes its children's (shown in \<open>Lifecycle_Laws\<close>).
\<close>

section \<open>Schedules\<close>

definition same_schedule :: "suspension_schedule option \<Rightarrow> schedule_request \<Rightarrow> bool" where
  "same_schedule recorded supplied =
     (case recorded of None \<Rightarrow> False
      | Some s \<Rightarrow> on_expiry s = on_expiry supplied \<and>
          date_parse (suspend_until s) \<noteq> None \<and>
          date_parse (suspend_until s) = date_parse (suspend_until supplied))"

text \<open>\<open>Math.min\<close> of the deadline and \<open>expires_at\<close>; no date is no work.\<close>

definition schedule_due_at_ms :: "mission \<Rightarrow> int option" where
  "schedule_due_at_ms r =
     (case (date_parse (case m_schedule r of Some s \<Rightarrow> suspend_until s | None \<Rightarrow> m_expires_at r),
            date_parse (m_expires_at r)) of
        (Some a, Some b) \<Rightarrow> Some (min a b)
      | _ \<Rightarrow> None)"

type_synonym owed = "mission_state \<times> mission_termination option"

definition owed_transition :: "suspension_schedule \<Rightarrow> int \<Rightarrow> owed" where
  "owed_transition s until =
     (case on_expiry s of
        OnResume \<Rightarrow> (Active, None)
      | OnRevoke \<Rightarrow> (Terminated, Some ((bare_termination ''revoked'')
          \<lparr>t_terminated_at := Some (iso_text until)\<rparr>)))"

text \<open>\<open>now\<close> is \<open>None\<close> for the reading \<open>Number.POSITIVE_INFINITY\<close>.  A deadline that is no
  date compares as not after any reading, so it resumes at once; the lifecycle endpoint
  refuses such a deadline, and its \<open>toISOString\<close>, which throws, is \<open>None\<close> here.\<close>

definition due_schedule_transition :: "mission \<Rightarrow> int option \<Rightarrow> owed option" where
  "due_schedule_transition r now_ms =
     (case m_schedule r of
        None \<Rightarrow> None
      | Some s \<Rightarrow>
          if m_state r \<noteq> Suspended then None
          else case date_parse (suspend_until s) of
            None \<Rightarrow> (if on_expiry s = OnResume then Some (Active, None) else None)
          | Some until \<Rightarrow>
              if (case now_ms of Some n \<Rightarrow> until > n | None \<Rightarrow> False) then None
              else Some (owed_transition s until))"

definition observe_due_revoke :: "mission \<Rightarrow> int \<Rightarrow> mission" where
  "observe_due_revoke r now_ms =
     (case due_schedule_transition r (Some now_ms) of
        Some (Terminated, Some t) \<Rightarrow> r\<lparr>m_state := Terminated, m_termination := Some t\<rparr>
      | _ \<Rightarrow> r)"

section \<open>Observation\<close>

fun observe_at :: "nat \<Rightarrow> kernel \<Rightarrow> int \<Rightarrow> bool \<Rightarrow> mission \<Rightarrow> mission" where
  "observe_at depth_left k now_ms due_revoke r =
     (let own0 = observe_expiry r now_ms;
          own = (if due_revoke \<and> m_state own0 \<noteq> Terminated then observe_due_revoke own0 now_ms else own0)
      in if m_state own = Terminated then own
         else case (depth_left, non_empty (m_parent r)) of
           (Suc d, Some p) \<Rightarrow>
             (case get_mission p k of
                None \<Rightarrow> own
              | Some stored \<Rightarrow>
                  (let parent = observe_at d k now_ms due_revoke stored
                   in if m_state parent \<noteq> Terminated then own
                      else own\<lparr>m_state := Terminated,
                               m_termination := Some (parent_terminated_termination parent)\<rparr>))
         | _ \<Rightarrow> own)"

declare observe_at.simps [simp del]

text \<open>\<open>depth > 64\<close> stops the walk: 65 parents are read.\<close>

definition observe :: "kernel \<Rightarrow> mission \<Rightarrow> mission" where
  "observe k r = observe_at 65 k (clock k) False r"

definition observed_record :: "string \<Rightarrow> kernel \<Rightarrow> mission option" where
  "observed_record mid k = map_option (observe k) (get_mission mid k)"

definition observed_for_release :: "string \<Rightarrow> kernel \<Rightarrow> mission option" where
  "observed_for_release mid k = map_option (observe_at 65 k (clock k) True) (get_mission mid k)"

section \<open>The state write\<close>

record set_opts =
  o_projected_from :: "mission_state option"
  o_termination :: "mission_termination option"
  o_schedule :: "schedule_request option"
  o_applied :: "suspension_schedule option"

definition no_opts :: set_opts where
  "no_opts = \<lparr>o_projected_from = None, o_termination = None, o_schedule = None, o_applied = None\<rparr>"

definition schedule_of :: "schedule_request \<Rightarrow> int \<Rightarrow> suspension_schedule" where
  "schedule_of s gen = \<lparr>suspend_until = suspend_until s, on_expiry = on_expiry s,
     committing_party = committing_party s, generation = gen\<rparr>"

text \<open>\<open>WHERE id = ? AND version = ? AND state = ?\<close>.\<close>

definition row_is :: "mission \<Rightarrow> mission \<Rightarrow> bool" where
  "row_is r m = (m_id m = m_id r \<and> m_version m = m_version r \<and> m_state m = m_state r)"

definition committed_termination :: "mission_termination \<Rightarrow> string \<Rightarrow> int \<Rightarrow> mission_termination" where
  "committed_termination t committed_at version =
     t\<lparr>t_terminated_at :=
         (case t_terminated_at t of
            Some x \<Rightarrow> Some x
          | None \<Rightarrow> if t_reason t \<in> set COMMIT_IS_EFFECT_REASONS then Some committed_at else None),
       t_version := Some version\<rparr>"

definition new_schedule :: "mission \<Rightarrow> mission_state \<Rightarrow> set_opts \<Rightarrow> suspension_schedule option" where
  "new_schedule r to opts =
     (if to = Suspended then map_option (\<lambda>s. schedule_of s (m_version r + 1)) (o_schedule opts) else None)"

definition written_row :: "mission \<Rightarrow> mission_state \<Rightarrow> set_opts \<Rightarrow> string \<Rightarrow> mission \<Rightarrow> mission" where
  "written_row r to opts committed_at m =
     (if to = Terminated then
        m\<lparr>m_state := Terminated,
          m_termination := map_option (\<lambda>t. committed_termination t committed_at (m_version r + 1)) (o_termination opts),
          m_schedule := None, m_version := m_version m + 1\<rparr>
      else if o_projected_from opts \<noteq> None \<or> to = Active then
        m\<lparr>m_state := to, m_version := m_version m + 1, m_projected_from := o_projected_from opts,
          m_schedule := new_schedule r to opts\<rparr>
      else m\<lparr>m_state := to, m_version := m_version m + 1, m_schedule := new_schedule r to opts\<rparr>)"

definition write_state :: "mission \<Rightarrow> mission_state \<Rightarrow> set_opts \<Rightarrow> kernel \<Rightarrow> kernel_error + kernel" where
  "write_state r to opts k =
     (if m_state r = Terminated then Inl (Conflict (m_id r))
      else if to = Terminated \<and> o_termination opts = None then Inl (InvalidCall (m_id r))
      else if affected (row_is r) (missions k) \<noteq> 1 then Inl (Conflict (m_id r))
      else
        let committed_at = iso_text (clock k);
            k1 = update_missions (row_is r) (written_row r to opts committed_at) k
        in case get_mission (m_id r) k1 of
          None \<Rightarrow> Inr k1
        | Some fresh \<Rightarrow>
            emit_commit fresh (Some (m_state r)) False committed_at
              \<lparr>x_schedule = (if new_schedule r to opts = None then None
                             else map_option schedule_request.truncate (m_schedule fresh)),
               x_applied = o_applied opts\<rparr> k1)"

section \<open>Children\<close>

fun each_child :: "('c \<Rightarrow> kernel \<Rightarrow> kernel_error + kernel) \<Rightarrow> 'c list \<Rightarrow> kernel \<Rightarrow> kernel_error + kernel" where
  "each_child f [] k = Inr k"
| "each_child f (c # cs) k = (case f c k of Inl e \<Rightarrow> Inl e | Inr k1 \<Rightarrow> each_child f cs k1)"

type_synonym state_setter =
  "mission \<Rightarrow> mission_state \<Rightarrow> set_opts \<Rightarrow> kernel \<Rightarrow> kernel_error + kernel \<times> mission"

definition set_child :: "state_setter \<Rightarrow> mission \<Rightarrow> mission_state \<Rightarrow> set_opts \<Rightarrow> kernel \<Rightarrow> kernel_error + kernel" where
  "set_child ss c to opts k = map_sum id fst (ss c to opts k)"

definition live :: "mission \<Rightarrow> bool" where
  "live m = (m_state m = Active \<or> m_state m = Suspended)"

definition cascade_child :: "state_setter \<Rightarrow> mission \<Rightarrow> int \<Rightarrow> mission \<Rightarrow> kernel \<Rightarrow> kernel_error + kernel" where
  "cascade_child ss terminated now_ms child k =
     (let own = observe_expiry child now_ms
      in set_child ss child Terminated
           (no_opts\<lparr>o_termination :=
              (if m_state own = Terminated \<and> m_termination own \<noteq> None then m_termination own
               else Some (parent_terminated_termination terminated))\<rparr>) k)"

definition cascade_children :: "state_setter \<Rightarrow> string \<Rightarrow> kernel \<Rightarrow> kernel_error + kernel" where
  "cascade_children ss parent_id k =
     (let children = filter live (find_children parent_id k)
      in if children = [] then Inr k
         else case get_mission parent_id k of
           None \<Rightarrow> Inr k
         | Some parent \<Rightarrow>
             let terminated = (if m_state parent = Terminated then parent else observe k parent)
             in if m_state terminated \<noteq> Terminated then Inr k
                else each_child (cascade_child ss terminated (clock k)) children k)"

definition project_suspended_children :: "state_setter \<Rightarrow> string \<Rightarrow> kernel \<Rightarrow> kernel_error + kernel" where
  "project_suspended_children ss parent_id k =
     each_child (\<lambda>child k1.
         if m_state child = Active \<and> m_state (observe_expiry child (clock k)) = Active
         then set_child ss child Suspended (no_opts\<lparr>o_projected_from := Some Active\<rparr>) k1
         else Inr k1)
       (find_children parent_id k) k"

section \<open>The expiry clock\<close>

text \<open>\<open>retries\<close> bounds the re-runs on a row another write moved.\<close>

fun apply_expiry_with :: "state_setter \<Rightarrow> nat \<Rightarrow> mission \<Rightarrow> kernel \<Rightarrow> kernel \<times> (kernel_error + mission)" where
  "apply_expiry_with ss 0 r k = (k, Inl OutOfFuel)"
| "apply_expiry_with ss (Suc retries) r k =
     (let observed = observe k r
      in if m_state observed = Terminated then
           (if m_state r = Terminated \<or> m_termination observed = None then (k, Inr observed)
            else case ss r Terminated (no_opts\<lparr>o_termination := m_termination observed\<rparr>) k of
              Inr (k1, r1) \<Rightarrow> (k1, Inr r1)
            | Inl _ \<Rightarrow> (k, Inr (case get_mission (m_id r) k of
                                  Some current \<Rightarrow> observe k current | None \<Rightarrow> observed)))
         else case due_schedule_transition r (Some (clock k)) of
           None \<Rightarrow> (k, Inr observed)
         | Some (to, tm) \<Rightarrow>
             (case ss r to (no_opts\<lparr>o_termination := tm, o_applied := m_schedule r\<rparr>) k of
                Inr (k1, r1) \<Rightarrow> (k1, Inr r1)
              | Inl _ \<Rightarrow>
                  (case get_mission (m_id r) k of
                     Some current \<Rightarrow>
                       if m_version current \<noteq> m_version r \<or> m_state current \<noteq> m_state r
                       then apply_expiry_with ss retries current k
                       else (k, Inl (StateUnavailable (m_id r)))
                   | None \<Rightarrow> (k, Inl (StateUnavailable (m_id r))))))"

definition EXPIRY_RETRIES :: nat where
  "EXPIRY_RETRIES = 2"

definition restore_projected_child :: "state_setter \<Rightarrow> mission \<Rightarrow> kernel \<Rightarrow> kernel_error + kernel" where
  "restore_projected_child ss found k =
     (case get_mission (m_id found) k of
        None \<Rightarrow> Inr k
      | Some held \<Rightarrow>
          (case m_projected_from held of
             None \<Rightarrow> Inr k
           | Some prior \<Rightarrow>
               if m_state held \<noteq> Suspended then Inr k
               else case apply_expiry_with ss EXPIRY_RETRIES held k of
                 (k1, Inl e) \<Rightarrow> Inl e
               | (k1, Inr child) \<Rightarrow>
                   if m_state child \<noteq> Suspended then Inr k1
                   else set_child ss child prior no_opts k1))"

definition restore_projected_children :: "state_setter \<Rightarrow> string \<Rightarrow> kernel \<Rightarrow> kernel_error + kernel" where
  "restore_projected_children ss parent_id k =
     each_child (restore_projected_child ss) (find_children parent_id k) k"

section \<open>Setting a state\<close>

definition propagate :: "state_setter \<Rightarrow> mission_state \<Rightarrow> string \<Rightarrow> kernel \<Rightarrow> kernel_error + kernel" where
  "propagate ss to mid k =
     (case to of
        Terminated \<Rightarrow> cascade_children ss mid k
      | Suspended \<Rightarrow> project_suspended_children ss mid k
      | Active \<Rightarrow> restore_projected_children ss mid k)"

primrec set_state_n :: "nat \<Rightarrow> state_setter" where
  "set_state_n 0 r to opts k = Inl OutOfFuel"
| "set_state_n (Suc n) r to opts k =
     (case write_state r to opts k of
        Inl e \<Rightarrow> Inl e
      | Inr k1 \<Rightarrow>
          (case propagate (set_state_n n) to (m_id r) k1 of
             Inl e \<Rightarrow> Inl e
           | Inr k2 \<Rightarrow>
               (case must_get (m_id r) k2 of Inl e \<Rightarrow> Inl e | Inr m \<Rightarrow> Inr (k2, m))))"

definition fuel_for :: "kernel \<Rightarrow> nat" where
  "fuel_for k = Suc (length (missions k))"

definition set_state :: state_setter where
  "set_state r to opts k = set_state_n (fuel_for k) r to opts k"

definition apply_expiry :: "mission \<Rightarrow> kernel \<Rightarrow> kernel \<times> (kernel_error + mission)" where
  "apply_expiry r k = apply_expiry_with (set_state_n (fuel_for k)) EXPIRY_RETRIES r k"

text \<open>Its own transaction: a throw rolls it back.\<close>

definition materialize_expiry :: "string \<Rightarrow> kernel \<Rightarrow> kernel_error + kernel \<times> mission" where
  "materialize_expiry mid k =
     (case must_get mid k of
        Inl e \<Rightarrow> Inl e
      | Inr r \<Rightarrow> (case apply_expiry r k of (k1, Inl e) \<Rightarrow> Inl e | (k1, Inr m) \<Rightarrow> Inr (k1, m)))"

section \<open>Requested transitions\<close>

definition replace_schedule :: "mission \<Rightarrow> schedule_request \<Rightarrow> kernel \<Rightarrow> kernel_error + kernel \<times> mission" where
  "replace_schedule r s k =
     (let nxt = schedule_of s (m_version r + 1);
          here = (\<lambda>m. m_id m = m_id r \<and> m_version m = m_version r \<and> m_state m = Suspended);
          k1 = update_missions here (\<lambda>m. m\<lparr>m_schedule := Some nxt, m_version := m_version m + 1\<rparr>) k
      in if affected here (missions k) \<noteq> 1 then Inl (Conflict (m_id r))
         else case must_get (m_id r) k1 of
           Inl e \<Rightarrow> Inl e
         | Inr fresh \<Rightarrow>
             (case emit_commit fresh (Some Suspended) False (iso_text (clock k))
                 \<lparr>x_schedule = map_option schedule_request.truncate (m_schedule fresh), x_applied = None\<rparr> k1 of
                Inl e \<Rightarrow> Inl e | Inr k2 \<Rightarrow> Inr (k2, fresh)))"

definition commit_or :: "kernel \<Rightarrow> kernel_error + kernel \<times> 'a \<Rightarrow> kernel \<times> (kernel_error + 'a)" where
  "commit_or k r = (case r of Inl e \<Rightarrow> (k, Inl e) | Inr (k1, x) \<Rightarrow> (k1, Inr x))"

definition transition ::
    "string \<Rightarrow> lifecycle_operation \<Rightarrow> int option \<Rightarrow> schedule_request option \<Rightarrow> kernel \<Rightarrow>
     kernel \<times> (kernel_error + mission)" where
  "transition mid op expected_version schedule k =
     (if schedule \<noteq> None \<and> op \<noteq> Suspend then (k, Inl (InvalidCall mid))
      else case must_get mid k of
        Inl e \<Rightarrow> (k, Inl e)
      | Inr stored \<Rightarrow>
          (case apply_expiry stored k of
             (k1, Inl e) \<Rightarrow> (k1, Inl e)
           | (k1, Inr r) \<Rightarrow>
               let rule = LEGAL_TRANSITIONS op
               in if expected_version \<noteq> None \<and> expected_version \<noteq> Some (m_version r) then (k1, Inl StaleVersion)
                  else if op = Suspend \<and> m_state r = Suspended then
                    (case schedule of
                       Some s \<Rightarrow> if same_schedule (m_schedule r) s then (k1, Inr r)
                                 else commit_or k1 (replace_schedule r s k1)
                     | None \<Rightarrow> (k1, Inr r))
                  else if op \<noteq> Resume \<and> m_state r = rule_to rule \<and>
                          (rule_to rule \<noteq> Terminated \<or> map_option t_reason (m_termination r) = rule_reason rule)
                  then (k1, Inr r)
                  else if m_state r \<notin> set (rule_from rule) then (k1, Inl (Conflict mid))
                  else commit_or k1 (set_state r (rule_to rule)
                         (no_opts\<lparr>o_termination := map_option bare_termination (rule_reason rule),
                                  o_schedule := schedule\<rparr>) k1)))"

datatype fire_outcome = FApplied | FEnded | FSuperseded | FNotDue | FRetry

definition fire_schedule :: "string \<Rightarrow> int \<Rightarrow> kernel \<Rightarrow> kernel_error + kernel \<times> fire_outcome \<times> mission option" where
  "fire_schedule mid gen k =
     (case get_mission mid k of
        None \<Rightarrow> Inr (k, FSuperseded, None)
      | Some stored \<Rightarrow>
          if m_state stored \<noteq> Suspended \<or> map_option generation (m_schedule stored) \<noteq> Some gen
          then Inr (k, FSuperseded, Some stored)
          else
            (let due_at = schedule_due_at_ms stored
             in case apply_expiry stored k of
               (k1, Inl e) \<Rightarrow> Inl e
             | (k1, Inr after) \<Rightarrow>
                 if m_version after = m_version stored then
                   Inr (k1, (if (case due_at of Some d \<Rightarrow> clock k1 < d | None \<Rightarrow> False) then FNotDue else FRetry), Some after)
                 else
                   (let applied = (case due_schedule_transition stored None of
                        None \<Rightarrow> False
                      | Some (to, tm) \<Rightarrow> m_state after = to \<and>
                          map_option t_reason (m_termination after) = map_option t_reason tm)
                    in Inr (k1, (if applied then FApplied else FEnded), Some after))))"

definition current_schedules :: "kernel \<Rightarrow> (string \<times> int \<times> int option) list" where
  "current_schedules k =
     List.map_filter (\<lambda>r. map_option (\<lambda>s. (m_id r, generation s, schedule_due_at_ms r)) (m_schedule r))
       (select_all (\<lambda>r. m_state r = Suspended \<and> m_schedule r \<noteq> None) (missions k))"

section \<open>Supersession and carryover\<close>

definition supersede ::
    "string \<Rightarrow> string option \<Rightarrow> kernel \<Rightarrow> kernel_error + kernel \<times> string option" where
  "supersede successor_id terminated_at k =
     (case Option.bind (get_mission successor_id k) (\<lambda>s. non_empty (m_predecessor s)) of
        None \<Rightarrow> Inr (k, None)
      | Some pid \<Rightarrow>
          (case get_mission pid k of
             None \<Rightarrow> Inr (k, None)
           | Some pred \<Rightarrow>
               if m_state pred \<noteq> Active \<or> m_state (observe k pred) \<noteq> Active then Inr (k, None)
               else
                 let committed_at = iso_text (clock k);
                     tm = (bare_termination ''superseded'')
                       \<lparr>t_terminated_at := Some (case terminated_at of Some x \<Rightarrow> x | None \<Rightarrow> committed_at),
                        t_successor := Some successor_id, t_version := Some (m_version pred + 1)\<rparr>;
                     here = (\<lambda>m. m_id m = m_id pred \<and> m_version m = m_version pred \<and> m_state m = Active);
                     k1 = update_missions here
                       (\<lambda>m. m\<lparr>m_state := Terminated, m_termination := Some tm, m_version := m_version m + 1\<rparr>) k
                 in if affected here (missions k) \<noteq> 1 then Inr (k, None)
                    else case (case get_mission (m_id pred) k1 of
                                 None \<Rightarrow> Inr k1
                               | Some fresh \<Rightarrow> emit_commit fresh (Some Active) False committed_at no_extra k1) of
                        Inl e \<Rightarrow> Inl e
                      | Inr k2 \<Rightarrow>
                          (case cascade_children (set_state_n (fuel_for k2)) (m_id pred) k2 of
                             Inl e \<Rightarrow> Inl e
                           | Inr k3 \<Rightarrow> Inr (k3, Some (m_id pred)))))"

record carry_cascade =
  cc_terminated_at :: string
  cc_origin :: string
  cc_origin_reason :: string

definition carried_termination :: "mission \<Rightarrow> string option \<Rightarrow> carry_cascade \<Rightarrow> int \<Rightarrow> mission_termination" where
  "carried_termination r carried_to cc now_ms =
     (let own = observe_expiry r now_ms;
          base = (case (m_state own, m_termination own) of
             (Terminated, Some t) \<Rightarrow> t
           | _ \<Rightarrow> (bare_termination ''parent_terminated'')
               \<lparr>t_terminated_at := Some (cc_terminated_at cc), t_parent := m_parent r,
                t_origin := Some (cc_origin cc), t_origin_reason := Some (cc_origin_reason cc),
                t_carried_to := non_empty carried_to\<rparr>)
      in base\<lparr>t_version := Some (m_version r + 1)\<rparr>)"

definition carry_terminal ::
    "mission \<Rightarrow> string option \<Rightarrow> carry_cascade \<Rightarrow> kernel \<Rightarrow> kernel_error + kernel \<times> mission option" where
  "carry_terminal r carried_to cc k =
     (if m_state r = Terminated then Inr (k, None)
      else
        let tm = carried_termination r carried_to cc (clock k);
            k1 = update_missions (row_is r)
              (\<lambda>m. m\<lparr>m_state := Terminated, m_termination := Some tm, m_version := m_version m + 1\<rparr>) k
        in if affected (row_is r) (missions k) \<noteq> 1 then Inl (Conflict (m_id r))
           else case get_mission (m_id r) k1 of
             None \<Rightarrow> Inr (k1, None)
           | Some fresh \<Rightarrow>
               (case emit_commit fresh (Some (m_state r)) False (iso_text (clock k)) no_extra k1 of
                  Inl e \<Rightarrow> Inl e | Inr k2 \<Rightarrow> Inr (k2, Some fresh)))"

text \<open>The whole subtree in breadth-first order; a generation is ordered by \<open>created_at\<close>,
  then by identifier.\<close>

definition generation_of :: "string \<Rightarrow> kernel \<Rightarrow> mission list" where
  "generation_of mid k = sort_key (\<lambda>m. (m_created_at m, m_id m)) (find_children mid k)"

definition take_new :: "string list \<Rightarrow> mission list \<Rightarrow> mission list" where
  "take_new seen cs = fold (\<lambda>c acc. if m_id c \<in> set seen \<or> m_id c \<in> set (map m_id acc) then acc else acc @ [c]) cs []"

lemma take_new_found:
  assumes "c \<in> set (take_new seen cs)"
  shows "c \<in> set cs \<and> m_id c \<notin> set seen"
proof -
  have "c \<in> set acc \<or> c \<in> set cs \<and> m_id c \<notin> set seen"
    if "c \<in> set (fold (\<lambda>c acc. if m_id c \<in> set seen \<or> m_id c \<in> set (map m_id acc) then acc else acc @ [c]) cs acc)"
    for acc
    using that
  proof (induction cs arbitrary: acc)
    case Nil
    then show ?case by simp
  next
    case (Cons a cs)
    let ?acc = "if m_id a \<in> set seen \<or> m_id a \<in> set (map m_id acc) then acc else acc @ [a]"
    have "c \<in> set ?acc \<or> c \<in> set cs \<and> m_id c \<notin> set seen"
      using Cons.prems by (intro Cons.IH) simp
    then show ?case by (auto split: if_splits)
  qed
  from this[of "[]"] assms show ?thesis by (simp add: take_new_def)
qed

function descend :: "kernel \<Rightarrow> string list \<Rightarrow> string list \<Rightarrow> mission list \<Rightarrow> mission list" where
  "descend k seen frontier acc =
     (let found = take_new seen (concat (map (\<lambda>mid. generation_of mid k) frontier))
      in if found = [] then acc
         else descend k (seen @ map m_id found) (map m_id found) (acc @ found))"
  by pat_completeness auto
termination
proof (relation "measure (\<lambda>(k, seen, frontier, acc). length (filter (\<lambda>m. m_id m \<notin> set seen) (missions k)))", goal_cases)
  case 1
  then show ?case by simp
next
  case (2 k seen frontier acc found)
  then have "hd found \<in> set found" by simp
  then have h: "hd found \<in> set (missions k)" "m_id (hd found) \<notin> set seen"
    using take_new_found[of "hd found" seen "concat (map (\<lambda>mid. generation_of mid k) frontier)"] 2
    by (auto simp: generation_of_def find_children_def select_all_def)
  have "filter (\<lambda>m. m_id m \<notin> set (seen @ map m_id found)) (missions k) =
      filter (\<lambda>m. m_id m \<notin> m_id ` set found) (filter (\<lambda>m. m_id m \<notin> set seen) (missions k))"
    by (auto intro: filter_cong)
  also have "length \<dots> < length (filter (\<lambda>m. m_id m \<notin> set seen) (missions k))"
    using h \<open>hd found \<in> set found\<close> by (intro length_filter_less[of "hd found"]) auto
  finally show ?case by simp
qed

declare descend.simps [simp del]

definition descendants_of :: "string \<Rightarrow> kernel \<Rightarrow> mission list" where
  "descendants_of root_id k = descend k [root_id] [root_id] []"

section \<open>Carrying a subtree\<close>

text \<open>
  The termination of a predecessor's whole subtree by Child Mission Carryover
  (\<^verbatim>\<open>carryover.ts\<close>, step 6 of the completion): every descendant in generation order
  through \<open>carry_terminal\<close>, then the rendered rows of the manifest that the walk did not
  reach, recorded from their tombstones or refused, then the assertion that no descendant
  was left live.  \<open>carried_to\<close> is the map from old child to committed replacement,
  \<open>rendered\<close> the issuer and child of each manifest entry.
\<close>

record carry_outcome =
  co_old_child :: string
  co_replacement :: "string option"
  co_state :: mission_state
  co_termination :: "mission_termination option"

fun carry_each ::
    "(string \<Rightarrow> string option) \<Rightarrow> carry_cascade \<Rightarrow> mission list \<Rightarrow> kernel \<Rightarrow>
     kernel_error + kernel \<times> carry_outcome list" where
  "carry_each carried_to cc [] k = Inr (k, [])"
| "carry_each carried_to cc (d # ds) k =
     (case must_get (m_id d) k of
        Inl e \<Rightarrow> Inl e
      | Inr fresh \<Rightarrow>
          (case carry_terminal fresh (carried_to (m_id d)) cc k of
             Inl e \<Rightarrow> Inl e
           | Inr (k1, transitioned) \<Rightarrow>
               (case carry_each carried_to cc ds k1 of
                  Inl e \<Rightarrow> Inl e
                | Inr (k2, rows) \<Rightarrow>
                    let terminal = (case transitioned of Some m \<Rightarrow> m | None \<Rightarrow> fresh)
                    in Inr (k2, \<lparr>co_old_child = m_id d, co_replacement = carried_to (m_id d),
                                 co_state = m_state terminal, co_termination = m_termination terminal\<rparr> # rows))))"

text \<open>A rendered row that is gone keeps the outcome its tombstone committed.\<close>

definition gone_row ::
    "(string \<Rightarrow> json option) \<Rightarrow> kernel \<Rightarrow> string \<times> string \<Rightarrow> kernel_error + carry_outcome" where
  "gone_row json_parse k e =
     (case find_tombstone json_parse (fst e) (snd e) (k_tombstones k) of
        None \<Rightarrow> Inl (SubtreeChanged (snd e))
      | Some t \<Rightarrow>
          if tv_detail_pruned t then Inl (SubtreeChanged (snd e))
          else case (tv_terminal_state t, tv_termination t) of
            (Some st, Some tm) \<Rightarrow>
              Inr \<lparr>co_old_child = snd e, co_replacement = None, co_state = st, co_termination = Some tm\<rparr>
          | _ \<Rightarrow> Inl (SubtreeChanged (snd e)))"

fun gone_rows ::
    "(string \<Rightarrow> json option) \<Rightarrow> kernel \<Rightarrow> string list \<Rightarrow> (string \<times> string) list \<Rightarrow> kernel_error + carry_outcome list" where
  "gone_rows json_parse k recorded [] = Inr []"
| "gone_rows json_parse k recorded (e # es) =
     (if snd e \<in> set recorded then gone_rows json_parse k recorded es
      else case gone_row json_parse k e of
        Inl x \<Rightarrow> Inl x
      | Inr r \<Rightarrow> map_sum id ((#) r) (gone_rows json_parse k recorded es))"

definition carry_subtree ::
    "(string \<Rightarrow> json option) \<Rightarrow> string \<Rightarrow> (string \<times> string) list \<Rightarrow> (string \<Rightarrow> string option) \<Rightarrow> kernel \<Rightarrow>
     kernel_error + kernel \<times> carry_outcome list" where
  "carry_subtree json_parse predecessor rendered carried_to k =
     (let cc = \<lparr>cc_terminated_at = iso_text (clock k), cc_origin = predecessor, cc_origin_reason = ''superseded''\<rparr>
      in case carry_each carried_to cc (descendants_of predecessor k) k of
        Inl e \<Rightarrow> Inl e
      | Inr (k1, rows) \<Rightarrow>
          (case gone_rows json_parse k1 (map co_old_child rows) rendered of
             Inl e \<Rightarrow> Inl e
           | Inr gone \<Rightarrow>
               (case List.find (\<lambda>d. m_state d \<noteq> Terminated) (descendants_of predecessor k1) of
                  Some d \<Rightarrow> Inl (SubtreeChanged (m_id d))
                | None \<Rightarrow> Inr (k1, rows @ gone))))"

section \<open>Creation\<close>

text \<open>
  The creation transaction every creating body funnels through.  \<open>precondition\<close> is the
  caller's own check, \<open>companions\<close> the writes of the tables that commit beside the
  record (source binding, discharge pins, policy snapshots); each may throw.
\<close>

definition insert_record ::
    "string \<Rightarrow> string \<Rightarrow> kernel_error option \<Rightarrow> kernel_error option \<Rightarrow> mission \<Rightarrow> kernel \<Rightarrow> kernel_error + kernel" where
  "insert_record issuer requested precondition companions r k =
     (if m_issuer r \<noteq> issuer then Inl (InvalidCall (m_id r))
      else case precondition of
        Some e \<Rightarrow> Inl e
      | None \<Rightarrow>
          if tombstone_exists (m_issuer r) (m_id r) (k_tombstones k) then Inl (IdReuse (m_id r))
          else if \<not> (case (date_parse (m_expires_at r), date_parse requested) of
                      (Some e, Some q) \<Rightarrow> e \<le> q | _ \<Rightarrow> False) then Inl (InvalidCall (m_id r))
          else if \<not> (case (date_parse (m_created_at r), date_parse (m_expires_at r)) of
                      (Some c, Some e) \<Rightarrow> c < e | _ \<Rightarrow> False) then Inl (ExpiryPassed (m_id r))
          else if m_id r \<in> set (map m_id (missions k)) then Inl SqlConstraint
          else
            let row = r\<lparr>m_termination := None, m_schedule := None, m_containment := None, m_discharged := []\<rparr>;
                k1 = k\<lparr>missions := missions k @ [row]\<rparr>
            in case companions of
              Some e \<Rightarrow> Inl e
            | None \<Rightarrow>
                (case get_mission (m_id r) k1 of
                   None \<Rightarrow> Inr k1
                 | Some inserted \<Rightarrow> emit_commit inserted None False (iso_text (clock k)) no_extra k1))"

text \<open>
  Creation of a Child Mission, \<^verbatim>\<open>child-delegation.ts\<close>: synchronous from the check that
  the parent is active to the record's transaction.  \<open>refusal\<close> stands for the delegation
  decision in between (attenuation, actor, depth and fan-out gates), a parameter here.
\<close>

definition create_child ::
    "string \<Rightarrow> string \<Rightarrow> (mission \<Rightarrow> kernel \<Rightarrow> kernel_error option) \<Rightarrow> kernel_error option \<Rightarrow>
     string \<Rightarrow> mission \<Rightarrow> kernel \<Rightarrow> kernel \<times> (kernel_error + mission)" where
  "create_child issuer requested refusal companions parent_id child k =
     (case must_get parent_id k of
        Inl e \<Rightarrow> (k, Inl e)
      | Inr stored \<Rightarrow>
          (case apply_expiry stored k of
             (k1, Inl e) \<Rightarrow> (k1, Inl e)
           | (k1, Inr parent) \<Rightarrow>
               if m_state parent \<noteq> Active then (k1, Inl (GateError parent_id))
               else let r = child\<lparr>m_parent := Some (m_id stored), m_state := Active, m_version := 1,
                                  m_derivation_count := 0, m_grant_id := None, m_projected_from := None\<rparr>
                 in case insert_record issuer requested (refusal stored k1) companions r k1 of
                   Inl e \<Rightarrow> (k1, Inl e)
                 | Inr k2 \<Rightarrow> (k2, Inr r)))"

section \<open>Grants\<close>

definition bind_grant :: "string \<Rightarrow> string \<Rightarrow> kernel \<Rightarrow> kernel_error + kernel" where
  "bind_grant mid g k =
     (let here = (\<lambda>m. m_id m = mid \<and> (m_grant_id m = None \<or> m_grant_id m = Some g))
      in if affected here (missions k) \<noteq> 1 then Inl (if get_mission mid k = None then NotFound mid else Conflict mid)
         else Inr ((update_missions here (\<lambda>m. m\<lparr>m_grant_id := Some g\<rparr>) k)
                \<lparr>bound_grants := fst (insert_or_ignore fst (g, mid) (bound_grants k))\<rparr>))"

definition bind_first_grant :: "string \<Rightarrow> string \<Rightarrow> kernel \<Rightarrow> kernel_error + kernel \<times> string" where
  "bind_first_grant mid g k =
     (let here = (\<lambda>m. m_id m = mid \<and> m_grant_id m = None)
      in if affected here (missions k) = 1
         then Inr ((update_missions here (\<lambda>m. m\<lparr>m_grant_id := Some g\<rparr>) k)
                \<lparr>bound_grants := fst (insert_or_ignore fst (g, mid) (bound_grants k))\<rparr>, g)
         else case Option.bind (get_mission mid k) (\<lambda>m. non_empty (m_grant_id m)) of
           None \<Rightarrow> Inl (NotFound mid)
         | Some b \<Rightarrow> Inr (k, b))"

section \<open>Lineages of a live Mission\<close>

text \<open>
  The gate both derivations below pass: the expiry clock, the Mission \<open>active\<close>, and what
  \<open>gateDerivation\<close> decides besides (lineage walk, effective set, count), the parameter
  \<open>further\<close>, which may only refuse; its model is the theory \<open>Derivation\<close>.
\<close>

definition admit ::
    "(mission \<Rightarrow> kernel \<Rightarrow> kernel_error option) \<Rightarrow> string \<Rightarrow> kernel \<Rightarrow> kernel \<times> (kernel_error + mission)" where
  "admit further mid k =
     (case must_get mid k of
        Inl e \<Rightarrow> (k, Inl e)
      | Inr stored \<Rightarrow>
          (case apply_expiry stored k of
             (k1, Inl e) \<Rightarrow> (k1, Inl e)
           | (k1, Inr r) \<Rightarrow>
               if m_state r \<noteq> Active then (k1, Inl (GateError mid))
               else (case further r k1 of Some e \<Rightarrow> (k1, Inl e) | None \<Rightarrow> (k1, Inr r))))"

text \<open>
  The creation of an asynchronous delegation family (\<^verbatim>\<open>adapters/continuation-grant.ts\<close>,
  step 5): the family and the grant's binding are recorded first, then the gate runs in
  its own transaction; a gate refusal rolls that transaction back and invalidates the
  family, any other error leaves it.
\<close>

definition delegate_family ::
    "(mission \<Rightarrow> kernel \<Rightarrow> kernel_error option) \<Rightarrow> string \<Rightarrow> string \<Rightarrow> kernel \<Rightarrow> kernel \<times> (kernel_error + mission)" where
  "delegate_family further g mid k =
     (case record_family (clock k) g mid (delegation_families k) of
        None \<Rightarrow> (k, Inl SqlConstraint)
      | Some fs \<Rightarrow>
          let k1 = k\<lparr>delegation_families := fs, bound_grants := fst (insert_or_ignore fst (g, mid) (bound_grants k))\<rparr>
          in case admit further mid k1 of
            (k2, Inr r) \<Rightarrow> (k2, Inr r)
          | (k2, Inl (GateError x)) \<Rightarrow>
              (k1\<lparr>delegation_families := invalidate_family g (delegation_families k1)\<rparr>, Inl (GateError x))
          | (k2, Inl e) \<Rightarrow> (k1, Inl e))"

text \<open>
  The next hop of a continuation (the same file, \<open>beforeSign\<close>): its handle is recorded
  once the gate has admitted the cross-domain grant, under the Mission and the anchor the
  presented handle resolved to.
\<close>

definition continue_hop ::
    "(mission \<Rightarrow> kernel \<Rightarrow> kernel_error option) \<Rightarrow> mint_input \<Rightarrow> kernel \<Rightarrow> kernel \<times> (kernel_error + string)" where
  "continue_hop further i k =
     (case admit further (mi_mission_id i) k of
        (k1, Inl e) \<Rightarrow> (k1, Inl e)
      | (k1, Inr r) \<Rightarrow>
          (case mint (clock k1) i (continuations k1) of
             None \<Rightarrow> (k1, Inl SqlConstraint)
           | Some (db, h) \<Rightarrow> (k1\<lparr>continuations := db\<rparr>, Inr h)))"

end
