(* ===== verification/Uri.thy ===== *)
theory Uri
  imports A_Label
begin

text \<open>
  The resource identifiers of \<^verbatim>\<open>packages/mission-core/src/operation-target.ts\<close>: the
  RFC 3986 \<open>absolute-URI\<close> grammar, which the code writes as one anchored regular
  expression, and the normal form a prefix comparison reads.

  Every rule of the grammar is delimited by characters its neighbours exclude, so
  the recognizer splits where the expression could only split: the scheme at the
  first colon, the query at the first question mark, the authority at the first
  slash, the userinfo at the first at-sign, a bracketed host at its bracket.
  \<open>encoded\<close> is the repetition of a class with percent triplets.
\<close>

section \<open>Character classes\<close>

definition is_upper_alpha :: "char \<Rightarrow> bool" where
  "is_upper_alpha c = (65 \<le> code_unit c \<and> code_unit c \<le> 90)"

definition is_alpha :: "char \<Rightarrow> bool" where
  "is_alpha c = (is_upper_alpha c \<or> 97 \<le> code_unit c \<and> code_unit c \<le> 122)"

definition is_hex :: "char \<Rightarrow> bool" where
  "is_hex c = (is_digit c \<or> 65 \<le> code_unit c \<and> code_unit c \<le> 70 \<or> 97 \<le> code_unit c \<and> code_unit c \<le> 102)"

definition unreserved :: "char \<Rightarrow> bool" where
  "unreserved c = (is_alpha c \<or> is_digit c \<or> c \<in> set ''-._~'')"

definition sub_delim :: "char \<Rightarrow> bool" where
  "sub_delim c = (c \<in> set ''!$&()*+,;='' \<or> code_unit c = 39)"

definition reg_char :: "char \<Rightarrow> bool" where
  "reg_char c = (unreserved c \<or> sub_delim c)"

definition user_char :: "char \<Rightarrow> bool" where
  "user_char c = (reg_char c \<or> c = CHR '':'')"

definition pchar :: "char \<Rightarrow> bool" where
  "pchar c = (reg_char c \<or> c = CHR '':'' \<or> c = CHR ''@'')"

fun encoded :: "(char \<Rightarrow> bool) \<Rightarrow> string \<Rightarrow> bool" where
  "encoded p [] = True"
| "encoded p (c # s) =
     (if c = CHR ''%'' then (case s of a # b # r \<Rightarrow> is_hex a \<and> is_hex b \<and> encoded p r | _ \<Rightarrow> False)
      else p c \<and> encoded p s)"

definition before_first :: "char \<Rightarrow> string \<Rightarrow> string" where
  "before_first c s = takeWhile (\<lambda>x. x \<noteq> c) s"

definition after_first :: "char \<Rightarrow> string \<Rightarrow> string option" where
  "after_first c s = (if c \<in> set s then Some (tl (dropWhile (\<lambda>x. x \<noteq> c) s)) else None)"

definition starts_with :: "string \<Rightarrow> string \<Rightarrow> bool" where
  "starts_with p s = (take (length p) s = p)"

section \<open>The grammar\<close>

definition scheme_ok :: "string \<Rightarrow> bool" where
  "scheme_ok s = (s \<noteq> [] \<and> is_alpha (hd s) \<and> list_all (\<lambda>c. is_alpha c \<or> is_digit c \<or> c \<in> set ''+-.'') s)"

definition dec_octet :: "string \<Rightarrow> bool" where
  "dec_octet s = (s \<noteq> [] \<and> length s \<le> 3 \<and> list_all is_digit s \<and> (length s = 1 \<or> hd s \<noteq> CHR ''0'') \<and>
     foldl (\<lambda>n c. 10 * n + digit_val c) 0 s \<le> 255)"

text \<open>The pieces between the occurrences of a separator.\<close>

fun pieces :: "char \<Rightarrow> string \<Rightarrow> string list" where
  "pieces c [] = [[]]"
| "pieces c (x # s) = (if x = c then [] # pieces c s else case pieces c s of p # ps \<Rightarrow> (x # p) # ps | [] \<Rightarrow> [[x]])"

definition ipv4_address :: "string \<Rightarrow> bool" where
  "ipv4_address s = (length (pieces CHR ''.'' s) = 4 \<and> list_all dec_octet (pieces CHR ''.'' s))"

definition h16 :: "string \<Rightarrow> bool" where
  "h16 s = (s \<noteq> [] \<and> length s \<le> 4 \<and> list_all is_hex s)"

text \<open>The 16-bit groups a colon-separated run stands for, when it is well formed; the last may be an IPv4 address.\<close>

definition group_count :: "bool \<Rightarrow> string \<Rightarrow> nat option" where
  "group_count v4 s =
     (if s = [] then Some 0
      else let ps = pieces CHR '':'' s in
        if list_all h16 ps then Some (length ps)
        else if v4 \<and> list_all h16 (butlast ps) \<and> ipv4_address (last ps) then Some (length ps + 1)
        else None)"

fun split_double :: "string \<Rightarrow> (string \<times> string) option" where
  "split_double (a # b # s) =
     (if a = CHR '':'' \<and> b = CHR '':'' then Some ([], s)
      else map_option (\<lambda>(l, r). (a # l, r)) (split_double (b # s)))"
| "split_double _ = None"

definition ipv6_address :: "string \<Rightarrow> bool" where
  "ipv6_address s =
     (case split_double s of
        None \<Rightarrow> group_count True s = Some 8
      | Some (l, r) \<Rightarrow>
          (case (group_count False l, group_count True r) of
             (Some m, Some n) \<Rightarrow> m + n \<le> 7
           | _ \<Rightarrow> False))"

definition ipv_future :: "string \<Rightarrow> bool" where
  "ipv_future s =
     (s \<noteq> [] \<and> hd s \<in> set ''vV'' \<and>
      (let h = before_first CHR ''.'' (tl s) in h \<noteq> [] \<and> list_all is_hex h \<and>
        (case after_first CHR ''.'' (tl s) of None \<Rightarrow> False | Some r \<Rightarrow> r \<noteq> [] \<and> list_all user_char r)))"

record authority_parts =
  userinfo :: "string option"
  host :: string
  port :: "string option"

text \<open>\<open>[ userinfo "@" ] host [ ":" port ]\<close>, split as the expression's classes allow.\<close>

definition split_authority :: "string \<Rightarrow> authority_parts" where
  "split_authority a =
     (let ui = (if CHR ''@'' \<in> set a then Some (before_first CHR ''@'' a) else None);
          hp = (case after_first CHR ''@'' a of None \<Rightarrow> a | Some r \<Rightarrow> r)
      in if starts_with ''['' hp \<and> CHR '']'' \<in> set hp
         then let r = tl (dropWhile (\<lambda>x. x \<noteq> CHR '']'') hp)
              in \<lparr>userinfo = ui, host = before_first CHR '']'' hp @ '']'' @ before_first CHR '':'' r, port = after_first CHR '':'' r\<rparr>
         else \<lparr>userinfo = ui, host = before_first CHR '':'' hp, port = after_first CHR '':'' hp\<rparr>)"

definition host_ok :: "string \<Rightarrow> bool" where
  "host_ok h =
     (if starts_with ''['' h
      then h \<noteq> ''['' \<and> last h = CHR '']'' \<and> (let i = butlast (tl h) in ipv6_address i \<or> ipv_future i)
      else encoded reg_char h)"

definition authority_ok :: "string \<Rightarrow> bool" where
  "authority_ok a =
     (let p = split_authority a in
      (case userinfo p of None \<Rightarrow> True | Some u \<Rightarrow> encoded user_char u) \<and> host_ok (host p) \<and>
      (case port p of None \<Rightarrow> True | Some d \<Rightarrow> list_all is_digit d))"

definition path_ok :: "string \<Rightarrow> bool" where
  "path_ok s = encoded (\<lambda>c. pchar c \<or> c = CHR ''/'') s"

definition query_ok :: "string \<Rightarrow> bool" where
  "query_ok s = encoded (\<lambda>c. pchar c \<or> c = CHR ''/'' \<or> c = CHR ''?'') s"

text \<open>The groups the expression captures: the scheme and, in the authority form, the authority.\<close>

record uri_match =
  um_scheme :: string
  um_authority :: "string option"

definition absolute_uri :: "string \<Rightarrow> uri_match option" where
  "absolute_uri v =
     (case after_first CHR '':'' v of
        None \<Rightarrow> None
      | Some rest \<Rightarrow>
          let scheme = before_first CHR '':'' v;
              hier = before_first CHR ''?'' rest;
              query = after_first CHR ''?'' rest
          in if \<not> scheme_ok scheme \<or> \<not> (case query of None \<Rightarrow> True | Some q \<Rightarrow> query_ok q) then None
             else if starts_with ''//'' hier
             then let a = before_first CHR ''/'' (drop 2 hier)
                  in if authority_ok a \<and> path_ok (dropWhile (\<lambda>x. x \<noteq> CHR ''/'') (drop 2 hier))
                     then Some \<lparr>um_scheme = scheme, um_authority = Some a\<rparr> else None
             else if path_ok hier then Some \<lparr>um_scheme = scheme, um_authority = None\<rparr> else None)"

definition http_scheme :: "string \<Rightarrow> bool" where
  "http_scheme s = (to_lower s \<in> {''http'', ''https''})"

definition is_absolute_uri :: "string \<Rightarrow> bool" where
  "is_absolute_uri v =
     (case absolute_uri v of
        None \<Rightarrow> False
      | Some m \<Rightarrow> \<not> http_scheme (um_scheme m) \<or>
          (case um_authority m of None \<Rightarrow> False | Some a \<Rightarrow> host (split_authority a) \<noteq> []))"

definition carries_http_userinfo :: "string \<Rightarrow> bool" where
  "carries_http_userinfo v =
     (case absolute_uri v of
        None \<Rightarrow> False
      | Some m \<Rightarrow> http_scheme (um_scheme m) \<and>
          (case um_authority m of None \<Rightarrow> False | Some a \<Rightarrow> userinfo (split_authority a) \<noteq> None))"

section \<open>Normalization\<close>

definition hex_val :: "char \<Rightarrow> nat" where
  "hex_val c = (if is_digit c then digit_val c else if code_unit c \<le> 70 then code_unit c - 55 else code_unit c - 87)"

definition upper_hex :: "char \<Rightarrow> char" where
  "upper_hex c = (if 97 \<le> code_unit c \<and> code_unit c \<le> 122 then char_of (code_unit c - 32) else c)"

fun normalize_percent_encoding :: "string \<Rightarrow> string" where
  "normalize_percent_encoding (c # a # b # s) =
     (if c = CHR ''%'' \<and> is_hex a \<and> is_hex b
      then let d = char_of (16 * hex_val a + hex_val b)
           in (if unreserved d then [d] else [CHR ''%'', upper_hex a, upper_hex b]) @ normalize_percent_encoding s
      else c # normalize_percent_encoding (a # b # s))"
| "normalize_percent_encoding s = s"

fun lowercase_outside_encodings :: "string \<Rightarrow> string" where
  "lowercase_outside_encodings (c # a # b # s) =
     (if c = CHR ''%'' \<and> is_hex a \<and> is_hex b then c # a # b # lowercase_outside_encodings s
      else lower_char c # lowercase_outside_encodings (a # b # s))"
| "lowercase_outside_encodings s = to_lower s"

text \<open>\<open>output.slice(0, Math.max(0, output.lastIndexOf("/")))\<close>\<close>

definition cut_last_segment :: "string \<Rightarrow> string" where
  "cut_last_segment out = rev (tl (dropWhile (\<lambda>c. c \<noteq> CHR ''/'') (rev out)))"

function dot_loop :: "string \<Rightarrow> string \<Rightarrow> string" where
  "dot_loop input output =
     (if input = [] then output
      else if starts_with ''../'' input then dot_loop (drop 3 input) output
      else if starts_with ''./'' input then dot_loop (drop 2 input) output
      else if starts_with ''/./'' input then dot_loop (drop 2 input) output
      else if input = ''/.'' then dot_loop ''/'' output
      else if starts_with ''/../'' input \<or> input = ''/..'' then
        dot_loop (if input = ''/..'' then ''/'' else drop 3 input) (cut_last_segment output)
      else if input = ''.'' \<or> input = ''..'' then dot_loop [] output
      else dot_loop (dropWhile (\<lambda>c. c \<noteq> CHR ''/'') (tl input))
             (output @ hd input # takeWhile (\<lambda>c. c \<noteq> CHR ''/'') (tl input)))"
  by pat_completeness auto
termination
  by (relation "measure (\<lambda>(input, _). length input)")
    (auto simp: starts_with_def le_imp_less_Suc[OF length_dropWhile_le] neq_Nil_conv)

declare dot_loop.simps [simp del]

definition remove_dot_segments :: "string \<Rightarrow> string" where
  "remove_dot_segments path = dot_loop path []"

definition DEFAULT_PORTS :: "(string \<times> string) list" where
  "DEFAULT_PORTS = [(''http'', ''80''), (''https'', ''443'')]"

record prefix_form =
  pf_scheme :: string
  pf_authority :: string
  pf_path :: string
  pf_query :: "string option"

definition prefix_form_of :: "string \<Rightarrow> prefix_form option" where
  "prefix_form_of v =
     (if \<not> is_absolute_uri v then None
      else
        let scheme = to_lower (before_first CHR '':'' v);
            rest = the (after_first CHR '':'' v)
        in if \<not> starts_with ''//'' rest then None
           else
             let hier = before_first CHR ''?'' rest;
                 query = after_first CHR ''?'' rest;
                 p = split_authority (before_first CHR ''/'' (drop 2 hier));
                 raw_path = dropWhile (\<lambda>x. x \<noteq> CHR ''/'') (drop 2 hier);
                 keep_port = (case port p of None \<Rightarrow> False | Some d \<Rightarrow> d \<noteq> [] \<and> Some d \<noteq> map_of DEFAULT_PORTS scheme);
                 authority = (case userinfo p of None \<Rightarrow> [] | Some u \<Rightarrow> normalize_percent_encoding u @ ''@'') @
                   normalize_percent_encoding (lowercase_outside_encodings (host p)) @
                   (if keep_port then CHR '':'' # the (port p) else []);
                 path = remove_dot_segments (normalize_percent_encoding raw_path)
             in Some \<lparr>pf_scheme = scheme, pf_authority = authority, pf_path = (if path = [] then ''/'' else path), pf_query = query\<rparr>)"

section \<open>Dot segments\<close>

text \<open>
  The string loop is, over the list of the segments between slashes, the removal of
  the single-dot segments and of every double-dot segment with its predecessor; a
  trailing one leaves an empty segment.
\<close>

definition join_path :: "string list \<Rightarrow> string" where
  "join_path segs = concat (map (\<lambda>x. CHR ''/'' # x) segs)"

fun clean_segments :: "string list \<Rightarrow> string list \<Rightarrow> string list" where
  "clean_segments acc [] = acc"
| "clean_segments acc [x] = (if x = ''.'' then acc @ [[]] else if x = ''..'' then butlast acc @ [[]] else acc @ [x])"
| "clean_segments acc (x # y # r) =
     (if x = ''.'' then clean_segments acc (y # r)
      else if x = ''..'' then clean_segments (butlast acc) (y # r)
      else clean_segments (acc @ [x]) (y # r))"

lemma join_path_simps [simp]:
  "join_path [] = []" "join_path (x # r) = CHR ''/'' # x @ join_path r" "join_path (a @ b) = join_path a @ join_path b"
  by (simp_all add: join_path_def)

lemma cut_join:
  assumes "\<forall>x \<in> set acc. CHR ''/'' \<notin> set x"
  shows "cut_last_segment (join_path acc) = join_path (butlast acc)"
proof (cases acc rule: rev_cases)
  case Nil
  then show ?thesis by (simp add: cut_last_segment_def)
next
  case (snoc ys y)
  then have "dropWhile (\<lambda>c. c \<noteq> CHR ''/'') (rev y @ CHR ''/'' # rev (join_path ys)) = CHR ''/'' # rev (join_path ys)"
    using assms by (subst dropWhile_append2) auto
  then show ?thesis by (simp add: snoc cut_last_segment_def)
qed

lemma join_start: "r = [] \<and> join_path r = [] \<or> (\<exists>t. join_path r = CHR ''/'' # t)"
  by (cases r) auto

lemma dot_loop_slash: "dot_loop ''/'' out = out @ ''/''"
  by (simp add: dot_loop.simps[of "''/''"] dot_loop.simps[of "[]"] starts_with_def)

lemma take_while_segment:
  assumes "CHR ''/'' \<notin> set x"
  shows "takeWhile (\<lambda>c. c \<noteq> CHR ''/'') (x @ join_path r) = x \<and> dropWhile (\<lambda>c. c \<noteq> CHR ''/'') (x @ join_path r) = join_path r"
proof -
  have "takeWhile (\<lambda>c. c \<noteq> CHR ''/'') (join_path r) = []" "dropWhile (\<lambda>c. c \<noteq> CHR ''/'') (join_path r) = join_path r"
    by (cases r; simp)+
  moreover have "\<forall>c \<in> set x. c \<noteq> CHR ''/''" using assms by blast
  ultimately show ?thesis by (simp add: takeWhile_append2 dropWhile_append2)
qed

lemma takeWhile_dot: "takeWhile (\<lambda>c. c \<noteq> CHR ''/'') (''./'' @ u) = ''.''"
  and takeWhile_dots: "takeWhile (\<lambda>c. c \<noteq> CHR ''/'') (''../'' @ u) = ''..''"
  by simp_all

text \<open>One segment that is no dot segment moves to the output.\<close>

lemma dot_loop_segment:
  assumes "CHR ''/'' \<notin> set x" "x \<noteq> ''.''" "x \<noteq> ''..''"
  shows "dot_loop (CHR ''/'' # x @ join_path r) out = dot_loop (join_path r) (out @ CHR ''/'' # x)"
proof -
  define w where "w = x @ join_path r"
  have x: "takeWhile (\<lambda>c. c \<noteq> CHR ''/'') w = x" "dropWhile (\<lambda>c. c \<noteq> CHR ''/'') w = join_path r"
    using take_while_segment[OF assms(1), of r] by (simp_all add: w_def)
  have sw: "w = q @ drop (length q) w" if "starts_with q w" for q
    using that by (metis starts_with_def append_take_drop_id)
  have dot: "\<not> starts_with ''./'' w" using x(1) assms(2) sw[of "''./''"] by (metis takeWhile_dot)
  have dots: "\<not> starts_with ''../'' w" using x(1) assms(3) sw[of "''../''"] by (metis takeWhile_dots)
  have ne: "w \<noteq> ''.''" "w \<noteq> ''..''" using x(1) assms(2,3) by auto
  have no: "\<not> starts_with ''/./'' (CHR ''/'' # w)" "CHR ''/'' # w \<noteq> ''/.''"
    "\<not> starts_with ''/../'' (CHR ''/'' # w)" "CHR ''/'' # w \<noteq> ''/..''"
    "\<not> starts_with ''../'' (CHR ''/'' # w)" "\<not> starts_with ''./'' (CHR ''/'' # w)"
    using dot dots ne by (simp_all add: starts_with_def)
  show ?thesis
    unfolding w_def[symmetric] using no x by (subst dot_loop.simps) simp
qed

lemma dot_loop_clean:
  "\<forall>x \<in> set segs. CHR ''/'' \<notin> set x \<Longrightarrow> \<forall>x \<in> set acc. CHR ''/'' \<notin> set x \<Longrightarrow>
   dot_loop (join_path segs) (join_path acc) = join_path (clean_segments acc segs)"
proof (induction acc segs rule: clean_segments.induct)
  case (1 acc)
  then show ?case by (simp add: dot_loop.simps[of "[]"])
next
  case (2 acc x)
  consider "x = ''.''" | "x = ''..''" | "x \<noteq> ''.''" "x \<noteq> ''..''" by blast
  then show ?case
  proof cases
    case 1
    then show ?thesis by (simp add: dot_loop.simps[of "''/.''"] starts_with_def dot_loop_slash)
  next
    case b: 2
    then show ?thesis using 2(2) by (simp add: dot_loop.simps[of "''/..''"] starts_with_def dot_loop_slash cut_join)
  next
    case 3
    then show ?thesis
      using 2(1) dot_loop_segment[of x "[]" "join_path acc"] by (simp add: dot_loop.simps[of "[]"])
  qed
next
  case (3 acc x y r)
  consider "x = ''.''" | "x = ''..''" | "x \<noteq> ''.''" "x \<noteq> ''..''" by blast
  then show ?case
  proof cases
    case 1
    then show ?thesis using 3 by (subst dot_loop.simps) (simp add: starts_with_def)
  next
    case b: 2
    have "dot_loop (join_path (x # y # r)) (join_path acc) = dot_loop (join_path (y # r)) (cut_last_segment (join_path acc))"
      using b by (subst dot_loop.simps) (simp add: starts_with_def)
    then show ?thesis using 3 b by (simp add: cut_join in_set_butlastD)
  next
    case c: 3
    then show ?thesis
      using 3 dot_loop_segment[of x "y # r" "join_path acc"] by simp
  qed
qed

lemma clean_no_dots:
  "\<forall>x \<in> set acc. x \<noteq> ''.'' \<and> x \<noteq> ''..'' \<Longrightarrow> x \<in> set (clean_segments acc segs) \<Longrightarrow> x \<noteq> ''.'' \<and> x \<noteq> ''..''"
  by (induction acc segs rule: clean_segments.induct) (auto split: if_splits dest: in_set_butlastD)

lemma clean_slashless:
  "\<forall>x \<in> set (acc @ segs). CHR ''/'' \<notin> set x \<Longrightarrow> x \<in> set (clean_segments acc segs) \<Longrightarrow> CHR ''/'' \<notin> set x"
  by (induction acc segs rule: clean_segments.induct) (auto split: if_splits dest: in_set_butlastD)

lemma pieces_join: "pieces c s \<noteq> [] \<and> (\<forall>x \<in> set (pieces c s). c \<notin> set x)"
  by (induction s) (auto split: list.splits)

lemma pieces_path: "join_path (pieces CHR ''/'' s) = CHR ''/'' # s"
  by (induction s) (use pieces_join in \<open>auto split: list.splits\<close>)

lemma remove_dot_segments_clean:
  "remove_dot_segments (CHR ''/'' # s) = join_path (clean_segments [] (pieces CHR ''/'' s))"
  using dot_loop_clean[of "pieces CHR ''/'' s" "[]"] pieces_join[of "CHR ''/''" s]
  by (simp add: remove_dot_segments_def pieces_path)

lemma normalize_slash: "normalize_percent_encoding (CHR ''/'' # s) = CHR ''/'' # normalize_percent_encoding s"
  by (cases s; cases "tl s") auto

text \<open>No normal form holds a dot segment, however it was spelled.\<close>

lemma prefix_form_path:
  assumes "prefix_form_of v = Some f"
  shows "\<exists>segs. pf_path f = join_path segs \<and> segs \<noteq> [] \<and> (\<forall>x \<in> set segs. CHR ''/'' \<notin> set x \<and> x \<noteq> ''.'' \<and> x \<noteq> ''..'')"
proof -
  define raw where "raw = dropWhile (\<lambda>x. x \<noteq> CHR ''/'') (drop 2 (before_first CHR ''?'' (the (after_first CHR '':'' v))))"
  define path where "path = remove_dot_segments (normalize_percent_encoding raw)"
  have f: "pf_path f = (if path = [] then ''/'' else path)"
    using assms by (auto simp: prefix_form_of_def Let_def path_def raw_def split: if_splits)
  have "path = [] \<or> (\<exists>segs. path = join_path segs \<and> (\<forall>x \<in> set segs. CHR ''/'' \<notin> set x \<and> x \<noteq> ''.'' \<and> x \<noteq> ''..''))"
  proof (cases raw)
    case Nil
    then show ?thesis by (simp add: path_def remove_dot_segments_def dot_loop.simps[of "[]"])
  next
    case (Cons c t)
    have "dropWhile p s = c # t \<Longrightarrow> \<not> p c" for p s by (simp add: dropWhile_eq_Cons_conv)
    then have "c = CHR ''/''" using Cons unfolding raw_def by blast
    then have p: "path = join_path (clean_segments [] (pieces CHR ''/'' (normalize_percent_encoding t)))"
      using Cons by (simp add: path_def normalize_slash remove_dot_segments_clean)
    have "CHR ''/'' \<notin> set x \<and> x \<noteq> ''.'' \<and> x \<noteq> ''..''"
      if "x \<in> set (clean_segments [] (pieces CHR ''/'' (normalize_percent_encoding t)))" for x
      using clean_no_dots[OF _ that] clean_slashless[OF _ that] pieces_join[of "CHR ''/''"] by simp
    then show ?thesis using p by blast
  qed
  then show ?thesis
  proof
    assume "path = []"
    then show ?thesis using f by (intro exI[of _ "[[]]"]) simp
  next
    assume "\<exists>segs. path = join_path segs \<and> (\<forall>x \<in> set segs. CHR ''/'' \<notin> set x \<and> x \<noteq> ''.'' \<and> x \<noteq> ''..'')"
    then obtain segs where s: "path = join_path segs"
      and all: "\<forall>x \<in> set segs. CHR ''/'' \<notin> set x \<and> x \<noteq> ''.'' \<and> x \<noteq> ''..''" by blast
    show ?thesis
    proof (cases "segs = []")
      case True
      then have "path = []" using s by (simp only: join_path_simps)
      then show ?thesis using f by (intro exI[of _ "[[]]"]) simp
    next
      case False
      then have "path \<noteq> []" using s join_start[of segs] by auto
      then have "pf_path f = join_path segs" using f s by (simp only: if_False)
      then show ?thesis using False all by blast
    qed
  qed
qed

end
