(* ===== verification/Resource_Matching.thy ===== *)
theory Resource_Matching
  imports Uri Common_Constraints
begin

text \<open>
  The Resource Access matcher of
  \<^verbatim>\<open>packages/mission-core/src/operation-target.ts\<close>, and the containment of two
  entries' resource sets (\<open>resourceWithin\<close> of
  \<^verbatim>\<open>packages/mission-core/src/authority-subset.ts\<close>).

  An entry is a JSON value; a member that is absent or \<open>undefined\<close> is \<open>None\<close>.
\<close>

section \<open>Matching\<close>

definition is_enforceable_prefix_base :: "json option \<Rightarrow> bool" where
  "is_enforceable_prefix_base v =
     (case opt_string v of
        None \<Rightarrow> False
      | Some s \<Rightarrow> (case prefix_form_of s of None \<Rightarrow> False | Some f \<Rightarrow> pf_query f = None))"

definition path_within :: "string \<Rightarrow> string \<Rightarrow> bool" where
  "path_within base target =
     (target = base \<or> starts_with (if ends_with base ''/'' then base else base @ ''/'') target)"

definition prefix_admits :: "string \<Rightarrow> string \<Rightarrow> bool" where
  "prefix_admits base target =
     (if \<not> is_enforceable_prefix_base (Some (JStr base)) then False
      else case (prefix_form_of base, prefix_form_of target) of
        (Some b, Some t) \<Rightarrow>
          if pf_scheme b \<noteq> pf_scheme t \<or> pf_authority b \<noteq> pf_authority t then False
          else path_within (pf_path b) (pf_path t)
      | _ \<Rightarrow> False)"

datatype match_violation =
    Undefined_match json
  | No_authority string
  | Query_component string

definition json_absolute_uri :: "json option \<Rightarrow> bool" where
  "json_absolute_uri v = (case opt_string v of None \<Rightarrow> False | Some s \<Rightarrow> is_absolute_uri s)"

definition resource_match_violation :: "json \<Rightarrow> match_violation option" where
  "resource_match_violation e =
     (case jget ''resource_match'' e of
        None \<Rightarrow> None
      | Some form \<Rightarrow>
          if form = JStr ''exact'' then None
          else if form \<noteq> JStr ''prefix'' then Some (Undefined_match form)
          else case opt_string (jget ''resource'' e) of
            None \<Rightarrow> None
          | Some r \<Rightarrow>
              if \<not> is_absolute_uri r then None
              else case prefix_form_of r of
                None \<Rightarrow> Some (No_authority r)
              | Some parsed \<Rightarrow> if pf_query parsed \<noteq> None then Some (Query_component r) else None)"

datatype match_outcome = Match | No_match | Unsupported

definition match_resource :: "json \<Rightarrow> string \<Rightarrow> match_outcome" where
  "match_resource e target =
     (let form = jget ''resource_match'' e; r = jget ''resource'' e
      in if form = Some (JStr ''prefix'') then
           (if \<not> is_enforceable_prefix_base r then Unsupported
            else if prefix_admits (the (opt_string r)) target then Match else No_match)
         else if form \<noteq> None \<and> form \<noteq> Some (JStr ''exact'') then Unsupported
         else if opt_string r = Some target then Match else No_match)"

definition entry_matches_target :: "json \<Rightarrow> string \<Rightarrow> bool" where
  "entry_matches_target e target = (match_resource e target = Match)"

definition match_form :: "json \<Rightarrow> json" where
  "match_form e = (case jget ''resource_match'' e of None \<Rightarrow> JStr ''exact'' | Some f \<Rightarrow> f)"

definition resource_within :: "json \<Rightarrow> json \<Rightarrow> bool" where
  "resource_within c r =
     (let a = match_form c; b = match_form r
      in case (opt_string (jget ''resource'' c), opt_string (jget ''resource'' r)) of
           (Some cr, Some rr) \<Rightarrow>
             if b = JStr ''exact'' then a = JStr ''exact'' \<and> cr = rr
             else if b \<noteq> JStr ''prefix'' \<or> \<not> is_enforceable_prefix_base (Some (JStr rr)) then False
             else if a = JStr ''exact'' then prefix_admits rr cr
             else if a \<noteq> JStr ''prefix'' \<or> \<not> is_enforceable_prefix_base (Some (JStr cr)) then False
             else prefix_admits rr cr
         | _ \<Rightarrow> False)"

section \<open>Paths\<close>

lemma starts_with_iff: "starts_with p s \<longleftrightarrow> (\<exists>r. s = p @ r)"
  by (metis starts_with_def append_eq_conv_conj append_take_drop_id)

definition slashed :: "string \<Rightarrow> string" where
  "slashed p = (if ends_with p ''/'' then p else p @ ''/'')"

lemma path_within_iff: "path_within b t \<longleftrightarrow> t = b \<or> (\<exists>r. t = slashed b @ r)"
  unfolding path_within_def slashed_def starts_with_iff by (rule refl)

lemma slashed_extends: "\<exists>q. slashed p = p @ q"
  by (cases "ends_with p ''/''") (simp_all add: slashed_def)

lemma path_within_trans:
  assumes "path_within a b" "path_within b c"
  shows "path_within a c"
proof -
  consider "b = a" | "c = b" | r s where "b = slashed a @ r" "c = slashed b @ s"
    using assms unfolding path_within_iff by blast
  then show ?thesis
  proof cases
    case 3
    obtain q where "slashed b = b @ q" using slashed_extends by blast
    then have "c = slashed a @ r @ q @ s" using 3 by simp
    then show ?thesis unfolding path_within_iff by blast
  qed (use assms in simp_all)
qed

text \<open>The segments a prefix base fixes: a trailing empty segment fixes nothing.\<close>

definition base_segments :: "string list \<Rightarrow> string list" where
  "base_segments bs = (if bs \<noteq> [] \<and> last bs = [] then butlast bs else bs)"

definition slashless :: "string list \<Rightarrow> bool" where
  "slashless segs = (\<forall>x \<in> set segs. CHR ''/'' \<notin> set x)"

lemma segment_unique:
  assumes "CHR ''/'' \<notin> set x" "CHR ''/'' \<notin> set y" "x @ CHR ''/'' # u = y @ join_path ys"
  shows "x = y \<and> CHR ''/'' # u = join_path ys"
proof -
  have tw: "takeWhile (\<lambda>c. c \<noteq> CHR ''/'') (x @ CHR ''/'' # u) = x"
    using assms(1) by (subst takeWhile_append2) auto
  have "takeWhile (\<lambda>c. c \<noteq> CHR ''/'') (y @ join_path ys) = y"
    using take_while_segment[OF assms(2)] by blast
  then show ?thesis using tw assms(3) by simp
qed

lemma join_extends:
  "slashless bs \<Longrightarrow> slashless ts \<Longrightarrow> join_path ts = join_path bs @ CHR ''/'' # u \<Longrightarrow> \<exists>rest. ts = bs @ rest"
proof (induction bs arbitrary: ts)
  case Nil
  then show ?case by simp
next
  case (Cons b bs)
  from Cons.prems(3) have "ts \<noteq> []" by (cases ts) simp_all
  then obtain t ts' where ts: "ts = t # ts'" by (cases ts) simp_all
  obtain w where w: "join_path bs @ CHR ''/'' # u = CHR ''/'' # w"
    using join_start[of bs] by (cases bs) simp_all
  have "b @ CHR ''/'' # w = t @ join_path ts'"
    using Cons.prems(3) unfolding ts by (simp add: w)
  then have "b = t" "CHR ''/'' # w = join_path ts'"
    using segment_unique[of b t w ts'] Cons.prems(1,2) by (simp_all add: slashless_def ts)
  then show ?case
    using Cons.IH[of ts'] Cons.prems(1,2) by (simp add: slashless_def ts w)
qed

lemma slashed_join:
  assumes "slashless bs" "bs \<noteq> []"
  shows "slashed (join_path bs) = join_path (base_segments bs) @ ''/''"
proof -
  obtain cs x where bs: "bs = cs @ [x]" using assms(2) by (cases bs rule: rev_cases) simp_all
  show ?thesis
  proof (cases x rule: rev_cases)
    case Nil
    then show ?thesis by (simp add: bs base_segments_def slashed_def ends_with_iff)
  next
    case (snoc y c)
    then have "c \<noteq> CHR ''/''" using assms(1) by (auto simp: bs slashless_def)
    then have "\<not> ends_with (join_path bs) ''/''" by (simp add: bs snoc ends_with_iff)
    then show ?thesis by (simp add: bs snoc base_segments_def slashed_def)
  qed
qed

lemma path_within_segments:
  assumes "slashless bs" "slashless ts" "bs \<noteq> []" "path_within (join_path bs) (join_path ts)"
  shows "\<exists>ss. join_path ss = join_path ts \<and> (ss = bs \<or> ss = ts) \<and> (\<exists>rest. ss = base_segments bs @ rest)"
proof (cases "join_path ts = join_path bs")
  case True
  have "\<exists>rest. bs = base_segments bs @ rest"
    by (auto simp: base_segments_def intro: append_butlast_last_id[symmetric])
  then show ?thesis using True by (intro exI[of _ bs]) simp
next
  case False
  then obtain r where "join_path ts = slashed (join_path bs) @ r"
    using assms(4) unfolding path_within_iff by blast
  then have "join_path ts = join_path (base_segments bs) @ CHR ''/'' # r"
    using slashed_join[OF assms(1,3)] by simp
  moreover have "slashless (base_segments bs)"
    using assms(1) by (auto simp: slashless_def base_segments_def dest: in_set_butlastD)
  ultimately have "\<exists>rest. ts = base_segments bs @ rest" using join_extends[OF _ assms(2)] by blast
  then show ?thesis by blast
qed

section \<open>Containment\<close>

lemma enforceable_iff:
  "is_enforceable_prefix_base (Some (JStr s)) \<longleftrightarrow> (\<exists>f. prefix_form_of s = Some f \<and> pf_query f = None)"
  by (simp add: is_enforceable_prefix_base_def split: option.splits)

lemma prefix_admits_iff:
  "prefix_admits base target \<longleftrightarrow>
     (\<exists>b t. prefix_form_of base = Some b \<and> pf_query b = None \<and> prefix_form_of target = Some t \<and>
        pf_scheme b = pf_scheme t \<and> pf_authority b = pf_authority t \<and> path_within (pf_path b) (pf_path t))"
  unfolding prefix_admits_def enforceable_iff
  by (cases "prefix_form_of base"; cases "prefix_form_of target") auto

lemma prefix_admits_self: "is_enforceable_prefix_base (Some (JStr s)) \<Longrightarrow> prefix_admits s s"
  unfolding prefix_admits_iff enforceable_iff by (auto simp: path_within_iff)

lemma prefix_admits_trans: "prefix_admits a b \<Longrightarrow> prefix_admits b c \<Longrightarrow> prefix_admits a c"
  unfolding prefix_admits_iff by (auto intro: path_within_trans)

lemma opt_string_Some: "opt_string v = Some s \<longleftrightarrow> v = Some (JStr s)"
  by (cases v rule: opt_string.cases) auto

lemma match_form_cases:
  "jget ''resource_match'' e = Some (JStr ''prefix'') \<longleftrightarrow> match_form e = JStr ''prefix''"
  "jget ''resource_match'' e \<noteq> None \<and> jget ''resource_match'' e \<noteq> Some (JStr ''exact'') \<longleftrightarrow> match_form e \<noteq> JStr ''exact''"
  by (auto simp: match_form_def split: option.splits)

text \<open>The two enforceable kinds of entry.\<close>

definition exact_on :: "json \<Rightarrow> string \<Rightarrow> bool" where
  "exact_on e s = (match_form e = JStr ''exact'' \<and> jget ''resource'' e = Some (JStr s))"

definition prefix_on :: "json \<Rightarrow> string \<Rightarrow> bool" where
  "prefix_on e s = (match_form e = JStr ''prefix'' \<and> jget ''resource'' e = Some (JStr s) \<and>
     is_enforceable_prefix_base (Some (JStr s)))"

lemma matches_iff:
  "entry_matches_target e t \<longleftrightarrow> exact_on e t \<or> (\<exists>s. prefix_on e s \<and> prefix_admits s t)"
proof (cases "opt_string (jget ''resource'' e)")
  case None
  then have "jget ''resource'' e \<noteq> Some (JStr s)" for s using opt_string_Some by (metis option.distinct(1))
  moreover have "\<not> is_enforceable_prefix_base (jget ''resource'' e)" by (simp add: is_enforceable_prefix_base_def None)
  ultimately show ?thesis
    by (simp add: entry_matches_target_def match_resource_def Let_def None exact_on_def prefix_on_def del: json.inject)
next
  case (Some s)
  then have g: "jget ''resource'' e = Some (JStr s)" by (simp only: opt_string_Some)
  have d: "JStr ''prefix'' \<noteq> JStr ''exact''" by simp
  have "entry_matches_target e t \<longleftrightarrow>
      match_form e = JStr ''prefix'' \<and> is_enforceable_prefix_base (Some (JStr s)) \<and> prefix_admits s t \<or>
      match_form e = JStr ''exact'' \<and> s = t"
    unfolding entry_matches_target_def match_resource_def Let_def match_form_cases Some
    using d by (simp add: g del: json.inject)
  moreover have "exact_on e u \<longleftrightarrow> match_form e = JStr ''exact'' \<and> s = u"
    "prefix_on e u \<longleftrightarrow> match_form e = JStr ''prefix'' \<and> s = u \<and> is_enforceable_prefix_base (Some (JStr u))" for u
    by (simp_all add: exact_on_def prefix_on_def g)
  ultimately show ?thesis by metis
qed

lemma resource_within_iff:
  "resource_within c r \<longleftrightarrow>
     (\<exists>s. exact_on c s \<and> exact_on r s) \<or>
     (\<exists>s q. prefix_on r q \<and> (exact_on c s \<or> prefix_on c s) \<and> prefix_admits q s)"
proof (cases "\<exists>cr rr. jget ''resource'' c = Some (JStr cr) \<and> jget ''resource'' r = Some (JStr rr)")
  case True
  then obtain cr rr where g: "jget ''resource'' c = Some (JStr cr)" "jget ''resource'' r = Some (JStr rr)" by blast
  have d: "JStr ''prefix'' \<noteq> JStr ''exact''" by simp
  have "resource_within c r \<longleftrightarrow>
     (match_form r = JStr ''exact'' \<and> match_form c = JStr ''exact'' \<and> cr = rr) \<or>
     (match_form r = JStr ''prefix'' \<and> is_enforceable_prefix_base (Some (JStr rr)) \<and> prefix_admits rr cr \<and>
       (match_form c = JStr ''exact'' \<or> match_form c = JStr ''prefix'' \<and> is_enforceable_prefix_base (Some (JStr cr))))"
    using d by (auto simp: resource_within_def Let_def g simp del: json.inject)
  moreover have "exact_on c s \<longleftrightarrow> match_form c = JStr ''exact'' \<and> cr = s" "exact_on r s \<longleftrightarrow> match_form r = JStr ''exact'' \<and> rr = s"
    "prefix_on c s \<longleftrightarrow> match_form c = JStr ''prefix'' \<and> cr = s \<and> is_enforceable_prefix_base (Some (JStr s))"
    "prefix_on r s \<longleftrightarrow> match_form r = JStr ''prefix'' \<and> rr = s \<and> is_enforceable_prefix_base (Some (JStr s))" for s
    by (simp_all add: exact_on_def prefix_on_def g)
  ultimately show ?thesis by metis
next
  case False
  then have "opt_string (jget ''resource'' c) = None \<or> opt_string (jget ''resource'' r) = None"
    by (metis not_None_eq opt_string_Some)
  then show ?thesis
    using False by (auto simp: resource_within_def Let_def exact_on_def prefix_on_def split: option.splits)
qed

lemma kinds_exclude: "exact_on e s \<Longrightarrow> \<not> prefix_on e q"
  by (simp add: exact_on_def prefix_on_def)

lemma exact_unique: "exact_on e s \<Longrightarrow> exact_on e q \<Longrightarrow> s = q"
  by (simp add: exact_on_def)

lemma prefix_unique: "prefix_on e s \<Longrightarrow> prefix_on e q \<Longrightarrow> s = q"
  by (simp add: prefix_on_def)

lemma prefix_on_self: "prefix_on e s \<Longrightarrow> prefix_admits s s"
  by (simp add: prefix_on_def prefix_admits_self)

lemma within_sound: "resource_within c r \<Longrightarrow> entry_matches_target c t \<Longrightarrow> entry_matches_target r t"
  unfolding resource_within_iff matches_iff
  by (metis exact_unique kinds_exclude prefix_unique prefix_admits_trans)

lemma resource_within_trans: "resource_within a b \<Longrightarrow> resource_within b c \<Longrightarrow> resource_within a c"
  unfolding resource_within_iff
  by (metis exact_unique kinds_exclude prefix_unique prefix_admits_trans)

lemma within_self: "entry_matches_target e t \<Longrightarrow> resource_within e e"
  unfolding resource_within_iff matches_iff by (metis prefix_on_self)

lemma within_complete:
  assumes "entry_matches_target c t0" "\<And>t. entry_matches_target c t \<Longrightarrow> entry_matches_target r t"
    "\<not> (match_form c = JStr ''prefix'' \<and> match_form r = JStr ''exact'')"
  shows "resource_within c r"
proof -
  obtain s where s: "exact_on c s \<or> prefix_on c s" using assms(1) unfolding matches_iff by blast
  then have "entry_matches_target c s" unfolding matches_iff using prefix_on_self by blast
  then consider "exact_on r s" | q where "prefix_on r q" "prefix_admits q s"
    using assms(2) unfolding matches_iff by blast
  then show ?thesis
  proof cases
    case 1
    then have "exact_on c s" using s assms(3) by (auto simp: exact_on_def prefix_on_def)
    then show ?thesis using 1 unfolding resource_within_iff by blast
  next
    case 2
    then show ?thesis using s unfolding resource_within_iff by blast
  qed
qed

lemma prefix_target_safe:
  assumes "prefix_admits base target"
  shows "\<exists>b t bs rest. prefix_form_of base = Some b \<and> prefix_form_of target = Some t \<and>
    pf_scheme t = pf_scheme b \<and> pf_authority t = pf_authority b \<and> pf_path b = join_path bs \<and>
    pf_path t = join_path (base_segments bs @ rest) \<and> (\<forall>x \<in> set (base_segments bs @ rest). x \<noteq> ''.'' \<and> x \<noteq> ''..'')"
proof -
  obtain b t where f: "prefix_form_of base = Some b" "prefix_form_of target = Some t"
    and eq: "pf_scheme b = pf_scheme t" "pf_authority b = pf_authority t" and w: "path_within (pf_path b) (pf_path t)"
    using assms unfolding prefix_admits_iff by blast
  obtain bs where bs: "pf_path b = join_path bs" "bs \<noteq> []" "slashless bs" "\<forall>x \<in> set bs. x \<noteq> ''.'' \<and> x \<noteq> ''..''"
    using prefix_form_path[OF f(1)] unfolding slashless_def by blast
  obtain ts where ts: "pf_path t = join_path ts" "slashless ts" "\<forall>x \<in> set ts. x \<noteq> ''.'' \<and> x \<noteq> ''..''"
    using prefix_form_path[OF f(2)] unfolding slashless_def by blast
  obtain ss rest where ss: "join_path ss = join_path ts" "ss = bs \<or> ss = ts" "ss = base_segments bs @ rest"
    using path_within_segments[OF bs(3) ts(2) bs(2)] w unfolding bs(1) ts(1) by blast
  have "\<forall>x \<in> set ss. x \<noteq> ''.'' \<and> x \<noteq> ''..''" using ss(2) bs(4) ts(3) by blast
  then show ?thesis using f eq bs(1) ts(1) ss(1,3) by metis
qed

text \<open>
  C23. Resource containment is exact.  A target the candidate entry matches is
  matched by the reference; the relation is transitive, and reflexive on every entry
  that matches anything; and, but for a prefix candidate under an exact reference,
  which is never contained, it holds whenever every target the candidate matches is
  matched by the reference.  A prefix entry admits only targets of its own normalized
  scheme and authority whose normalized path extends the base's segment by segment,
  with no dot segment left in it, however the target was spelled.
\<close>

theorem resource_within_exact:
  "(resource_within c r \<and> entry_matches_target c t \<longrightarrow> entry_matches_target r t) \<and>
   (resource_within c r \<and> resource_within r q \<longrightarrow> resource_within c q) \<and>
   (entry_matches_target c t \<longrightarrow> resource_within c c) \<and>
   (entry_matches_target c t \<and> (\<forall>u. entry_matches_target c u \<longrightarrow> entry_matches_target r u) \<and>
      \<not> (match_form c = JStr ''prefix'' \<and> match_form r = JStr ''exact'') \<longrightarrow> resource_within c r) \<and>
   (prefix_admits base target \<longrightarrow>
      (\<exists>b f bs rest. prefix_form_of base = Some b \<and> prefix_form_of target = Some f \<and>
         pf_scheme f = pf_scheme b \<and> pf_authority f = pf_authority b \<and> pf_path b = join_path bs \<and>
         pf_path f = join_path (base_segments bs @ rest) \<and>
         (\<forall>x \<in> set (base_segments bs @ rest). x \<noteq> ''.'' \<and> x \<noteq> ''..'')))"
proof (intro conjI impI)
  show "resource_within c r" if "entry_matches_target c t \<and> (\<forall>u. entry_matches_target c u \<longrightarrow> entry_matches_target r u) \<and>
      \<not> (match_form c = JStr ''prefix'' \<and> match_form r = JStr ''exact'')"
    by (rule within_complete[of c t]) (use that in blast)+
qed (blast intro: within_sound resource_within_trans within_self, blast intro: within_sound resource_within_trans within_self,
    blast intro: within_self, rule prefix_target_safe)

theorem resource_within_exact_witness:
  "let c = JObj [(''resource'', JStr ''https://a/x/b'')];
       r = JObj [(''resource'', JStr ''HTTPS://A:443/x/''), (''resource_match'', JStr ''prefix'')];
       q = JObj [(''resource'', JStr ''https://a''), (''resource_match'', JStr ''prefix'')]
   in resource_within c r \<and> resource_within r q \<and> resource_within c q \<and> \<not> resource_within q r \<and>
      entry_matches_target c ''https://a/x/b'' \<and> entry_matches_target r ''https://a/x/b'' \<and>
      \<not> entry_matches_target r ''https://a/x/../b''"
proof -
  let ?c = "JObj [(''resource'', JStr ''https://a/x/b'')]"
  let ?r = "JObj [(''resource'', JStr ''HTTPS://A:443/x/''), (''resource_match'', JStr ''prefix'')]"
  let ?q = "JObj [(''resource'', JStr ''https://a''), (''resource_match'', JStr ''prefix'')]"
  have 1: "resource_within ?c ?r" and 2: "resource_within ?r ?q" and 3: "\<not> resource_within ?q ?r"
    and 4: "entry_matches_target ?c ''https://a/x/b''" and 5: "\<not> entry_matches_target ?r ''https://a/x/../b''"
    by code_simp+
  have "entry_matches_target ?r ''https://a/x/b''" "resource_within ?c ?q"
    using resource_within_exact[of ?c ?r "''https://a/x/b''" ?q] 1 2 4 by blast+
  then show ?thesis unfolding Let_def using 1 2 3 4 5 by blast
qed

end
