(* ===== verification/Canonical_Json.thy ===== *)
theory Canonical_Json
  imports Json
begin

text \<open>
  What the canonical form identifies.  Every digest, every byte comparison of
  bindings and completion conditions, and every commitment of the code is taken over
  \<^verbatim>\<open>canonicalize\<close>; here its text is shown to determine the value up to the order
  in which objects list their members, and nothing more.

  The canonical text is the plain text of the value with its members sorted, and the
  plain text can be read back: a value's text, followed by a delimiter, has no other
  reading.
\<close>

section \<open>Sorting\<close>

lemma compare_utf16_zero: "compare_utf16 a b = 0 \<longleftrightarrow> a = b"
  by (induction a b rule: compare_utf16.induct) (auto simp: code_unit_def)

lemma compare_utf16_flip: "compare_utf16 b a < 0 \<longleftrightarrow> 0 < compare_utf16 a b"
  by (induction a b rule: compare_utf16.induct) auto

lemma compare_utf16_trans: "compare_utf16 a b < 0 \<Longrightarrow> compare_utf16 b c < 0 \<Longrightarrow> compare_utf16 a c < 0"
proof (induction a arbitrary: b c)
  case Nil
  then show ?case by (cases b; cases c) auto
next
  case (Cons x a)
  then obtain y b' z c' where "b = y # b'" "c = z # c'" by (cases b; cases c) auto
  then show ?case using Cons by (auto split: if_splits)
qed

definition before_key :: "string \<times> 'v \<Rightarrow> string \<times> 'v \<Rightarrow> bool" where
  "before_key m n = (compare_utf16 (fst m) (fst n) < 0)"

lemma before_key_trans: "before_key a b \<Longrightarrow> before_key b c \<Longrightarrow> before_key a c"
  unfolding before_key_def by (rule compare_utf16_trans)

lemma before_key_irrefl: "\<not> before_key a a"
  using compare_utf16_zero[of "fst a" "fst a"] by (simp add: before_key_def)

lemma before_key_total: "fst a \<noteq> fst b \<Longrightarrow> \<not> before_key a b \<Longrightarrow> before_key b a"
  using compare_utf16_zero[of "fst a" "fst b"] compare_utf16_flip[of "fst b" "fst a"] by (auto simp: before_key_def)

lemma set_insert_member [simp]: "set (insert_member m ns) = insert m (set ns)"
  by (induction ns) auto

lemma set_sort_members [simp]: "set (sort_members ms) = set ms"
  by (induction ms) (simp_all add: sort_members_def)

lemma insert_member_sorted:
  "sorted_wrt before_key ns \<Longrightarrow> fst m \<notin> fst ` set ns \<Longrightarrow> sorted_wrt before_key (insert_member m ns)"
proof (induction ns)
  case Nil
  then show ?case by simp
next
  case (Cons n ns)
  show ?case
  proof (cases "compare_utf16 (fst m) (fst n) \<le> 0")
    case True
    then have "before_key m n" using Cons.prems(2) compare_utf16_zero[of "fst m" "fst n"] by (auto simp: before_key_def)
    then show ?thesis using True Cons.prems(1) by (auto intro: before_key_trans)
  next
    case False
    then have "before_key n m" using compare_utf16_flip[of "fst n" "fst m"] by (simp add: before_key_def)
    then show ?thesis using False Cons by simp
  qed
qed

lemma sort_members_sorted: "distinct (map fst ms) \<Longrightarrow> sorted_wrt before_key (sort_members ms)"
proof (induction ms)
  case Nil
  then show ?case by (simp add: sort_members_def)
next
  case (Cons m ms)
  have "sorted_wrt before_key (insert_member m (sort_members ms))"
    by (rule insert_member_sorted) (use Cons in simp_all)
  then show ?case by (simp add: sort_members_def)
qed

lemma sorted_unique:
  "sorted_wrt before_key xs \<Longrightarrow> sorted_wrt before_key ys \<Longrightarrow> set xs = set ys \<Longrightarrow> xs = ys"
proof (induction xs arbitrary: ys)
  case Nil
  then show ?case by simp
next
  case (Cons x xs)
  then obtain y ys' where ys: "ys = y # ys'" by (cases ys) auto
  have "x = y"
  proof (rule ccontr)
    assume "x \<noteq> y"
    then have "x \<in> set ys'" "y \<in> set xs" using Cons.prems(3) unfolding ys by auto
    then have "before_key y x" "before_key x y" using Cons.prems(1,2) unfolding ys by auto
    then show False using before_key_trans before_key_irrefl by blast
  qed
  moreover have "x \<notin> set xs" "y \<notin> set ys'"
    using Cons.prems(1,2) before_key_irrefl[of x] before_key_irrefl[of y] unfolding ys by auto
  ultimately have "set xs = set ys'" using Cons.prems(3) unfolding ys by auto
  then show ?case using Cons \<open>x = y\<close> unfolding ys by simp
qed

lemma insert_member_map: "insert_member (map_prod id f m) (map (map_prod id f) ns) = map (map_prod id f) (insert_member m ns)"
  by (induction ns) auto

lemma sort_members_Cons: "sort_members (m # ms) = insert_member m (sort_members ms)"
  by (simp add: sort_members_def)

lemma sort_members_map: "sort_members (map (map_prod id f) ms) = map (map_prod id f) (sort_members ms)"
proof (induction ms)
  case Nil
  then show ?case by (simp add: sort_members_def)
next
  case (Cons m ms)
  then show ?case by (simp only: list.map sort_members_Cons insert_member_map)
qed

text \<open>Two objects with distinct names sort to the same list exactly when they give every name the same value.\<close>

lemma sort_members_eq:
  assumes "distinct (map fst ms)" "distinct (map fst ns)"
  shows "sort_members ms = sort_members ns \<longleftrightarrow> map_of ms = map_of ns"
proof
  assume "sort_members ms = sort_members ns"
  then have "set ms = set ns" by (metis set_sort_members)
  then show "map_of ms = map_of ns" using assms by (simp add: map_of_inject_set)
next
  assume "map_of ms = map_of ns"
  then have "set ms = set ns" using assms by (simp add: map_of_inject_set)
  then show "sort_members ms = sort_members ns"
    using assms by (intro sorted_unique) (simp_all add: sort_members_sorted)
qed

section \<open>Plain text\<close>

primrec text_of :: "json \<Rightarrow> string" where
  "text_of JNull = ''null''"
| "text_of (JBool b) = (if b then ''true'' else ''false'')"
| "text_of (JNum r) = num_text r"
| "text_of (JStr s) = quoted s"
| "text_of (JArr vs) = ''['' @ join_with '','' (map text_of vs) @ '']''"
| "text_of (JObj ms) =
     ''{'' @ join_with '','' (map (\<lambda>m. quoted (fst m) @ '':'' @ snd m) (map (map_prod id text_of) ms)) @ ''}''"

section \<open>Numbers and strings\<close>

fun parse_nat :: "nat \<Rightarrow> string \<Rightarrow> nat" where
  "parse_nat acc [] = acc"
| "parse_nat acc (c # s) = parse_nat (10 * acc + digit_val c) s"

lemma parse_nat_snoc: "parse_nat acc (s @ [c]) = 10 * parse_nat acc s + digit_val c"
  by (induction acc s rule: parse_nat.induct) simp_all

lemma digit_char_facts: "d < 10 \<Longrightarrow> digit_val (digit_char d) = d \<and> is_digit (digit_char d)"
  by (simp add: digit_val_def digit_char_def is_digit_def code_unit_def)

lemma parse_nat_text: "parse_nat 0 (nat_text n) = n"
proof (induction n rule: nat_text.induct)
  case (1 n)
  then show ?case
    by (cases "n < 10") (simp_all add: nat_text.simps[of n] parse_nat_snoc digit_char_facts)
qed

lemma nat_text_digits: "nat_text n \<noteq> [] \<and> list_all is_digit (nat_text n)"
proof (induction n rule: nat_text.induct)
  case (1 n)
  then show ?case by (cases "n < 10") (simp_all add: nat_text.simps[of n] digit_char_facts)
qed

lemma nat_text_injective: "nat_text m = nat_text n \<longleftrightarrow> m = n"
  by (metis parse_nat_text)

definition num_char :: "char \<Rightarrow> bool" where
  "num_char c = (is_digit c \<or> c \<in> set ''-+.e'')"

lemma minus_not_digit: "\<not> is_digit CHR ''-''" "\<not> is_digit CHR ''.''" "\<not> is_digit CHR ''e''" "is_digit CHR ''0''"
  by (simp_all add: is_digit_def code_unit_def)

lemma nat_text_hd: "nat_text n = c # s \<Longrightarrow> is_digit c"
  using nat_text_digits[of n] by simp

text \<open>Reading a number's text: sign, digits around the point, exponent.\<close>

fun read_exp :: "string \<Rightarrow> int" where
  "read_exp [] = 0"
| "read_exp (c # s) = (if c = CHR ''-'' then - int (parse_nat 0 s) else int (parse_nat 0 s))"

definition read_pos :: "string \<Rightarrow> rat" where
  "read_pos t =
     (let m = takeWhile (\<lambda>c. c \<noteq> CHR ''e'') t; x = drop (Suc (length m)) t;
          i = takeWhile (\<lambda>c. c \<noteq> CHR ''.'') m; f = drop (Suc (length i)) m
      in of_nat (parse_nat 0 (i @ f)) * 10 powi (read_exp x - int (length f)))"

fun read_num :: "string \<Rightarrow> rat" where
  "read_num (c # s) = (if c = CHR ''-'' then - read_pos s else read_pos (c # s))"
| "read_num [] = 0"

lemma parse_nat_append: "parse_nat acc (s @ t) = parse_nat acc s * 10 ^ length t + parse_nat 0 t"
proof (induction t rule: rev_induct)
  case (snoc c t)
  then show ?case by (simp add: append_assoc[symmetric] parse_nat_snoc algebra_simps del: append_assoc)
qed simp

lemma parse_zeros: "parse_nat acc (replicate n CHR ''0'') = acc * 10 ^ n"
  by (induction n arbitrary: acc) (simp_all add: digit_val_def code_unit_def)

lemma read_pos_forms:
  assumes "list_all is_digit i" "list_all is_digit f"
  shows "read_pos i = of_nat (parse_nat 0 i)"
    "read_pos (i @ CHR ''.'' # f) = of_nat (parse_nat 0 (i @ f)) * 10 powi (- int (length f))"
    "read_pos (i @ CHR ''e'' # x) = of_nat (parse_nat 0 i) * 10 powi read_exp x"
    "read_pos (i @ CHR ''.'' # f @ CHR ''e'' # x) = of_nat (parse_nat 0 (i @ f)) * 10 powi (read_exp x - int (length f))"
proof -
  have no: "\<forall>c \<in> set i. c \<noteq> CHR ''e'' \<and> c \<noteq> CHR ''.''" "\<forall>c \<in> set f. c \<noteq> CHR ''e'' \<and> c \<noteq> CHR ''.''"
    using assms minus_not_digit by (auto simp: list_all_iff)
  have e: "takeWhile (\<lambda>c. c \<noteq> CHR ''e'') i = i" "takeWhile (\<lambda>c. c \<noteq> CHR ''.'') i = i"
    "takeWhile (\<lambda>c. c \<noteq> CHR ''e'') f = f"
    using no by (simp_all add: takeWhile_eq_all_conv)
  have b: "takeWhile (\<lambda>c. c \<noteq> CHR ''e'') (f @ CHR ''e'' # x) = f" using no(2) by (simp add: takeWhile_append2)
  show "read_pos i = of_nat (parse_nat 0 i)"
    unfolding read_pos_def Let_def e by simp
  show "read_pos (i @ CHR ''.'' # f) = of_nat (parse_nat 0 (i @ f)) * 10 powi (- int (length f))"
    using no(1) by (simp add: read_pos_def Let_def e)
  show "read_pos (i @ CHR ''e'' # x) = of_nat (parse_nat 0 i) * 10 powi read_exp x"
    using no(1) by (simp add: read_pos_def Let_def e)
  show "read_pos (i @ CHR ''.'' # f @ CHR ''e'' # x) = of_nat (parse_nat 0 (i @ f)) * 10 powi (read_exp x - int (length f))"
    using no(1) by (simp add: read_pos_def Let_def e b)
qed

lemma read_exp_text:
  "read_exp ((if m < 0 then CHR ''-'' else CHR ''+'') # nat_text (nat \<bar>m\<bar>)) = m"
  by (simp add: parse_nat_text)

lemma read_point_text:
  assumes "list_all is_digit ds" "ds \<noteq> []"
  shows "read_pos (point_text ds (int (length ds) + e)) = of_nat (parse_nat 0 ds) * 10 powi e"
proof -
  let ?k = "int (length ds)"
  define n where "n = ?k + e"
  have z: "list_all is_digit (replicate j CHR ''0'')" for j by (simp add: list_all_iff minus_not_digit)
  have td: "list_all is_digit (take j ds)" "list_all is_digit (drop j ds)" for j
    using assms(1) by (auto simp: list_all_iff dest: in_set_takeD in_set_dropD)
  consider "?k \<le> n \<and> n \<le> 21" | "\<not> (?k \<le> n \<and> n \<le> 21)" "0 < n \<and> n \<le> 21"
    | "\<not> (?k \<le> n \<and> n \<le> 21)" "\<not> (0 < n \<and> n \<le> 21)" "- 6 < n \<and> n \<le> 0"
    | "\<not> (?k \<le> n \<and> n \<le> 21)" "\<not> (0 < n \<and> n \<le> 21)" "\<not> (- 6 < n \<and> n \<le> 0)" by blast
  then have "read_pos (point_text ds n) = of_nat (parse_nat 0 ds) * 10 powi e"
  proof cases
    case 1
    then have "point_text ds n = ds @ replicate (nat (n - ?k)) CHR ''0''" by (simp add: point_text_def Let_def)
    moreover have "list_all is_digit (ds @ replicate (nat (n - ?k)) CHR ''0'')" using assms(1) z by simp
    moreover have "(10::rat) ^ nat (n - ?k) = 10 powi e" using 1 by (simp add: n_def power_int_def)
    ultimately show ?thesis using read_pos_forms(1)[of "ds @ replicate (nat (n - ?k)) CHR ''0''" "[]"]
      by (simp add: parse_nat_append parse_zeros)
  next
    case 2
    then have "point_text ds n = take (nat n) ds @ CHR ''.'' # drop (nat n) ds" by (simp add: point_text_def Let_def)
    moreover have "- int (length (drop (nat n) ds)) = e" using 2 by (auto simp: n_def)
    ultimately show ?thesis using read_pos_forms(2)[OF td] by simp
  next
    case 3
    then have "point_text ds n = ''0'' @ CHR ''.'' # replicate (nat (- n)) CHR ''0'' @ ds" by (simp add: point_text_def Let_def)
    moreover have "- int (length (replicate (nat (- n)) CHR ''0'' @ ds)) = e" using 3 by (simp add: n_def)
    moreover have "list_all is_digit ''0''" "list_all is_digit (replicate (nat (- n)) CHR ''0'' @ ds)"
      using assms(1) z minus_not_digit by simp_all
    moreover have "parse_nat 0 (''0'' @ replicate (nat (- n)) CHR ''0'' @ ds) = parse_nat 0 ds"
      using parse_zeros[of 0] by (simp add: parse_nat_append digit_val_def code_unit_def)
    ultimately show ?thesis using read_pos_forms(2)[of "''0''" "replicate (nat (- n)) CHR ''0'' @ ds"] by simp
  next
    case 4
    let ?m = "n - 1"
    let ?es = "(if ?m < 0 then CHR ''-'' else CHR ''+'') # nat_text (nat \<bar>?m\<bar>)"
    obtain d ds' where ds: "ds = d # ds'" using assms(2) by (cases ds) auto
    show ?thesis
    proof (cases "?k = 1")
      case True
      then have "point_text ds n = ds @ CHR ''e'' # ?es" using 4 by (simp only: point_text_def Let_def if_False if_True simp_thms)
      moreover have "?m = e" using True by (simp add: n_def)
      ultimately show ?thesis using read_pos_forms(3)[OF assms(1,1), of ?es] unfolding read_exp_text by simp
    next
      case False
      then have "point_text ds n = [d] @ CHR ''.'' # ds' @ CHR ''e'' # ?es"
        using 4 by (simp only: point_text_def Let_def if_False if_True simp_thms ds list.sel append.simps)
      moreover have "?m - int (length ds') = e" by (simp add: n_def ds)
      moreover have "list_all is_digit [d]" "list_all is_digit ds'" using assms(1) by (simp_all add: ds)
      ultimately show ?thesis using read_pos_forms(4)[of "[d]" ds' ?es] unfolding read_exp_text by (simp add: ds)
    qed
  qed
  then show ?thesis by (simp only: n_def)
qed

lemma drop_tens_value: "drop_tens s z = (s', z') \<Longrightarrow> z \<le> z' \<and> s * 10 ^ z = s' * 10 ^ z' \<and> (s = 0 \<longleftrightarrow> s' = 0)"
proof (induction s z arbitrary: s' z' rule: drop_tens.induct)
  case (1 s z)
  show ?case
  proof (cases "s \<noteq> 0 \<and> s mod 10 = 0")
    case True
    then have "drop_tens (s div 10) (Suc z) = (s', z')" using 1(2) drop_tens.simps[of s z] by simp
    from 1(1)[OF True this] have "Suc z \<le> z'" "s div 10 * 10 ^ Suc z = s' * 10 ^ z'" "s div 10 = 0 \<longleftrightarrow> s' = 0" by simp_all
    moreover have "s div 10 * 10 = s" using True by auto
    ultimately show ?thesis using True by (auto simp: algebra_simps)
  next
    case False
    then have "s' = s" "z' = z" using 1(2) drop_tens.simps[of s z] by (simp_all split: if_splits)
    then show ?thesis by simp
  qed
qed

text \<open>A number of the code has a finite decimal expansion, and \<open>places\<close> decimals reach it.\<close>

definition finite_decimal :: "rat \<Rightarrow> bool" where
  "finite_decimal r \<longleftrightarrow> (\<exists>i. is_int_num (r * 10 ^ i))"

lemma places_enough: "0 < q \<Longrightarrow> q dvd 10 ^ i \<Longrightarrow> q dvd 10 ^ places q"
proof (induction q arbitrary: i rule: places.induct)
  case (1 q)
  define g where "g = gcd q 10"
  show ?case
  proof (cases "g = 1")
    case True
    then have "coprime q (10 ^ i)" by (intro coprime_power_right_iff[THEN iffD2]) (simp add: g_def coprime_iff_gcd_eq_1)
    then have "q = 1" using 1(3) by (metis coprime_absorb_left nat_dvd_1_iff_1)
    then show ?thesis by simp
  next
    case False
    have q: "q = g * (q div g)" by (simp add: g_def)
    have c: "coprime (q div g) (10 div g)" using 1(2) unfolding g_def by (intro div_gcd_coprime) auto
    obtain j where j: "i = Suc j"
    proof (cases i)
      case 0
      then have "q = 1" using 1(3) by simp
      then show ?thesis using False by (simp add: g_def)
    qed
    have "g * (q div g) dvd g * (10 div g) * 10 ^ j" using 1(3) q by (simp add: j g_def)
    then have "q div g dvd (10 div g) * 10 ^ j" by (metis False g_def 1(2) dvd_times_left_cancel_iff gcd_eq_0_iff mult.assoc neq0_conv)
    then have "q div g dvd 10 ^ j" using c coprime_dvd_mult_right_iff by blast
    moreover have "0 < q div g" using 1(2) q by (metis mult_0_right neq0_conv)
    ultimately have "q div g dvd 10 ^ places (q div g)" using 1(1)[OF g_def] False 1(2) by simp
    then have "g * (q div g) dvd 10 * 10 ^ places (q div g)" by (intro mult_dvd_mono) (simp_all add: g_def)
    moreover have "places q = Suc (places (q div g))" using False 1(2) places.simps[of q] by (simp add: g_def[symmetric] Let_def)
    ultimately show ?thesis using q by simp
  qed
qed

lemma decimal_scaled:
  assumes "finite_decimal r" "0 \<le> r"
  shows "is_int_num (r * 10 ^ places (nat (snd (quotient_of r))))"
proof -
  obtain p q where pq: "quotient_of r = (p, q)" by (cases "quotient_of r")
  have q: "0 < q" "coprime p q" "r = of_int p / of_int q"
    using pq quotient_of_denom_pos quotient_of_coprime quotient_of_div by blast+
  obtain i where "is_int_num (r * 10 ^ i)" using assms(1) unfolding finite_decimal_def by blast
  then obtain n where n: "r * 10 ^ i = of_int n" unfolding is_int_num_def by metis
  have "of_int (p * 10 ^ i) = (of_int (n * q) :: rat)" using n q by (simp add: field_simps)
  then have "p * 10 ^ i = n * q" by (simp only: of_int_eq_iff)
  then have "q dvd p * 10 ^ i" by simp
  then have "q dvd 10 ^ i" using q(2) by (simp add: coprime_dvd_mult_right_iff coprime_commute)
  then have "nat q dvd 10 ^ i" using q(1) by (metis int_dvd_int_iff int_nat_eq less_imp_le of_nat_numeral of_nat_power)
  then have "nat q dvd 10 ^ places (nat q)" using q(1) by (intro places_enough) simp_all
  then obtain m where m: "10 ^ places (nat q) = nat q * m" by blast
  have "(10::rat) ^ places (nat q) = of_nat (10 ^ places (nat q))" by simp
  also have "\<dots> = of_int q * of_nat m" unfolding m using q(1) by simp
  finally have "r * 10 ^ places (nat q) = of_int (p * int m)" using q by simp
  then show ?thesis unfolding pq snd_conv is_int_num_def by simp
qed

lemma decimal_of_value:
  assumes "finite_decimal r" "0 \<le> r" "decimal_of r = (s, e)"
  shows "of_nat s * 10 powi e = r"
proof -
  define j where "j = places (nat (snd (quotient_of r)))"
  obtain z where z: "drop_tens (nat \<lfloor>r * 10 ^ j\<rfloor>) 0 = (s, z)" "e = int z - int j"
    using assms(3) by (auto simp: decimal_of_def Let_def j_def split: prod.splits)
  have v: "nat \<lfloor>r * 10 ^ j\<rfloor> = s * 10 ^ z" using drop_tens_value[OF z(1)] by simp
  have "of_int \<lfloor>r * 10 ^ j\<rfloor> = r * 10 ^ j"
    using decimal_scaled[OF assms(1,2)] unfolding is_int_num_def j_def .
  moreover have "(of_int \<lfloor>r * 10 ^ j\<rfloor> :: rat) = of_nat (nat \<lfloor>r * 10 ^ j\<rfloor>)" using assms(2) by simp
  ultimately have "r * 10 ^ j = of_nat s * 10 ^ z" unfolding v by simp
  then have "r = of_nat s * (10 ^ z / 10 ^ j)" by (simp add: field_simps)
  also have "(10::rat) ^ z / 10 ^ j = 10 powi e" unfolding z(2) by (simp add: power_int_diff)
  finally show ?thesis by simp
qed

lemma point_text_hd: "list_all is_digit ds \<Longrightarrow> ds \<noteq> [] \<Longrightarrow> point_text ds n \<noteq> [] \<and> is_digit (hd (point_text ds n))"
  using minus_not_digit(4) by (cases ds) (auto simp: point_text_def Let_def neq_Nil_conv take_Cons')

text \<open>The text of a number reads back to it.\<close>

lemma num_text_read:
  assumes "finite_decimal r"
  shows "read_num (num_text r) = r"
proof -
  obtain s e where d: "decimal_of \<bar>r\<bar> = (s, e)" by (cases "decimal_of \<bar>r\<bar>")
  have "finite_decimal \<bar>r\<bar>"
  proof -
    obtain i n where "r * 10 ^ i = of_int n" using assms unfolding finite_decimal_def is_int_num_def by metis
    then have "\<bar>r\<bar> * 10 ^ i = of_int \<bar>n\<bar>" by (metis abs_mult abs_of_nonneg of_int_abs zero_le_numeral zero_le_power)
    then have "is_int_num (\<bar>r\<bar> * 10 ^ i)" unfolding is_int_num_def by simp
    then show ?thesis unfolding finite_decimal_def by blast
  qed
  then have v: "of_nat s * 10 powi e = \<bar>r\<bar>" using decimal_of_value[OF _ _ d] by simp
  show ?thesis
  proof (cases "s = 0")
    case True
    then have "r = 0" using v by simp
    moreover have "read_num (num_text r) = 0"
      using True read_pos_forms(1)[of "''0''" "[]"] minus_not_digit by (simp add: num_text_def d digit_val_def code_unit_def)
    ultimately show ?thesis by simp
  next
    case False
    let ?t = "point_text (nat_text s) (int (length (nat_text s)) + e)"
    have t: "read_pos ?t = \<bar>r\<bar>"
      using read_point_text[of "nat_text s" e] nat_text_digits[of s] v by (simp add: parse_nat_text)
    have "?t \<noteq> [] \<and> is_digit (hd ?t)" using nat_text_digits[of s] by (intro point_text_hd) simp_all
    then obtain c u where c: "?t = c # u" "is_digit c" by (cases ?t) auto
    then have "c \<noteq> CHR ''-''" using minus_not_digit by auto
    moreover have "num_text r = (if r < 0 then ''-'' else []) @ ?t" using False by (simp add: num_text_def d Let_def)
    ultimately show ?thesis using t c by (cases "r < 0") simp_all
  qed
qed

lemma num_text_chars: "num_text r \<noteq> [] \<and> list_all num_char (num_text r)"
proof -
  obtain s e where d: "decimal_of \<bar>r\<bar> = (s, e)" by (cases "decimal_of \<bar>r\<bar>")
  have n: "list_all num_char (nat_text m)" "nat_text m \<noteq> []" for m using nat_text_digits[of m] by (auto simp: num_char_def list_all_iff)
  have z: "num_char CHR ''0''" "num_char CHR ''.''" "num_char CHR ''e''" "num_char CHR ''-''" "num_char CHR ''+''"
    using minus_not_digit(4) by (simp_all add: num_char_def)
  have "list_all num_char (point_text ds m) \<and> point_text ds m \<noteq> []" if ds: "list_all num_char ds" "ds \<noteq> []" for ds m
  proof
    have "list_all num_char (take j ds)" "list_all num_char (drop j ds)" "num_char (hd ds)" "list_all num_char (tl ds)" for j
      using ds by (auto simp: list_all_iff dest: in_set_takeD in_set_dropD list.set_sel(2))
    then show "list_all num_char (point_text ds m)" using ds n z by (simp add: point_text_def Let_def list_all_iff ball_Un set_replicate_conv_if)
    show "point_text ds m \<noteq> []" using ds by (simp add: point_text_def Let_def)
  qed
  then show ?thesis using n z by (simp add: num_text_def d Let_def)
qed

text \<open>An integer below \<open>10 ^ 21\<close> is written with its digits.\<close>

lemma nat_text_times: "0 < s \<Longrightarrow> nat_text (s * 10 ^ j) = nat_text s @ replicate j CHR ''0''"
proof (induction j)
  case (Suc j)
  have "\<not> s * 10 ^ Suc j < 10" using Suc.prems by (simp add: not_less)
  then have "nat_text (s * 10 ^ Suc j) = nat_text (s * 10 ^ j) @ [digit_char 0]"
    using nat_text.simps[of "s * 10 ^ Suc j"] by (simp add: mult.commute mult.left_commute)
  also have "digit_char 0 = CHR ''0''" by code_simp
  finally show ?case using Suc by (simp add: replicate_append_same)
qed simp

lemma nat_text_length: "n < 10 ^ k \<Longrightarrow> 0 < k \<Longrightarrow> length (nat_text n) \<le> k"
proof (induction n arbitrary: k rule: nat_text.induct)
  case (1 n)
  show ?case
  proof (cases "n < 10")
    case True
    then show ?thesis using 1(3) nat_text.simps[of n] by simp
  next
    case False
    have "1 < k"
    proof (rule ccontr)
      assume "\<not> 1 < k"
      then have "k = 1" using 1(3) by simp
      then show False using False 1(2) by simp
    qed
    then obtain j where j: "k = Suc j" "0 < j" by (cases k) auto
    have "n div 10 < 10 ^ j" using 1(2) unfolding j by (simp add: less_mult_imp_div_less mult.commute)
    then have "length (nat_text (n div 10)) \<le> j" using 1(1)[OF False] j by blast
    then show ?thesis using False nat_text.simps[of n] j by simp
  qed
qed

lemma int_text_exact:
  assumes "\<bar>i\<bar> < 10 ^ 21"
  shows "num_text (of_int i) = int_text i"
proof -
  have q: "quotient_of \<bar>of_int i\<bar> = (\<bar>i\<bar>, 1)" using quotient_of_int[of "\<bar>i\<bar>"] by (simp add: of_int_abs[symmetric] del: of_int_abs)
  have p: "places 1 = 0" by (simp add: places.simps)
  obtain s z where sz: "drop_tens (nat \<bar>i\<bar>) 0 = (s, z)" by (cases "drop_tens (nat \<bar>i\<bar>) 0")
  have "nat \<lfloor>\<bar>of_int i :: rat\<bar>\<rfloor> = nat \<bar>i\<bar>" by (simp add: of_int_abs[symmetric] del: of_int_abs)
  then have d: "decimal_of \<bar>of_int i\<bar> = (s, int z)" using sz p unfolding decimal_of_def q by simp
  have v: "nat \<bar>i\<bar> = s * 10 ^ z" "nat \<bar>i\<bar> = 0 \<longleftrightarrow> s = 0" using drop_tens_value[OF sz] by simp_all
  show ?thesis
  proof (cases "s = 0")
    case True
    then have "i = 0" using v by simp
    moreover have "num_text (of_int i) = ''0''" unfolding num_text_def d using True by simp
    moreover have "int_text 0 = ''0''" by code_simp
    ultimately show ?thesis by (simp only:)
  next
    case False
    let ?ds = "nat_text s"
    have t: "nat_text (nat \<bar>i\<bar>) = ?ds @ replicate z CHR ''0''" using False v nat_text_times by simp
    have "nat \<bar>i\<bar> < nat (10 ^ 21)" using assms by (simp only: zless_nat_conj) simp
    then have "nat \<bar>i\<bar> < 10 ^ 21" by (simp add: nat_power_eq)
    then have "length (nat_text (nat \<bar>i\<bar>)) \<le> 21" by (rule nat_text_length) simp
    then have "int (length ?ds) + int z \<le> 21" unfolding t by simp
    then have "point_text ?ds (int (length ?ds) + int z) = nat_text (nat \<bar>i\<bar>)"
      unfolding t by (simp add: point_text_def Let_def)
    then show ?thesis using False by (auto simp: num_text_def d int_text_def)
  qed
qed

text \<open>The representative of the numbers with one text.\<close>

definition same_text :: "rat \<Rightarrow> rat" where
  "same_text r = (SOME q. num_text q = num_text r)"

lemma same_text [simp]: "num_text (same_text r) = num_text r"
  unfolding same_text_def by (rule someI) (rule refl)

lemma same_text_inject: "same_text r = same_text q \<longleftrightarrow> num_text r = num_text q"
proof
  assume "same_text r = same_text q"
  then show "num_text r = num_text q" by (metis same_text)
qed (simp add: same_text_def)

lemma same_text_idem [simp]: "same_text (same_text r) = same_text r"
  by (simp add: same_text_inject)

primrec normal :: "json \<Rightarrow> json" where
  "normal JNull = JNull"
| "normal (JBool b) = JBool b"
| "normal (JNum r) = JNum (same_text r)"
| "normal (JStr s) = JStr s"
| "normal (JArr vs) = JArr (map normal vs)"
| "normal (JObj ms) = JObj (sort_members (map (map_prod id normal) ms))"

lemma canonical_text: "canonicalize v = text_of (normal v)"
proof (induction v)
  case (JArr vs)
  then show ?case by (simp cong: map_cong)
next
  case (JObj ms)
  then have "map (map_prod id canonicalize) ms = map (map_prod id text_of) (map (map_prod id normal) ms)"
    by (auto simp: prod_set_defs intro!: map_cong)
  then show ?case by (simp add: sort_members_map[of text_of] del: map_map)
qed simp_all

text \<open>An escape sequence: one plain character, a backslash and a letter, or a backslash, \<open>u\<close> and four digits.\<close>

definition backslash :: char where "backslash = CHR 0x5C"
definition quote_char :: char where "quote_char = CHR 0x22"

lemma escape_codes: "char_of (92::nat) = backslash" "char_of (34::nat) = quote_char"
  by code_simp+

definition short_escape :: "nat \<Rightarrow> char option" where
  "short_escape u = map_of [(34, quote_char), (92, backslash), (8, CHR ''b''), (9, CHR ''t''),
     (10, CHR ''n''), (12, CHR ''f''), (13, CHR ''r'')] u"

lemma escape_short: "short_escape (code_unit c) = Some x \<Longrightarrow> escape_char c = [backslash, x]"
  by (auto simp: escape_char_def short_escape_def escape_codes split: if_splits)

lemma escape_long:
  "short_escape (code_unit c) = None \<Longrightarrow> code_unit c < 32 \<Longrightarrow> escape_char c =
     [backslash, CHR ''u'', CHR ''0'', CHR ''0'', hex_char (code_unit c div 16), hex_char (code_unit c mod 16)]"
  by (simp add: escape_char_def short_escape_def escape_codes split: if_splits)

lemma escape_plain:
  "short_escape (code_unit c) = None \<Longrightarrow> \<not> code_unit c < 32 \<Longrightarrow>
     escape_char c = [c] \<and> c \<noteq> quote_char \<and> c \<noteq> backslash"
  by (auto simp: escape_char_def short_escape_def backslash_def quote_char_def code_unit_def split: if_splits)

lemma short_escape_inject: "short_escape u = Some x \<Longrightarrow> short_escape v = Some x \<Longrightarrow> u = v"
  by (auto simp: short_escape_def backslash_def quote_char_def split: if_splits)

lemma short_escape_not_u: "short_escape u \<noteq> Some CHR ''u''"
  by (auto simp: short_escape_def backslash_def quote_char_def split: if_splits)

lemma hex_char_unit: "n < 16 \<Longrightarrow> code_unit (hex_char n) = (if n < 10 then 48 + n else 87 + n)"
  by (simp add: hex_char_def code_unit_def)

lemma hex_char_inject:
  assumes "a < 16" "b < 16" "hex_char a = hex_char b"
  shows "a = b"
proof -
  have "code_unit (hex_char a) = code_unit (hex_char b)" by (simp only: assms(3))
  then have "(if a < 10 then 48 + a else 87 + a) = (if b < 10 then 48 + b else 87 + b)"
    unfolding hex_char_unit[OF assms(1)] hex_char_unit[OF assms(2)] .
  then show ?thesis by (auto split: if_split_asm)
qed

lemma code_unit_injective: "code_unit c = code_unit d \<Longrightarrow> c = d"
  by (simp add: code_unit_def)

lemma escape_not_quote: "escape_char c @ s \<noteq> quote_char # t"
proof (cases "short_escape (code_unit c)")
  case None
  have "backslash \<noteq> quote_char" by (simp add: backslash_def quote_char_def)
  then show ?thesis using escape_long[OF None] escape_plain[OF None] by (cases "code_unit c < 32") auto
next
  case (Some x)
  have "backslash \<noteq> quote_char" by (simp add: backslash_def quote_char_def)
  then show ?thesis using escape_short[OF Some] by simp
qed

lemma escape_decode: "escape_char c @ s = escape_char d @ t \<Longrightarrow> c = d \<and> s = t"
proof -
  assume e: "escape_char c @ s = escape_char d @ t"
  have kind: "(\<exists>x. short_escape (code_unit c) = Some x) \<or> (short_escape (code_unit c) = None \<and> code_unit c < 32) \<or>
      (short_escape (code_unit c) = None \<and> \<not> code_unit c < 32)" for c
    by (cases "short_escape (code_unit c)") auto
  have u: "code_unit c < 256" for c by (simp add: code_unit_def)
  consider
      x y where "short_escape (code_unit c) = Some x" "short_escape (code_unit d) = Some y"
    | x where "short_escape (code_unit c) = Some x" "short_escape (code_unit d) = None" "code_unit d < 32"
    | x where "short_escape (code_unit d) = Some x" "short_escape (code_unit c) = None" "code_unit c < 32"
    | "short_escape (code_unit c) = None" "code_unit c < 32" "short_escape (code_unit d) = None" "code_unit d < 32"
    | "short_escape (code_unit c) = None" "\<not> code_unit c < 32" "short_escape (code_unit d) = None" "\<not> code_unit d < 32"
    | "short_escape (code_unit c) = None" "\<not> code_unit c < 32" "\<exists>r. escape_char d = backslash # r"
    | "short_escape (code_unit d) = None" "\<not> code_unit d < 32" "\<exists>r. escape_char c = backslash # r"
    using kind[of c] kind[of d] escape_short escape_long by metis
  then show ?thesis
  proof cases
    case 1
    then have "x = y" "s = t" using e by (simp_all add: escape_short)
    then show ?thesis using 1 short_escape_inject code_unit_injective by metis
  next
    case 2
    then show ?thesis using e short_escape_not_u by (auto simp: escape_short escape_long)
  next
    case 3
    then show ?thesis using e short_escape_not_u by (auto simp: escape_short escape_long)
  next
    case 4
    then have "hex_char (code_unit c div 16) = hex_char (code_unit d div 16)"
      "hex_char (code_unit c mod 16) = hex_char (code_unit d mod 16)" "s = t"
      using e by (simp_all add: escape_long)
    then have "code_unit c div 16 = code_unit d div 16" "code_unit c mod 16 = code_unit d mod 16"
      using hex_char_inject[of "code_unit c div 16" "code_unit d div 16"] hex_char_inject[of "code_unit c mod 16" "code_unit d mod 16"]
        u[of c] u[of d] by simp_all
    then have "code_unit c = code_unit d" by (metis div_mult_mod_eq)
    then show ?thesis using \<open>s = t\<close> code_unit_injective by blast
  next
    case 5
    then show ?thesis using e escape_plain[of c] escape_plain[of d] by simp
  next
    case 6
    then show ?thesis using e escape_plain[of c] by auto
  next
    case 7
    then show ?thesis using e escape_plain[of d] by auto
  qed
qed

lemma quoted_decode: "quoted a @ s = quoted b @ t \<Longrightarrow> a = b \<and> s = t"
proof -
  have "concat (map escape_char a) @ quote_char # s = concat (map escape_char b) @ quote_char # t \<Longrightarrow> a = b \<and> s = t"
  proof (induction a arbitrary: b)
    case Nil
    show ?case
    proof (cases b)
      case (Cons d b')
      then show ?thesis using Nil escape_not_quote[of d "concat (map escape_char b') @ quote_char # t" s] by simp
    qed (use Nil in simp)
  next
    case (Cons c a)
    show ?case
    proof (cases b)
      case Nil
      then show ?thesis using Cons.prems escape_not_quote[of c "concat (map escape_char a) @ quote_char # s" t] by simp
    next
      case b: (Cons d b')
      then have "c = d \<and> concat (map escape_char a) @ quote_char # s = concat (map escape_char b') @ quote_char # t"
        using Cons.prems by (intro escape_decode) simp
      then show ?thesis using Cons.IH[of b'] b by simp
    qed
  qed
  moreover assume "quoted a @ s = quoted b @ t"
  ultimately show ?thesis by (simp add: quoted_def escape_codes)
qed

section \<open>The text determines the value\<close>

definition stops :: "string \<Rightarrow> bool" where
  "stops s = (s = [] \<or> hd s \<in> set '',]}'')"

lemma join_tail: "join_with '','' (x # xs) = x @ (if xs = [] then [] else CHR '','' # join_with '','' xs)"
  by (cases xs) simp_all

text \<open>Separated items that can each be read off determine the list.\<close>

lemma join_decode:
  assumes "\<And>x y s t. x \<in> set xs \<Longrightarrow> y \<in> set ys \<Longrightarrow> item x @ s = item y @ t \<Longrightarrow> stops s \<Longrightarrow> stops t \<Longrightarrow> x = y \<and> s = t"
    and "\<And>x. item x \<noteq> [] \<and> hd (item x) \<noteq> cl" "cl \<in> set '']}''"
    and "join_with '','' (map item xs) @ cl # s = join_with '','' (map item ys) @ cl # t"
  shows "xs = ys \<and> s = t"
  using assms(1,4)
proof (induction xs arbitrary: ys)
  case Nil
  show ?case
  proof (cases ys)
    case (Cons y ys')
    then have "cl = hd (item y)" using Nil(2) assms(2)[of y] by (auto simp: join_tail hd_append dest: arg_cong[of _ _ hd])
    then show ?thesis using assms(2)[of y] by simp
  qed (use Nil in simp)
next
  case (Cons x xs)
  show ?case
  proof (cases ys)
    case Nil
    then have "cl = hd (item x)" using Cons.prems(2) assms(2)[of x] by (auto simp: join_tail hd_append dest: arg_cong[of _ _ hd])
    then show ?thesis using assms(2)[of x] by simp
  next
    case ys: (Cons y ys')
    define p where "p = (if xs = [] then [] else CHR '','' # join_with '','' (map item xs)) @ cl # s"
    define q where "q = (if ys' = [] then [] else CHR '','' # join_with '','' (map item ys')) @ cl # t"
    have "item x @ p = item y @ q" using Cons.prems(2) by (simp add: ys join_tail p_def q_def)
    moreover have "stops p" "stops q" using assms(3) by (auto simp: stops_def p_def q_def)
    ultimately have xy: "x = y" and pq: "p = q" using Cons.prems(1)[of x y p q] by (simp_all add: ys)
    have c: "cl \<noteq> CHR '',''" using assms(3) by auto
    show ?thesis
    proof (cases "xs = [] \<or> ys' = []")
      case True
      then show ?thesis using pq xy ys c by (auto simp: p_def q_def split: if_splits)
    next
      case False
      then have "join_with '','' (map item xs) @ cl # s = join_with '','' (map item ys') @ cl # t"
        using pq by (simp add: p_def q_def)
      then have "xs = ys' \<and> s = t" by (intro Cons.IH) (use Cons.prems(1) ys in \<open>auto\<close>)
      then show ?thesis using xy ys by simp
    qed
  qed
qed

text \<open>The first character of a text tells the kind of its value.\<close>

definition kind :: "char \<Rightarrow> nat" where
  "kind c = (if num_char c then 0 else if c = CHR ''n'' then 1 else if c = CHR ''t'' then 2 else if c = CHR ''f'' then 3
     else if c = quote_char then 4 else if c = CHR ''['' then 5 else if c = CHR ''{'' then 6 else 7)"

fun kind_of :: "json \<Rightarrow> nat" where
  "kind_of (JNum _) = 0" | "kind_of JNull = 1" | "kind_of (JBool b) = (if b then 2 else 3)"
| "kind_of (JStr _) = 4" | "kind_of (JArr _) = 5" | "kind_of (JObj _) = 6"

lemma kinds: "kind CHR ''n'' = 1" "kind CHR ''t'' = 2" "kind CHR ''f'' = 3" "kind quote_char = 4" "kind CHR ''['' = 5"
  "kind CHR ''{'' = 6" "kind CHR '']'' = 7" "kind CHR ''}'' = 7" "kind CHR '','' = 7"
  by code_simp+

lemma text_kind: "text_of v \<noteq> [] \<and> kind (hd (text_of v)) = kind_of v"
proof (cases v)
  case (JNum r)
  then have "num_char (hd (text_of v))" using num_text_chars[of r] by (cases "num_text r") simp_all
  then show ?thesis using JNum num_text_chars[of r] by (simp add: kind_def)
next
  case (JStr s)
  then show ?thesis by (simp add: quoted_def escape_codes kinds)
qed (simp_all add: kinds)

lemma same_kind: "text_of a @ s = text_of b @ t \<Longrightarrow> kind_of a = kind_of b"
  using text_kind[of a] text_kind[of b] by (metis hd_append2)

lemma stops_kind: "stops s \<longleftrightarrow> s = [] \<or> (\<exists>c r. s = c # r \<and> c \<in> set '',]}'')"
  by (cases s) (simp_all add: stops_def)

lemma num_decode:
  assumes "num_text r @ s = num_text q @ t" "stops s" "stops t"
  shows "num_text r = num_text q \<and> s = t"
proof -
  have no: "\<not> num_char c" if "c \<in> set '',]}''" for c
    using that by (auto simp: num_char_def is_digit_def code_unit_def)
  have tw: "takeWhile num_char (num_text x @ u) = num_text x" if u: "stops u" for x u
  proof -
    have all: "\<forall>c \<in> set (num_text x). num_char c" using num_text_chars[of x] by (simp add: list_all_iff)
    show ?thesis
    proof (cases u)
      case Nil
      then show ?thesis using all by (simp add: takeWhile_eq_all_conv)
    next
      case (Cons c r)
      then have "\<not> num_char c" using u no by (simp add: stops_def)
      then show ?thesis using all Cons by (simp add: takeWhile_append2)
    qed
  qed
  have "num_text r = num_text q" using tw[OF assms(2), of r] tw[OF assms(3), of q] assms(1) by simp
  then show ?thesis using assms(1) by simp
qed

text \<open>Values whose numbers are the representatives of their texts.\<close>

primrec plain :: "json \<Rightarrow> bool" where
  "plain JNull = True"
| "plain (JBool b) = True"
| "plain (JNum r) = (same_text r = r)"
| "plain (JStr s) = True"
| "plain (JArr vs) = list_all id (map plain vs)"
| "plain (JObj ms) = list_all snd (map (map_prod id plain) ms)"

lemma plain_normal: "plain (normal v)"
proof (induction v)
  case (JObj ms)
  then show ?case by (auto simp: list_all_iff prod_set_defs)
qed (simp_all add: list_all_iff)

definition member_text :: "string \<times> json \<Rightarrow> string" where
  "member_text m = quoted (fst m) @ '':'' @ text_of (snd m)"

lemma member_texts: "text_of (JObj ms) = ''{'' @ join_with '','' (map member_text ms) @ ''}''"
  by (simp add: member_text_def[abs_def] comp_def)

lemma text_decode:
  "plain a \<Longrightarrow> plain b \<Longrightarrow> text_of a @ s = text_of b @ t \<Longrightarrow> stops s \<Longrightarrow> stops t \<Longrightarrow> a = b \<and> s = t"
proof (induction a arbitrary: b s t)
  case JNull
  then have "b = JNull" using same_kind[OF JNull(3)] by (cases b) (simp_all split: if_splits)
  then show ?case using JNull by simp
next
  case (JBool x)
  then obtain y where "b = JBool y" "x = y" using same_kind[OF JBool(3)] by (cases b) (simp_all split: if_splits)
  then show ?case using JBool by (simp split: if_splits)
next
  case (JNum x)
  then obtain y where y: "b = JNum y" using same_kind[OF JNum(3)] by (cases b) (simp_all split: if_splits)
  then have "num_text x = num_text y \<and> s = t" using num_decode[of x s y t] JNum by simp
  then show ?case using JNum(1,2) y same_text_inject[of x y] by simp
next
  case (JStr x)
  then obtain y where "b = JStr y" using same_kind[OF JStr(3)] by (cases b) (simp_all split: if_splits)
  then show ?case using quoted_decode[of x s y t] JStr by simp
next
  case (JArr xs)
  then obtain ys where b: "b = JArr ys" using same_kind[OF JArr(4)] by (cases b) (simp_all split: if_splits)
  have "xs = ys \<and> s = t"
  proof (rule join_decode[of xs ys text_of "CHR '']''"])
    show "x = y \<and> s = t" if "x \<in> set xs" "y \<in> set ys" "text_of x @ s = text_of y @ t" "stops s" "stops t" for x y s t
      using JArr(1)[of x y s t] JArr(2,3) that by (simp add: b list_all_iff)
    show "text_of x \<noteq> [] \<and> hd (text_of x) \<noteq> CHR '']''" for x
      using text_kind[of x] kinds(7) by (cases x) (auto split: if_splits)
    show "join_with '','' (map text_of xs) @ CHR '']'' # s = join_with '','' (map text_of ys) @ CHR '']'' # t"
      using JArr(4) by (simp add: b)
  qed simp
  then show ?case by (simp add: b)
next
  case (JObj ms)
  then obtain ns where b: "b = JObj ns" using same_kind[OF JObj(4)] by (cases b) (simp_all split: if_splits)
  have "ms = ns \<and> s = t"
  proof (rule join_decode[of ms ns member_text "CHR ''}''"])
    fix m n s t
    assume m: "m \<in> set ms" "n \<in> set ns" "member_text m @ s = member_text n @ t" "stops s" "stops t"
    then have "fst m = fst n \<and> '':'' @ text_of (snd m) @ s = '':'' @ text_of (snd n) @ t"
      by (intro quoted_decode) (simp add: member_text_def)
    moreover have "plain (snd m)" "plain (snd n)" using JObj(2,3) m(1,2) by (auto simp: b list_all_iff)
    ultimately have "snd m = snd n \<and> s = t"
      using JObj(1)[of m "snd m" "snd n" s t] m by (simp add: prod_set_defs)
    then show "m = n \<and> s = t" using \<open>fst m = fst n \<and> _\<close> by (simp add: prod_eq_iff)
  next
    show "member_text m \<noteq> [] \<and> hd (member_text m) \<noteq> CHR ''}''" for m
      using kinds(4,8) by (auto simp: member_text_def quoted_def escape_codes)
    show "join_with '','' (map member_text ms) @ CHR ''}'' # s = join_with '','' (map member_text ns) @ CHR ''}'' # t"
      using JObj(4) unfolding b member_texts by simp
  qed simp
  then show ?case by (simp add: b)
qed

lemma canonical_normal: "canonicalize a = canonicalize b \<longleftrightarrow> normal a = normal b"
  using text_decode[OF plain_normal plain_normal, of a "[]" b "[]"] by (auto simp: stops_def canonical_text)

lemma map_same_kernel: "(\<And>x y. f x = f y \<longleftrightarrow> g x = g y) \<Longrightarrow> map f xs = map f ys \<longleftrightarrow> map g xs = map g ys"
proof (induction xs arbitrary: ys)
  case (Cons x xs)
  then show ?case by (cases ys) simp_all
qed simp

lemma canonical_members:
  assumes "distinct (map fst ms)" "distinct (map fst ns)"
  shows "canonicalize (JObj ms) = canonicalize (JObj ns) \<longleftrightarrow>
     (\<forall>k. map_option canonicalize (map_of ms k) = map_option canonicalize (map_of ns k))"
proof -
  have keys: "map fst (map (map_prod id normal) ms) = map fst ms" for ms :: "(string \<times> json) list" by simp
  have m: "map_of (map (map_prod id normal) ms) = (\<lambda>k. map_option normal (map_of ms k))" for ms :: "(string \<times> json) list"
    by (induction ms) (auto simp: fun_eq_iff)
  have o: "map_option normal x = map_option normal y \<longleftrightarrow> map_option canonicalize x = map_option canonicalize y" for x y
    by (cases x; cases y) (simp_all add: canonical_normal)
  have "canonicalize (JObj ms) = canonicalize (JObj ns) \<longleftrightarrow>
      map_of (map (map_prod id normal) ms) = map_of (map (map_prod id normal) ns)"
    unfolding canonical_normal normal.simps json.inject by (rule sort_members_eq) (simp_all only: keys assms)
  then show ?thesis unfolding m fun_eq_iff o .
qed



end
