(* ===== verification/Entry_Rules.thy ===== *)
theory Entry_Rules
  imports Resource_Matching Decimal_Amount Canonical_Json
begin

text \<open>
  The shape rules every boundary applies to a \<^verbatim>\<open>mission_resource_access\<close> entry, from
  \<^verbatim>\<open>packages/mission-core/src/authority-subset.ts\<close>,
  \<^verbatim>\<open>packages/mission-core/src/resource-contract.ts\<close> and the reference guard of
  \<^verbatim>\<open>packages/mission-core/src/anchors.ts\<close>.

  An entry is a JSON value.  A member the code reads from a value of the entry type
  has the type that declares it; the guards below are what establishes those types
  for a value of unknown shape.
\<close>

section \<open>Reading members\<close>

definition as_object :: "json option \<Rightarrow> json option" where
  "as_object v = (case v of Some (JObj ms) \<Rightarrow> Some (JObj ms) | _ \<Rightarrow> None)"

definition elements_of :: "json option \<Rightarrow> json list" where
  "elements_of v = (case v of None \<Rightarrow> [] | Some j \<Rightarrow> elements j)"

definition actions_of :: "json \<Rightarrow> json list" where
  "actions_of e = elements_of (jget ''actions'' e)"

definition constraint_of :: "string \<Rightarrow> json \<Rightarrow> json option" where
  "constraint_of k e = cget k (jget ''constraints'' e)"

fun nonempty_string :: "json option \<Rightarrow> bool" where
  "nonempty_string (Some (JStr s)) = (s \<noteq> [])"
| "nonempty_string _ = False"

definition key_outside :: "string list \<Rightarrow> json \<Rightarrow> string option" where
  "key_outside ks v = List.find (\<lambda>m. m \<notin> set ks) (jkeys v)"

section \<open>Top-level members and actions\<close>

definition SUPPORTED_CONSTRAINT_KEYS :: "unicode \<Rightarrow> string list" where
  "SUPPORTED_CONSTRAINT_KEYS uc =
     [''max_amount'', ''vendors'', ''requires_action_approval'', ''terminal_when''] @ IMPLEMENTED_COMMON_CONSTRAINTS uc"

definition REFUSED_ENTRY_MEMBERS :: "string list" where
  "REFUSED_ENTRY_MEMBERS = [''locations'']"

definition refused_entry_member :: "json \<Rightarrow> string option" where
  "refused_entry_member e = List.find (\<lambda>m. m \<in> set (jkeys e)) REFUSED_ENTRY_MEMBERS"

definition SUPPORTED_ENTRY_MEMBERS :: "string list" where
  "SUPPORTED_ENTRY_MEMBERS =
     [''type'', ''resource'', ''resource_match'', ''actions'', ''constraints'', ''delegation'',
      ''capability_sources'', ''resource_contract'']"

definition unsupported_entry_member :: "json \<Rightarrow> string option" where
  "unsupported_entry_member e = key_outside SUPPORTED_ENTRY_MEMBERS e"

definition is_family :: "json \<Rightarrow> bool" where
  "is_family a = (case opt_string (Some a) of None \<Rightarrow> False | Some s \<Rightarrow> ends_with s ''.*'')"

definition unsupported_action_family :: "json \<Rightarrow> json option" where
  "unsupported_action_family e = List.find is_family (actions_of e)"

definition action_char :: "char \<Rightarrow> bool" where
  "action_char c = (is_alpha c \<or> is_digit c \<or> c \<in> set ''_.:-'')"

text \<open>The expression \<open>^[A-Za-z0-9_.:-]+(?:\.\*)?$\<close>; the asterisk is in no class.\<close>

definition action_value :: "string \<Rightarrow> bool" where
  "action_value s =
     (let i = (if ends_with s ''.*'' then take (length s - 2) s else s) in i \<noteq> [] \<and> list_all action_char i)"

definition action_outside_grammar :: "json \<Rightarrow> json option" where
  "action_outside_grammar e =
     List.find (\<lambda>a. case opt_string (Some a) of None \<Rightarrow> False | Some s \<Rightarrow> \<not> action_value s) (actions_of e)"

section \<open>Delegation\<close>

definition SUPPORTED_DELEGATION_MEMBERS :: "string list" where
  "SUPPORTED_DELEGATION_MEMBERS = [''max_depth'', ''allowed_delegates'', ''children'']"

definition SUPPORTED_CHILDREN_MEMBERS :: "string list" where
  "SUPPORTED_CHILDREN_MEMBERS = [''max_children'', ''max_child_depth'', ''allowed_child_actors'', ''child_creation_policy'']"

definition delegation_of :: "json \<Rightarrow> json option" where
  "delegation_of e = as_object (jget ''delegation'' e)"

definition children_of :: "json \<Rightarrow> json option" where
  "children_of d = as_object (jget ''children'' d)"

definition unsupported_delegation_member :: "json \<Rightarrow> string option" where
  "unsupported_delegation_member e =
     (case delegation_of e of
        None \<Rightarrow> None
      | Some d \<Rightarrow>
          (case key_outside SUPPORTED_DELEGATION_MEMBERS d of
             Some m \<Rightarrow> Some (''delegation.'' @ m)
           | None \<Rightarrow>
               (case children_of d of
                  None \<Rightarrow> None
                | Some c \<Rightarrow> map_option (\<lambda>m. ''delegation.children.'' @ m) (key_outside SUPPORTED_CHILDREN_MEMBERS c))))"

definition DELEGATE_MATCHER_MEMBERS :: "string list" where
  "DELEGATE_MATCHER_MEMBERS = [''sub'', ''sub_profile'']"

datatype matcher_violation =
    Not_array | Not_object | Unknown_member string | No_member | Not_string string | Empty_string string

definition matcher_violation_of :: "json \<Rightarrow> matcher_violation option" where
  "matcher_violation_of m =
     (if \<not> is_obj m then Some Not_object
      else case key_outside DELEGATE_MATCHER_MEMBERS m of
        Some u \<Rightarrow> Some (Unknown_member u)
      | None \<Rightarrow>
          if jget ''sub'' m = None \<and> jget ''sub_profile'' m = None then Some No_member
          else let bad = (\<lambda>k. case jget k m of None \<Rightarrow> None
                   | Some (JStr s) \<Rightarrow> if s = [] then Some (Empty_string k) else None
                   | Some _ \<Rightarrow> Some (Not_string k))
               in (case bad ''sub'' of Some v \<Rightarrow> Some v | None \<Rightarrow> bad ''sub_profile''))"

fun first_violation :: "(json \<Rightarrow> 'v option) \<Rightarrow> json list \<Rightarrow> 'v option" where
  "first_violation f [] = None"
| "first_violation f (m # ms) = (case f m of Some v \<Rightarrow> Some v | None \<Rightarrow> first_violation f ms)"

definition delegate_matcher_list_violation :: "json \<Rightarrow> matcher_violation option" where
  "delegate_matcher_list_violation v =
     (case v of JArr ms \<Rightarrow> first_violation matcher_violation_of ms | _ \<Rightarrow> Some Not_array)"

definition entry_delegate_matcher_violation :: "json \<Rightarrow> matcher_violation option" where
  "entry_delegate_matcher_violation e =
     (case delegation_of e of
        None \<Rightarrow> None
      | Some d \<Rightarrow>
          (case Option.bind (jget ''allowed_delegates'' d) delegate_matcher_list_violation of
             Some v \<Rightarrow> Some v
           | None \<Rightarrow>
               Option.bind (Option.bind (children_of d) (jget ''allowed_child_actors'')) delegate_matcher_list_violation))"

section \<open>References\<close>

definition base64url_char :: "char \<Rightarrow> bool" where
  "base64url_char c = (is_alpha c \<or> is_digit c \<or> c = CHR ''_'' \<or> c = CHR ''-'')"

text \<open>The expression \<open>^sha-256:[A-Za-z0-9_-]{43}$\<close>.\<close>

definition anchor_form :: "json option \<Rightarrow> bool" where
  "anchor_form v =
     (case opt_string v of
        None \<Rightarrow> False
      | Some s \<Rightarrow> starts_with ''sha-256:'' s \<and> length s = 51 \<and> list_all base64url_char (drop 8 s))"

definition is_activation_policy_ref :: "json \<Rightarrow> bool" where
  "is_activation_policy_ref v =
     (is_obj v \<and> length (jkeys v) = 3 \<and> nonempty_string (jget ''id'' v) \<and>
      nonempty_string (jget ''version'' v) \<and> anchor_form (jget ''digest'' v))"

definition RESOURCE_CONTRACT_MEMBERS :: "string list" where
  "RESOURCE_CONTRACT_MEMBERS = [''id'', ''version'', ''digest'']"

datatype contract_violation = Contract_not_object | Contract_member string | Contract_id | Contract_version | Contract_digest

definition resource_contract_violation :: "json \<Rightarrow> contract_violation option" where
  "resource_contract_violation v =
     (if \<not> is_obj v then Some Contract_not_object
      else case key_outside RESOURCE_CONTRACT_MEMBERS v of
        Some m \<Rightarrow> Some (Contract_member m)
      | None \<Rightarrow>
          if \<not> json_absolute_uri (jget ''id'' v) then Some Contract_id
          else if \<not> nonempty_string (jget ''version'' v) then Some Contract_version
          else if \<not> anchor_form (jget ''digest'' v) then Some Contract_digest
          else None)"

definition is_resource_contract_ref :: "json \<Rightarrow> bool" where
  "is_resource_contract_ref v = (resource_contract_violation v = None)"

definition same_reference :: "json \<Rightarrow> json \<Rightarrow> bool" where
  "same_reference a b =
     (jget ''id'' a = jget ''id'' b \<and> jget ''version'' a = jget ''version'' b \<and> jget ''digest'' a = jget ''digest'' b)"

definition same_resource_contract :: "json option \<Rightarrow> json option \<Rightarrow> bool" where
  "same_resource_contract a b =
     (case (a, b) of
        (Some x, Some y) \<Rightarrow> is_resource_contract_ref x \<and> is_resource_contract_ref y \<and> same_reference x y
      | _ \<Rightarrow> a = None \<and> b = None)"

definition resource_contract_of :: "json \<Rightarrow> json option" where
  "resource_contract_of v =
     (if \<not> is_resource_contract_ref v then None
      else Some (JObj [(''id'', the (jget ''id'' v)), (''version'', the (jget ''version'' v)), (''digest'', the (jget ''digest'' v))]))"

section \<open>Constraints\<close>

definition is_amount_cap :: "json \<Rightarrow> bool" where
  "is_amount_cap v =
     (is_obj v \<and> list_all (\<lambda>k. k \<in> {''amount'', ''currency''}) (jkeys v) \<and>
      (case jget ''currency'' v of None \<Rightarrow> False | Some c \<Rightarrow> is_currency_code c) \<and>
      (case opt_string (jget ''amount'' v) of None \<Rightarrow> False | Some a \<Rightarrow> is_valid_amount a))"

definition condition_canonical_bytes :: "json \<Rightarrow> string option" where
  "condition_canonical_bytes v =
     (if \<not> is_obj v then None
      else if opt_string (jget ''event_type'' v) = None then None
      else if \<not> string_or_absent (jget ''discharge_authority'' v) then None
      else if key_outside [''event_type'', ''discharge_authority''] v \<noteq> None then None
      else Some (canonicalize v))"

definition string_list :: "json \<Rightarrow> bool" where
  "string_list v = (elements v \<noteq> [] \<and> list_all (\<lambda>x. nonempty_string (Some x)) (elements v))"

definition constraints_ok :: "unicode \<Rightarrow> json \<Rightarrow> bool" where
  "constraints_ok uc c =
     (is_obj c \<and> list_all (\<lambda>k. k \<in> set (SUPPORTED_CONSTRAINT_KEYS uc)) (jkeys c) \<and>
      list_all (\<lambda>k. is_implemented_common_constraint uc k \<longrightarrow> valid_common_constraint uc k (the (jget k c))) (jkeys c) \<and>
      (case jget ''vendors'' c of None \<Rightarrow> True | Some v \<Rightarrow> string_list v) \<and>
      (case jget ''requires_action_approval'' c of None \<Rightarrow> True | Some (JBool _) \<Rightarrow> True | Some _ \<Rightarrow> False) \<and>
      (case jget ''terminal_when'' c of None \<Rightarrow> True
       | Some v \<Rightarrow> elements v \<noteq> [] \<and> list_all (\<lambda>x. condition_canonical_bytes x \<noteq> None) (elements v)) \<and>
      (case jget ''max_amount'' c of None \<Rightarrow> True | Some v \<Rightarrow> is_amount_cap v))"

section \<open>The guard\<close>

fun natural :: "json option \<Rightarrow> bool" where
  "natural (Some (JNum r)) = (is_int_num r \<and> 0 \<le> r)"
| "natural _ = False"

definition matchers_ok :: "json option \<Rightarrow> bool" where
  "matchers_ok v = (case v of None \<Rightarrow> True | Some l \<Rightarrow> delegate_matcher_list_violation l = None)"

definition delegation_ok :: "json \<Rightarrow> json \<Rightarrow> bool" where
  "delegation_ok e d =
     (is_obj d \<and> natural (jget ''max_depth'' d) \<and> unsupported_delegation_member e = None \<and>
      matchers_ok (jget ''allowed_delegates'' d) \<and>
      (case jget ''children'' d of
         None \<Rightarrow> True
       | Some c \<Rightarrow>
           is_obj c \<and>
           list_all (\<lambda>k. jget k c = None \<or> natural (jget k c)) [''max_children'', ''max_child_depth''] \<and>
           matchers_ok (jget ''allowed_child_actors'' c) \<and>
           (case jget ''child_creation_policy'' c of None \<Rightarrow> True | Some p \<Rightarrow> is_activation_policy_ref p)))"

definition binding_ok :: "json \<Rightarrow> bool" where
  "binding_ok b =
     list_all (\<lambda>k. nonempty_string (jget k b)) [''action'', ''tool_id'', ''source_uri'', ''source_digest'', ''operation_ref'']"

fun is_array :: "json \<Rightarrow> bool" where
  "is_array (JArr _) = True"
| "is_array _ = False"

definition is_authority_entry :: "unicode \<Rightarrow> json \<Rightarrow> bool" where
  "is_authority_entry uc e =
     (if \<not> is_obj e then False
      else if refused_entry_member e \<noteq> None then False
      else if unsupported_entry_member e \<noteq> None then False
      else if unsupported_action_family e \<noteq> None then False
      else if jget ''type'' e \<noteq> Some (JStr ''mission_resource_access'') \<or> \<not> nonempty_string (jget ''resource'' e) \<or>
        \<not> (case jget ''actions'' e of None \<Rightarrow> False | Some v \<Rightarrow> string_list v) then False
      else let r = the (opt_string (jget ''resource'' e)) in
        if \<not> is_absolute_uri r \<or> carries_http_userinfo r \<or> action_outside_grammar e \<noteq> None then False
        else if jget ''resource_match'' e \<notin> {None, Some (JStr ''exact''), Some (JStr ''prefix'')} then False
        else if jget ''resource_match'' e = Some (JStr ''prefix'') \<and> \<not> is_enforceable_prefix_base (Some (JStr r)) then False
        else if (case jget ''resource_contract'' e of None \<Rightarrow> False | Some v \<Rightarrow> resource_contract_violation v \<noteq> None) then False
        else if (case jget ''constraints'' e of None \<Rightarrow> False | Some c \<Rightarrow> \<not> constraints_ok uc c) then False
        else if (case jget ''delegation'' e of None \<Rightarrow> False | Some d \<Rightarrow> \<not> delegation_ok e d) then False
        else (case jget ''capability_sources'' e of None \<Rightarrow> True | Some v \<Rightarrow> is_array v \<and> list_all binding_ok (elements v)))"

end
