(* ===== verification/Authority_Subset.thy ===== *)
theory Authority_Subset
  imports Entry_Rules
begin

text \<open>
  The subset rule of \<^verbatim>\<open>packages/mission-core/src/authority-subset.ts\<close>: when one
  authority entry is no broader than another, the ceiling comparison built on it, and
  the narrowing of a proposal to a ceiling.

  A thrown comparison cannot occur: caps are validated before they are compared, and
  every JSON value has a canonical text.
\<close>

section \<open>Boundaries\<close>

definition without_member :: "string \<Rightarrow> json \<Rightarrow> json" where
  "without_member k e = JObj (filter (\<lambda>m. fst m \<noteq> k) (members e))"

definition without_capability_sources :: "json list \<Rightarrow> json list" where
  "without_capability_sources es = map (without_member ''capability_sources'') es"

definition without_resource_contract :: "json list \<Rightarrow> json list" where
  "without_resource_contract es = map (without_member ''resource_contract'') es"

section \<open>One entry\<close>

definition conditions_no_broader :: "json option \<Rightarrow> json option \<Rightarrow> bool" where
  "conditions_no_broader c r =
     (if elements_of r = [] then True
      else if elements_of c = [] then False
      else let held = map condition_canonical_bytes (elements_of c)
           in None \<notin> set held \<and>
              list_all (\<lambda>x. condition_canonical_bytes x \<noteq> None \<and> condition_canonical_bytes x \<in> set held) (elements_of r))"

definition binding_key :: "json \<Rightarrow> string" where
  "binding_key b = canonicalize b"

definition capability_sources_no_broader :: "json \<Rightarrow> json \<Rightarrow> bool" where
  "capability_sources_no_broader c g =
     (let cs = elements_of (jget ''capability_sources'' c); gs = elements_of (jget ''capability_sources'' g)
      in if cs = [] \<and> gs = [] then True
         else let ck = map binding_key cs; gk = map binding_key gs
              in list_all (\<lambda>k. k \<in> set gk) ck \<and>
                 list_all (\<lambda>b. \<not> (case jget ''action'' b of None \<Rightarrow> False | Some a \<Rightarrow> a \<in> set (actions_of c)) \<or>
                    binding_key b \<in> set ck) gs)"

definition or_null :: "json option \<Rightarrow> json" where
  "or_null v = (case v of None \<Rightarrow> JNull | Some j \<Rightarrow> j)"

definition matcher_key :: "json \<Rightarrow> string" where
  "matcher_key m = canonicalize (JArr [or_null (jget ''sub'' m), or_null (jget ''sub_profile'' m)])"

definition matchers_subset :: "json list option \<Rightarrow> json list option \<Rightarrow> bool" where
  "matchers_subset c g =
     (case g of
        None \<Rightarrow> True
      | Some gs \<Rightarrow> (case c of None \<Rightarrow> False
         | Some cs \<Rightarrow> list_all (\<lambda>m. matcher_key m \<in> set (map matcher_key gs)) cs))"

definition read_matcher :: "json \<Rightarrow> json" where
  "read_matcher el =
     (let text = (\<lambda>k. map_option JStr (opt_string (jget k el)))
      in JObj (opt_member ''sub'' (text ''sub'') @ opt_member ''sub_profile'' (text ''sub_profile'')))"

definition read_matchers :: "json option \<Rightarrow> json list option" where
  "read_matchers v = (case v of Some (JArr ms) \<Rightarrow> Some (map read_matcher ms) | _ \<Rightarrow> None)"

text \<open>A declared list of matchers, as the typed member holds it.\<close>

definition matcher_list :: "json option \<Rightarrow> json list option" where
  "matcher_list v = map_option elements v"

fun as_num :: "json option \<Rightarrow> rat option" where
  "as_num (Some (JNum r)) = Some r"
| "as_num _ = None"

definition cap_no_broader :: "rat option \<Rightarrow> rat option \<Rightarrow> bool" where
  "cap_no_broader c g = (case g of None \<Rightarrow> True | Some n \<Rightarrow> (case c of None \<Rightarrow> False | Some m \<Rightarrow> m \<le> n))"

definition child_policy_identical :: "json option \<Rightarrow> json option \<Rightarrow> bool" where
  "child_policy_identical c g =
     (case (c, g) of
        (None, None) \<Rightarrow> True
      | (Some x, Some y) \<Rightarrow> is_activation_policy_ref x \<and> is_activation_policy_ref y \<and> same_reference x y
      | _ \<Rightarrow> False)"

definition children_no_broader :: "json option \<Rightarrow> json option \<Rightarrow> bool" where
  "children_no_broader c g =
     (case (c, g) of
        (Some _, None) \<Rightarrow> False
      | (None, _) \<Rightarrow> True
      | (Some x, Some y) \<Rightarrow>
          cap_no_broader (as_num (jget ''max_children'' x)) (as_num (jget ''max_children'' y)) \<and>
          cap_no_broader (as_num (jget ''max_child_depth'' x)) (as_num (jget ''max_child_depth'' y)) \<and>
          child_policy_identical (jget ''child_creation_policy'' x) (jget ''child_creation_policy'' y) \<and>
          matchers_subset (read_matchers (jget ''allowed_child_actors'' x)) (read_matchers (jget ''allowed_child_actors'' y)))"

definition amount_no_broader :: "json option \<Rightarrow> json option \<Rightarrow> bool" where
  "amount_no_broader c g =
     (if (case c of None \<Rightarrow> False | Some v \<Rightarrow> \<not> is_amount_cap v) \<or> (case g of None \<Rightarrow> False | Some v \<Rightarrow> \<not> is_amount_cap v) then False
      else case g of
        None \<Rightarrow> True
      | Some gv \<Rightarrow>
          (case c of
             None \<Rightarrow> False
           | Some cv \<Rightarrow>
               jget ''currency'' cv = jget ''currency'' gv \<and>
               (case compare_amounts (the (opt_string (jget ''amount'' cv))) (the (opt_string (jget ''amount'' gv))) of
                  Inl _ \<Rightarrow> False | Inr n \<Rightarrow> n \<le> 0)))"

definition vendors_no_broader :: "json option \<Rightarrow> json option \<Rightarrow> bool" where
  "vendors_no_broader c g =
     (case g of None \<Rightarrow> True
      | Some gv \<Rightarrow> (case c of None \<Rightarrow> False
         | Some cv \<Rightarrow> list_all (\<lambda>v. v \<in> set (elements gv)) (elements cv)))"

definition depth_exceeds :: "json option \<Rightarrow> json option \<Rightarrow> bool" where
  "depth_exceeds c g = (case (as_num c, as_num g) of (Some m, Some n) \<Rightarrow> m > n | _ \<Rightarrow> False)"

definition delegation_no_broader :: "json option \<Rightarrow> json option \<Rightarrow> bool" where
  "delegation_no_broader c g =
     (case (c, g) of
        (Some _, None) \<Rightarrow> False
      | (None, _) \<Rightarrow> True
      | (Some x, Some y) \<Rightarrow>
          \<not> depth_exceeds (jget ''max_depth'' x) (jget ''max_depth'' y) \<and>
          matchers_subset (matcher_list (jget ''allowed_delegates'' x)) (matcher_list (jget ''allowed_delegates'' y)) \<and>
          children_no_broader (children_of x) (children_of y))"

definition is_subset_entry :: "unicode \<Rightarrow> json \<Rightarrow> json \<Rightarrow> bool" where
  "is_subset_entry uc c g =
     (if unsupported_delegation_member c \<noteq> None \<or> unsupported_delegation_member g \<noteq> None then False
      else if unsupported_action_family c \<noteq> None \<or> unsupported_action_family g \<noteq> None then False
      else if unsupported_entry_member c \<noteq> None \<or> unsupported_entry_member g \<noteq> None then canonicalize c = canonicalize g
      else if jget ''type'' c \<noteq> jget ''type'' g then False
      else if \<not> resource_within c g then False
      else if \<not> same_resource_contract (jget ''resource_contract'' c) (jget ''resource_contract'' g) then False
      else if \<not> list_all (\<lambda>a. a \<in> set (actions_of g)) (actions_of c) then False
      else if \<not> amount_no_broader (constraint_of ''max_amount'' c) (constraint_of ''max_amount'' g) then False
      else if \<not> vendors_no_broader (constraint_of ''vendors'' c) (constraint_of ''vendors'' g) then False
      else if constraint_of ''requires_action_approval'' g = Some (JBool True) \<and>
        constraint_of ''requires_action_approval'' c \<noteq> Some (JBool True) then False
      else if \<not> common_constraints_no_broader uc (jget ''constraints'' c) (jget ''constraints'' g) then False
      else if \<not> conditions_no_broader (constraint_of ''terminal_when'' c) (constraint_of ''terminal_when'' g) then False
      else if \<not> capability_sources_no_broader c g then False
      else delegation_no_broader (jget ''delegation'' c) (jget ''delegation'' g))"

section \<open>Sets and ceilings\<close>

definition is_subset_set :: "unicode \<Rightarrow> json list \<Rightarrow> json list \<Rightarrow> bool" where
  "is_subset_set uc cs gs = list_all (\<lambda>c. list_ex (\<lambda>g. is_subset_entry uc c g) gs) cs"

definition is_subset_set_ignoring_capability_sources :: "unicode \<Rightarrow> json list \<Rightarrow> json list \<Rightarrow> bool" where
  "is_subset_set_ignoring_capability_sources uc cs gs =
     is_subset_set uc (without_capability_sources cs) (without_capability_sources gs)"

definition entry_within_ceiling :: "unicode \<Rightarrow> json \<Rightarrow> json list \<Rightarrow> bool" where
  "entry_within_ceiling uc e cl =
     is_subset_set uc (without_resource_contract (without_capability_sources [e])) (without_resource_contract cl)"

text \<open>\<open>{ ...e, k: v }\<close>: an existing member keeps its place.\<close>

fun put_member :: "string \<Rightarrow> json \<Rightarrow> (string \<times> json) list \<Rightarrow> (string \<times> json) list" where
  "put_member k v [] = [(k, v)]"
| "put_member k v (m # ms) = (if fst m = k then (k, v) # ms else m # put_member k v ms)"

definition with_actions :: "json list \<Rightarrow> json \<Rightarrow> json" where
  "with_actions as e = JObj (put_member ''actions'' (JArr as) (members e))"

definition narrow_entry :: "unicode \<Rightarrow> json list \<Rightarrow> json \<Rightarrow> json option" where
  "narrow_entry uc cl e =
     (let kept = filter (\<lambda>a. entry_within_ceiling uc (with_actions [a] e) cl) (actions_of e)
      in if kept = [] then None
         else if length kept = length (actions_of e) then Some e
         else let rest = with_actions kept (without_member ''capability_sources'' e);
                  bindings = filter (\<lambda>b. case jget ''action'' b of None \<Rightarrow> False | Some a \<Rightarrow> a \<in> set kept)
                    (elements_of (jget ''capability_sources'' e))
              in Some (if bindings = [] then rest else JObj (put_member ''capability_sources'' (JArr bindings) (members rest))))"

definition narrow_to_ceiling :: "unicode \<Rightarrow> json list \<Rightarrow> json list \<Rightarrow> json list" where
  "narrow_to_ceiling uc entries cl =
     (if \<not> list_all (is_authority_entry uc) entries \<or> \<not> list_all (is_authority_entry uc) cl then []
      else List.map_filter (narrow_entry uc cl) entries)"

end
