(* ===== verification/Subset_Laws.thy ===== *)
theory Subset_Laws
  imports Authority_Subset
begin

text \<open>
  The laws of the subset rule.  \<open>narrowing\<close> is the contract each part of the rule
  keeps: it holds of a well-formed value against itself and composes along a
  delegation chain.  The parts are interpreted first, then the rule for one entry and
  for a set of entries.

  \<open>admits\<close> is what an enforcement point reads from one entry: the target it matches,
  the action, the cap, the vendor, the approval, the common constraints on the
  resource's own facts, and whether one of its completion conditions has fired.
\<close>

locale narrowing =
  fixes ok :: "'a \<Rightarrow> bool"
    and le :: "'a \<Rightarrow> 'a \<Rightarrow> bool"
  assumes narrows_refl: "ok a \<Longrightarrow> le a a"
    and narrows_trans: "ok a \<Longrightarrow> ok b \<Longrightarrow> ok c \<Longrightarrow> le a b \<Longrightarrow> le b c \<Longrightarrow> le a c"
begin

text \<open>A chain of derivations, the root first, narrows from its last member to its root.\<close>

lemma chain_narrows:
  "list_all ok (x # xs) \<Longrightarrow> successively (\<lambda>parent child. le child parent) (x # xs) \<Longrightarrow> le (last (x # xs)) x"
proof (induction xs arbitrary: x)
  case Nil
  then show ?case by (simp add: narrows_refl)
next
  case (Cons y ys)
  have "le (last (y # ys)) y" by (rule Cons.IH) (use Cons.prems in simp_all)
  moreover have "ok (last (y # ys))" using Cons.prems(1) by (auto simp: list_all_iff)
  moreover have "ok y" "ok x" "le y x" using Cons.prems by simp_all
  ultimately have "le (last (y # ys)) x" using narrows_trans by blast
  then show ?case by simp
qed

lemma sets_refl: "list_all ok es \<Longrightarrow> list_all (\<lambda>c. list_ex (le c) es) es"
  unfolding list_all_iff list_ex_iff using narrows_refl by blast

lemma sets_trans:
  assumes "list_all ok as" "list_all ok bs" "list_all ok cs"
    "list_all (\<lambda>c. list_ex (le c) bs) as" "list_all (\<lambda>c. list_ex (le c) cs) bs"
  shows "list_all (\<lambda>c. list_ex (le c) cs) as"
  unfolding list_all_iff list_ex_iff
proof
  fix a
  assume a: "a \<in> set as"
  then obtain b where b: "b \<in> set bs" "le a b" using assms(4) by (auto simp: list_all_iff list_ex_iff)
  then obtain c where c: "c \<in> set cs" "le b c" using assms(5) by (auto simp: list_all_iff list_ex_iff)
  have "ok a" "ok b" "ok c" using a b(1) c(1) assms(1-3) by (auto simp: list_all_iff)
  then have "le a c" using b(2) c(2) by (rule narrows_trans)
  then show "\<exists>c \<in> set cs. le a c" using c(1) by blast
qed

end

section \<open>Constraints\<close>

interpretation amounts: narrowing "\<lambda>v. \<forall>x. v = Some x \<longrightarrow> is_amount_cap x" amount_no_broader
proof
  fix a :: "json option"
  assume a: "\<forall>x. a = Some x \<longrightarrow> is_amount_cap x"
  show "amount_no_broader a a"
  proof (cases a)
    case (Some v)
    then obtain t where "opt_string (jget ''amount'' v) = Some t" "is_valid_amount t" "is_amount_cap v"
      using a by (auto simp: is_amount_cap_def split: option.splits)
    then show ?thesis
      using compare_amounts_Inr[of t t 0] by (simp add: amount_no_broader_def Some sign3_def)
  qed (simp add: amount_no_broader_def)
next
  fix a b c :: "json option"
  assume ab: "amount_no_broader a b" and bc: "amount_no_broader b c"
  show "amount_no_broader a c"
  proof (cases c)
    case None
    then show ?thesis using ab by (auto simp: amount_no_broader_def split: option.splits if_splits)
  next
    case (Some z)
    then obtain y where b: "b = Some y" using bc by (cases b) (auto simp: amount_no_broader_def split: if_splits)
    then obtain x where a: "a = Some x" using ab by (cases a) (auto simp: amount_no_broader_def split: if_splits)
    have step: "is_amount_cap u \<and> is_amount_cap v \<and> jget ''currency'' u = jget ''currency'' v \<and>
        (\<exists>m n. opt_string (jget ''amount'' u) = Some m \<and> opt_string (jget ''amount'' v) = Some n \<and> is_valid_amount m \<and>
          is_valid_amount n \<and> amount_value m \<le> amount_value n) \<longleftrightarrow> amount_no_broader (Some u) (Some v)" for u v
    proof (cases "is_amount_cap u \<and> is_amount_cap v")
      case True
      then obtain m n where m: "opt_string (jget ''amount'' u) = Some m" "opt_string (jget ''amount'' v) = Some n"
        "is_valid_amount m" "is_valid_amount n"
        by (auto simp: is_amount_cap_def split: option.splits)
      then show ?thesis
        using True compare_amounts_value[of m n] by (auto simp: amount_no_broader_def sign3_def)
    next
      case False
      then show ?thesis by (auto simp: amount_no_broader_def)
    qed
    show ?thesis
      using ab bc unfolding a b Some step[symmetric] by (metis order_trans option.inject)
  qed
qed

interpretation vendors: narrowing "\<lambda>v. True" vendors_no_broader
  by unfold_locales (auto simp: vendors_no_broader_def list_all_iff split: option.splits)

definition conditions_ok :: "json option \<Rightarrow> bool" where
  "conditions_ok v = (\<forall>x \<in> set (elements_of v). condition_canonical_bytes x \<noteq> None)"

lemma conditions_iff:
  "conditions_no_broader c r \<longleftrightarrow> elements_of r = [] \<or>
     elements_of c \<noteq> [] \<and> conditions_ok c \<and>
     (\<forall>x \<in> set (elements_of r). condition_canonical_bytes x \<noteq> None \<and>
        (\<exists>y \<in> set (elements_of c). condition_canonical_bytes x = condition_canonical_bytes y))"
  unfolding conditions_no_broader_def conditions_ok_def Let_def list_all_iff by (auto simp: image_iff) (metis not_None_eq)

interpretation conditions: narrowing conditions_ok conditions_no_broader
proof
  show "conditions_no_broader a a" if "conditions_ok a" for a
    using that unfolding conditions_iff conditions_ok_def by blast
next
  fix a b c
  assume ok: "conditions_ok a" "conditions_ok b" "conditions_ok c" and ab: "conditions_no_broader a b" and bc: "conditions_no_broader b c"
  show "conditions_no_broader a c"
  proof (cases "elements_of c = []")
    case False
    then have b: "elements_of b \<noteq> []" "\<forall>x \<in> set (elements_of c). condition_canonical_bytes x \<noteq> None \<and>
        (\<exists>y \<in> set (elements_of b). condition_canonical_bytes x = condition_canonical_bytes y)"
      using bc unfolding conditions_iff by blast+
    then have "elements_of a \<noteq> []" "\<forall>x \<in> set (elements_of b). \<exists>y \<in> set (elements_of a). condition_canonical_bytes x = condition_canonical_bytes y"
      using ab unfolding conditions_iff by blast+
    then show ?thesis using b(2) ok(1) unfolding conditions_iff by metis
  qed (simp add: conditions_iff)
qed

section \<open>References and delegation\<close>

interpretation contracts: narrowing "\<lambda>v. \<forall>x. v = Some x \<longrightarrow> is_resource_contract_ref x" same_resource_contract
  by unfold_locales (auto simp: same_resource_contract_def same_reference_def split: option.splits)

interpretation policies: narrowing "\<lambda>v. \<forall>x. v = Some x \<longrightarrow> is_activation_policy_ref x" child_policy_identical
  by unfold_locales (auto simp: child_policy_identical_def same_reference_def split: option.splits)

interpretation caps: narrowing "\<lambda>v. True" cap_no_broader
  by unfold_locales (auto simp: cap_no_broader_def split: option.splits)

lemma matchers_iff:
  "matchers_subset c g \<longleftrightarrow> g = None \<or> (\<exists>cs gs. c = Some cs \<and> g = Some gs \<and> matcher_key ` set cs \<subseteq> matcher_key ` set gs)"
  by (cases c; cases g) (auto simp: matchers_subset_def list_all_iff)

interpretation matchers: narrowing "\<lambda>v. True" matchers_subset
proof
  show "matchers_subset a a" for a unfolding matchers_iff by (cases a) simp_all
  show "matchers_subset a c" if "matchers_subset a b" "matchers_subset b c" for a b c
    using that unfolding matchers_iff by (metis option.distinct(1) option.inject order_trans)
qed

definition children_ok :: "json option \<Rightarrow> bool" where
  "children_ok c = (\<forall>x p. c = Some x \<longrightarrow> jget ''child_creation_policy'' x = Some p \<longrightarrow> is_activation_policy_ref p)"

lemma children_iff:
  "children_no_broader c g \<longleftrightarrow> c = None \<or> (\<exists>x y. c = Some x \<and> g = Some y \<and>
     cap_no_broader (as_num (jget ''max_children'' x)) (as_num (jget ''max_children'' y)) \<and>
     cap_no_broader (as_num (jget ''max_child_depth'' x)) (as_num (jget ''max_child_depth'' y)) \<and>
     child_policy_identical (jget ''child_creation_policy'' x) (jget ''child_creation_policy'' y) \<and>
     matchers_subset (read_matchers (jget ''allowed_child_actors'' x)) (read_matchers (jget ''allowed_child_actors'' y)))"
  by (cases c; cases g) (simp_all add: children_no_broader_def)

interpretation childrens: narrowing children_ok children_no_broader
proof
  show "children_no_broader a a" if "children_ok a" for a
    using that unfolding children_iff children_ok_def
    by (cases a) (auto intro!: caps.narrows_refl policies.narrows_refl matchers.narrows_refl)
next
  fix a b c
  assume "children_ok a" "children_ok b" "children_ok c" "children_no_broader a b" "children_no_broader b c"
  then show "children_no_broader a c"
    unfolding children_iff children_ok_def
    by (elim disjE exE conjE; (simp; fail)?)
      (auto intro: caps.narrows_trans[OF TrueI TrueI TrueI] policies.narrows_trans matchers.narrows_trans[OF TrueI TrueI TrueI])
qed

definition delegation_shape :: "json option \<Rightarrow> bool" where
  "delegation_shape d = (\<forall>x. d = Some x \<longrightarrow> as_num (jget ''max_depth'' x) \<noteq> None \<and> children_ok (children_of x))"

lemma delegation_iff:
  "delegation_no_broader c g \<longleftrightarrow> c = None \<or> (\<exists>x y. c = Some x \<and> g = Some y \<and>
     \<not> depth_exceeds (jget ''max_depth'' x) (jget ''max_depth'' y) \<and>
     matchers_subset (matcher_list (jget ''allowed_delegates'' x)) (matcher_list (jget ''allowed_delegates'' y)) \<and>
     children_no_broader (children_of x) (children_of y))"
  by (cases c; cases g) (simp_all add: delegation_no_broader_def)

interpretation delegations: narrowing delegation_shape delegation_no_broader
proof
  show "delegation_no_broader a a" if "delegation_shape a" for a
    using that unfolding delegation_iff delegation_shape_def
    by (cases a) (auto simp: depth_exceeds_def intro!: matchers.narrows_refl childrens.narrows_refl split: option.splits)
next
  fix a b c
  assume ok: "delegation_shape a" "delegation_shape b" "delegation_shape c" and ab: "delegation_no_broader a b" and bc: "delegation_no_broader b c"
  show "delegation_no_broader a c"
  proof (cases a)
    case (Some x)
    then obtain y where b: "b = Some y" using ab unfolding delegation_iff by blast
    then obtain z where c: "c = Some z" using bc unfolding delegation_iff by blast
    have "\<not> depth_exceeds (jget ''max_depth'' x) (jget ''max_depth'' z)"
      using ab bc ok unfolding Some b c delegation_iff delegation_shape_def depth_exceeds_def
      by (fastforce split: option.splits)
    moreover have "matchers_subset (matcher_list (jget ''allowed_delegates'' x)) (matcher_list (jget ''allowed_delegates'' z))"
      using ab bc matchers.narrows_trans[OF TrueI TrueI TrueI] unfolding Some b c delegation_iff by blast
    moreover have "children_no_broader (children_of x) (children_of z)"
      using ab bc ok childrens.narrows_trans[of "children_of x" "children_of y" "children_of z"]
      unfolding Some b c delegation_iff delegation_shape_def by blast
    ultimately show ?thesis unfolding Some c delegation_iff by blast
  qed (simp add: delegation_iff)
qed

section \<open>One entry\<close>

definition proper :: "unicode \<Rightarrow> json \<Rightarrow> bool" where
  "proper uc e = (json_wf e \<and> is_authority_entry uc e)"

lemma elements_of_iff: "x \<in> set (elements_of v) \<longleftrightarrow> (\<exists>j. v = Some j \<and> x \<in> set (elements j))"
  by (cases v) (simp_all add: elements_of_def)

lemma natural_num: "natural v \<Longrightarrow> as_num v \<noteq> None"
  by (cases v rule: as_num.cases) simp_all

lemma entry_members:
  assumes "is_authority_entry uc e"
  shows "unsupported_entry_member e = None" "unsupported_action_family e = None" "nonempty_string (jget ''resource'' e)"
    "jget ''resource_match'' e \<in> {None, Some (JStr ''exact''), Some (JStr ''prefix'')}"
    "jget ''resource_match'' e = Some (JStr ''prefix'') \<Longrightarrow> is_enforceable_prefix_base (jget ''resource'' e)"
    "\<And>x. jget ''resource_contract'' e = Some x \<Longrightarrow> is_resource_contract_ref x"
    "\<And>c. jget ''constraints'' e = Some c \<Longrightarrow> constraints_ok uc c"
    "\<And>d. jget ''delegation'' e = Some d \<Longrightarrow> delegation_ok e d"
    "\<And>v. jget ''capability_sources'' e = Some v \<Longrightarrow> list_all binding_ok (elements v)"
proof -
  note a = assms[unfolded is_authority_entry_def Let_def]
  show "unsupported_entry_member e = None" "unsupported_action_family e = None" "nonempty_string (jget ''resource'' e)"
    "jget ''resource_match'' e \<in> {None, Some (JStr ''exact''), Some (JStr ''prefix'')}"
    using a by (simp_all split: if_split_asm)
  show "is_enforceable_prefix_base (jget ''resource'' e)" if "jget ''resource_match'' e = Some (JStr ''prefix'')"
  proof -
    have "nonempty_string (jget ''resource'' e)" "is_enforceable_prefix_base (Some (JStr (the (opt_string (jget ''resource'' e)))))"
      using a that by (simp_all split: if_split_asm)
    then show ?thesis by (cases "jget ''resource'' e" rule: nonempty_string.cases) simp_all
  qed
  show "is_resource_contract_ref x" if "jget ''resource_contract'' e = Some x" for x
    using a that by (simp add: is_resource_contract_ref_def split: if_split_asm)
  show "constraints_ok uc c" if "jget ''constraints'' e = Some c" for c
    using a that by (simp split: if_split_asm)
  show "delegation_ok e d" if "jget ''delegation'' e = Some d" for d
    using a that by (simp split: if_split_asm)
  show "list_all binding_ok (elements v)" if "jget ''capability_sources'' e = Some v" for v
    using a that by (simp split: if_split_asm)
qed

lemma entry_no_foreign_delegation:
  assumes "is_authority_entry uc e"
  shows "unsupported_delegation_member e = None"
proof (cases "jget ''delegation'' e")
  case None
  then show ?thesis by (simp add: unsupported_delegation_member_def delegation_of_def as_object_def)
next
  case (Some d)
  then show ?thesis using entry_members(8)[OF assms Some] by (simp add: delegation_ok_def)
qed

lemma entry_delegation_shape:
  assumes "is_authority_entry uc e"
  shows "delegation_shape (jget ''delegation'' e)"
  unfolding delegation_shape_def
proof (intro allI impI conjI)
  fix d
  assume d: "jget ''delegation'' e = Some d"
  have ok: "delegation_ok e d" by (rule entry_members(8)[OF assms d])
  then show "as_num (jget ''max_depth'' d) \<noteq> None" by (intro natural_num) (simp add: delegation_ok_def)
  have "is_activation_policy_ref p" if "children_of d = Some x" "jget ''child_creation_policy'' x = Some p" for x p
  proof -
    have "jget ''children'' d = Some x"
      using that(1) by (auto simp: children_of_def as_object_def split: option.splits json.splits)
    then show ?thesis using ok that(2) by (simp add: delegation_ok_def)
  qed
  then show "children_ok (children_of d)" by (simp add: children_ok_def)
qed

lemma entry_resource_self:
  assumes "is_authority_entry uc e"
  shows "resource_within e e"
proof -
  obtain r where r: "jget ''resource'' e = Some (JStr r)"
    using entry_members(3)[OF assms] by (cases "jget ''resource'' e" rule: nonempty_string.cases) simp_all
  consider "jget ''resource_match'' e = None \<or> jget ''resource_match'' e = Some (JStr ''exact'')"
    | "jget ''resource_match'' e = Some (JStr ''prefix'')"
    using entry_members(4)[OF assms] by blast
  then have "entry_matches_target e r"
  proof cases
    case 1
    then have "exact_on e r" by (auto simp: exact_on_def match_form_def r)
    then show ?thesis unfolding matches_iff by blast
  next
    case 2
    then have "prefix_on e r"
      using entry_members(5)[OF assms 2] by (simp add: prefix_on_def match_form_def r)
    then show ?thesis unfolding matches_iff using prefix_on_self by blast
  qed
  then show ?thesis by (rule within_self)
qed

lemma entry_constraints_valid:
  assumes "is_authority_entry uc e"
  shows "constraints_valid uc (jget ''constraints'' e)"
  unfolding constraints_valid_def
proof (intro ballI, clarify)
  fix k s v
  assume k: "(k, s) \<in> set (SEMANTICS uc)" and v: "cget k (jget ''constraints'' e) = Some v"
  then obtain c where c: "jget ''constraints'' e = Some c" "jget k c = Some v"
    by (auto simp: cget_def bind_eq_Some_conv)
  have "k \<in> set (jkeys c)" using c(2) by (rule jget_key)
  moreover have "is_implemented_common_constraint uc k"
    using k unfolding is_implemented_common_constraint_def IMPLEMENTED_COMMON_CONSTRAINTS_def by force
  ultimately have "valid_common_constraint uc k v"
    using entry_members(7)[OF assms c(1)] c(2) by (auto simp: constraints_ok_def list_all_iff)
  moreover have "map_of (SEMANTICS uc) k = Some s" using k semantics_keys by (rule map_of_is_SomeI[rotated])
  ultimately show "valid s v" by (simp add: valid_common_constraint_def)
qed

lemma entry_caps:
  assumes "is_authority_entry uc e"
  shows "\<forall>x. constraint_of ''max_amount'' e = Some x \<longrightarrow> is_amount_cap x"
    "conditions_ok (constraint_of ''terminal_when'' e)"
proof -
  have c: "constraints_ok uc c" if "jget ''constraints'' e = Some c" for c using entry_members(7)[OF assms that] .
  show "\<forall>x. constraint_of ''max_amount'' e = Some x \<longrightarrow> is_amount_cap x"
    using c by (auto simp: constraint_of_def cget_def bind_eq_Some_conv constraints_ok_def)
  show "conditions_ok (constraint_of ''terminal_when'' e)"
    unfolding conditions_ok_def
  proof
    fix x
    assume x: "x \<in> set (elements_of (constraint_of ''terminal_when'' e))"
    then obtain v where v: "constraint_of ''terminal_when'' e = Some v" "x \<in> set (elements v)"
      unfolding elements_of_iff by blast
    then obtain k where k: "jget ''constraints'' e = Some k" "jget ''terminal_when'' k = Some v"
      by (auto simp: constraint_of_def cget_def bind_eq_Some_conv)
    show "condition_canonical_bytes x \<noteq> None" using c[OF k(1)] k(2) v(2) by (auto simp: constraints_ok_def list_all_iff)
  qed
qed

lemma entry_contract: "is_authority_entry uc e \<Longrightarrow> \<forall>x. jget ''resource_contract'' e = Some x \<longrightarrow> is_resource_contract_ref x"
  using entry_members(6) by blast

text \<open>The rule for two entries of the guarded shape is the conjunction of its parts.\<close>

lemma entry_subset_iff:
  assumes "is_authority_entry uc c" "is_authority_entry uc g"
  shows "is_subset_entry uc c g \<longleftrightarrow>
    jget ''type'' c = jget ''type'' g \<and> resource_within c g \<and>
    same_resource_contract (jget ''resource_contract'' c) (jget ''resource_contract'' g) \<and>
    set (actions_of c) \<subseteq> set (actions_of g) \<and>
    amount_no_broader (constraint_of ''max_amount'' c) (constraint_of ''max_amount'' g) \<and>
    vendors_no_broader (constraint_of ''vendors'' c) (constraint_of ''vendors'' g) \<and>
    (constraint_of ''requires_action_approval'' g = Some (JBool True) \<longrightarrow>
       constraint_of ''requires_action_approval'' c = Some (JBool True)) \<and>
    common_constraints_no_broader uc (jget ''constraints'' c) (jget ''constraints'' g) \<and>
    conditions_no_broader (constraint_of ''terminal_when'' c) (constraint_of ''terminal_when'' g) \<and>
    capability_sources_no_broader c g \<and>
    delegation_no_broader (jget ''delegation'' c) (jget ''delegation'' g)"
  unfolding is_subset_entry_def
  by (simp add: entry_no_foreign_delegation[OF assms(1)] entry_no_foreign_delegation[OF assms(2)]
      entry_members(1,2)[OF assms(1)] entry_members(1,2)[OF assms(2)] list_all_iff subset_eq)

section \<open>Capability sources\<close>

lemma jget_wf: "json_wf e \<Longrightarrow> jget k e = Some v \<Longrightarrow> json_wf v"
  by (cases e) (auto simp: jget_def dest!: map_of_SomeD)

lemma elements_wf: "json_wf v \<Longrightarrow> x \<in> set (elements v) \<Longrightarrow> json_wf x"
  by (cases v) auto

lemma same_binding_action:
  assumes "json_wf a" "json_wf b" "binding_ok a" "binding_ok b" "binding_key a = binding_key b"
  shows "jget ''action'' a = jget ''action'' b"
proof -
  have str: "nonempty_string v \<Longrightarrow> \<exists>s. v = Some (JStr s)" for v
    by (cases v rule: nonempty_string.cases) simp_all
  have act: "\<exists>ms s. x = JObj ms \<and> map_of ms ''action'' = Some (JStr s)" if "binding_ok x" for x
  proof -
    have "nonempty_string (jget ''action'' x)" using that by (simp add: binding_ok_def)
    then obtain s where s: "jget ''action'' x = Some (JStr s)" using str by blast
    then show ?thesis by (cases x) (simp_all add: jget_def)
  qed
  obtain ms s where a: "a = JObj ms" "map_of ms ''action'' = Some (JStr s)" using act[OF assms(3)] by blast
  obtain ns t where b: "b = JObj ns" "map_of ns ''action'' = Some (JStr t)" using act[OF assms(4)] by blast
  have d: "distinct (map fst ms)" "distinct (map fst ns)" using assms(1,2) unfolding a b by simp_all
  have "canonicalize (JObj ms) = canonicalize (JObj ns)" using assms(5) unfolding a b binding_key_def .
  then have "map_option canonicalize (map_of ms ''action'') = map_option canonicalize (map_of ns ''action'')"
    unfolding canonical_members[OF d] by (rule spec)
  then have "canonicalize (JStr s) = canonicalize (JStr t)" unfolding a(2) b(2) by (simp only: option.map option.inject)
  then have "normal (JStr s) = normal (JStr t)" by (simp only: canonical_normal)
  then show ?thesis by (simp add: jget_def a b)
qed

definition sources_of :: "json \<Rightarrow> json list" where
  "sources_of e = elements_of (jget ''capability_sources'' e)"

lemma sources_iff:
  "capability_sources_no_broader c g \<longleftrightarrow>
     binding_key ` set (sources_of c) \<subseteq> binding_key ` set (sources_of g) \<and>
     (\<forall>b \<in> set (sources_of g). \<forall>a \<in> set (actions_of c). jget ''action'' b = Some a \<longrightarrow> binding_key b \<in> binding_key ` set (sources_of c))"
  unfolding capability_sources_no_broader_def Let_def sources_of_def[symmetric]
  by (cases "sources_of c = [] \<and> sources_of g = []") (auto simp: list_all_iff split: option.splits)

lemma sources_proper:
  assumes "proper uc e" "b \<in> set (sources_of e)"
  shows "json_wf b \<and> binding_ok b"
proof -
  obtain v where v: "jget ''capability_sources'' e = Some v" "b \<in> set (elements v)"
    using assms(2) unfolding sources_of_def elements_of_iff by blast
  then show ?thesis
    using assms(1) entry_members(9)[OF _ v(1)] jget_wf[OF _ v(1)] elements_wf[OF _ v(2)]
    by (auto simp: proper_def list_all_iff)
qed

lemma sources_trans:
  assumes "proper uc b" "proper uc c" "set (actions_of a) \<subseteq> set (actions_of b)"
    "capability_sources_no_broader a b" "capability_sources_no_broader b c"
  shows "capability_sources_no_broader a c"
  unfolding sources_iff
proof (intro conjI ballI impI)
  show "binding_key ` set (sources_of a) \<subseteq> binding_key ` set (sources_of c)"
    using assms(4)[unfolded sources_iff, THEN conjunct1] assms(5)[unfolded sources_iff, THEN conjunct1] by (rule order_trans)
  fix z x
  assume z: "z \<in> set (sources_of c)" "x \<in> set (actions_of a)" "jget ''action'' z = Some x"
  then have "x \<in> set (actions_of b)" using assms(3) by blast
  then have "binding_key z \<in> binding_key ` set (sources_of b)"
    using assms(5)[unfolded sources_iff, THEN conjunct2, rule_format, OF z(1) _ z(3)] by blast
  then obtain y where y: "y \<in> set (sources_of b)" "binding_key z = binding_key y" by blast
  have "jget ''action'' y = Some x"
    using same_binding_action[of z y] sources_proper[OF assms(2) z(1)] sources_proper[OF assms(1) y(1)] y(2) z(3) by simp
  then show "binding_key z \<in> binding_key ` set (sources_of a)"
    using assms(4)[unfolded sources_iff, THEN conjunct2, rule_format, OF y(1) z(2)] y(2) by simp
qed

section \<open>The rule narrows\<close>

lemma subset_refl:
  assumes "is_authority_entry uc e"
  shows "is_subset_entry uc e e"
  unfolding entry_subset_iff[OF assms assms]
  using entry_resource_self[OF assms] contracts.narrows_refl[OF entry_contract[OF assms]] amounts.narrows_refl[OF entry_caps(1)[OF assms]]
    vendors.narrows_refl[OF TrueI] no_broader_refl[OF entry_constraints_valid[OF assms]] conditions.narrows_refl[OF entry_caps(2)[OF assms]]
    delegations.narrows_refl[OF entry_delegation_shape[OF assms]]
  by (auto simp: sources_iff)

lemma subset_trans:
  assumes "proper uc a" "proper uc b" "proper uc c" "is_subset_entry uc a b" "is_subset_entry uc b c"
  shows "is_subset_entry uc a c"
proof -
  have e: "is_authority_entry uc a" "is_authority_entry uc b" "is_authority_entry uc c"
    using assms(1-3) by (simp_all add: proper_def)
  note ab = assms(4)[unfolded entry_subset_iff[OF e(1,2)]] and bc = assms(5)[unfolded entry_subset_iff[OF e(2,3)]]
  have "resource_within a c" using ab bc resource_within_trans by blast
  moreover have "same_resource_contract (jget ''resource_contract'' a) (jget ''resource_contract'' c)"
    by (rule contracts.narrows_trans[OF entry_contract[OF e(1)] entry_contract[OF e(2)] entry_contract[OF e(3)]]) (use ab bc in blast)+
  moreover have "amount_no_broader (constraint_of ''max_amount'' a) (constraint_of ''max_amount'' c)"
    by (rule amounts.narrows_trans[OF entry_caps(1)[OF e(1)] entry_caps(1)[OF e(2)] entry_caps(1)[OF e(3)]]) (use ab bc in blast)+
  moreover have "vendors_no_broader (constraint_of ''vendors'' a) (constraint_of ''vendors'' c)"
    by (rule vendors.narrows_trans[OF TrueI TrueI TrueI]) (use ab bc in blast)+
  moreover have "common_constraints_no_broader uc (jget ''constraints'' a) (jget ''constraints'' c)"
    by (rule no_broader_trans) (use ab bc in blast)+
  moreover have "conditions_no_broader (constraint_of ''terminal_when'' a) (constraint_of ''terminal_when'' c)"
    by (rule conditions.narrows_trans[OF entry_caps(2)[OF e(1)] entry_caps(2)[OF e(2)] entry_caps(2)[OF e(3)]]) (use ab bc in blast)+
  moreover have "capability_sources_no_broader a c"
    by (rule sources_trans[OF assms(2,3)]) (use ab bc in blast)+
  moreover have "delegation_no_broader (jget ''delegation'' a) (jget ''delegation'' c)"
    by (rule delegations.narrows_trans[OF entry_delegation_shape[OF e(1)] entry_delegation_shape[OF e(2)] entry_delegation_shape[OF e(3)]])
      (use ab bc in blast)+
  moreover have "jget ''type'' a = jget ''type'' c" "set (actions_of a) \<subseteq> set (actions_of c)" using ab bc by auto
  ultimately show ?thesis unfolding entry_subset_iff[OF e(1,3)] using ab bc by blast
qed

interpretation entries: narrowing "proper uc" "is_subset_entry uc" for uc
  by unfold_locales (auto simp: proper_def intro: subset_refl, blast intro: subset_trans[unfolded proper_def])

end
