(* ===== verification/Subset_Theorems.thy ===== *)
theory Subset_Theorems
  imports Subset_Laws
begin

text \<open>
  What the subset rule means for enforcement, and the narrowing of a proposal to a
  ceiling.  \<open>admits\<close> reads one entry the way an enforcement point does;
  \<open>may_delegate\<close> and \<open>may_create_child\<close> are the two delegation rights an entry
  grants.
\<close>

section \<open>Enforcement\<close>

record operation =
  op_target :: string
  op_action :: json
  op_facts :: constraint_facts
  op_amount :: "(string \<times> string) option"
  op_vendor :: "json option"
  op_approved :: bool
  op_fired :: "string set"

definition within_cap :: "json option \<Rightarrow> (string \<times> string) option \<Rightarrow> bool" where
  "within_cap cap amt =
     (case cap of
        None \<Rightarrow> True
      | Some c \<Rightarrow>
          (case amt of
             None \<Rightarrow> False
           | Some (a, cur) \<Rightarrow>
               is_valid_amount a \<and> jget ''currency'' c = Some (JStr cur) \<and>
               amount_value a \<le> amount_value (the (opt_string (jget ''amount'' c)))))"

definition within_vendors :: "json option \<Rightarrow> json option \<Rightarrow> bool" where
  "within_vendors vs v = (case vs of None \<Rightarrow> True | Some l \<Rightarrow> (case v of None \<Rightarrow> False | Some x \<Rightarrow> x \<in> set (elements l)))"

definition admits :: "unicode \<Rightarrow> json \<Rightarrow> operation \<Rightarrow> bool" where
  "admits uc e q \<longleftrightarrow>
     entry_matches_target e (op_target q) \<and> op_action q \<in> set (actions_of e) \<and>
     within_cap (constraint_of ''max_amount'' e) (op_amount q) \<and>
     within_vendors (constraint_of ''vendors'' e) (op_vendor q) \<and>
     (constraint_of ''requires_action_approval'' e = Some (JBool True) \<longrightarrow> op_approved q) \<and>
     gates_satisfied (common_constraint_gates uc (jget ''constraints'' e) (op_facts q)) \<and>
     (\<forall>x \<in> set (elements_of (constraint_of ''terminal_when'' e)). case condition_canonical_bytes x of None \<Rightarrow> True | Some b \<Rightarrow> b \<notin> op_fired q)"

definition within_matchers :: "json list option \<Rightarrow> json \<Rightarrow> bool" where
  "within_matchers ms m = (case ms of None \<Rightarrow> True | Some l \<Rightarrow> matcher_key m \<in> matcher_key ` set l)"

definition may_delegate :: "json \<Rightarrow> rat \<Rightarrow> json \<Rightarrow> bool" where
  "may_delegate e depth m \<longleftrightarrow>
     (\<exists>d n. jget ''delegation'' e = Some d \<and> as_num (jget ''max_depth'' d) = Some n \<and> depth \<le> n \<and>
        within_matchers (matcher_list (jget ''allowed_delegates'' d)) m)"

text \<open>
  The gates one justifying entry puts on creating a child of generation \<open>depth\<close> while it
  already has \<open>count\<close> children (\<^verbatim>\<open>createChild\<close> of \<open>child-delegation.ts\<close>): it has the
  \<open>children\<close> grant, \<open>max_child_depth\<close>, 1 where it states none, admits the generation,
  \<open>max_children\<close> admits one more, and its list of actors, where it has one, names the
  actor.  An absent list defers to the policy of the server, which is not an entry's.
\<close>

definition may_create_child :: "json \<Rightarrow> rat \<Rightarrow> rat \<Rightarrow> json \<Rightarrow> bool" where
  "may_create_child e count depth m \<longleftrightarrow>
     (\<exists>d c. jget ''delegation'' e = Some d \<and> children_of d = Some c \<and>
        depth \<le> (case as_num (jget ''max_child_depth'' c) of None \<Rightarrow> 1 | Some n \<Rightarrow> n) \<and>
        (case as_num (jget ''max_children'' c) of None \<Rightarrow> True | Some n \<Rightarrow> count + 1 \<le> n) \<and>
        within_matchers (read_matchers (jget ''allowed_child_actors'' c)) m)"

definition states_child_depth :: "json \<Rightarrow> bool" where
  "states_child_depth e \<longleftrightarrow>
     (\<exists>d c. jget ''delegation'' e = Some d \<and> children_of d = Some c \<and> as_num (jget ''max_child_depth'' c) \<noteq> None)"

lemma cap_sound:
  assumes "amount_no_broader c g" "within_cap c amt"
  shows "within_cap g amt"
proof (cases g)
  case None
  then show ?thesis by (simp add: within_cap_def)
next
  case (Some gv)
  then obtain cv where c: "c = Some cv" using assms(1) by (cases c) (auto simp: amount_no_broader_def split: if_splits)
  have caps: "is_amount_cap cv" "is_amount_cap gv" using assms(1) unfolding c Some amount_no_broader_def by (auto split: if_splits)
  then obtain m n where m: "opt_string (jget ''amount'' cv) = Some m" "opt_string (jget ''amount'' gv) = Some n"
    "is_valid_amount m" "is_valid_amount n"
    by (auto simp: is_amount_cap_def split: option.splits)
  have "jget ''currency'' cv = jget ''currency'' gv" "amount_value m \<le> amount_value n"
    using assms(1) caps compare_amounts_value[OF m(3,4)] unfolding c Some amount_no_broader_def
    by (auto simp: m sign3_def split: if_splits)
  then show ?thesis using assms(2) m unfolding c Some by (auto simp: within_cap_def split: option.splits)
qed

lemma vendors_sound: "vendors_no_broader c g \<Longrightarrow> within_vendors c v \<Longrightarrow> within_vendors g v"
  by (auto simp: vendors_no_broader_def within_vendors_def list_all_iff split: option.splits)

lemma conditions_sound:
  assumes "conditions_no_broader c g" "x \<in> set (elements_of g)" "condition_canonical_bytes x = Some b"
  shows "\<exists>y \<in> set (elements_of c). condition_canonical_bytes y = Some b"
  using assms unfolding conditions_iff by (metis empty_iff empty_set)

lemma matchers_sound: "matchers_subset c g \<Longrightarrow> within_matchers c m \<Longrightarrow> within_matchers g m"
  unfolding matchers_iff within_matchers_def by (auto split: option.splits)

lemma admits_sound:
  assumes "is_subset_entry uc c g" "unsupported_entry_member c = None" "unsupported_entry_member g = None" "admits uc c q"
  shows "admits uc g q"
proof -
  note s = assms(1)[unfolded is_subset_entry_def]
  have p: "resource_within c g" "list_all (\<lambda>a. a \<in> set (actions_of g)) (actions_of c)"
    "amount_no_broader (constraint_of ''max_amount'' c) (constraint_of ''max_amount'' g)"
    "vendors_no_broader (constraint_of ''vendors'' c) (constraint_of ''vendors'' g)"
    "\<not> (constraint_of ''requires_action_approval'' g = Some (JBool True) \<and> constraint_of ''requires_action_approval'' c \<noteq> Some (JBool True))"
    "common_constraints_no_broader uc (jget ''constraints'' c) (jget ''constraints'' g)"
    "conditions_no_broader (constraint_of ''terminal_when'' c) (constraint_of ''terminal_when'' g)"
    using s assms(2,3) by (simp_all split: if_split_asm)
  note a = assms(4)[unfolded admits_def]
  show ?thesis
    unfolding admits_def
  proof (intro conjI impI ballI allI)
    show "entry_matches_target g (op_target q)" using within_sound[OF p(1)] a by blast
    show "op_action q \<in> set (actions_of g)" using p(2) a by (auto simp: list_all_iff)
    show "within_cap (constraint_of ''max_amount'' g) (op_amount q)" using cap_sound[OF p(3)] a by blast
    show "within_vendors (constraint_of ''vendors'' g) (op_vendor q)" using vendors_sound[OF p(4)] a by blast
    show "op_approved q" if "constraint_of ''requires_action_approval'' g = Some (JBool True)" using p(5) a that by blast
    show "gates_satisfied (common_constraint_gates uc (jget ''constraints'' g) (op_facts q))"
      using no_broader_sound[OF p(6)] a by blast
    show "case condition_canonical_bytes x of None \<Rightarrow> True | Some b \<Rightarrow> b \<notin> op_fired q"
      if x: "x \<in> set (elements_of (constraint_of ''terminal_when'' g))" for x
    proof (cases "condition_canonical_bytes x")
      case (Some b)
      then obtain y where y: "y \<in> set (elements_of (constraint_of ''terminal_when'' c))" "condition_canonical_bytes y = Some b"
        using conditions_sound[OF p(7) x] by blast
      then have "case condition_canonical_bytes y of None \<Rightarrow> True | Some b \<Rightarrow> b \<notin> op_fired q" using a by blast
      then show ?thesis using y(2) Some by simp
    qed simp
  qed
qed

lemma delegation_sound:
  assumes "delegation_no_broader (jget ''delegation'' c) (jget ''delegation'' g)" "delegation_shape (jget ''delegation'' g)"
    "may_delegate c n m"
  shows "may_delegate g n m"
proof -
  obtain d k where d: "jget ''delegation'' c = Some d" "as_num (jget ''max_depth'' d) = Some k" "n \<le> k"
    "within_matchers (matcher_list (jget ''allowed_delegates'' d)) m"
    using assms(3) unfolding may_delegate_def by blast
  obtain y where y: "jget ''delegation'' g = Some y" "\<not> depth_exceeds (jget ''max_depth'' d) (jget ''max_depth'' y)"
    "matchers_subset (matcher_list (jget ''allowed_delegates'' d)) (matcher_list (jget ''allowed_delegates'' y))"
    using assms(1) unfolding d(1) delegation_iff by auto
  obtain j where "as_num (jget ''max_depth'' y) = Some j" using assms(2) y(1) unfolding delegation_shape_def by auto
  moreover from this have "k \<le> j" using y(2) by (simp add: depth_exceeds_def d(2))
  ultimately show ?thesis
    using y(1) d(3) matchers_sound[OF y(3) d(4)] unfolding may_delegate_def by (intro exI[of _ y] exI[of _ j]) simp
qed

lemma children_sound:
  assumes "delegation_no_broader (jget ''delegation'' c) (jget ''delegation'' g)" "may_create_child c n k m"
  shows "if k \<le> 1 \<or> states_child_depth g then may_create_child g n k m else may_create_child g n 1 m"
proof -
  obtain d x where d: "jget ''delegation'' c = Some d" "children_of d = Some x"
    "k \<le> (case as_num (jget ''max_child_depth'' x) of None \<Rightarrow> 1 | Some j \<Rightarrow> j)"
    "case as_num (jget ''max_children'' x) of None \<Rightarrow> True | Some j \<Rightarrow> n + 1 \<le> j"
    "within_matchers (read_matchers (jget ''allowed_child_actors'' x)) m"
    using assms(2) unfolding may_create_child_def by blast
  obtain y where y: "jget ''delegation'' g = Some y" "children_no_broader (children_of d) (children_of y)"
    using assms(1) unfolding d(1) delegation_iff by auto
  obtain z where z: "children_of y = Some z"
    "cap_no_broader (as_num (jget ''max_children'' x)) (as_num (jget ''max_children'' z))"
    "cap_no_broader (as_num (jget ''max_child_depth'' x)) (as_num (jget ''max_child_depth'' z))"
    "matchers_subset (read_matchers (jget ''allowed_child_actors'' x)) (read_matchers (jget ''allowed_child_actors'' z))"
    using y(2) unfolding d(2) children_iff by auto
  have count: "case as_num (jget ''max_children'' z) of None \<Rightarrow> True | Some j \<Rightarrow> n + 1 \<le> j"
    using z(2) d(4) by (auto simp: cap_no_broader_def split: option.splits)
  have create: "may_create_child g n i m"
    if "i \<le> (case as_num (jget ''max_child_depth'' z) of None \<Rightarrow> 1 | Some j \<Rightarrow> j)" for i
    using y(1) z(1) that count matchers_sound[OF z(4) d(5)] unfolding may_create_child_def by blast
  have st: "states_child_depth g \<longleftrightarrow> as_num (jget ''max_child_depth'' z) \<noteq> None"
    using y(1) z(1) by (simp add: states_child_depth_def)
  show ?thesis
  proof (cases "as_num (jget ''max_child_depth'' z)")
    case None
    then show ?thesis using create st by simp
  next
    case (Some j)
    then have "k \<le> j" using z(3) d(3) by (cases "as_num (jget ''max_child_depth'' x)") (simp_all add: cap_no_broader_def)
    then show ?thesis using Some create st by simp
  qed
qed

text \<open>
  C5. The subset rule is sound for enforcement and composes along a delegation chain.
  Every guarded entry is a subset of itself; when every entry of a chain is a subset of
  its predecessor, the last is a subset of the first; and an entry admits no operation
  its reference refuses (target, action, amount, vendor, approval, resource facts and
  completion conditions together) and confers no delegation deeper than its reference's
  or to an actor its reference's list excludes.  A child the gates of an entry admit
  (generation, number of children, actor) passes the gates of its reference, provided
  that it is of the first generation or the reference states a \<open>max_child_depth\<close>; where
  the reference states none, the subset rule reads it as unbounded and creation as 1, and
  only the gates on the number of children and on the actor are passed.
\<close>

theorem subset_rule_narrows:
  "(is_authority_entry uc e \<longrightarrow> is_subset_entry uc e e) \<and>
   (list_all (\<lambda>x. json_wf x \<and> is_authority_entry uc x) (x # xs) \<and>
      successively (\<lambda>parent child. is_subset_entry uc child parent) (x # xs) \<longrightarrow> is_subset_entry uc (last (x # xs)) x) \<and>
   (is_authority_entry uc c \<and> is_authority_entry uc g \<and> is_subset_entry uc c g \<longrightarrow>
      (admits uc c q \<longrightarrow> admits uc g q) \<and> (may_delegate c n m \<longrightarrow> may_delegate g n m) \<and>
      (may_create_child c n k m \<longrightarrow>
         (if k \<le> 1 \<or> states_child_depth g then may_create_child g n k m else may_create_child g n 1 m)))"
proof (intro conjI impI)
  show "is_subset_entry uc e e" if "is_authority_entry uc e" using that by (rule subset_refl)
  show "is_subset_entry uc (last (x # xs)) x"
    if "list_all (\<lambda>x. json_wf x \<and> is_authority_entry uc x) (x # xs) \<and>
      successively (\<lambda>parent child. is_subset_entry uc child parent) (x # xs)"
  proof (rule entries.chain_narrows)
    show "list_all (proper uc) (x # xs)" using conjunct1[OF that] by (simp only: proper_def[abs_def])
    show "successively (\<lambda>parent child. is_subset_entry uc child parent) (x # xs)" using that by blast
  qed
next
  assume h: "is_authority_entry uc c \<and> is_authority_entry uc g \<and> is_subset_entry uc c g"
  then have e: "is_authority_entry uc c" "is_authority_entry uc g" "is_subset_entry uc c g" by simp_all
  from h have d: "delegation_no_broader (jget ''delegation'' c) (jget ''delegation'' g)" using entry_subset_iff[of uc c g] by blast
  show "admits uc g q" if "admits uc c q"
    by (rule admits_sound[OF e(3) entry_members(1)[OF e(1)] entry_members(1)[OF e(2)] that])
  show "may_delegate g n m" if "may_delegate c n m"
    by (rule delegation_sound[OF d entry_delegation_shape[OF e(2)] that])
  show "if k \<le> 1 \<or> states_child_depth g then may_create_child g n k m else may_create_child g n 1 m"
    if "may_create_child c n k m"
    using d that by (rule children_sound)
qed

definition root_entry :: json where
  "root_entry = JObj
     [(''type'', JStr ''mission_resource_access''), (''resource'', JStr ''https://a/''), (''resource_match'', JStr ''prefix''),
      (''actions'', jstrs [''read'', ''write'']),
      (''constraints'', JObj [(''max_amount'', JObj [(''amount'', JStr ''10.5''), (''currency'', JStr ''USD'')]), (''tenant'', JStr ''t'')]),
      (''delegation'', JObj [(''max_depth'', JNum 2), (''children'', JObj [(''max_children'', JNum 3)])])]"

definition child_entry :: json where
  "child_entry = JObj
     [(''type'', JStr ''mission_resource_access''), (''resource'', JStr ''https://a/x''), (''actions'', jstrs [''read'']),
      (''constraints'', JObj [(''max_amount'', JObj [(''amount'', JStr ''2.25''), (''currency'', JStr ''USD'')]),
         (''tenant'', JStr ''t''), (''vendors'', jstrs [''v''])]),
      (''delegation'', JObj [(''max_depth'', JNum 1), (''children'', JObj [(''max_children'', JNum 1)])])]"

definition sample_operation :: operation where
  "sample_operation = \<lparr>op_target = ''https://a/x'', op_action = JStr ''read'', op_facts = no_facts\<lparr>tenant := Some ''t''\<rparr>,
     op_amount = Some (''2'', ''USD''), op_vendor = Some (JStr ''v''), op_approved = False, op_fired = {}\<rparr>"

lemma sample_entries:
  "is_authority_entry plain_unicode root_entry" "is_authority_entry plain_unicode child_entry"
  "json_wf root_entry" "json_wf child_entry"
  "is_subset_entry plain_unicode child_entry root_entry" "\<not> is_subset_entry plain_unicode root_entry child_entry"
  by code_simp+

theorem subset_rule_narrows_witness:
  "is_subset_entry plain_unicode child_entry root_entry \<and> \<not> is_subset_entry plain_unicode root_entry child_entry \<and>
   is_subset_entry plain_unicode child_entry child_entry \<and>
   admits plain_unicode child_entry sample_operation \<and> admits plain_unicode root_entry sample_operation"
proof -
  have a: "admits plain_unicode child_entry sample_operation" by code_simp
  then have "admits plain_unicode root_entry sample_operation"
    using subset_rule_narrows[of plain_unicode child_entry root_entry "[child_entry]" child_entry root_entry sample_operation 0 JNull]
      sample_entries by blast
  moreover have "is_subset_entry plain_unicode child_entry child_entry"
    using subset_rule_narrows[of plain_unicode child_entry root_entry "[child_entry]" child_entry root_entry sample_operation 0 JNull]
      sample_entries by blast
  ultimately show ?thesis using a sample_entries by blast
qed

section \<open>Narrowing a proposal\<close>

lemma map_of_without: "map_of (filter (\<lambda>x. fst x \<noteq> m) ms) k = (if k = m then None else map_of ms k)"
  by (induction ms) auto

lemma jget_without [simp]: "jget k (without_member m e) = (if k = m then None else jget k e)"
  unfolding jget_def without_member_def members.simps by (rule map_of_without)

lemma jkeys_without: "jkeys (without_member m e) = filter (\<lambda>k. k \<noteq> m) (jkeys e)"
  by (simp add: jkeys_def without_member_def filter_map comp_def)

lemma map_of_put: "map_of (put_member k v ms) j = (if j = k then Some v else map_of ms j)"
  by (induction k v ms rule: put_member.induct) auto

lemma keys_put: "set (map fst (put_member k v ms)) = insert k (set (map fst ms))"
  by (induction k v ms rule: put_member.induct) auto

lemma jget_with_actions [simp]: "jget k (with_actions as e) = (if k = ''actions'' then Some (JArr as) else jget k e)"
  by (simp add: jget_def with_actions_def map_of_put)

lemma key_outside_None: "key_outside ks v = None \<longleftrightarrow> set (jkeys v) \<subseteq> set ks"
  by (auto simp: key_outside_def find_None_iff)

lemma stripped_supported:
  assumes "unsupported_entry_member e = None"
  shows "unsupported_entry_member (without_member m e) = None" "unsupported_entry_member (with_actions as e) = None"
proof -
  have k: "set (jkeys e) \<subseteq> set SUPPORTED_ENTRY_MEMBERS"
    using assms unfolding unsupported_entry_member_def key_outside_None .
  show "unsupported_entry_member (without_member m e) = None"
    unfolding unsupported_entry_member_def key_outside_None jkeys_without using k by auto
  have w: "set (jkeys (with_actions as e)) = insert ''actions'' (set (jkeys e))"
    using keys_put[of "''actions''" "JArr as" "members e"] unfolding jkeys_def with_actions_def members.simps .
  have m: "''actions'' \<in> set SUPPORTED_ENTRY_MEMBERS" by code_simp
  show "unsupported_entry_member (with_actions as e) = None"
    unfolding unsupported_entry_member_def key_outside_None w by (rule insert_subsetI[OF m k])
qed

text \<open>\<open>admits\<close> reads the target, the actions and the constraints only.\<close>

lemma matches_cong:
  "jget ''resource'' a = jget ''resource'' b \<Longrightarrow> jget ''resource_match'' a = jget ''resource_match'' b \<Longrightarrow>
   entry_matches_target a t = entry_matches_target b t"
  by (simp add: entry_matches_target_def match_resource_def)

lemma admits_cong:
  assumes "jget ''resource'' a = jget ''resource'' b" "jget ''resource_match'' a = jget ''resource_match'' b"
    "jget ''constraints'' a = jget ''constraints'' b" "op_action q \<in> set (actions_of a) \<longleftrightarrow> op_action q \<in> set (actions_of b)"
  shows "admits uc a q \<longleftrightarrow> admits uc b q"
  unfolding admits_def constraint_of_def assms(3,4) matches_cong[OF assms(1,2)] by (rule refl)

lemma ceiling_admits:
  assumes "entry_within_ceiling uc (with_actions [op_action q] e) cl" "unsupported_entry_member e = None"
    "\<forall>g \<in> set cl. unsupported_entry_member g = None" "admits uc e q"
  shows "\<exists>g \<in> set cl. admits uc g q"
proof -
  define c where "c = without_member ''resource_contract'' (without_member ''capability_sources'' (with_actions [op_action q] e))"
  obtain g where g: "g \<in> set cl" "is_subset_entry uc c (without_member ''resource_contract'' g)"
    using assms(1)
    by (auto simp: entry_within_ceiling_def is_subset_set_def without_resource_contract_def without_capability_sources_def
        c_def list_ex_iff)
  have "admits uc c q \<longleftrightarrow> admits uc e q"
  proof (rule admits_cong)
    show "op_action q \<in> set (actions_of c) \<longleftrightarrow> op_action q \<in> set (actions_of e)"
      using assms(4) by (simp add: c_def actions_of_def elements_of_def admits_def)
  qed (simp_all add: c_def)
  moreover have "unsupported_entry_member c = None" unfolding c_def by (intro stripped_supported assms(2))
  moreover have "unsupported_entry_member (without_member ''resource_contract'' g) = None"
    using assms(3) g(1) stripped_supported(1) by blast
  ultimately have "admits uc (without_member ''resource_contract'' g) q"
    using admits_sound[OF g(2)] assms(4) by blast
  moreover have "admits uc (without_member ''resource_contract'' g) q \<longleftrightarrow> admits uc g q"
    by (rule admits_cong) (simp_all add: actions_of_def)
  ultimately show ?thesis using g(1) by blast
qed

definition kept_actions :: "unicode \<Rightarrow> json list \<Rightarrow> json \<Rightarrow> json list" where
  "kept_actions uc cl e = filter (\<lambda>a. entry_within_ceiling uc (with_actions [a] e) cl) (actions_of e)"

lemma narrow_entry_Some:
  assumes "narrow_entry uc cl e = Some f"
  shows "actions_of f = kept_actions uc cl e \<and> kept_actions uc cl e \<noteq> [] \<and>
    (\<forall>k. k \<notin> {''actions'', ''capability_sources''} \<longrightarrow> jget k f = jget k e)"
proof (cases "length (kept_actions uc cl e) = length (actions_of e)")
  case True
  then have "kept_actions uc cl e = actions_of e"
    unfolding kept_actions_def by (metis filter_True length_filter_less less_irrefl)
  then show ?thesis
    using assms True unfolding narrow_entry_def Let_def kept_actions_def[symmetric] by (simp split: if_splits)
next
  case False
  have "jget ''actions'' (JObj (put_member ''capability_sources'' v (members (with_actions as e)))) = Some (JArr as)" for v as e
    by (simp add: jget_def with_actions_def map_of_put)
  moreover have "jget k (JObj (put_member ''capability_sources'' v (members (with_actions as e)))) = jget k e"
    if "k \<notin> {''actions'', ''capability_sources''}" for v as e k
    using that by (simp add: jget_def with_actions_def map_of_put)
  ultimately show ?thesis
    using assms False unfolding narrow_entry_def Let_def kept_actions_def[symmetric]
    by (auto simp: actions_of_def elements_of_def split: if_splits)
qed

lemma narrow_entry_None: "narrow_entry uc cl e = None \<longleftrightarrow> kept_actions uc cl e = []"
  by (simp add: narrow_entry_def Let_def kept_actions_def)

lemma find_after:
  "x \<in> set xs \<Longrightarrow> f x = Some y \<Longrightarrow> y \<in> set (List.map_filter f xs)"
  by (force simp: List.map_filter_def)

lemma map_filter_source: "y \<in> set (List.map_filter f xs) \<Longrightarrow> \<exists>x \<in> set xs. f x = Some y"
  by (auto simp: List.map_filter_def)

lemma within_ceiling_actions:
  assumes "f \<in> set (narrow_to_ceiling uc es cl)" "admits uc f q"
  shows "(\<exists>e \<in> set es. admits uc e q) \<and> (\<exists>g \<in> set cl. admits uc g q)"
proof -
  have guard: "\<forall>e \<in> set es. is_authority_entry uc e" "\<forall>g \<in> set cl. is_authority_entry uc g"
    using assms(1) by (auto simp: narrow_to_ceiling_def list_all_iff split: if_splits)
  then obtain e where e: "e \<in> set es" "narrow_entry uc cl e = Some f"
    using assms(1) map_filter_source by (fastforce simp: narrow_to_ceiling_def list_all_iff)
  note f = narrow_entry_Some[OF e(2)]
  have act: "op_action q \<in> set (actions_of f)" using assms(2) by (simp add: admits_def)
  then have "op_action q \<in> set (actions_of e)" "entry_within_ceiling uc (with_actions [op_action q] e) cl"
    using f by (simp_all add: kept_actions_def)
  moreover from this have "admits uc e q"
    using assms(2) act f admits_cong[of e f q uc] by simp
  moreover have "unsupported_entry_member e = None" "\<forall>g \<in> set cl. unsupported_entry_member g = None"
    using guard e(1) entry_members(1) by blast+
  ultimately show ?thesis using ceiling_admits e(1) by blast
qed

text \<open>
  C22. Narrowing a proposal to a ceiling keeps exactly the actions the ceiling covers
  and widens nothing.  Every operation a surviving entry admits is admitted by an
  entry of the proposal and by an entry of the ceiling; a survivor differs from its
  source in its actions and its capability sources only; and when the operands have
  the guarded shape, an action of a proposed entry survives exactly when the entry
  restricted to it falls within the ceiling.
\<close>

theorem narrow_to_ceiling_exact:
  "(f \<in> set (narrow_to_ceiling uc es cl) \<and> admits uc f q \<longrightarrow>
      (\<exists>e \<in> set es. admits uc e q) \<and> (\<exists>g \<in> set cl. admits uc g q)) \<and>
   (f \<in> set (narrow_to_ceiling uc es cl) \<longrightarrow>
      (\<exists>e \<in> set es. actions_of f \<noteq> [] \<and>
         actions_of f = filter (\<lambda>a. entry_within_ceiling uc (with_actions [a] e) cl) (actions_of e) \<and>
         (\<forall>k. k \<notin> {''actions'', ''capability_sources''} \<longrightarrow> jget k f = jget k e))) \<and>
   (list_all (is_authority_entry uc) (es @ cl) \<and> e \<in> set es \<and> a \<in> set (actions_of e) \<and>
      entry_within_ceiling uc (with_actions [a] e) cl \<longrightarrow>
      (\<exists>f \<in> set (narrow_to_ceiling uc es cl). a \<in> set (actions_of f) \<and> jget ''resource'' f = jget ''resource'' e))"
proof (intro conjI impI)
  assume f: "f \<in> set (narrow_to_ceiling uc es cl) \<and> admits uc f q"
  show "\<exists>e \<in> set es. admits uc e q" "\<exists>g \<in> set cl. admits uc g q" using within_ceiling_actions f by blast+
next
  assume "f \<in> set (narrow_to_ceiling uc es cl)"
  then have "f \<in> set (List.map_filter (narrow_entry uc cl) es)" by (simp add: narrow_to_ceiling_def split: if_splits)
  then obtain e where "e \<in> set es" "narrow_entry uc cl e = Some f" by (rule map_filter_source[THEN bexE])
  then show "\<exists>e \<in> set es. actions_of f \<noteq> [] \<and>
      actions_of f = filter (\<lambda>a. entry_within_ceiling uc (with_actions [a] e) cl) (actions_of e) \<and>
      (\<forall>k. k \<notin> {''actions'', ''capability_sources''} \<longrightarrow> jget k f = jget k e)"
    using narrow_entry_Some[of uc cl e f] unfolding kept_actions_def by (intro bexI[of _ e]) simp_all
next
  assume h: "list_all (is_authority_entry uc) (es @ cl) \<and> e \<in> set es \<and> a \<in> set (actions_of e) \<and>
    entry_within_ceiling uc (with_actions [a] e) cl"
  then have a: "a \<in> set (kept_actions uc cl e)" by (simp add: kept_actions_def)
  then obtain f where f: "narrow_entry uc cl e = Some f" using narrow_entry_None[of uc cl e] by fastforce
  have "f \<in> set (narrow_to_ceiling uc es cl)" using h f find_after[of e es] by (simp add: narrow_to_ceiling_def)
  then show "\<exists>f \<in> set (narrow_to_ceiling uc es cl). a \<in> set (actions_of f) \<and> jget ''resource'' f = jget ''resource'' e"
    using narrow_entry_Some[OF f] a by (intro bexI[of _ f]) simp_all
qed

text \<open>A proposal for two actions against a ceiling that grants one of them.\<close>

definition read_ceiling :: json where
  "read_ceiling = JObj
     [(''type'', JStr ''mission_resource_access''), (''resource'', JStr ''https://a/''), (''resource_match'', JStr ''prefix''),
      (''actions'', jstrs [''read'']), (''delegation'', JObj [(''max_depth'', JNum 2), (''children'', JObj [])])]"

theorem narrow_to_ceiling_exact_witness:
  "with_actions [JStr ''read''] root_entry \<in> set (narrow_to_ceiling plain_unicode [root_entry] [read_ceiling]) \<and>
   admits plain_unicode (with_actions [JStr ''read''] root_entry) sample_operation \<and>
   admits plain_unicode read_ceiling sample_operation \<and> admits plain_unicode root_entry sample_operation"
proof -
  have 1: "narrow_to_ceiling plain_unicode [root_entry] [read_ceiling] = [with_actions [JStr ''read''] root_entry]"
    by code_simp
  have 2: "admits plain_unicode (with_actions [JStr ''read''] root_entry) sample_operation" by code_simp
  show ?thesis
    using narrow_to_ceiling_exact[of "with_actions [JStr ''read''] root_entry" plain_unicode "[root_entry]" "[read_ceiling]" sample_operation] 1 2
    by simp
qed

text \<open>
  An absent generation limit reads as no limit in the rule, where child creation reads
  it as one generation: an entry whose \<open>children\<close> states five generations is a subset
  of one that states none.
\<close>

lemma child_depth_default_widens:
  "let stated = JObj [(''max_child_depth'', JNum 5)]; absent = JObj []
   in children_no_broader (Some stated) (Some absent) \<and> jget ''max_child_depth'' absent = None"
  by code_simp

end
