(* ===== verification/Containment_Selector.thy ===== *)
theory Containment_Selector
  imports Subset_Theorems Mission_Types
begin

text \<open>
  Containment selectors, \<^verbatim>\<open>packages/mission-core/src/containment-selector.ts\<close>: which
  approved entries a contained capability applies to, what it removes from each, and
  how selector lists merge.  A selector read from outside is a JSON value; one that
  passed \<open>containmentSelectorViolation\<close> is a \<open>containment_selector\<close>.
\<close>

section \<open>Admission\<close>

definition CONTAINMENT_SELECTOR_MEMBERS :: "string list" where
  "CONTAINMENT_SELECTOR_MEMBERS = [''resource'', ''resource_match'', ''actions'']"

datatype selector_violation =
    Selector_not_object | Selector_member string | Selector_resource | Selector_match match_violation | Selector_actions

definition containment_selector_violation :: "json \<Rightarrow> selector_violation option" where
  "containment_selector_violation v =
     (if \<not> is_obj v then Some Selector_not_object
      else case key_outside CONTAINMENT_SELECTOR_MEMBERS v of
        Some m \<Rightarrow> Some (Selector_member m)
      | None \<Rightarrow>
          if \<not> json_absolute_uri (jget ''resource'' v) then Some Selector_resource
          else case resource_match_violation v of
            Some m \<Rightarrow> Some (Selector_match m)
          | None \<Rightarrow>
              (case jget ''actions'' v of
                 None \<Rightarrow> None
               | Some a \<Rightarrow>
                   if \<not> is_array a \<or> elements a = [] \<or> list_ex (\<lambda>x. opt_string (Some x) = None) (elements a)
                   then Some Selector_actions else None))"

definition selector_json :: "containment_selector \<Rightarrow> json" where
  "selector_json s = JObj
     ([(''resource'', JStr (sel_resource s))] @
      (if sel_match s = Prefix then [(''resource_match'', JStr ''prefix'')] else []) @
      (case sel_actions s of None \<Rightarrow> [] | Some as \<Rightarrow> [(''actions'', jstrs as)]))"

section \<open>Overlap and removal\<close>

definition decidable :: "json \<Rightarrow> bool" where
  "decidable side =
     (case opt_string (jget ''resource'' side) of
        None \<Rightarrow> False
      | Some r \<Rightarrow>
          if jget ''resource_match'' side = None \<or> jget ''resource_match'' side = Some (JStr ''exact'') then True
          else jget ''resource_match'' side = Some (JStr ''prefix'') \<and> is_enforceable_prefix_base (Some (JStr r)))"

definition overlaps :: "json \<Rightarrow> json \<Rightarrow> bool" where
  "overlaps selector entry =
     (if \<not> decidable selector \<or> \<not> decidable entry then True
      else resource_within selector entry \<or> resource_within entry selector)"

definition selector_overlaps_entry :: "containment_selector \<Rightarrow> json \<Rightarrow> bool" where
  "selector_overlaps_entry s e = overlaps (selector_json s) e"

datatype containment_removal = Whole | Removed "string list"

fun removal_loop :: "json \<Rightarrow> containment_selector list \<Rightarrow> string list option \<Rightarrow> containment_removal option" where
  "removal_loop e [] acc = map_option Removed acc"
| "removal_loop e (s # ss) acc =
     (if \<not> selector_overlaps_entry s e then removal_loop e ss acc
      else case sel_actions s of
        None \<Rightarrow> Some Whole
      | Some as \<Rightarrow> removal_loop e ss (Some ((case acc of None \<Rightarrow> [] | Some xs \<Rightarrow> xs) @ as)))"

definition containment_removal_for :: "json \<Rightarrow> containment_selector list \<Rightarrow> containment_removal option" where
  "containment_removal_for e ss = removal_loop e ss None"

section \<open>Merging\<close>

definition selector_key :: "containment_selector \<Rightarrow> resource_match \<times> string" where
  "selector_key s = (sel_match s, sel_resource s)"

definition merge_into :: "containment_selector \<Rightarrow> containment_selector \<Rightarrow> containment_selector" where
  "merge_into s current =
     (case sel_actions current of
        None \<Rightarrow> current
      | Some as \<Rightarrow> current\<lparr>sel_actions := map_option (\<lambda>bs. uniq (as @ bs)) (sel_actions s)\<rparr>)"

fun merge_one :: "containment_selector list \<Rightarrow> containment_selector \<Rightarrow> containment_selector list" where
  "merge_one [] s = [s\<lparr>sel_actions := map_option uniq (sel_actions s)\<rparr>]"
| "merge_one (c # cs) s = (if selector_key c = selector_key s then merge_into s c # cs else c # merge_one cs s)"

definition merge_containment_selectors :: "containment_selector list list \<Rightarrow> containment_selector list" where
  "merge_containment_selectors ls = foldl merge_one [] (concat ls)"

definition entry_selector :: "json \<Rightarrow> containment_removal \<Rightarrow> containment_selector" where
  "entry_selector e r =
     \<lparr>sel_resource = the (opt_string (jget ''resource'' e)),
      sel_match = (if jget ''resource_match'' e = Some (JStr ''prefix'') then Prefix else Exact),
      sel_actions = (case r of Whole \<Rightarrow> None | Removed as \<Rightarrow> Some (uniq as))\<rparr>"

definition containment_at_entries :: "json list \<Rightarrow> containment_selector list \<Rightarrow> containment_selector list" where
  "containment_at_entries entries ss =
     merge_containment_selectors
       [List.map_filter (\<lambda>e. map_option (entry_selector e) (containment_removal_for e ss)) entries]"

section \<open>What is removed\<close>

text \<open>The meaning of a selector list: the actions it removes from an entry.\<close>

definition removes :: "containment_selector list \<Rightarrow> json \<Rightarrow> json \<Rightarrow> bool" where
  "removes ss e a = (\<exists>s \<in> set ss. selector_overlaps_entry s e \<and>
     (case sel_actions s of None \<Rightarrow> True | Some as \<Rightarrow> a \<in> JStr ` set as))"

definition removal_takes :: "containment_removal option \<Rightarrow> json \<Rightarrow> bool" where
  "removal_takes r a = (case r of None \<Rightarrow> False | Some Whole \<Rightarrow> True | Some (Removed as) \<Rightarrow> a \<in> JStr ` set as)"

lemma removal_loop_takes:
  "removal_takes (removal_loop e ss acc) a \<longleftrightarrow> removes ss e a \<or> (case acc of None \<Rightarrow> False | Some as \<Rightarrow> a \<in> JStr ` set as)"
proof (induction ss arbitrary: acc)
  case Nil
  then show ?case by (cases acc) (simp_all add: removal_takes_def removes_def)
next
  case (Cons s ss)
  have step: "removes (s # ss) e a \<longleftrightarrow> removes ss e a \<or> selector_overlaps_entry s e \<and>
      (case sel_actions s of None \<Rightarrow> True | Some as \<Rightarrow> a \<in> JStr ` set as)"
    by (auto simp: removes_def)
  show ?case
  proof (cases "selector_overlaps_entry s e")
    case False
    then show ?thesis using Cons.IH[of acc] by (simp add: step)
  next
    case True
    show ?thesis
    proof (cases "sel_actions s")
      case None
      then show ?thesis using True by (simp add: step removal_takes_def)
    next
      case (Some as)
      then show ?thesis using True Cons.IH by (auto simp: step split: option.splits)
    qed
  qed
qed

lemma removal_takes_iff: "removal_takes (containment_removal_for e ss) a \<longleftrightarrow> removes ss e a"
  by (simp add: containment_removal_for_def removal_loop_takes)

lemma removes_mono: "set ss \<subseteq> set ts \<Longrightarrow> removes ss e a \<Longrightarrow> removes ts e a"
  by (auto simp: removes_def)

lemma overlap_by_key: "selector_key s = selector_key t \<Longrightarrow> selector_overlaps_entry s e = selector_overlaps_entry t e"
proof -
  assume k: "selector_key s = selector_key t"
  have "jget x (selector_json s) = jget x (selector_json t)" if "x \<in> {''resource'', ''resource_match''}" for x
    using k that by (auto simp: selector_json_def jget_def selector_key_def split: option.splits)
  then have r: "jget ''resource'' (selector_json s) = jget ''resource'' (selector_json t)"
    "jget ''resource_match'' (selector_json s) = jget ''resource_match'' (selector_json t)" by simp_all
  show ?thesis
    unfolding selector_overlaps_entry_def overlaps_def decidable_def resource_within_def match_form_def Let_def r by (rule refl)
qed

lemma set_uniq_image: "a \<in> JStr ` set (uniq xs) \<longleftrightarrow> a \<in> JStr ` set xs"
  by simp

lemma merge_one_removes: "removes (merge_one cs s) e a \<longleftrightarrow> removes (s # cs) e a"
proof (induction cs)
  case Nil
  have "selector_overlaps_entry (s\<lparr>sel_actions := map_option uniq (sel_actions s)\<rparr>) e = selector_overlaps_entry s e"
    by (rule overlap_by_key) (simp add: selector_key_def)
  then show ?case by (cases "sel_actions s") (simp_all add: removes_def)
next
  case (Cons c cs)
  have cons: "removes (x # xs) e a \<longleftrightarrow> removes [x] e a \<or> removes xs e a" for x xs by (simp add: removes_def)
  show ?case
  proof (cases "selector_key c = selector_key s")
    case True
    have "selector_overlaps_entry (merge_into s c) e = selector_overlaps_entry s e" "selector_overlaps_entry c e = selector_overlaps_entry s e"
      using True by (auto intro!: overlap_by_key simp: merge_into_def selector_key_def split: option.splits)
    then have "removes [merge_into s c] e a \<longleftrightarrow> removes [s] e a \<or> removes [c] e a"
      by (cases "sel_actions c"; cases "sel_actions s") (auto simp: removes_def merge_into_def)
    then show ?thesis using True cons[of "merge_into s c" cs] cons[of s "c # cs"] cons[of c cs] by simp
  next
    case False
    then show ?thesis
      using Cons.IH cons[of c "merge_one cs s"] cons[of s "c # cs"] cons[of c cs] cons[of s cs] by auto
  qed
qed

text \<open>Merging loses no removal and adds none.\<close>

lemma merge_removes: "removes (merge_containment_selectors ls) e a \<longleftrightarrow> (\<exists>l \<in> set ls. removes l e a)"
proof -
  have "removes (foldl merge_one acc ss) e a \<longleftrightarrow> removes acc e a \<or> removes ss e a" for acc ss
  proof (induction ss arbitrary: acc)
    case Nil
    then show ?case by (simp add: removes_def)
  next
    case (Cons s ss)
    have cons: "removes (x # xs) e a \<longleftrightarrow> removes [x] e a \<or> removes xs e a" for x xs by (simp add: removes_def)
    have "removes (foldl merge_one acc (s # ss)) e a \<longleftrightarrow> removes (s # acc) e a \<or> removes ss e a"
      by (simp only: foldl_Cons Cons.IH merge_one_removes)
    then show ?case unfolding cons[of s acc] cons[of s ss] by blast
  qed
  from this[of "[]" "concat ls"] show ?thesis
    by (auto simp: merge_containment_selectors_def removes_def)
qed

section \<open>Overlap is a shared target\<close>

lemma slashed_prefix:
  assumes "slashed b @ u = slashed c @ v"
  shows "path_within b c \<or> path_within c b"
proof -
  have half: "path_within b c \<or> path_within c b" if p: "slashed c = slashed b @ w" for b c w
  proof (cases "ends_with c ''/''")
    case True
    then have "c = slashed b @ w" using p by (simp add: slashed_def)
    then show ?thesis unfolding path_within_iff by blast
  next
    case False
    then have s: "slashed c = c @ ''/''" by (simp add: slashed_def)
    show ?thesis
    proof (cases w rule: rev_cases)
      case Nil
      then have "slashed b = c @ ''/''" using p s by simp
      then have "b = c \<or> b = slashed c" unfolding s by (auto simp: slashed_def split: if_splits)
      then show ?thesis unfolding path_within_iff by (metis append_Nil2)
    next
      case (snoc w' x)
      then have "c = slashed b @ w'" using p s by simp
      then show ?thesis unfolding path_within_iff by blast
    qed
  qed
  obtain w where "slashed b = slashed c @ w \<or> slashed c = slashed b @ w"
    using assms unfolding append_eq_append_conv2 by metis
  then show ?thesis using half[of c b w] half[of b c w] by blast
qed

lemma shared_path:
  assumes "path_within b t" "path_within c t"
  shows "path_within b c \<or> path_within c b"
proof -
  consider "t = b" | "t = c" | u v where "t = slashed b @ u" "t = slashed c @ v"
    using assms unfolding path_within_iff by blast
  then show ?thesis
  proof cases
    case 3
    then show ?thesis using slashed_prefix by metis
  qed (use assms in simp_all)
qed

lemma shared_prefix:
  assumes "prefix_admits b t" "prefix_admits c t"
  shows "prefix_admits b c \<or> prefix_admits c b"
proof -
  obtain fb f where b: "prefix_form_of b = Some fb" "pf_query fb = None" "prefix_form_of t = Some f"
    "pf_scheme fb = pf_scheme f" "pf_authority fb = pf_authority f" "path_within (pf_path fb) (pf_path f)"
    using assms(1) unfolding prefix_admits_iff by blast
  then obtain fc where c: "prefix_form_of c = Some fc" "pf_query fc = None"
    "pf_scheme fc = pf_scheme f" "pf_authority fc = pf_authority f" "path_within (pf_path fc) (pf_path f)"
    using assms(2) unfolding prefix_admits_iff by auto
  show ?thesis using shared_path[OF b(6) c(5)] b c unfolding prefix_admits_iff by auto
qed

lemma decidable_iff: "decidable e \<longleftrightarrow> (\<exists>s. exact_on e s \<or> prefix_on e s)"
proof (cases "opt_string (jget ''resource'' e)")
  case None
  then have "jget ''resource'' e \<noteq> Some (JStr s)" for s using opt_string_Some by (metis option.distinct(1))
  then show ?thesis by (simp add: decidable_def None exact_on_def prefix_on_def)
next
  case (Some s)
  then have g: "jget ''resource'' e = Some (JStr s)" unfolding opt_string_Some .
  have m: "jget ''resource_match'' e = None \<or> jget ''resource_match'' e = Some (JStr ''exact'') \<longleftrightarrow> match_form e = JStr ''exact''"
    using match_form_cases(2)[of e] by blast
  show ?thesis
    unfolding decidable_def Some m match_form_cases(1) exact_on_def prefix_on_def g
    by (simp del: json.inject) (metis json.inject(3) option.inject)
qed

lemma overlap_shared:
  assumes "decidable a" "decidable b"
  shows "overlaps a b \<longleftrightarrow> (\<exists>t. entry_matches_target a t \<and> entry_matches_target b t)"
proof
  have own: "\<exists>t. entry_matches_target e t \<and> (\<forall>f. resource_within e f \<longrightarrow> entry_matches_target f t)" if d: "decidable e" for e
  proof -
    obtain s where "exact_on e s \<or> prefix_on e s" using d unfolding decidable_iff by blast
    then have "entry_matches_target e s" unfolding matches_iff using prefix_on_self by blast
    then show ?thesis using within_sound by blast
  qed
  assume "overlaps a b"
  then have "resource_within a b \<or> resource_within b a" using assms by (simp add: overlaps_def)
  then show "\<exists>t. entry_matches_target a t \<and> entry_matches_target b t" using own[OF assms(1)] own[OF assms(2)] by blast
next
  assume "\<exists>t. entry_matches_target a t \<and> entry_matches_target b t"
  then obtain t where t: "exact_on a t \<or> (\<exists>s. prefix_on a s \<and> prefix_admits s t)"
    "exact_on b t \<or> (\<exists>s. prefix_on b s \<and> prefix_admits s t)"
    unfolding matches_iff by blast
  then have "resource_within a b \<or> resource_within b a"
  proof (elim disjE exE conjE)
    fix s q
    assume "prefix_on a s" "prefix_admits s t" "prefix_on b q" "prefix_admits q t"
    then show ?thesis using shared_prefix[of s t q] unfolding resource_within_iff by blast
  qed (unfold resource_within_iff, blast+)
  then show "overlaps a b" by (simp add: overlaps_def)
qed

section \<open>The overlays of a record\<close>

definition prior_contained :: "mission \<Rightarrow> containment_selector list" where
  "prior_contained r = (case m_containment r of None \<Rightarrow> [] | Some c \<Rightarrow> contained c)"

text \<open>\<open>m'\<close> carries at least the removals and discharges of \<open>m\<close>.\<close>

definition overlay_kept :: "mission \<Rightarrow> mission \<Rightarrow> bool" where
  "overlay_kept m m' = (set (m_discharged m) \<subseteq> set (m_discharged m') \<and>
     (\<forall>e a. removes (prior_contained m) e a \<longrightarrow> removes (prior_contained m') e a))"

lemma overlay_kept_same [simp]:
  "m_containment m' = m_containment m \<Longrightarrow> m_discharged m' = m_discharged m \<Longrightarrow> overlay_kept m m'"
  by (simp add: overlay_kept_def prior_contained_def)

lemma overlay_kept_trans: "overlay_kept a b \<Longrightarrow> overlay_kept b c \<Longrightarrow> overlay_kept a c"
  by (auto simp: overlay_kept_def)

end
