(* ===== verification/Lifecycle_Laws.thy ===== *)
theory Lifecycle_Laws
  imports Lifecycle Containment_Selector
begin

text \<open>
  What the lifecycle operations keep: how a row may change (\<open>row_evolves\<close>), the closure
  of terminations under parenthood, and that a state write with enough fuel succeeds.
  The locales state what a loop over children needs from the state setter it calls;
  \<open>set_state_n\<close> provides both.
\<close>

section \<open>How rows change\<close>

definition row_ok :: "mission \<Rightarrow> bool" where
  "row_ok m = ((m_termination m \<noteq> None) = (m_state m = Terminated) \<and>
     (m_schedule m \<noteq> None \<longrightarrow> m_state m \<noteq> Active) \<and>
     (m_projected_from m \<noteq> None \<longrightarrow> m_state m \<noteq> Active \<and> m_projected_from m = Some Active) \<and>
     (\<forall>s. m_schedule m = Some s \<longrightarrow> generation s \<le> m_version m) \<and>
     (\<forall>t. m_termination m = Some t \<longrightarrow> t_version t = Some (m_version m)))"

definition row_evolves :: "mission \<Rightarrow> mission \<Rightarrow> bool" where
  "row_evolves m m' = (content m' = content m \<and> m_version m \<le> m_version m' \<and>
     (m_state m = Terminated \<longrightarrow> life m' = life m) \<and>
     (m_version m' = m_version m \<longrightarrow> life m' = life m) \<and>
     (row_ok m \<longrightarrow> row_ok m') \<and> overlay_kept m m')"

text \<open>What the tables beside the records keep: fresh event identities, and the seal of
  every terminated Mission.\<close>

definition settles :: "kernel \<Rightarrow> kernel \<Rightarrow> bool" where
  "settles k k' = ((outbox_fresh (k_outbox k) \<longrightarrow> outbox_fresh (k_outbox k')) \<and>
     (clock_ok k \<longrightarrow> mission_keyed k \<longrightarrow> sealed k \<longrightarrow> sealed k'))"

definition evolves :: "kernel \<Rightarrow> kernel \<Rightarrow> bool" where
  "evolves k k' = (list_all2 row_evolves (missions k) (missions k') \<and> clock k' = clock k \<and> settles k k')"

lemma row_evolves_refl [simp, intro]: "row_evolves m m"
  by (simp add: row_evolves_def)

lemma row_evolves_trans: "row_evolves a b \<Longrightarrow> row_evolves b c \<Longrightarrow> row_evolves a c"
  by (auto simp: row_evolves_def life_def intro: overlay_kept_trans)

lemma row_evolves_ids: "row_evolves m m' \<Longrightarrow> m_id m' = m_id m \<and> m_parent m' = m_parent m"
  by (auto simp: row_evolves_def dest: content_fields)

lemma rows_keyed: "list_all2 row_evolves (missions k) (missions k') \<Longrightarrow> mission_keyed k' = mission_keyed k"
  unfolding keyed_def
  by (rule arg_cong[where f = distinct])
    (auto simp: list_all2_conv_all_nth row_evolves_ids intro: nth_equalityI)

lemma evolves_refl [simp, intro]: "evolves k k"
  by (simp add: evolves_def settles_def list_all2_refl)

lemma evolves_trans: "evolves a b \<Longrightarrow> evolves b c \<Longrightarrow> evolves a c"
  unfolding evolves_def settles_def
  using list_all2_trans[of row_evolves row_evolves row_evolves "missions a" "missions b" "missions c"]
    row_evolves_trans rows_keyed[of a b] by (auto simp: clock_ok_def)

lemma update_where_all2:
  "(\<And>m. m \<in> set t \<Longrightarrow> p m \<Longrightarrow> R m (f m)) \<Longrightarrow> (\<And>m. R m m) \<Longrightarrow> list_all2 R t (update_where p f t)"
  by (auto simp: update_where_def list_all2_conv_all_nth)

lemma evolves_update:
  assumes "\<And>m. m \<in> set (missions k) \<Longrightarrow> p m \<Longrightarrow> row_evolves m (f m)"
    and "missions k' = update_where p f (missions k)" "clock k' = clock k" "settles k k'"
  shows "evolves k k'"
  using assms by (simp add: evolves_def update_where_all2)

text \<open>A guarded update of one row followed by its commit settles the tables beside it.\<close>

lemma update_emit_settles:
  assumes "emit_commit fresh (Some st) ch (iso_text (clock k)) x k1 = Inr k'"
    and "k1 = update_missions p f k" "get_mission i k1 = Some fresh"
    and "\<And>m. p m \<Longrightarrow> m_id m = i" "\<And>m. m_id (f m) = m_id m" "\<And>m. m_issuer (f m) = m_issuer m"
  shows "settles k k'"
  unfolding settles_def
proof (intro conjI impI)
  show "outbox_fresh (k_outbox k')" if "outbox_fresh (k_outbox k)"
    using emit_commit_fresh[OF assms(1)] that by (simp add: assms(2) update_missions_def)
  assume ok: "clock_ok k" "mission_keyed k" "sealed k"
  have k1: "missions k1 = update_where p f (missions k)" "clock k1 = clock k" "k_tombstones k1 = k_tombstones k"
    "continuations k1 = continuations k" "delegation_families k1 = delegation_families k"
    by (simp_all add: assms(2) update_missions_def)
  have key1: "mission_keyed k1" using ok(2) k1(1) keyed_update[of m_id f] assms(5) by simp
  have em: "emit_commit fresh (Some st) ch (iso_text (clock k1)) x k1 = Inr k'" using assms(1) k1(2) by simp
  have "sealed_row k' m" if m: "m \<in> set (missions k1)" "m_state m = Terminated" for m
  proof (cases "m_id m = i")
    case True
    then have "m = fresh"
      using keyed_select[OF key1 m(1)] assms(3) by (simp add: get_mission_def)
    then show ?thesis using emit_commit_seals(2)[OF em, of m] m(2) ok(1) k1(2) by (simp add: clock_ok_def)
  next
    case False
    then obtain m0 where m0: "m0 \<in> set (missions k)" "m = m0"
      using m(1) assms(4,5) by (auto simp: k1(1) update_where_def split: if_splits)
    then have "sealed_row k m" using ok(3) m(2) by (auto simp: sealed_def list_all_iff)
    then have "sealed_row k1 m" using sealed_row_cong[of m m k1 k] k1(3-5) by simp
    then show ?thesis using emit_commit_seals(1)[OF em] by blast
  qed
  then show "sealed k'" using emit_commit_frame[OF assms(1)] by (simp add: sealed_def list_all_iff)
qed

lemma evolves_get:
  assumes "evolves k k'" "get_mission mid k = Some m"
  shows "\<exists>m'. get_mission mid k' = Some m' \<and> row_evolves m m'"
proof -
  have "\<exists>m'. select_first (\<lambda>x. m_id x = mid) t' = Some m' \<and> row_evolves m m'"
    if "list_all2 row_evolves t t'" "select_first (\<lambda>x. m_id x = mid) t = Some m" for t t'
    using that
  proof (induction rule: list_all2_induct)
    case Nil
    then show ?case by simp
  next
    case (Cons x xs y ys)
    have "m_id y = m_id x" using Cons(1) by (auto simp: row_evolves_def dest: content_fields)
    then show ?case using Cons by (cases "m_id x = mid") auto
  qed
  then show ?thesis using assms unfolding evolves_def get_mission_def by blast
qed

lemma evolves_back:
  assumes "evolves k k'" "m' \<in> set (missions k')"
  shows "\<exists>m \<in> set (missions k). row_evolves m m'"
  using assms unfolding evolves_def by (metis in_set_conv_nth list_all2_conv_all_nth)

lemma evolves_forward:
  assumes "evolves k k'" "m \<in> set (missions k)"
  shows "\<exists>m' \<in> set (missions k'). row_evolves m m'"
  using assms unfolding evolves_def by (metis in_set_conv_nth list_all2_conv_all_nth)

lemma row_evolves_terminated: "row_evolves m m' \<Longrightarrow> m_state m = Terminated \<Longrightarrow> m_state m' = Terminated"
  by (simp add: row_evolves_def life_def)

lemma evolves_ids: "evolves k k' \<Longrightarrow> map m_id (missions k') = map m_id (missions k)"
  by (auto simp: evolves_def list_all2_conv_all_nth row_evolves_ids intro: nth_equalityI)

lemma evolves_parents:
  "evolves k k' \<Longrightarrow> map (\<lambda>m. (m_id m, m_parent m)) (missions k') = map (\<lambda>m. (m_id m, m_parent m)) (missions k)"
  by (auto simp: evolves_def list_all2_conv_all_nth row_evolves_ids intro: nth_equalityI)

lemma evolves_keyed: "evolves k k' \<Longrightarrow> mission_keyed k' = mission_keyed k"
  by (simp add: keyed_def evolves_ids)

lemma evolves_ok: "evolves k k' \<Longrightarrow> \<forall>m \<in> set (missions k). row_ok m \<Longrightarrow> \<forall>m \<in> set (missions k'). row_ok m"
  using evolves_back by (fastforce simp: row_evolves_def)

section \<open>The writes evolve rows\<close>

definition opts_ok :: "mission_state \<Rightarrow> set_opts \<Rightarrow> bool" where
  "opts_ok to opts = (o_projected_from opts \<noteq> None \<longrightarrow> to = Suspended \<and> o_projected_from opts = Some Active)"

lemma opts_ok_simps [simp]:
  "opts_ok to no_opts" "opts_ok to (no_opts\<lparr>o_termination := t\<rparr>)"
  "opts_ok Suspended (no_opts\<lparr>o_projected_from := Some Active\<rparr>)"
  "opts_ok to (no_opts\<lparr>o_termination := t, o_applied := a\<rparr>)"
  "opts_ok to (no_opts\<lparr>o_termination := t, o_schedule := s\<rparr>)"
  by (simp_all add: opts_ok_def no_opts_def)

lemma write_state_InrD:
  assumes "write_state r to opts k = Inr k'"
  shows "missions k' = update_where (row_is r) (written_row r to opts (iso_text (clock k))) (missions k)"
    "clock k' = clock k" "m_state r \<noteq> Terminated" "to = Terminated \<longrightarrow> o_termination opts \<noteq> None"
    "affected (row_is r) (missions k) = 1"
  using assms
  by (auto simp: write_state_def Let_def update_missions_def split: if_splits option.splits
      dest!: emit_commit_frame)

lemma write_state_settles:
  assumes "write_state r to opts k = Inr k'"
  shows "settles k k'"
proof -
  define k1 where "k1 = update_missions (row_is r) (written_row r to opts (iso_text (clock k))) k"
  have "affected (row_is r) (missions k) = 1" using write_state_InrD(5)[OF assms] .
  then obtain m where "m \<in> set (missions k)" "m_id m = m_id r"
    using filter_empty_conv[of "row_is r" "missions k"] by (force simp: affected_def row_is_def)
  then have "select_first (\<lambda>m. m_id m = m_id r) (missions k) \<noteq> None" by (auto simp: select_first_None)
  then have "get_mission (m_id r) k1 \<noteq> None"
    by (simp add: get_mission_def k1_def update_missions_def select_update_where written_row_def)
  then obtain fresh where f: "get_mission (m_id r) k1 = Some fresh" by blast
  from assms obtain x where "emit_commit fresh (Some (m_state r)) False (iso_text (clock k)) x k1 = Inr k'"
    unfolding write_state_def Let_def k1_def[symmetric] by (auto simp: f split: if_splits)
  from update_emit_settles[OF this k1_def f] show ?thesis
    by (simp add: row_is_def written_row_def)
qed

lemma written_row_evolves:
  assumes "row_is r m" "m_state r \<noteq> Terminated" "to = Terminated \<longrightarrow> o_termination opts \<noteq> None" "opts_ok to opts"
  shows "row_evolves m (written_row r to opts at_text m)"
proof -
  have m: "m_state m \<noteq> Terminated" "m_version m = m_version r" using assms(1,2) by (auto simp: row_is_def)
  have "row_ok (written_row r to opts at_text m)" if "row_ok m"
    using that m assms(3,4)
    by (cases to) (auto simp: written_row_def row_ok_def opts_ok_def new_schedule_def schedule_of_def
        committed_termination_def split: if_splits)
  moreover have "content (written_row r to opts at_text m) = content m" "m_version (written_row r to opts at_text m) = m_version m + 1"
    by (simp_all add: written_row_def)
  moreover have "overlay_kept m (written_row r to opts at_text m)" by (simp add: written_row_def)
  ultimately show ?thesis using m by (simp add: row_evolves_def)
qed

lemma write_state_evolves:
  assumes "write_state r to opts k = Inr k'" "opts_ok to opts"
  shows "evolves k k'"
  using write_state_InrD[OF assms(1)] write_state_settles[OF assms(1)] assms(2)
  by (auto intro: evolves_update written_row_evolves)

lemma each_child_rel:
  assumes "each_child f cs k = Inr k'"
    and "\<And>c k k'. c \<in> set cs \<Longrightarrow> f c k = Inr k' \<Longrightarrow> R k k'" "\<And>k. R k k" "\<And>a b c. R a b \<Longrightarrow> R b c \<Longrightarrow> R a c"
  shows "R k k'"
  using assms by (induction f cs k rule: each_child.induct) (fastforce split: sum.splits)+

section \<open>Terminations close over children\<close>

definition terminated_in :: "kernel \<Rightarrow> string \<Rightarrow> bool" where
  "terminated_in k mid = (\<exists>m \<in> set (missions k). m_id m = mid \<and> m_state m = Terminated)"

definition children_terminated :: "kernel \<Rightarrow> string \<Rightarrow> bool" where
  "children_terminated k mid = (\<forall>c \<in> set (missions k). m_parent c = Some mid \<longrightarrow> m_state c = Terminated)"

definition closes :: "kernel \<Rightarrow> kernel \<Rightarrow> bool" where
  "closes k k' = (evolves k k' \<and>
     (mission_keyed k \<longrightarrow> (\<forall>mid. terminated_in k' mid \<longrightarrow> terminated_in k mid \<or> children_terminated k' mid)))"

lemma terminated_in_mono: "evolves k k' \<Longrightarrow> terminated_in k mid \<Longrightarrow> terminated_in k' mid"
  unfolding terminated_in_def using evolves_forward row_evolves_ids row_evolves_terminated by metis

lemma children_terminated_mono: "evolves k k' \<Longrightarrow> children_terminated k mid \<Longrightarrow> children_terminated k' mid"
  unfolding children_terminated_def using evolves_back row_evolves_ids row_evolves_terminated by metis

lemma closes_refl [simp, intro]: "closes k k"
  by (simp add: closes_def)

lemma closes_trans: "closes a b \<Longrightarrow> closes b c \<Longrightarrow> closes a c"
  unfolding closes_def using evolves_trans children_terminated_mono evolves_keyed by blast

locale lifecycle_setter =
  fixes ss :: state_setter
  assumes ss_closes: "ss r to opts k = Inr (k', m) \<Longrightarrow> opts_ok to opts \<Longrightarrow> closes k k'"
    and ss_terminates: "ss r Terminated opts k = Inr (k', m) \<Longrightarrow> opts_ok Terminated opts \<Longrightarrow> terminated_in k' (m_id r)"
begin

lemma set_child_closes: "set_child ss c to opts k = Inr k' \<Longrightarrow> opts_ok to opts \<Longrightarrow> closes k k'"
  by (auto simp: set_child_def map_sum_def dest: ss_closes split: sum.splits)

lemma set_child_terminates:
  "set_child ss c Terminated opts k = Inr k' \<Longrightarrow> opts_ok Terminated opts \<Longrightarrow> terminated_in k' (m_id c)"
  by (auto simp: set_child_def map_sum_def dest: ss_terminates split: sum.splits)

lemma cascade_child_closes: "cascade_child ss tm n c k = Inr k' \<Longrightarrow> closes k k' \<and> terminated_in k' (m_id c)"
  unfolding cascade_child_def Let_def using set_child_closes set_child_terminates opts_ok_simps(2) by blast

lemma cascade_closes: "cascade_children ss p k = Inr k' \<Longrightarrow> closes k k'"
  unfolding cascade_children_def Let_def
  by (auto split: if_splits option.splits dest: cascade_child_closes
      elim!: each_child_rel[where R = closes] intro: closes_trans)

lemma each_cascade_terminates:
  "each_child (cascade_child ss tm n) cs k = Inr k' \<Longrightarrow> c \<in> set cs \<Longrightarrow> terminated_in k' (m_id c)"
proof (induction cs arbitrary: k)
  case Nil
  then show ?case by simp
next
  case (Cons d cs)
  then obtain k1 where k1: "cascade_child ss tm n d k = Inr k1" "each_child (cascade_child ss tm n) cs k1 = Inr k'"
    by (auto split: sum.splits)
  have "closes k1 k'"
    by (rule each_child_rel[OF k1(2)]) (use cascade_child_closes in blast, blast, rule closes_trans)
  then have "evolves k1 k'" by (simp add: closes_def)
  then show ?case
    using Cons.IH[OF k1(2)] Cons.prems(2) cascade_child_closes[OF k1(1)] terminated_in_mono
    by (cases "c = d") auto
qed

lemma project_closes: "project_suspended_children ss p k = Inr k' \<Longrightarrow> closes k k'"
  unfolding project_suspended_children_def
  by (erule each_child_rel[where R = closes])
    (auto split: if_splits dest: set_child_closes intro: closes_trans)

lemma expiry_closes: "apply_expiry_with ss n r k = (k', res) \<Longrightarrow> closes k k'"
proof (induction n arbitrary: r)
  case 0
  then show ?case by simp
next
  case (Suc n)
  have ok: "closes k k1" if "ss r to (no_opts\<lparr>o_termination := tm\<rparr>) k = Inr (k1, m)" for k1 m to tm
    using ss_closes[OF that] by simp
  have ok2: "closes k k1" if "ss r to (no_opts\<lparr>o_termination := tm, o_applied := ap\<rparr>) k = Inr (k1, m)" for k1 m to tm ap
    using ss_closes[OF that] by simp
  show ?case
    using Suc.prems
    by (auto simp: Let_def split: if_splits option.splits sum.splits dest: ok ok2 Suc.IH)
qed

lemma restore_child_closes: "restore_projected_child ss c k = Inr k' \<Longrightarrow> closes k k'"
  unfolding restore_projected_child_def
  by (auto split: option.splits if_splits prod.splits sum.splits dest!: expiry_closes
      dest: set_child_closes[of _ _ no_opts] intro: closes_trans)

lemma restore_closes: "restore_projected_children ss p k = Inr k' \<Longrightarrow> closes k k'"
  unfolding restore_projected_children_def
  by (erule each_child_rel[where R = closes]) (auto dest: restore_child_closes intro: closes_trans)

lemma propagate_closes: "propagate ss to p k = Inr k' \<Longrightarrow> closes k k'"
  unfolding propagate_def
  by (auto split: mission_state.splits intro: cascade_closes project_closes restore_closes)

lemma cascade_covers:
  assumes "cascade_children ss p k = Inr k'" "mission_keyed k"
    and "get_mission p k = Some pm" "m_state pm = Terminated"
  shows "children_terminated k' p"
  unfolding children_terminated_def
proof (intro ballI impI)
  fix c' assume c': "c' \<in> set (missions k')" "m_parent c' = Some p"
  have cl: "closes k k'" using assms(1) by (rule cascade_closes)
  then have ev: "evolves k k'" by (simp add: closes_def)
  from evolves_back[OF ev c'(1)] obtain c where
    c: "c \<in> set (missions k)" "row_evolves c c'" by blast
  show "m_state c' = Terminated"
  proof (cases "live c")
    case False
    then have "m_state c = Terminated" by (cases "m_state c") (auto simp: live_def)
    then show ?thesis using c(2) row_evolves_terminated by blast
  next
    case True
    have ch: "c \<in> set (filter live (find_children p k))"
      using c True c'(2) row_evolves_ids[OF c(2)] by (simp add: find_children_def select_all_def)
    then have "each_child (cascade_child ss pm (clock k)) (filter live (find_children p k)) k = Inr k'"
      using assms(1,3,4) filter_empty_conv[of live] True
      by (auto simp: cascade_children_def split: if_splits)
    from each_cascade_terminates[OF this ch] have "terminated_in k' (m_id c)" .
    then obtain d where d: "d \<in> set (missions k')" "m_id d = m_id c" "m_state d = Terminated"
      by (auto simp: terminated_in_def)
    then have "d = c'"
      using keyed_unique[of m_id "missions k'" d c'] evolves_keyed[OF ev] assms(2) c'(1) row_evolves_ids[OF c(2)]
      by simp
    then show ?thesis using d by simp
  qed
qed

end

text \<open>One generation of \<open>setState\<close> keeps the contract when its children's setter does.\<close>

lemma write_then_propagate:
  assumes "lifecycle_setter ss" "write_state r to opts k = Inr k1" "propagate ss to (m_id r) k1 = Inr k2" "opts_ok to opts"
  shows "closes k k2" "to = Terminated \<Longrightarrow> terminated_in k2 (m_id r)"
proof -
  have e1: "evolves k k1" using write_state_evolves[OF assms(2,4)] .
  have c2: "closes k1 k2" using lifecycle_setter.propagate_closes[OF assms(1,3)] .
  then have e2: "evolves k1 k2" by (simp add: closes_def)
  note w = write_state_InrD[OF assms(2)]
  have k1: "missions k1 = map (\<lambda>m. if row_is r m then written_row r to opts (iso_text (clock k)) m else m) (missions k)"
    using w(1) by (simp add: update_where_def)
  obtain x where x: "x \<in> set (missions k)" "row_is r x"
    using w(5) filter_empty_conv[of "row_is r" "missions k"] by (force simp: affected_def)
  have wr: "m_state (written_row r to opts t m) = to" "m_id (written_row r to opts t m) = m_id m" for t m
    by (simp_all add: written_row_def)
  have root: "terminated_in k1 (m_id r)" if "to = Terminated"
  proof -
    have "written_row r to opts (iso_text (clock k)) x \<in> set (missions k1)" using x by (force simp: k1)
    then show ?thesis
      unfolding terminated_in_def using x that wr by (intro bexI) (simp_all add: row_is_def)
  qed
  then show "to = Terminated \<Longrightarrow> terminated_in k2 (m_id r)" using terminated_in_mono[OF e2] by blast
  have "terminated_in k mid \<or> children_terminated k2 mid"
    if key: "mission_keyed k" and t: "terminated_in k2 mid" for mid
  proof -
    have key1: "mission_keyed k1" using key evolves_keyed[OF e1] by simp
    from c2 t key1 have "terminated_in k1 mid \<or> children_terminated k2 mid" by (simp add: closes_def)
    moreover have "terminated_in k mid \<or> children_terminated k2 mid" if t1: "terminated_in k1 mid"
    proof -
      obtain m where m: "m \<in> set (missions k)" "mid = m_id m"
        "m_state (if row_is r m then written_row r to opts (iso_text (clock k)) m else m) = Terminated"
      proof -
        obtain m1 where m1: "m1 \<in> set (missions k1)" "m_id m1 = mid" "m_state m1 = Terminated"
          using t1 by (auto simp: terminated_in_def)
        then obtain m where "m \<in> set (missions k)"
          "m1 = (if row_is r m then written_row r to opts (iso_text (clock k)) m else m)"
          unfolding k1 by auto
        then show thesis using m1 that[of m] by (auto simp: wr split: if_splits)
      qed
      show ?thesis
      proof (cases "row_is r m")
        case False
        then show ?thesis using m by (auto simp: terminated_in_def)
      next
        case True
        then have T: "to = Terminated" and mid: "mid = m_id r" using m by (simp_all add: wr row_is_def)
        obtain pm where pm: "get_mission (m_id r) k1 = Some pm" "m_state pm = Terminated"
        proof -
          obtain d where "d \<in> set (missions k1)" "m_id d = m_id r" "m_state d = Terminated"
            using root[OF T] by (auto simp: terminated_in_def)
          with keyed_select[OF key1] that show thesis by (metis get_mission_def)
        qed
        have "cascade_children ss (m_id r) k1 = Inr k2" using assms(3) T by (simp add: propagate_def)
        from lifecycle_setter.cascade_covers[OF assms(1) this key1 pm] show ?thesis by (simp add: mid)
      qed
    qed
    ultimately show ?thesis by blast
  qed
  then show "closes k k2" using evolves_trans[OF e1 e2] by (simp add: closes_def)
qed

lemma set_state_n_setter: "lifecycle_setter (set_state_n n)"
proof (induction n)
  case 0
  show ?case by unfold_locales simp_all
next
  case (Suc n)
  show ?case
  proof
    fix r to opts k k' m
    assume a: "set_state_n (Suc n) r to opts k = Inr (k', m)" "opts_ok to opts"
    then obtain k1 where "write_state r to opts k = Inr k1" "propagate (set_state_n n) to (m_id r) k1 = Inr k'"
      by (auto split: sum.splits)
    then show "closes k k'" using write_then_propagate(1)[OF Suc.IH] a(2) by blast
  next
    fix r opts k k' m
    assume a: "set_state_n (Suc n) r Terminated opts k = Inr (k', m)" "opts_ok Terminated opts"
    then obtain k1 where "write_state r Terminated opts k = Inr k1" "propagate (set_state_n n) Terminated (m_id r) k1 = Inr k'"
      by (auto split: sum.splits)
    then show "terminated_in k' (m_id r)" using write_then_propagate(2)[OF Suc.IH] a(2) by blast
  qed
qed

interpretation setter: lifecycle_setter "set_state_n n" for n
  by (rule set_state_n_setter)

end
