(* ===== verification/Lifecycle_Total.thy ===== *)
theory Lifecycle_Total
  imports Lifecycle_Laws
begin

text \<open>
  A state write on a current row always succeeds, so a cascade, a projection or a
  restoration never aborts: the contract \<open>total_setter\<close> of a setter that succeeds on
  every current row of height below a bound, kept by one more generation and provided
  by \<open>set_state_n\<close>.  The height of a Mission is any measure that falls from parent to
  child; \<open>shape\<close> is the table of identifiers and parents, which no operation changes.
\<close>

type_synonym shape = "(string \<times> string option) list"

definition shape_of :: "kernel \<Rightarrow> shape" where
  "shape_of k = map (\<lambda>m. (m_id m, m_parent m)) (missions k)"

inductive below :: "shape \<Rightarrow> string \<Rightarrow> string \<Rightarrow> bool" for sh where
  self: "below sh a a"
| child: "(b, Some p) \<in> set sh \<Longrightarrow> below sh a p \<Longrightarrow> below sh a b"

definition falls :: "(string \<Rightarrow> nat) \<Rightarrow> shape \<Rightarrow> bool" where
  "falls h sh = (\<forall>(c, p) \<in> set sh. \<forall>q. p = Some q \<longrightarrow> h c < h q)"

definition ready :: "(string \<Rightarrow> nat) \<Rightarrow> shape \<Rightarrow> kernel \<Rightarrow> bool" where
  "ready h sh k = (shape_of k = sh \<and> distinct (map fst sh) \<and> falls h sh \<and>
     outbox_fresh (k_outbox k) \<and> (\<forall>m \<in> set (missions k). row_ok m))"

definition only_below :: "shape \<Rightarrow> string set \<Rightarrow> kernel \<Rightarrow> kernel \<Rightarrow> bool" where
  "only_below sh as k k' =
     (\<forall>m \<in> set (missions k). (\<forall>a \<in> as. \<not> below sh a (m_id m)) \<longrightarrow> m \<in> set (missions k'))"

lemma below_trans: "below sh b c \<Longrightarrow> below sh a b \<Longrightarrow> below sh a c"
  by (induction rule: below.induct) (auto intro: below.child)

lemma below_height: "below sh a b \<Longrightarrow> falls h sh \<Longrightarrow> h b \<le> h a"
  by (induction rule: below.induct) (fastforce simp: falls_def)+

lemma ready_keyed: "ready h sh k \<Longrightarrow> mission_keyed k"
  unfolding ready_def shape_of_def by (auto simp: keyed_def comp_def)

lemma ready_shape_mem: "ready h sh k \<Longrightarrow> m \<in> set (missions k) \<Longrightarrow> (m_id m, m_parent m) \<in> set sh"
  by (auto simp: ready_def shape_of_def)

lemma ready_get: "ready h sh k \<Longrightarrow> m \<in> set (missions k) \<Longrightarrow> get_mission (m_id m) k = Some m"
  using keyed_select[OF ready_keyed] by (simp add: get_mission_def)

lemma ready_evolves:
  assumes "ready h sh k" "evolves k k'" "outbox_fresh (k_outbox k')"
  shows "ready h sh k'"
  using assms evolves_ok[OF assms(2)] evolves_parents[OF assms(2)] by (simp add: ready_def shape_of_def)

lemma only_below_refl [simp, intro]: "only_below sh as k k"
  by (simp add: only_below_def)

lemma only_below_trans: "only_below sh as a b \<Longrightarrow> only_below sh as b c \<Longrightarrow> only_below sh as a c"
  by (auto simp: only_below_def)

lemma only_below_mono: "only_below sh as k k' \<Longrightarrow> (\<And>a. a \<in> as \<Longrightarrow> \<exists>b \<in> bs. below sh b a) \<Longrightarrow> only_below sh bs k k'"
  unfolding only_below_def using below_trans by blast

lemma falls_child: "falls h sh \<Longrightarrow> (c, Some p) \<in> set sh \<Longrightarrow> h c < h p"
  by (auto simp: falls_def)

lemma observe_at_live:
  "m_state (observe_at n k now_ms False r) \<noteq> Terminated \<Longrightarrow> observe_at n k now_ms False r = r"
  by (subst observe_at.simps, subst (asm) observe_at.simps)
    (auto simp: Let_def observe_expiry_def split: option.splits nat.splits if_splits)

lemma observe_terminated:
  assumes "m_state (observe k r) = Terminated" "m_state r \<noteq> Terminated"
  shows "m_termination (observe k r) \<noteq> None"
proof -
  have "m_termination (observe_at n k now_ms False r) \<noteq> None"
    if "m_state (observe_at n k now_ms False r) = Terminated" for n now_ms
    using that assms(2) by (subst observe_at.simps, subst (asm) observe_at.simps)
      (auto simp: Let_def observe_expiry_def split: option.splits nat.splits if_splits)
  then show ?thesis using assms(1) by (simp add: observe_def)
qed

lemma observe_at_terminated: "m_state r = Terminated \<Longrightarrow> observe_at n k now_ms due r = r"
  by (subst observe_at.simps) (simp add: Let_def observe_expiry_def)

lemma observe_live: "m_state (observe k r) \<noteq> Terminated \<Longrightarrow> observe k r = r"
  by (simp add: observe_def observe_at_live)

lemma siblings_apart:
  assumes "distinct (map fst sh)" "falls h sh" "(c, Some p) \<in> set sh" "(d, Some p) \<in> set sh" "c \<noteq> d"
  shows "\<not> below sh c d"
proof
  assume "below sh c d"
  then obtain q where q: "(d, Some q) \<in> set sh" "below sh c q"
    using assms(5) by (cases rule: below.cases) auto
  then have "q = p" using assms(1,4) by (metis eq_key_imp_eq_value option.inject)
  then have "h p \<le> h c" using below_height[OF q(2) assms(2)] by simp
  moreover have "h c < h p" using assms(2,3) by (auto simp: falls_def)
  ultimately show False by simp
qed

section \<open>The write succeeds\<close>

lemma filter_current:
  assumes "mission_keyed k" "r \<in> set (missions k)"
  shows "filter (row_is r) (missions k) = [r]"
proof -
  have "keyed m_id t \<Longrightarrow> r \<in> set t \<Longrightarrow> filter (row_is r) t = [r]" for t
  proof (induction t)
    case Nil
    then show ?case by simp
  next
    case (Cons x t)
    show ?case
    proof (cases "x = r")
      case True
      then have "filter (row_is r) t = []"
        using Cons.prems(1) by (auto simp: filter_empty_conv row_is_def keyed_def image_iff)
      moreover have "row_is r r" by (simp add: row_is_def)
      ultimately show ?thesis using True by simp
    next
      case False
      then have "r \<in> set t" "m_id x \<noteq> m_id r" using Cons.prems by (auto simp: keyed_def)
      then show ?thesis using Cons by (simp add: keyed_def row_is_def)
    qed
  qed
  then show ?thesis using assms by blast
qed

lemma write_state_total:
  assumes "ready h sh k" "r \<in> set (missions k)" "m_state r \<noteq> Terminated" "opts_ok to opts"
    and "to = Terminated \<longrightarrow> o_termination opts \<noteq> None"
  shows "\<exists>k'. write_state r to opts k = Inr k' \<and> ready h sh k' \<and> only_below sh {m_id r} k k' \<and>
    written_row r to opts (iso_text (clock k)) r \<in> set (missions k')"
proof -
  let ?w = "written_row r to opts (iso_text (clock k))"
  define k1 where "k1 = update_missions (row_is r) ?w k"
  have one: "affected (row_is r) (missions k) = 1"
    using filter_current[OF ready_keyed[OF assms(1)] assms(2)] by (simp add: affected_def)
  have of1: "outbox_fresh (k_outbox k1)" using assms(1) by (simp add: k1_def update_missions_def ready_def)
  have "\<exists>fresh. get_mission (m_id r) k1 = Some fresh"
    using ready_get[OF assms(1,2)]
    by (simp add: k1_def update_missions_def get_mission_def select_update_where written_row_def)
  then obtain fresh where fresh: "get_mission (m_id r) k1 = Some fresh" by blast
  let ?x = "\<lparr>x_schedule = (if new_schedule r to opts = None then None
                else map_option schedule_request.truncate (m_schedule fresh)), x_applied = o_applied opts\<rparr>"
  obtain k' where e: "emit_commit fresh (Some (m_state r)) False (iso_text (clock k)) ?x k1 = Inr k'"
    and k': "outbox_fresh (k_outbox k')" "missions k' = missions k1"
    using emit_commit_ok[OF of1, of "Some (m_state r)" fresh False "iso_text (clock k)" ?x] by blast
  have w: "write_state r to opts k = Inr k'"
    using assms(3,5) one fresh e unfolding write_state_def Let_def k1_def[symmetric] by auto
  have "ready h sh k'"
    using ready_evolves[OF assms(1) write_state_evolves[OF w assms(4)] k'(1)] .
  moreover have "only_below sh {m_id r} k k'"
    by (auto simp: only_below_def k'(2) k1_def update_missions_def update_where_def row_is_def image_iff
        intro: below.self)
  moreover have "?w r \<in> set (missions k')"
    using assms(2) by (auto simp: k'(2) k1_def update_missions_def update_where_def row_is_def image_iff intro!: bexI[of _ r])
  ultimately show ?thesis using w by blast
qed

section \<open>Setters that succeed\<close>

definition succeeds :: "(string \<Rightarrow> nat) \<Rightarrow> shape \<Rightarrow> mission \<Rightarrow> mission_state \<Rightarrow> set_opts \<Rightarrow> kernel \<Rightarrow>
    kernel_error + kernel \<times> mission \<Rightarrow> bool" where
  "succeeds h sh r to opts k res = (\<exists>k' m. res = Inr (k', m) \<and> ready h sh k' \<and> only_below sh {m_id r} k k' \<and>
     m \<in> set (missions k') \<and> m = written_row r to opts (iso_text (clock k)) r)"

lemma written_row_simps [simp]:
  "m_id (written_row r to opts tx m) = m_id m" "m_state (written_row r to opts tx m) = to"
  "m_version (written_row r to opts tx m) = m_version m + 1"
  "m_termination (written_row r Terminated opts tx m) =
     map_option (\<lambda>t. committed_termination t tx (m_version r + 1)) (o_termination opts)"
  by (simp_all add: written_row_def)

locale total_setter = lifecycle_setter ss for ss +
  fixes h :: "string \<Rightarrow> nat" and sh :: shape and n :: nat
  assumes total: "h (m_id r) < n \<Longrightarrow> ready h sh k \<Longrightarrow> r \<in> set (missions k) \<Longrightarrow> m_state r \<noteq> Terminated \<Longrightarrow>
      opts_ok to opts \<Longrightarrow> to = Terminated \<longrightarrow> o_termination opts \<noteq> None \<Longrightarrow> succeeds h sh r to opts k (ss r to opts k)"
begin

definition steps_ok :: "kernel \<Rightarrow> string set \<Rightarrow> kernel_error + kernel \<Rightarrow> bool" where
  "steps_ok k as res = (\<exists>k'. res = Inr k' \<and> ready h sh k' \<and> only_below sh as k k')"

lemma set_child_total:
  assumes "h (m_id c) < n" "ready h sh k" "c \<in> set (missions k)" "m_state c \<noteq> Terminated"
    and "opts_ok to opts" "to = Terminated \<longrightarrow> o_termination opts \<noteq> None"
  shows "steps_ok k {m_id c} (set_child ss c to opts k)"
  using total[OF assms] by (auto simp: succeeds_def steps_ok_def set_child_def)

lemma each_child_total:
  assumes "ready h sh k" "set cs \<subseteq> set (missions k)" "distinct cs"
    and "\<And>c d. c \<in> set cs \<Longrightarrow> d \<in> set cs \<Longrightarrow> c \<noteq> d \<Longrightarrow> \<not> below sh (m_id c) (m_id d)"
    and "\<And>c k. c \<in> set cs \<Longrightarrow> ready h sh k \<Longrightarrow> c \<in> set (missions k) \<Longrightarrow> steps_ok k {m_id c} (f c k)"
  shows "steps_ok k (m_id ` set cs) (each_child f cs k)"
  using assms
proof (induction cs arbitrary: k)
  case Nil
  then show ?case by (simp add: steps_ok_def)
next
  case (Cons c cs)
  obtain k1 where k1: "f c k = Inr k1" "ready h sh k1" "only_below sh {m_id c} k k1"
    using Cons.prems(5)[of c k] Cons.prems(1,2) by (auto simp: steps_ok_def)
  have "set cs \<subseteq> set (missions k1)"
  proof
    fix d assume d: "d \<in> set cs"
    then have "\<not> below sh (m_id c) (m_id d)" using Cons.prems(3,4) by auto
    then show "d \<in> set (missions k1)" using k1(3) Cons.prems(2) d by (auto simp: only_below_def)
  qed
  then have "steps_ok k1 (m_id ` set cs) (each_child f cs k1)"
    using Cons.IH[OF k1(2)] Cons.prems(3-5) by simp
  then obtain k2 where k2: "each_child f cs k1 = Inr k2" "ready h sh k2" "only_below sh (m_id ` set cs) k1 k2"
    by (auto simp: steps_ok_def)
  have "only_below sh (m_id ` set (c # cs)) k k2"
    using k1(3) k2(3) by (auto simp: only_below_def)
  then show ?case using k1(1) k2 by (simp add: steps_ok_def)
qed

lemma children_facts:
  assumes "ready h sh k"
  shows "set (find_children p k) \<subseteq> set (missions k)" "distinct (find_children p k)"
    "c \<in> set (find_children p k) \<Longrightarrow> (m_id c, Some p) \<in> set sh \<and> h (m_id c) < h p"
    "c \<in> set (find_children p k) \<Longrightarrow> d \<in> set (find_children p k) \<Longrightarrow> c \<noteq> d \<Longrightarrow> \<not> below sh (m_id c) (m_id d)"
proof -
  have key: "mission_keyed k" using ready_keyed[OF assms] .
  show "set (find_children p k) \<subseteq> set (missions k)" by (auto simp: find_children_def select_all_def)
  show "distinct (find_children p k)"
    using key by (auto simp: find_children_def select_all_def keyed_def distinct_map)
  have mem: "(m_id c, Some p) \<in> set sh" if "c \<in> set (find_children p k)" for c
    using ready_shape_mem[OF assms, of c] that by (auto simp: find_children_def select_all_def)
  show "c \<in> set (find_children p k) \<Longrightarrow> (m_id c, Some p) \<in> set sh \<and> h (m_id c) < h p"
    using mem[of c] falls_child[of h sh] assms by (auto simp: ready_def)
  assume cd: "c \<in> set (find_children p k)" "d \<in> set (find_children p k)" "c \<noteq> d"
  then have "m_id c \<noteq> m_id d"
    using keyed_unique[OF key] by (auto simp: find_children_def select_all_def)
  then show "\<not> below sh (m_id c) (m_id d)"
    using siblings_apart[OF _ _ mem[OF cd(1)] mem[OF cd(2)]] assms by (auto simp: ready_def)
qed

lemma steps_ok_up:
  assumes "steps_ok k (m_id ` set cs) res" "\<And>c. c \<in> set cs \<Longrightarrow> m_id c \<in> bs"
  shows "steps_ok k bs res"
  using assms by (auto simp: steps_ok_def intro: only_below_mono below.self)

lemma children_total:
  assumes "ready h sh k" "h p \<le> n" "set cs \<subseteq> set (find_children p k)" "distinct cs"
    and "\<And>c k. c \<in> set cs \<Longrightarrow> h (m_id c) < n \<Longrightarrow> ready h sh k \<Longrightarrow> c \<in> set (missions k) \<Longrightarrow>
      steps_ok k {m_id c} (f c k)"
  shows "steps_ok k (m_id ` set (find_children p k)) (each_child f cs k)"
proof (rule steps_ok_up[where cs = cs])
  note cf = children_facts[OF assms(1)]
  show "steps_ok k (m_id ` set cs) (each_child f cs k)"
  proof (rule each_child_total[OF assms(1) _ assms(4)])
    show "set cs \<subseteq> set (missions k)" using assms(3) cf(1) by blast
    show "\<not> below sh (m_id c) (m_id d)" if "c \<in> set cs" "d \<in> set cs" "c \<noteq> d" for c d
      using cf(4)[of c p d] that assms(3) by blast
    show "steps_ok k' {m_id c} (f c k')" if "c \<in> set cs" "ready h sh k'" "c \<in> set (missions k')" for c k'
      using assms(2,5) cf(3)[of c p] that assms(3) by fastforce
  qed
  show "m_id c \<in> m_id ` set (find_children p k)" if "c \<in> set cs" for c
    using that assms(3) by blast
qed

lemma cascade_total:
  assumes "ready h sh k" "h p \<le> n"
  shows "steps_ok k (m_id ` set (find_children p k)) (cascade_children ss p k)"
proof -
  have "steps_ok k (m_id ` set (find_children p k)) (each_child (cascade_child ss tm (clock k)) (filter live (find_children p k)) k)" for tm
  proof (rule children_total[OF assms])
    fix c k' assume "c \<in> set (filter live (find_children p k))" "h (m_id c) < n" "ready h sh k'" "c \<in> set (missions k')"
    then show "steps_ok k' {m_id c} (cascade_child ss tm (clock k) c k')"
      unfolding cascade_child_def Let_def
      by (intro set_child_total) (auto simp: live_def no_opts_def opts_ok_def)
  qed (use children_facts[OF assms(1)] in auto)
  moreover have "steps_ok k (m_id ` set (find_children p k)) (Inr k)" using assms(1) by (simp add: steps_ok_def)
  ultimately show ?thesis
    by (auto simp: cascade_children_def Let_def split: option.splits)
qed

lemma project_total:
  assumes "ready h sh k" "h p \<le> n"
  shows "steps_ok k (m_id ` set (find_children p k)) (project_suspended_children ss p k)"
  unfolding project_suspended_children_def
proof (rule children_total[OF assms])
  fix c k' assume c: "h (m_id c) < n" "ready h sh k'" "c \<in> set (missions k')"
  show "steps_ok k' {m_id c} (if m_state c = Active \<and> m_state (observe_expiry c (clock k)) = Active
      then set_child ss c Suspended (no_opts\<lparr>o_projected_from := Some Active\<rparr>) k' else Inr k')"
    using set_child_total[OF c, of Suspended] c(2) by (auto simp: steps_ok_def[of _ _ "Inr k'"])
qed (use children_facts[OF assms(1)] in auto)

lemma apply_expiry_total:
  assumes "h (m_id r) < n" "ready h sh k" "r \<in> set (missions k)" "m_state r \<noteq> Terminated"
  shows "\<exists>k' m. apply_expiry_with ss EXPIRY_RETRIES r k = (k', Inr m) \<and> ready h sh k' \<and>
    only_below sh {m_id r} k k' \<and> m_id m = m_id r \<and>
    m \<in> set (missions k') \<and>
    (m_state m = Terminated \<or> m_state m = Active \<and> m_state r = Suspended \<or> m = r \<and> k' = k)"
proof -
  have n2: "EXPIRY_RETRIES = Suc (Suc 0)" by (simp add: EXPIRY_RETRIES_def)
  have tm: "m_termination r = None" "m_schedule r \<noteq> None \<longrightarrow> m_state r = Suspended"
    using assms(2-4) by (cases "m_state r"; auto simp: ready_def row_ok_def)+
  show ?thesis
  proof (cases "m_state (observe k r) = Terminated")
    case True
    then have "m_termination (observe k r) \<noteq> None"
      using observe_terminated[of k r] assms(4) by simp
    then have "succeeds h sh r Terminated (no_opts\<lparr>o_termination := m_termination (observe k r)\<rparr>) k
        (ss r Terminated (no_opts\<lparr>o_termination := m_termination (observe k r)\<rparr>) k)"
      by (intro total[OF assms]) (simp_all add: no_opts_def opts_ok_def)
    then show ?thesis
      using True assms(4) \<open>m_termination (observe k r) \<noteq> None\<close>
      by (auto simp: n2 succeeds_def Let_def )
  next
    case False
    then have o: "observe k r = r" by (rule observe_live)
    show ?thesis
    proof (cases "due_schedule_transition r (Some (clock k))")
      case None
      then show ?thesis using False o assms(2,3) by (simp add: n2)
    next
      case (Some d)
      obtain to tm' where d: "d = (to, tm')" by (cases d)
      have due: "m_state r = Suspended" "to = Active \<or> to = Terminated \<and> tm' \<noteq> None"
        using Some d by (auto simp: due_schedule_transition_def owed_transition_def
            split: option.splits if_splits on_expiry.splits)
      then have "succeeds h sh r to (no_opts\<lparr>o_termination := tm', o_applied := m_schedule r\<rparr>) k
          (ss r to (no_opts\<lparr>o_termination := tm', o_applied := m_schedule r\<rparr>) k)"
        by (intro total[OF assms]) (auto simp: no_opts_def opts_ok_def)
      then show ?thesis
        using False o Some d due by (auto simp: n2 succeeds_def)
    qed
  qed
qed

lemma restore_child_total:
  assumes "h (m_id c) < n" "ready h sh k" "c \<in> set (missions k)"
  shows "steps_ok k {m_id c} (restore_projected_child ss c k)"
proof -
  have g: "get_mission (m_id c) k = Some c" using ready_get[OF assms(2,3)] .
  show ?thesis
  proof (cases "m_projected_from c \<noteq> None \<and> m_state c = Suspended")
    case False
    then have "restore_projected_child ss c k = Inr k"
      by (auto simp: restore_projected_child_def g split: option.splits)
    then show ?thesis using assms(2) by (simp add: steps_ok_def)
  next
    case True
    then have pf: "m_projected_from c = Some Active"
      using assms(2,3) by (auto simp: ready_def row_ok_def)
    obtain k' m where e: "apply_expiry_with ss EXPIRY_RETRIES c k = (k', Inr m)" "ready h sh k'"
      "only_below sh {m_id c} k k'"
      "m_state m = Terminated \<or> m_state m = Active \<or> m = c \<and> k' = k"
      using apply_expiry_total[OF assms] True by auto
    show ?thesis
    proof (cases "m = c \<and> k' = k")
      case True
      have "steps_ok k {m_id c} (set_child ss c Active no_opts k)"
        using set_child_total[OF assms, of Active no_opts] \<open>m_projected_from c \<noteq> None \<and> m_state c = Suspended\<close>
        by simp
      then show ?thesis using e(1) True \<open>m_projected_from c \<noteq> None \<and> m_state c = Suspended\<close> pf
        by (simp add: restore_projected_child_def g)
    next
      case False
      then have "m_state m \<noteq> Suspended" using e(4) by auto
      then show ?thesis using e(1-3) True pf
        by (simp add: restore_projected_child_def g steps_ok_def)
    qed
  qed
qed

lemma restore_total:
  assumes "ready h sh k" "h p \<le> n"
  shows "steps_ok k (m_id ` set (find_children p k)) (restore_projected_children ss p k)"
  unfolding restore_projected_children_def
  by (rule children_total[OF assms]) (use restore_child_total children_facts[OF assms(1)] in auto)

lemma propagate_total:
  assumes "ready h sh k" "h p \<le> n"
  shows "steps_ok k (m_id ` set (find_children p k)) (propagate ss to p k)"
  using cascade_total[OF assms] project_total[OF assms] restore_total[OF assms]
  by (cases to) (auto simp: propagate_def)

end

lemma set_state_step_total:
  assumes "total_setter (set_state_n n) h sh n" "h (m_id r) < Suc n" "ready h sh k" "r \<in> set (missions k)"
    "m_state r \<noteq> Terminated" "opts_ok to opts" "to = Terminated \<longrightarrow> o_termination opts \<noteq> None"
  shows "succeeds h sh r to opts k (set_state_n (Suc n) r to opts k)"
proof -
  let ?w = "written_row r to opts (iso_text (clock k)) r"
  obtain k1 where k1: "write_state r to opts k = Inr k1" "ready h sh k1" "only_below sh {m_id r} k k1"
      "?w \<in> set (missions k1)"
    using write_state_total[OF assms(3-7)] by blast
  have w: "m_id ?w = m_id r" "m_state ?w = to" "m_version ?w = m_version r + 1"
    by simp_all
  obtain k2 where k2: "propagate (set_state_n n) to (m_id r) k1 = Inr k2" "ready h sh k2"
    and ob: "only_below sh {m_id r} k1 k2" "?w \<in> set (missions k2)"
  proof -
    let ?cs = "find_children (m_id r) k1"
    have hp: "h (m_id r) \<le> n" using assms(2) by simp
    obtain k2 where p: "propagate (set_state_n n) to (m_id r) k1 = Inr k2" "ready h sh k2"
        "only_below sh (m_id ` set ?cs) k1 k2"
      using total_setter.propagate_total[OF assms(1) k1(2) hp]
      by (auto simp: total_setter.steps_ok_def[OF assms(1)])
    have ch: "(m_id c, Some (m_id r)) \<in> set sh" "h (m_id c) < h (m_id r)" if "c \<in> set ?cs" for c
      using total_setter.children_facts(3)[OF assms(1) k1(2) that] by simp_all
    have "only_below sh {m_id r} k1 k2"
      by (rule only_below_mono[OF p(3)]) (auto intro: below.child[OF ch(1)] below.self)
    moreover have "\<not> below sh (m_id c) (m_id r)" if "c \<in> set ?cs" for c
      using below_height[of sh "m_id c" "m_id r" h] ch(2)[OF that] assms(3) by (auto simp: ready_def)
    then have "?w \<in> set (missions k2)" using p(3) k1(4) w(1) by (auto simp: only_below_def)
    ultimately show thesis using that p by blast
  qed
  have "get_mission (m_id r) k2 = Some ?w" using ready_get[OF k2(2) ob(2)] w(1) by simp
  then have "set_state_n (Suc n) r to opts k = Inr (k2, ?w)"
    using k1(1) k2(1) by (simp add: must_get_def)
  then show ?thesis
    using k2(2) ob(2) w only_below_trans[OF k1(3) ob(1)] by (simp add: succeeds_def)
qed

lemma set_state_n_total_setter: "total_setter (set_state_n n) h sh n"
proof (induction n)
  case 0
  show ?case by (intro total_setter.intro set_state_n_setter total_setter_axioms.intro) simp
next
  case (Suc n)
  show ?case
    by (intro total_setter.intro set_state_n_setter total_setter_axioms.intro)
      (rule set_state_step_total[OF Suc.IH])
qed

interpretation total: total_setter "set_state_n n" h sh n for n h sh
  by (rule set_state_n_total_setter)

end
