(* ===== verification/Lifecycle_Steps.thy ===== *)
theory Lifecycle_Steps
  imports Lifecycle_Total
begin

text \<open>
  The kernel's lifecycle operations as one step relation, and what every reachable
  kernel keeps: \<open>sound\<close> (parents precede children, fresh event identities, well-formed
  rows), \<open>closed_down\<close> (no live child under a terminated parent) and \<open>sealed\<close> (every
  terminated Mission has its tombstone and no live lineage).
\<close>

section \<open>Each operation evolves the rows and closes terminations\<close>

lemma closes_quiet:
  assumes "evolves k k'"
    and "\<And>m'. m' \<in> set (missions k') \<Longrightarrow> m_state m' = Terminated \<Longrightarrow> terminated_in k (m_id m')"
  shows "closes k k'"
  using assms by (auto simp: closes_def terminated_in_def)

lemma apply_expiry_closes: "apply_expiry r k = (k', res) \<Longrightarrow> closes k k'"
  by (simp add: apply_expiry_def setter.expiry_closes)

lemma materialize_closes: "materialize_expiry mid k = Inr (k', m) \<Longrightarrow> closes k k'"
  by (auto simp: materialize_expiry_def split: sum.splits prod.splits intro: apply_expiry_closes)

lemma set_state_closes: "set_state r to opts k = Inr (k', m) \<Longrightarrow> opts_ok to opts \<Longrightarrow> closes k k'"
  by (simp add: set_state_def setter.ss_closes)

lemma find_affected:
  assumes "affected p (missions k) = 1" "\<And>m. p m \<Longrightarrow> m_id m = i" "\<And>m. m_id (f m) = m_id m"
  shows "\<exists>fresh. get_mission i (update_missions p f k) = Some fresh"
proof -
  obtain m where "m \<in> set (missions k)" "p m"
    using assms(1) filter_empty_conv[of p "missions k"] by (force simp: affected_def)
  then have "select_first (\<lambda>m. m_id m = i) (missions k) \<noteq> None" using assms(2) by (auto simp: select_first_None)
  then show ?thesis by (auto simp: get_mission_def update_missions_def select_update_where assms(3))
qed

lemma replace_schedule_closes:
  assumes "replace_schedule r s k = Inr (k', m)"
  shows "closes k k'"
proof -
  let ?here = "\<lambda>m. m_id m = m_id r \<and> m_version m = m_version r \<and> m_state m = Suspended"
  let ?f = "\<lambda>m. m\<lparr>m_schedule := Some (schedule_of s (m_version r + 1)), m_version := m_version m + 1\<rparr>"
  obtain fresh x where g: "get_mission (m_id r) (update_missions ?here ?f k) = Some fresh"
    and e: "emit_commit fresh (Some Suspended) False (iso_text (clock k)) x (update_missions ?here ?f k) = Inr k'"
    using assms by (auto simp: replace_schedule_def Let_def must_get_def split: if_splits sum.splits option.splits)
  have m: "missions k' = update_where ?here ?f (missions k)" "clock k' = clock k"
    using emit_commit_frame[OF e] by (simp_all add: update_missions_def)
  have "settles k k'" using update_emit_settles[OF e refl g] by simp
  moreover have "row_evolves m (?f m)" if "?here m" for m
    using that by (simp add: row_evolves_def row_ok_def schedule_of_def)
  ultimately have "evolves k k'" using evolves_update[OF _ m] by blast
  then show ?thesis
    by (rule closes_quiet) (auto simp: m update_where_def terminated_in_def split: if_splits)
qed

lemma commit_or_closes:
  "(\<And>k1 x. r = Inr (k1, x) \<Longrightarrow> closes k k1) \<Longrightarrow> commit_or k r = (k', res) \<Longrightarrow> closes k k'"
  by (auto simp: commit_or_def split: sum.splits)

lemma transition_closes:
  assumes "transition mid op v s k = (k', res)"
  shows "closes k k'"
proof (cases "s \<noteq> None \<and> op \<noteq> Suspend \<or> get_mission mid k = None")
  case True
  then have "k' = k" using assms by (auto simp: transition_def must_get_def split: option.splits if_splits)
  then show ?thesis by simp
next
  case False
  then obtain stored where g: "get_mission mid k = Some stored" by auto
  obtain k1 r1 where ae: "apply_expiry stored k = (k1, r1)" by (cases "apply_expiry stored k")
  have c1: "closes k k1" using apply_expiry_closes[OF ae] .
  have "closes k1 k'"
  proof (cases r1)
    case (Inl e)
    then have "k' = k1" using assms False g ae by (auto simp: transition_def must_get_def)
    then show ?thesis by simp
  next
    case (Inr r)
    let ?opts = "no_opts\<lparr>o_termination := map_option bare_termination (rule_reason (LEGAL_TRANSITIONS op)), o_schedule := s\<rparr>"
    have rs: "closes k1 k'" if "commit_or k1 (replace_schedule r s' k1) = (k', res)" for s'
      using that by (rule commit_or_closes[rotated]) (rule replace_schedule_closes)
    have ss: "closes k1 k'" if "commit_or k1 (set_state r (rule_to (LEGAL_TRANSITIONS op)) ?opts k1) = (k', res)"
      using that by (rule commit_or_closes[rotated]) (erule set_state_closes, simp)
    show ?thesis
      using assms False g ae Inr
      by (auto simp: transition_def must_get_def Let_def split: if_splits option.splits intro: rs ss)
  qed
  then show ?thesis using c1 closes_trans by blast
qed

lemma fire_closes: "fire_schedule mid gen k = Inr (k', o1, m) \<Longrightarrow> closes k k'"
  by (auto simp: fire_schedule_def Let_def split: option.splits if_splits prod.splits sum.splits
      intro: apply_expiry_closes)

text \<open>A raw termination of one row, as supersession and carryover write it.\<close>

lemma raw_termination:
  assumes "emit_commit fresh (Some st) False (iso_text (clock k)) x (update_missions p f k) = Inr k'"
    and "f = (\<lambda>m. m\<lparr>m_state := Terminated, m_termination := Some tm, m_version := m_version m + 1\<rparr>)"
    and "p = (\<lambda>m. m_id m = i \<and> m_version m = v \<and> m_state m = s)" "s \<noteq> Terminated"
    and "t_version tm = Some (v + 1)" "get_mission i (update_missions p f k) = Some fresh"
  shows "evolves k k'" "missions k' = update_where p f (missions k)"
proof -
  have m: "missions k' = update_where p f (missions k)" "clock k' = clock k"
    using emit_commit_frame[OF assms(1)] by (simp_all add: update_missions_def)
  have "settles k k'" using update_emit_settles[OF assms(1) refl assms(6)] by (simp add: assms(2,3))
  moreover have "row_evolves m (f m)" if "p m" for m
    using that assms(2-5) by (auto simp: row_evolves_def row_ok_def)
  ultimately show "evolves k k'" using evolves_update[OF _ m] by blast
  show "missions k' = update_where p f (missions k)" by (rule m)
qed

lemma terminate_then_cascade:
  assumes "evolves k k1" "cascade_children (set_state_n n) i k1 = Inr k2"
    and "\<And>m. m \<in> set (missions k1) \<Longrightarrow> m_state m = Terminated \<Longrightarrow> m_id m = i \<or> terminated_in k (m_id m)"
    and "terminated_in k1 i"
  shows "closes k k2"
proof -
  have c: "closes k1 k2" using setter.cascade_closes[OF assms(2)] .
  have "terminated_in k mid \<or> children_terminated k2 mid" if key: "mission_keyed k" and t: "terminated_in k2 mid" for mid
  proof -
    have key1: "mission_keyed k1" using key evolves_keyed[OF assms(1)] by simp
    show ?thesis
    proof (cases "terminated_in k1 mid")
      case False
      then show ?thesis using c t key1 by (auto simp: closes_def)
    next
      case True
      then obtain m where m: "m \<in> set (missions k1)" "m_id m = mid" "m_state m = Terminated"
        by (auto simp: terminated_in_def)
      show ?thesis
      proof (cases "mid = i")
        case True
        then have "get_mission i k1 = Some m" using keyed_select[OF key1 m(1)] m(2) by (simp add: get_mission_def)
        from setter.cascade_covers[OF assms(2) key1 this m(3)] show ?thesis using True by simp
      next
        case False
        then show ?thesis using assms(3)[OF m(1,3)] m(2) by auto
      qed
    qed
  qed
  then show ?thesis using evolves_trans[OF assms(1)] c by (auto simp: closes_def)
qed

lemma supersede_closes:
  assumes "supersede s at_text k = Inr (k', res)"
  shows "closes k k'"
proof (cases "k' = k")
  case False
  obtain pid pred where pred: "get_mission pid k = Some pred" "m_state pred = Active"
    and p0: "Option.bind (get_mission s k) (\<lambda>m. non_empty (m_predecessor m)) = Some pid"
    using assms False by (auto simp: supersede_def split: option.splits if_splits)
  define tm where "tm = (bare_termination ''superseded'')
    \<lparr>t_terminated_at := Some (case at_text of Some x \<Rightarrow> x | None \<Rightarrow> iso_text (clock k)),
     t_successor := Some s, t_version := Some (m_version pred + 1)\<rparr>"
  define here :: "mission \<Rightarrow> bool" where "here = (\<lambda>m. m_id m = m_id pred \<and> m_version m = m_version pred \<and> m_state m = Active)"
  define f :: "mission \<Rightarrow> mission" where "f = (\<lambda>m. m\<lparr>m_state := Terminated, m_termination := Some tm, m_version := m_version m + 1\<rparr>)"
  note su = assms[unfolded supersede_def p0 option.case pred Let_def, folded tm_def, folded here_def f_def]
  have one: "affected here (missions k) = 1" using su False by (auto split: if_splits)
  then obtain fresh where g: "get_mission (m_id pred) (update_missions here f k) = Some fresh"
    using find_affected[OF one, of "m_id pred" f] by (auto simp: here_def f_def)
  obtain k2 where e: "emit_commit fresh (Some Active) False (iso_text (clock k)) no_extra (update_missions here f k) = Inr k2"
    and c: "cascade_children (set_state_n (fuel_for k2)) (m_id pred) k2 = Inr k'"
    using su False one g by (auto split: if_splits sum.splits)
  note raw = raw_termination[OF e f_def here_def _ _ g]
  have tv: "t_version tm = Some (m_version pred + 1)" by (simp add: tm_def)
  have k2: "evolves k k2" "missions k2 = update_where here f (missions k)" using raw tv by simp_all
  obtain m where m: "m \<in> set (missions k)" "here m"
    using one filter_empty_conv[of here "missions k"] by (force simp: affected_def)
  show ?thesis
  proof (rule terminate_then_cascade[OF k2(1) c])
    show "terminated_in k2 (m_id pred)"
      unfolding terminated_in_def k2(2) update_where_def
      using m by (intro bexI[of _ "f m"]) (auto simp: f_def here_def image_iff intro!: bexI[of _ m])
  qed (auto simp: k2(2) update_where_def terminated_in_def f_def here_def split: if_splits)
qed simp

lemma carry_terminal_cases:
  assumes "carry_terminal r ct cc k = Inr (k', res)"
  shows "evolves k k'" "m_state r = Terminated \<Longrightarrow> k' = k" "m_state r \<noteq> Terminated \<Longrightarrow> terminated_in k' (m_id r)"
    "terminated_in k' mid \<Longrightarrow> terminated_in k mid \<or> mid = m_id r"
    "m \<in> set (missions k) \<Longrightarrow> m_id m \<noteq> m_id r \<Longrightarrow> m \<in> set (missions k')"
proof -
  define tm where "tm = carried_termination r ct cc (clock k)"
  define f :: "mission \<Rightarrow> mission" where "f = (\<lambda>m. m\<lparr>m_state := Terminated, m_termination := Some tm, m_version := m_version m + 1\<rparr>)"
  note cu = assms[unfolded carry_terminal_def Let_def, folded tm_def, folded f_def]
  have all: "evolves k k' \<and> (m_state r \<noteq> Terminated \<longrightarrow> terminated_in k' (m_id r)) \<and>
      (terminated_in k' mid \<longrightarrow> terminated_in k mid \<or> mid = m_id r) \<and>
      (m \<in> set (missions k) \<longrightarrow> m_id m \<noteq> m_id r \<longrightarrow> m \<in> set (missions k'))"
  proof (cases "m_state r = Terminated")
    case True
    then show ?thesis using cu by simp
  next
    case False
    have one: "affected (row_is r) (missions k) = 1" using cu False by (auto split: if_splits)
    then obtain fresh where g: "get_mission (m_id r) (update_missions (row_is r) f k) = Some fresh"
      using find_affected[OF one, of "m_id r" f] by (auto simp: row_is_def f_def)
    have e: "emit_commit fresh (Some (m_state r)) False (iso_text (clock k)) no_extra (update_missions (row_is r) f k) = Inr k'"
      using cu False one g by (auto split: if_splits sum.splits)
    have rd: "row_is r = (\<lambda>m. m_id m = m_id r \<and> m_version m = m_version r \<and> m_state m = m_state r)"
      by (simp add: row_is_def fun_eq_iff)
    have tv: "t_version tm = Some (m_version r + 1)" by (simp add: tm_def carried_termination_def Let_def)
    note k2 = raw_termination[OF e f_def rd False tv g]
    obtain x where x: "x \<in> set (missions k)" "row_is r x"
      using one filter_empty_conv[of "row_is r" "missions k"] by (force simp: affected_def)
    have "terminated_in k' (m_id r)"
      unfolding terminated_in_def k2(2) update_where_def
      using x by (intro bexI[of _ "f x"]) (auto simp: f_def row_is_def image_iff intro!: bexI[of _ x])
    moreover have "terminated_in k' mid \<longrightarrow> terminated_in k mid \<or> mid = m_id r"
      by (auto simp: k2(2) update_where_def terminated_in_def f_def row_is_def split: if_splits)
    moreover have "m \<in> set (missions k) \<longrightarrow> m_id m \<noteq> m_id r \<longrightarrow> m \<in> set (missions k')"
      by (auto simp: k2(2) update_where_def row_is_def image_iff)
    ultimately show ?thesis using k2(1) by blast
  qed
  then show "evolves k k'" "m_state r \<noteq> Terminated \<Longrightarrow> terminated_in k' (m_id r)"
    "terminated_in k' mid \<Longrightarrow> terminated_in k mid \<or> mid = m_id r"
    "m \<in> set (missions k) \<Longrightarrow> m_id m \<noteq> m_id r \<Longrightarrow> m \<in> set (missions k')" by blast+
  show "m_state r = Terminated \<Longrightarrow> k' = k" using cu by simp
qed

lemma carry_each_facts:
  assumes "carry_each ct cc ds k = Inr (k', rows)"
  shows "evolves k k' \<and> (\<forall>d \<in> set ds. terminated_in k' (m_id d)) \<and>
    (\<forall>mid. terminated_in k' mid \<longrightarrow> terminated_in k mid \<or> mid \<in> m_id ` set ds) \<and>
    (\<forall>m \<in> set (missions k). m_id m \<notin> m_id ` set ds \<longrightarrow> m \<in> set (missions k')) \<and>
    map co_old_child rows = map m_id ds"
  using assms
proof (induction ds arbitrary: k rows)
  case Nil
  then show ?case by simp
next
  case (Cons d ds)
  obtain fresh k1 t rows' where g: "get_mission (m_id d) k = Some fresh"
    and c: "carry_terminal fresh (ct (m_id d)) cc k = Inr (k1, t)"
    and r: "carry_each ct cc ds k1 = Inr (k', rows')" and rows: "map co_old_child rows = m_id d # map co_old_child rows'"
    using Cons.prems by (auto simp: must_get_def Let_def split: option.splits sum.splits)
  have fresh: "fresh \<in> set (missions k)" "m_id fresh = m_id d"
    using g by (auto simp: get_mission_def dest: select_first_SomeD)
  note ct = carry_terminal_cases[OF c]
  have t1: "terminated_in k1 (m_id d)"
    using ct(2,3) fresh by (cases "m_state fresh = Terminated") (auto simp: terminated_in_def)
  note ih = Cons.IH[OF r]
  have "terminated_in k' (m_id d)" using terminated_in_mono[OF _ t1] ih by blast
  moreover have "evolves k k'" using evolves_trans[OF ct(1)] ih by blast
  moreover have "terminated_in k mid \<or> mid \<in> m_id ` set (d # ds)" if "terminated_in k' mid" for mid
    using ih that ct(4)[of mid] fresh(2) by auto
  moreover have "m \<in> set (missions k')" if "m \<in> set (missions k)" "m_id m \<notin> m_id ` set (d # ds)" for m
    using ih ct(5)[of m] that fresh(2) by auto
  ultimately show ?case using ih rows by simp
qed

text \<open>Carrying a Mission writes no tombstone but its own.\<close>

lemma emit_commit_tombstone:
  assumes "emit_commit r prior ch tx x k = Inr k'" "cid \<noteq> m_id r"
  shows "find_tombstone jp iss cid (k_tombstones k') = find_tombstone jp iss cid (k_tombstones k)"
proof -
  have t: "find_tombstone jp iss cid (record_tombstone ret i ts) = find_tombstone jp iss cid ts"
    if "ti_mission_id i = m_id r" for ret i ts
    unfolding find_tombstone_def record_tombstone_select
    using that assms(2) by (auto simp: tombstone_of_def tb_key_def split: option.split)
  show ?thesis using assms(1) by (rule emit_commit_cases) (simp add: end_lineages_def t)
qed

lemma carry_terminal_tombstone:
  assumes "carry_terminal r ct cc k = Inr (k', t)" "cid \<noteq> m_id r"
  shows "find_tombstone jp iss cid (k_tombstones k') = find_tombstone jp iss cid (k_tombstones k)"
proof -
  have u: "k_tombstones (update_missions p f k) = k_tombstones k" for p f by (simp add: update_missions_def)
  have step: "find_tombstone jp iss cid (k_tombstones k1) = find_tombstone jp iss cid (k_tombstones k)"
    if "get_mission (m_id r) (update_missions p f k) = Some fresh"
      "emit_commit fresh st ch tx x (update_missions p f k) = Inr k1" for p f fresh st ch tx x k1
  proof -
    have "m_id fresh = m_id r" using that(1) by (auto simp: get_mission_def dest: select_first_SomeD)
    then show ?thesis using emit_commit_tombstone[OF that(2)] assms(2) u by simp
  qed
  then show ?thesis
    using assms(1) step[OF sym] by (auto simp: carry_terminal_def Let_def u split: if_splits option.splits sum.splits)
qed

lemma carry_each_tombstone:
  "carry_each ct cc ds k = Inr (k', rows) \<Longrightarrow> cid \<notin> m_id ` set ds \<Longrightarrow>
   find_tombstone jp iss cid (k_tombstones k') = find_tombstone jp iss cid (k_tombstones k)"
proof (induction ds arbitrary: k rows)
  case Nil
  then show ?case by simp
next
  case (Cons d ds)
  obtain fresh k1 t rows' where g: "get_mission (m_id d) k = Some fresh"
    and c: "carry_terminal fresh (ct (m_id d)) cc k = Inr (k1, t)"
    and r: "carry_each ct cc ds k1 = Inr (k', rows')"
    using Cons.prems by (auto simp: must_get_def Let_def split: option.splits sum.splits)
  have "m_id fresh = m_id d" using g by (auto simp: get_mission_def dest: select_first_SomeD)
  then show ?case using Cons.IH[OF r] Cons.prems(2) carry_terminal_tombstone[OF c, of cid jp iss] by simp
qed

section \<open>Grants and bindings\<close>

lemma quiet_update:
  assumes "k' = (update_missions p f k)\<lparr>bound_grants := g\<rparr>" "\<And>m. content (f m) = content m" "\<And>m. life (f m) = life m"
    and "\<And>m. overlay_kept m (f m)"
  shows "closes k k'"
proof -
  have f: "m_id (f m) = m_id m" "m_issuer (f m) = m_issuer m" "m_state (f m) = m_state m" for m
    using assms(2,3)[of m] by (auto simp: life_def dest: content_fields)
  have k': "missions k' = update_where p f (missions k)" "clock k' = clock k" "k_outbox k' = k_outbox k"
    "k_tombstones k' = k_tombstones k" "continuations k' = continuations k"
    "delegation_families k' = delegation_families k"
    by (simp_all add: assms(1) update_missions_def)
  have same: "sealed_row k' m = sealed_row k m" for m using k' by (intro sealed_row_cong) simp_all
  have "sealed_row k (f m) = sealed_row k m" for m by (intro sealed_row_cong) (simp_all add: f)
  then have "sealed k \<Longrightarrow> sealed k'"
    using f same by (auto simp: sealed_def list_all_iff k'(1) update_where_def)
  then have "settles k k'" by (simp add: settles_def k')
  moreover have "row_evolves m (f m)" for m
    using assms(2-4)[of m] by (auto simp: row_evolves_def life_def row_ok_def)
  ultimately have "evolves k k'" using evolves_update[OF _ k'(1,2)] by blast
  then show ?thesis
    by (rule closes_quiet) (auto simp: k'(1) update_where_def terminated_in_def f split: if_splits)
qed

lemma bind_grant_closes: "bind_grant mid g k = Inr k' \<Longrightarrow> closes k k'"
  unfolding bind_grant_def Let_def
  by (auto split: if_splits intro!: quiet_update simp: life_def)

lemma bind_first_grant_closes: "bind_first_grant mid g k = Inr (k', b) \<Longrightarrow> closes k k'"
  unfolding bind_first_grant_def Let_def
  by (auto split: if_splits option.splits intro!: quiet_update simp: life_def)

section \<open>Generations\<close>

fun parents_first :: "string list \<Rightarrow> shape \<Rightarrow> bool" where
  "parents_first seen [] = True"
| "parents_first seen ((c, p) # t) =
     (c \<notin> set seen \<and> (case p of None \<Rightarrow> True | Some q \<Rightarrow> q \<in> set seen) \<and> parents_first (c # seen) t)"

definition height :: "shape \<Rightarrow> string \<Rightarrow> nat" where
  "height sh c = length (dropWhile (\<lambda>x. fst x \<noteq> c) sh)"

lemma height_Cons: "height ((c, p) # t) x = (if x = c then Suc (length t) else height t x)"
  by (simp add: height_def)

lemma height_le: "height sh c \<le> length sh"
  by (simp add: height_def length_dropWhile_le)

lemma parents_first_facts:
  "parents_first seen t \<Longrightarrow> distinct (map fst t) \<and> set (map fst t) \<inter> set seen = {} \<and>
     (\<forall>(c, p) \<in> set t. \<forall>q. p = Some q \<longrightarrow> q \<in> set seen \<or> height t c < height t q)"
proof (induction seen t rule: parents_first.induct)
  case (1 seen)
  then show ?case by simp
next
  case (2 seen c p t)
  have ih: "distinct (map fst t)" "set (map fst t) \<inter> set (c # seen) = {}"
    "\<And>d q. (d, Some q) \<in> set t \<Longrightarrow> q \<in> set (c # seen) \<or> height t d < height t q"
    using 2 by auto
  have "q \<in> set seen \<or> height ((c, p) # t) d < height ((c, p) # t) q" if "(d, Some q) \<in> set ((c, p) # t)" for d q
  proof (cases "(d, Some q) = (c, p)")
    case True
    then show ?thesis using 2(2) by auto
  next
    case False
    then have d: "(d, Some q) \<in> set t" using that by fastforce
    then have "d \<noteq> c" using ih(2) by force
    then show ?thesis using ih(3)[OF d] height_le[of t d] by (auto simp: height_Cons)
  qed
  then show ?case using 2(2) ih(1,2) by auto
qed

lemma parents_first_falls: "parents_first [] sh \<Longrightarrow> distinct (map fst sh) \<and> falls (height sh) sh"
  using parents_first_facts[of "[]" sh] by (auto simp: falls_def)

lemma parents_first_append:
  "parents_first seen (t @ [(c, p)]) =
     (parents_first seen t \<and> c \<notin> set seen \<union> set (map fst t) \<and>
      (case p of None \<Rightarrow> True | Some q \<Rightarrow> q \<in> set seen \<union> set (map fst t)))"
  by (induction seen t rule: parents_first.induct) (auto split: option.splits)

definition sound :: "kernel \<Rightarrow> bool" where
  "sound k = (parents_first [] (shape_of k) \<and> outbox_fresh (k_outbox k) \<and> clock_ok k \<and>
     list_all row_ok (missions k))"

definition closed_down :: "kernel \<Rightarrow> bool" where
  "closed_down k = list_all (\<lambda>m. m_state m = Terminated \<longrightarrow> children_terminated k (m_id m)) (missions k)"

definition kernel_ok :: "kernel \<Rightarrow> bool" where
  "kernel_ok k = (sound k \<and> closed_down k \<and> sealed k)"

lemma sound_ready: "sound k \<Longrightarrow> ready (height (shape_of k)) (shape_of k) k"
  using parents_first_falls[of "shape_of k"] by (simp add: sound_def ready_def list_all_iff)

lemma sound_keyed: "sound k \<Longrightarrow> mission_keyed k"
  using ready_keyed sound_ready by blast

lemma height_fuel: "height (shape_of k) c < fuel_for k"
  using height_le[of "shape_of k" c] by (simp add: fuel_for_def shape_of_def)

lemma evolves_sound: "evolves k k' \<Longrightarrow> sound k \<Longrightarrow> sound k'"
  using evolves_ok[of k k'] evolves_parents[of k k']
  by (auto simp: sound_def evolves_def settles_def clock_ok_def shape_of_def list_all_iff)

lemma closes_ok:
  assumes "closes k k'" "kernel_ok k"
  shows "kernel_ok k'"
proof -
  have e: "evolves k k'" using assms(1) by (simp add: closes_def)
  have key: "mission_keyed k" using assms(2) sound_keyed by (simp add: kernel_ok_def)
  have "sealed k'" using e assms(2) key by (auto simp: evolves_def settles_def kernel_ok_def sound_def)
  moreover have "children_terminated k' (m_id m)" if "m \<in> set (missions k')" "m_state m = Terminated" for m
  proof -
    have "terminated_in k' (m_id m)" using that by (auto simp: terminated_in_def)
    then consider "terminated_in k (m_id m)" | "children_terminated k' (m_id m)"
      using assms(1) key by (auto simp: closes_def)
    then show ?thesis
    proof cases
      case 1
      then have "children_terminated k (m_id m)"
        using assms(2) by (auto simp: kernel_ok_def closed_down_def terminated_in_def list_all_iff)
      then show ?thesis using children_terminated_mono[OF e] by blast
    qed
  qed
  ultimately show ?thesis
    using evolves_sound[OF e] assms(2) by (simp add: kernel_ok_def closed_down_def list_all_iff)
qed

section \<open>Creation\<close>

definition root_record :: "mission \<Rightarrow> bool" where
  "root_record r = (m_state r = Active \<and> m_version r = 1 \<and> m_projected_from r = None \<and> m_parent r = None)"

text \<open>A new row under no parent or under a parent that is not terminated.\<close>

definition placed :: "mission \<Rightarrow> kernel \<Rightarrow> bool" where
  "placed r k = (case m_parent r of None \<Rightarrow> True
     | Some p \<Rightarrow> p \<in> set (map m_id (missions k)) \<and> \<not> terminated_in k p)"

definition stored_as :: "mission \<Rightarrow> mission" where
  "stored_as r = r\<lparr>m_termination := None, m_schedule := None, m_containment := None, m_discharged := []\<rparr>"

lemma insert_record_InrD:
  assumes "insert_record iss q pre comps r k = Inr k'"
  shows "m_id r \<notin> set (map m_id (missions k))" "missions k' = missions k @ [stored_as r]" "clock k' = clock k"
    "m_state r = Active \<Longrightarrow> outbox_fresh (k_outbox k) \<Longrightarrow> outbox_fresh (k_outbox k')"
    "m_state r = Active \<Longrightarrow> m_id m \<noteq> m_id r \<Longrightarrow> sealed_row k m \<Longrightarrow> sealed_row k' m"
proof -
  let ?k1 = "k\<lparr>missions := missions k @ [stored_as r]\<rparr>"
  show new: "m_id r \<notin> set (map m_id (missions k))"
    using assms by (auto simp: insert_record_def split: if_splits option.splits)
  have "get_mission (m_id r) ?k1 = Some (stored_as r)"
    using new by (auto simp: get_mission_def select_first_append stored_as_def select_first_None image_iff
        split: option.splits dest!: select_first_SomeD)
  then have e: "emit_commit (stored_as r) None False (iso_text (clock k)) no_extra ?k1 = Inr k'"
    using assms by (auto simp: insert_record_def Let_def stored_as_def split: if_splits option.splits)
  show "missions k' = missions k @ [stored_as r]" "clock k' = clock k"
    using emit_commit_frame[OF e] by simp_all
  show "m_state r = Active \<Longrightarrow> outbox_fresh (k_outbox k) \<Longrightarrow> outbox_fresh (k_outbox k')"
    using emit_commit_fresh[OF e] by simp
  assume a: "m_state r = Active" "m_id m \<noteq> m_id r" "sealed_row k m"
  obtain ob c cs where k': "k' = ?k1\<lparr>k_outbox := ob, continuations := cs\<rparr>"
    and cs: "cs = continuations k \<or> is_activating_commit c \<and>
       root_grant (clock k) (m_id r) (c_issuer c) (the (c_client_id c)) (the (c_created_at c)) (continuations k) = Some cs"
    using e by (rule emit_commit_cases) (use a(1) in \<open>auto simp: stored_as_def\<close>)
  obtain as hs where g: "anchors cs = anchors (continuations k) @ as" "handles cs = handles (continuations k) @ hs"
    "\<forall>a \<in> set as. a_mission_id a = m_id r" "\<forall>h \<in> set hs. h_mission_id h = m_id r"
  proof (cases "cs = continuations k")
    case True
    then show thesis using that[of "[]" "[]"] by simp
  next
    case False
    then show thesis using cs root_grant_rows that by blast
  qed
  then show "sealed_row k' m"
    using a(2,3) by (auto simp: sealed_row_def k' list_all_iff)
qed

lemma insert_ok:
  assumes "insert_record iss q pre comps r k = Inr k'" "kernel_ok k" "placed r k"
    and "m_state r = Active" "m_version r = 1" "m_projected_from r = None"
  shows "kernel_ok k'"
proof -
  note ins = insert_record_InrD[OF assms(1)]
  have s: "sound k" "closed_down k" "sealed k" using assms(2) by (simp_all add: kernel_ok_def)
  have st: "m_state (stored_as r) = Active" "m_id (stored_as r) = m_id r" "m_parent (stored_as r) = m_parent r"
    using assms(4) by (simp_all add: stored_as_def)
  have "shape_of k' = shape_of k @ [(m_id r, m_parent r)]" by (simp add: shape_of_def ins(2) st)
  moreover have "set (map fst (shape_of k)) = set (map m_id (missions k))" by (force simp: shape_of_def)
  ultimately have "parents_first [] (shape_of k')"
    using s(1) ins(1) assms(3) by (auto simp: sound_def parents_first_append placed_def split: option.splits)
  moreover have "row_ok (stored_as r)" using assms(4-6) by (simp add: row_ok_def stored_as_def)
  ultimately have "sound k'"
    using s(1) ins(3,4) assms(4) by (simp add: sound_def clock_ok_def ins(2))
  moreover have "closed_down k'"
  proof -
    have "children_terminated k' (m_id m)" if "m \<in> set (missions k)" "m_state m = Terminated" for m
    proof -
      have "children_terminated k (m_id m)" using s(2) that by (simp add: closed_down_def list_all_iff)
      moreover have "m_parent r \<noteq> Some (m_id m)"
        using assms(3) that by (auto simp: placed_def terminated_in_def split: option.splits)
      ultimately show ?thesis by (simp add: children_terminated_def ins(2) st)
    qed
    then show ?thesis by (auto simp: closed_down_def list_all_iff ins(2) st)
  qed
  moreover have "sealed k'"
  proof -
    have "sealed_row k' m" if "m \<in> set (missions k)" "m_state m = Terminated" for m
    proof (rule ins(5)[OF assms(4)])
      show "m_id m \<noteq> m_id r" using ins(1) that(1) by (metis image_eqI set_map)
      show "sealed_row k m" using s(3) that by (simp add: sealed_def list_all_iff)
    qed
    then show ?thesis by (auto simp: sealed_def list_all_iff ins(2) st)
  qed
  ultimately show ?thesis by (simp add: kernel_ok_def)
qed

lemma apply_expiry_current:
  assumes "kernel_ok k" "r \<in> set (missions k)" "apply_expiry r k = (k', Inr m)"
  shows "m_id m = m_id r" "m \<in> set (missions k')"
proof -
  have s: "ready (height (shape_of k)) (shape_of k) k" using assms(1) sound_ready by (simp add: kernel_ok_def)
  have "m_id m = m_id r \<and> m \<in> set (missions k')"
  proof (cases "m_state r = Terminated")
    case False
    from total.apply_expiry_total[OF height_fuel s assms(2) False] assms(3)
    show ?thesis by (auto simp: apply_expiry_def)
  next
    case True
    then have "observe k r = r" by (simp add: observe_def observe_at_terminated)
    then have "m = r \<and> k' = k" using assms(3) True by (simp add: apply_expiry_def EXPIRY_RETRIES_def numeral_2_eq_2)
    then show ?thesis using assms(2) by simp
  qed
  then show "m_id m = m_id r" "m \<in> set (missions k')" by auto
qed

lemma create_child_ok:
  assumes "create_child iss q refusal comps p c k = (k', res)" "kernel_ok k"
  shows "kernel_ok k'"
proof (cases "get_mission p k")
  case None
  then show ?thesis using assms by (simp add: create_child_def must_get_def)
next
  case (Some stored)
  then have st: "stored \<in> set (missions k)" "m_id stored = p"
    by (auto simp: get_mission_def dest: select_first_SomeD)
  obtain k1 r1 where ae: "apply_expiry stored k = (k1, r1)" by (cases "apply_expiry stored k")
  have ok1: "kernel_ok k1" using closes_ok[OF apply_expiry_closes[OF ae] assms(2)] .
  let ?r = "c\<lparr>m_parent := Some (m_id stored), m_state := Active, m_version := 1, m_derivation_count := 0,
      m_grant_id := None, m_projected_from := None\<rparr>"
  show ?thesis
  proof (cases "\<exists>parent k2. r1 = Inr parent \<and> m_state parent = Active \<and>
      insert_record iss q (refusal stored k1) comps ?r k1 = Inr k2")
    case False
    then have "k' = k1"
      using assms(1) Some ae
      by (auto simp: create_child_def must_get_def Let_def split: sum.splits if_splits)
    then show ?thesis using ok1 by simp
  next
    case True
    then obtain parent where par: "r1 = Inr parent" "m_state parent = Active"
      and ins: "insert_record iss q (refusal stored k1) comps ?r k1 = Inr k'"
      using assms(1) Some ae by (elim exE conjE) (simp add: create_child_def must_get_def Let_def)
    have cur: "parent \<in> set (missions k1)" "m_id parent = p"
      using apply_expiry_current[OF assms(2) st(1), of k1 parent] ae par st(2) by simp_all
    have "d = parent" if "d \<in> set (missions k1)" "m_id d = p" for d
      using keyed_unique[of m_id, OF _ that(1) cur(1)] sound_keyed[of k1] ok1 that(2) cur(2) by (simp add: kernel_ok_def)
    then have "\<not> terminated_in k1 p" using par(2) by (fastforce simp: terminated_in_def)
    then have "placed ?r k1" using cur st(2) by (auto simp: placed_def)
    then show ?thesis using insert_ok[OF ins ok1] by simp
  qed
qed

end
