(* ===== verification/Lifecycle_Reach.thy ===== *)
theory Lifecycle_Reach
  imports Lifecycle_Steps
begin

text \<open>
  The whole subtree of a Mission, its carried termination, the kernel's step relation
  over the lifecycle operations, and the properties of every reachable kernel.
\<close>

section \<open>The subtree\<close>

lemma take_new_ids: "set seen \<union> m_id ` set (take_new seen cs) = set seen \<union> m_id ` set cs"
proof -
  have "set seen \<union> m_id ` set (fold (\<lambda>c acc. if m_id c \<in> set seen \<or> m_id c \<in> set (map m_id acc) then acc else acc @ [c]) cs acc)
      = set seen \<union> m_id ` set acc \<union> m_id ` set cs" for acc
  proof (induction cs arbitrary: acc)
    case Nil
    then show ?case by simp
  next
    case (Cons a cs)
    let ?acc = "if m_id a \<in> set seen \<or> m_id a \<in> set (map m_id acc) then acc else acc @ [a]"
    have "set seen \<union> m_id ` set ?acc = set seen \<union> m_id ` set acc \<union> {m_id a}" by auto
    then show ?case using Cons.IH[of ?acc] by auto
  qed
  from this[of "[]"] show ?thesis by (simp add: take_new_def)
qed

definition covered :: "kernel \<Rightarrow> string set \<Rightarrow> string set \<Rightarrow> bool" where
  "covered k ps known = (\<forall>c \<in> set (missions k). \<forall>p. m_parent c = Some p \<longrightarrow> p \<in> ps \<longrightarrow> m_id c \<in> known)"

lemma generation_ids: "m_id ` set (generation_of p k) = m_id ` {c \<in> set (missions k). m_parent c = Some p}"
  by (simp add: generation_of_def find_children_def select_all_def)

lemma descend_facts:
  assumes "covered k (set seen - set frontier) (set seen)" "set frontier \<subseteq> set seen"
    and "set seen = insert rt (m_id ` set acc)" "set acc \<subseteq> set (missions k)"
    and "\<And>x. x \<in> set seen \<Longrightarrow> below (shape_of k) rt x" "rt \<notin> m_id ` set acc"
  shows "covered k (insert rt (m_id ` set (descend k seen frontier acc)))
      (insert rt (m_id ` set (descend k seen frontier acc))) \<and>
    set (descend k seen frontier acc) \<subseteq> set (missions k) \<and>
    (\<forall>d \<in> set (descend k seen frontier acc). below (shape_of k) rt (m_id d)) \<and>
    rt \<notin> m_id ` set (descend k seen frontier acc)"
  using assms
proof (induction k seen frontier acc rule: descend.induct)
  case (1 k seen frontier acc)
  define found where "found = take_new seen (concat (map (\<lambda>mid. generation_of mid k) frontier))"
  have cov: "covered k (set frontier) (set seen \<union> m_id ` set found)"
    unfolding found_def take_new_ids covered_def
    by (auto simp: generation_of_def find_children_def select_all_def image_iff)
  show ?case
  proof (cases "found = []")
    case True
    then have "covered k (set seen) (set seen)"
      using cov 1(2,3) by (auto simp: covered_def)
    moreover have "descend k seen frontier acc = acc"
      using True by (subst descend.simps) (simp add: found_def Let_def)
    ultimately show ?thesis using 1(4-7) by simp
  next
    case False
    have eq: "descend k seen frontier acc = descend k (seen @ map m_id found) (map m_id found) (acc @ found)"
      using False by (subst descend.simps) (simp add: found_def Let_def)
    have fd: "c \<in> set (missions k)" "\<exists>p \<in> set frontier. m_parent c = Some p" if "c \<in> set found" for c
      using take_new_found[OF that[unfolded found_def]]
      by (auto simp: generation_of_def find_children_def select_all_def)
    have b: "below (shape_of k) rt (m_id c)" if cf: "c \<in> set found" for c
    proof -
      obtain p where p: "p \<in> set frontier" "m_parent c = Some p" using fd(2)[OF cf] by blast
      have "(m_id c, Some p) \<in> set (shape_of k)"
        using fd(1)[OF cf] p(2) by (force simp: shape_of_def)
      then show ?thesis using 1(6)[of p] 1(3) p(1) by (auto intro: below.child)
    qed
    show ?thesis unfolding eq
    proof (rule 1(1)[OF found_def False])
      show "covered k (set (seen @ map m_id found) - set (map m_id found)) (set (seen @ map m_id found))"
        using cov 1(2) by (auto simp: covered_def)
      show "below (shape_of k) rt x" if "x \<in> set (seen @ map m_id found)" for x
        using that b 1(6) by auto
      show "set (acc @ found) \<subseteq> set (missions k)" using 1(5) fd(1) by auto
      have "rt \<in> set seen" using 1(4) by simp
      then show "rt \<notin> m_id ` set (acc @ found)"
        using 1(7) take_new_found[of _ seen] by (auto simp: found_def)
    qed (use 1(4) in auto)
  qed
qed

lemma descendants_facts:
  "covered k (insert rt (m_id ` set (descendants_of rt k))) (insert rt (m_id ` set (descendants_of rt k)))"
  "set (descendants_of rt k) \<subseteq> set (missions k)"
  "d \<in> set (descendants_of rt k) \<Longrightarrow> below (shape_of k) rt (m_id d)"
  "rt \<notin> m_id ` set (descendants_of rt k)"
proof -
  have "covered k (set [rt] - set [rt]) (set [rt])" by (simp add: covered_def)
  note f = descend_facts[OF this, of rt "[]"] below.self[of "shape_of k" rt]
  show "covered k (insert rt (m_id ` set (descendants_of rt k))) (insert rt (m_id ` set (descendants_of rt k)))"
    "set (descendants_of rt k) \<subseteq> set (missions k)"
    "d \<in> set (descendants_of rt k) \<Longrightarrow> below (shape_of k) rt (m_id d)"
    "rt \<notin> m_id ` set (descendants_of rt k)"
    using f by (simp_all add: descendants_of_def)
qed

lemma descendants_complete:
  "below (shape_of k) rt x \<Longrightarrow> x \<in> insert rt (m_id ` set (descendants_of rt k))"
proof (induction rule: below.induct)
  case (self a)
  then show ?case by simp
next
  case (child b p a)
  obtain c where "c \<in> set (missions k)" "m_id c = b" "m_parent c = Some p"
    using child(1) by (auto simp: shape_of_def)
  then show ?case using descendants_facts(1)[of k a] child(3) unfolding covered_def by blast
qed

lemma take_new_distinct: "distinct (map m_id (take_new seen cs))"
proof -
  have "distinct (map m_id acc) \<Longrightarrow> distinct (map m_id
      (fold (\<lambda>c acc. if m_id c \<in> set seen \<or> m_id c \<in> set (map m_id acc) then acc else acc @ [c]) cs acc))" for acc
  proof (induction cs arbitrary: acc)
    case Nil
    then show ?case by simp
  next
    case (Cons a cs)
    let ?acc = "if m_id a \<in> set seen \<or> m_id a \<in> set (map m_id acc) then acc else acc @ [a]"
    have "distinct (map m_id ?acc)" using Cons.prems by auto
    then show ?case using Cons.IH[of ?acc] by simp
  qed
  from this[of "[]"] show ?thesis by (simp add: take_new_def)
qed

lemma descend_distinct:
  "distinct (map m_id acc) \<Longrightarrow> set (map m_id acc) \<subseteq> set seen \<Longrightarrow> distinct (map m_id (descend k seen frontier acc))"
proof (induction k seen frontier acc rule: descend.induct)
  case (1 k seen frontier acc)
  define found where "found = take_new seen (concat (map (\<lambda>mid. generation_of mid k) frontier))"
  show ?case
  proof (cases "found = []")
    case True
    then show ?thesis using 1(2) by (subst descend.simps) (simp add: found_def Let_def)
  next
    case False
    have eq: "descend k seen frontier acc = descend k (seen @ map m_id found) (map m_id found) (acc @ found)"
      using False by (subst descend.simps) (simp add: found_def Let_def)
    have "set (map m_id acc) \<inter> set (map m_id found) = {}"
      using 1(3) take_new_found[of _ seen] by (force simp: found_def)
    then have "distinct (map m_id (acc @ found))"
      using 1(2) take_new_distinct[of seen] by (simp add: found_def)
    then show ?thesis unfolding eq using 1(1)[OF found_def False] 1(3) by auto
  qed
qed

lemma descendants_distinct: "distinct (map m_id (descendants_of rt k))"
  by (simp add: descendants_of_def descend_distinct)

text \<open>No Mission is below itself, so the root is not its own descendant.\<close>

lemma root_not_child:
  assumes "sound k" "c \<in> set (missions k)" "m_parent c = Some p" "below (shape_of k) rt p"
  shows "m_id c \<noteq> rt"
proof
  assume "m_id c = rt"
  then have "(rt, Some p) \<in> set (shape_of k)" using assms(2,3) by (force simp: shape_of_def)
  moreover have f: "falls (height (shape_of k)) (shape_of k)"
    using sound_ready[OF assms(1)] by (simp add: ready_def)
  ultimately have "height (shape_of k) rt < height (shape_of k) p" by (rule falls_child[rotated])
  then show False using below_height[OF assms(4) f] by simp
qed

section \<open>The carried termination\<close>

lemma raw_update_total:
  assumes "sound k" "affected p (missions k) = 1" "\<And>m. p m \<Longrightarrow> m_id m = i" "\<And>m. m_id (f m) = m_id m"
  shows "\<exists>fresh k'. get_mission i (update_missions p f k) = Some fresh \<and>
    emit_commit fresh (Some st) False (iso_text (clock k)) x (update_missions p f k) = Inr k'"
proof -
  obtain fresh where g: "get_mission i (update_missions p f k) = Some fresh"
    using find_affected[OF assms(2-4)] by blast
  have "outbox_fresh (k_outbox (update_missions p f k))"
    using assms(1) by (simp add: sound_def update_missions_def)
  from emit_commit_ok[OF this, of "Some st" fresh False "iso_text (clock k)" x] g show ?thesis by auto
qed

lemma carry_terminal_total:
  assumes "sound k" "r \<in> set (missions k)"
  shows "\<exists>k' res. carry_terminal r ct cc k = Inr (k', res)"
proof (cases "m_state r = Terminated")
  case True
  then show ?thesis by (simp add: carry_terminal_def)
next
  case False
  have one: "affected (row_is r) (missions k) = 1"
    using filter_current[OF sound_keyed[OF assms(1)] assms(2)] by (simp add: affected_def)
  let ?f = "\<lambda>m. m\<lparr>m_state := Terminated, m_termination := Some (carried_termination r ct cc (clock k)), m_version := m_version m + 1\<rparr>"
  obtain fresh k' where "get_mission (m_id r) (update_missions (row_is r) ?f k) = Some fresh"
    "emit_commit fresh (Some (m_state r)) False (iso_text (clock k)) no_extra (update_missions (row_is r) ?f k) = Inr k'"
    using raw_update_total[OF assms(1) one, of "m_id r" ?f "m_state r" no_extra] by (fastforce simp: row_is_def)
  then show ?thesis using False one by (simp add: carry_terminal_def Let_def)
qed

lemma carry_each_total:
  assumes "sound k" "\<And>d. d \<in> set ds \<Longrightarrow> m_id d \<in> set (map m_id (missions k))"
  shows "\<exists>k' rows. carry_each ct cc ds k = Inr (k', rows)"
  using assms
proof (induction ds arbitrary: k)
  case Nil
  then show ?case by simp
next
  case (Cons d ds)
  obtain fresh where g: "get_mission (m_id d) k = Some fresh"
    using Cons.prems(2)[of d] keyed_select[OF sound_keyed[OF Cons.prems(1)]] by (auto simp: get_mission_def)
  then have "fresh \<in> set (missions k)" by (auto simp: get_mission_def dest: select_first_SomeD)
  then obtain k1 res where c: "carry_terminal fresh (ct (m_id d)) cc k = Inr (k1, res)"
    using carry_terminal_total[OF Cons.prems(1)] by blast
  have e: "evolves k k1" using carry_terminal_cases(1)[OF c] .
  have "\<exists>k' rows. carry_each ct cc ds k1 = Inr (k', rows)"
    using Cons.IH[OF evolves_sound[OF e Cons.prems(1)]] Cons.prems(2) by (simp only: evolves_ids[OF e]) auto
  then show ?case using g c by (auto simp: must_get_def Let_def)
qed

lemma terminated_in_row:
  assumes "mission_keyed k" "terminated_in k (m_id m)" "m \<in> set (missions k)"
  shows "m_state m = Terminated"
  using assms keyed_unique[OF assms(1)] by (auto simp: terminated_in_def)

lemma below_descendant:
  assumes "sound k" "m \<in> set (missions k)" "below (shape_of k) rt (m_id m)" "m_id m \<noteq> rt"
  shows "m_id m \<in> m_id ` set (descendants_of rt k)"
  using descendants_complete[OF assms(3)] assms(4) by simp

text \<open>The rendered rows no descendant answers for, and what keeps the outcome of one.\<close>

definition unreached :: "string \<Rightarrow> kernel \<Rightarrow> (string \<times> string) list \<Rightarrow> (string \<times> string) list" where
  "unreached rt k rendered = filter (\<lambda>e. snd e \<notin> m_id ` set (descendants_of rt k)) rendered"

definition retained :: "(string \<Rightarrow> json option) \<Rightarrow> kernel \<Rightarrow> string \<times> string \<Rightarrow> bool" where
  "retained jp k e = (\<exists>v. find_tombstone jp (fst e) (snd e) (k_tombstones k) = Some v \<and>
     \<not> tv_detail_pruned v \<and> tv_terminal_state v \<noteq> None \<and> tv_termination v \<noteq> None)"

definition recorded_end :: "(string \<Rightarrow> json option) \<Rightarrow> kernel \<Rightarrow> string \<times> string \<Rightarrow> carry_outcome \<Rightarrow> bool" where
  "recorded_end jp k e r = (co_old_child r = snd e \<and> co_replacement r = None \<and>
     (\<exists>v. find_tombstone jp (fst e) (snd e) (k_tombstones k) = Some v \<and>
        tv_terminal_state v = Some (co_state r) \<and> tv_termination v = co_termination r))"

lemma gone_row_exact:
  "if retained jp k e then \<exists>r. gone_row jp k e = Inr r \<and> recorded_end jp k e r
   else gone_row jp k e = Inl (SubtreeChanged (snd e))"
  by (auto simp: gone_row_def retained_def recorded_end_def split: option.split)

lemma gone_rows_exact:
  "case filter (\<lambda>e. \<not> retained jp k e) (filter (\<lambda>e. snd e \<notin> set recorded) rendered) of
     e # _ \<Rightarrow> gone_rows jp k recorded rendered = Inl (SubtreeChanged (snd e))
   | [] \<Rightarrow> \<exists>gone. gone_rows jp k recorded rendered = Inr gone \<and>
       list_all2 (recorded_end jp k) (filter (\<lambda>e. snd e \<notin> set recorded) rendered) gone"
proof (induction rendered)
  case Nil
  then show ?case by simp
next
  case (Cons e es)
  have g: "if retained jp k e then \<exists>r. gone_row jp k e = Inr r \<and> recorded_end jp k e r
    else gone_row jp k e = Inl (SubtreeChanged (snd e))" by (rule gone_row_exact)
  show ?case
  proof (cases "snd e \<in> set recorded")
    case True
    then show ?thesis using Cons.IH by (auto split: list.splits)
  next
    case new: False
    show ?thesis
    proof (cases "retained jp k e")
      case False
      then show ?thesis using new g by simp
    next
      case True
      then obtain r where r: "gone_row jp k e = Inr r" "recorded_end jp k e r" using g by auto
      show ?thesis using Cons.IH new True r by (auto split: list.splits)
    qed
  qed
qed

lemma carry_subtree_facts:
  assumes "sound k"
  shows "\<exists>k' rows. carry_subtree jp rt rendered ct k =
      (case filter (\<lambda>e. \<not> retained jp k e) (unreached rt k rendered) of
         e # _ \<Rightarrow> Inl (SubtreeChanged (snd e)) | [] \<Rightarrow> Inr (k', rows)) \<and> closes k k' \<and>
    (filter (\<lambda>e. \<not> retained jp k e) (unreached rt k rendered) = [] \<longrightarrow>
      (\<exists>carried gone. rows = carried @ gone \<and> map co_old_child carried = map m_id (descendants_of rt k) \<and>
        list_all2 (recorded_end jp k) (unreached rt k rendered) gone)) \<and>
    (\<forall>m \<in> set (missions k'). below (shape_of k) rt (m_id m) \<longrightarrow> m_id m \<noteq> rt \<longrightarrow> m_state m = Terminated) \<and>
    (\<forall>m \<in> set (missions k). m_id m = rt \<or> \<not> below (shape_of k) rt (m_id m) \<longrightarrow> m \<in> set (missions k'))"
proof -
  let ?ds = "descendants_of rt k"
  let ?cc = "\<lparr>cc_terminated_at = iso_text (clock k), cc_origin = rt, cc_origin_reason = ''superseded''\<rparr>"
  have ids: "m_id d \<in> set (map m_id (missions k))" if "d \<in> set ?ds" for d
    using that descendants_facts(2)[of rt k] by auto
  obtain k' rows where ce: "carry_each ct ?cc ?ds k = Inr (k', rows)"
    using carry_each_total[OF assms ids] by blast
  note f = carry_each_facts[OF ce]
  have e: "evolves k k'" using f by blast
  have s': "sound k'" using evolves_sound[OF e assms] .
  have sh: "shape_of k' = shape_of k" using evolves_parents[OF e] by (simp add: shape_of_def)
  have ended: "m_state m = Terminated" if "m \<in> set (missions k')" "below (shape_of k) rt (m_id m)" "m_id m \<noteq> rt" for m
  proof (rule terminated_in_row[OF sound_keyed[OF s'] _ that(1)])
    have "m_id m \<in> m_id ` set ?ds" using descendants_complete[OF that(2)] that(3) by simp
    then show "terminated_in k' (m_id m)" using f by auto
  qed
  have "closes k k'"
    unfolding closes_def
  proof (intro conjI impI allI e)
    fix mid assume t: "terminated_in k' mid"
    show "terminated_in k mid \<or> children_terminated k' mid"
    proof (cases "terminated_in k mid")
      case False
      then have b: "below (shape_of k) rt mid" using f t descendants_facts(3)[of _ rt k] by auto
      have "m_state c = Terminated" if c: "c \<in> set (missions k')" "m_parent c = Some mid" for c
      proof (rule ended[OF c(1)])
        have "(m_id c, Some mid) \<in> set (shape_of k')" using c by (force simp: shape_of_def)
        then have "(m_id c, Some mid) \<in> set (shape_of k)" by (simp only: sh)
        then show "below (shape_of k) rt (m_id c)" using b by (rule below.child)
        show "m_id c \<noteq> rt" using root_not_child[OF s' c] b sh by simp
      qed
      then show ?thesis by (simp add: children_terminated_def)
    qed simp
  qed
  moreover have "m \<in> set (missions k')"
    if "m \<in> set (missions k)" "m_id m = rt \<or> \<not> below (shape_of k) rt (m_id m)" for m
  proof -
    have "m_id m \<notin> m_id ` set ?ds"
      using that(2) descendants_facts(3)[of _ rt k] descendants_facts(4)[of rt k] by auto
    then show ?thesis using f that(1) by blast
  qed
  moreover have "List.find (\<lambda>d. m_state d \<noteq> Terminated) (descendants_of rt k') = None"
    using ended descendants_facts(2)[of rt k'] descendants_facts(3)[of _ rt k'] descendants_facts(4)[of rt k'] sh
    by (auto simp: find_None_iff)
  then have c: "carry_subtree jp rt rendered ct k =
      (case gone_rows jp k' (map m_id ?ds) rendered of Inl e \<Rightarrow> Inl e | Inr gone \<Rightarrow> Inr (k', rows @ gone))"
    using ce f by (simp add: carry_subtree_def Let_def split: sum.split)
  have u: "filter (\<lambda>e. snd e \<notin> set (map m_id ?ds)) rendered = unreached rt k rendered"
    by (simp add: unreached_def)
  have t: "find_tombstone jp (fst e) (snd e) (k_tombstones k') = find_tombstone jp (fst e) (snd e) (k_tombstones k)"
    if "e \<in> set (unreached rt k rendered)" for e
    using carry_each_tombstone[OF ce] that by (simp add: unreached_def)
  have l: "filter (\<lambda>e. \<not> retained jp k' e) (unreached rt k rendered) = filter (\<lambda>e. \<not> retained jp k e) (unreached rt k rendered)"
    by (rule filter_cong) (simp_all add: retained_def t)
  have m: "list_all2 (recorded_end jp k') (unreached rt k rendered) gone \<Longrightarrow>
      list_all2 (recorded_end jp k) (unreached rt k rendered) gone" for gone
  proof -
    assume h: "list_all2 (recorded_end jp k') (unreached rt k rendered) gone"
    have "recorded_end jp k e r" if "(e, r) \<in> set (zip (unreached rt k rendered) gone)" for e r
    proof -
      have "recorded_end jp k' e r" using h that by (auto simp: list_all2_iff)
      then show ?thesis using t[OF set_zip_leftD[OF that]] by (simp add: recorded_end_def)
    qed
    then show ?thesis using h by (auto simp: list_all2_iff)
  qed
  note g = gone_rows_exact[of jp k' "map m_id ?ds" rendered, unfolded u l]
  have mp: "map co_old_child rows = map m_id ?ds" using f by blast
  show ?thesis
  proof (cases "filter (\<lambda>e. \<not> retained jp k e) (unreached rt k rendered)")
    case Nil
    then obtain gone where gone: "gone_rows jp k' (map m_id ?ds) rendered = Inr gone"
      "list_all2 (recorded_end jp k') (unreached rt k rendered) gone" using g by auto
    have "\<exists>carried gone'. rows @ gone = carried @ gone' \<and> map co_old_child carried = map m_id ?ds \<and>
        list_all2 (recorded_end jp k) (unreached rt k rendered) gone'"
      using m[OF gone(2)] mp by blast
    then show ?thesis
      using calculation ended Nil c gone(1)
      by (intro exI[of _ k'] exI[of _ "rows @ gone"]) simp
  next
    case (Cons e es)
    then have "gone_rows jp k' (map m_id ?ds) rendered = Inl (SubtreeChanged (snd e))" using g by simp
    then show ?thesis using calculation ended Cons c by (intro exI[of _ k'] exI[of _ rows]) simp
  qed
qed

end
