(* ===== verification/Containment.thy ===== *)
theory Containment
  imports Containment_Selector Lifecycle
begin

text \<open>
  Mission Containment in \<^verbatim>\<open>services/authorization-server/src/kernel/kernel.ts\<close>: the
  effective authority of a record under its containment and discharge overlays, the
  \<open>contain\<close> transition, its policy-driven form and its propagation to children.

  \<open>digest\<close> is the hash of the canonical text, a library function.  \<open>contain\<close> commits in
  its own transaction and then narrows the children one by one, so what a child's
  failure leaves behind stays committed: it answers \<open>kernel \<times> (kernel_error + 'a)\<close>.
  The nesting is one unit of fuel per generation, as for the state write.
\<close>

section \<open>Effective authority\<close>

definition compute_anchor :: "(string \<Rightarrow> string) \<Rightarrow> string \<Rightarrow> string \<Rightarrow> json \<Rightarrow> string" where
  "compute_anchor digest typ iss v =
     ''sha-256:'' @ digest (canonicalize (JObj [(''typ'', JStr typ), (''iss'', JStr iss), (''value'', v)]))"

definition entry_digest :: "(string \<Rightarrow> string) \<Rightarrow> string \<Rightarrow> json \<Rightarrow> string" where
  "entry_digest digest iss e = compute_anchor digest ''mission-authority-entry'' iss e"

definition contained_entry :: "containment_removal option \<Rightarrow> json \<Rightarrow> json option" where
  "contained_entry removal e =
     (case removal of
        None \<Rightarrow> Some e
      | Some Whole \<Rightarrow> None
      | Some (Removed rs) \<Rightarrow>
          let as = filter (\<lambda>a. a \<notin> JStr ` set rs) (actions_of e)
          in if as = [] then None
             else if length as = length (actions_of e) then Some e
             else Some (with_actions as e))"

definition effective_entry :: "(string \<Rightarrow> string) \<Rightarrow> mission \<Rightarrow> json \<Rightarrow> json option" where
  "effective_entry digest r e =
     (if entry_digest digest (m_issuer r) e \<in> set (m_discharged r) then None
      else case m_containment r of
        None \<Rightarrow> Some e
      | Some c \<Rightarrow> contained_entry (containment_removal_for e (contained c)) e)"

definition effective_entries_with_origin :: "(string \<Rightarrow> string) \<Rightarrow> mission \<Rightarrow> (json \<times> json) list" where
  "effective_entries_with_origin digest r =
     List.map_filter (\<lambda>e. map_option (\<lambda>x. (e, x)) (effective_entry digest r e)) (m_authority_set r)"

definition effective_authority_set :: "(string \<Rightarrow> string) \<Rightarrow> mission \<Rightarrow> json list" where
  "effective_authority_set digest r =
     (if m_containment r = None \<and> m_discharged r = [] then m_authority_set r
      else map snd (effective_entries_with_origin digest r))"

section \<open>The transition\<close>

record protected_event =
  pe_type :: string
  pe_source :: string
  pe_observed_at :: string
  pe_event_id :: string

record contain_request =
  cr_event :: protected_event
  cr_remove :: "containment_selector list"
  cr_policy :: "string option"
  cr_expected :: "int option"

record containment_evidence =
  ce_mission :: "string \<times> string"
  ce_event :: protected_event
  ce_policy :: string
  ce_versions :: "int \<times> int"
  ce_containment_versions :: "int \<times> int"
  ce_removed :: "containment_selector list"
  ce_created_at :: string

definition evidence_of ::
    "mission \<Rightarrow> contain_request \<Rightarrow> int \<Rightarrow> int \<Rightarrow> int \<Rightarrow> containment_selector list \<Rightarrow> string \<Rightarrow> containment_evidence" where
  "evidence_of r q new_version prior_cv new_cv removed created_at =
     \<lparr>ce_mission = (m_id r, m_issuer r), ce_event = cr_event q,
      ce_policy = (case cr_policy q of None \<Rightarrow> ''manual'' | Some p \<Rightarrow> p),
      ce_versions = (m_version r, new_version), ce_containment_versions = (prior_cv, new_cv),
      ce_removed = removed, ce_created_at = created_at\<rparr>"

definition applied_event :: "mission \<Rightarrow> string \<Rightarrow> containment_event option" where
  "applied_event r eid =
     Option.bind (m_containment r) (\<lambda>c. List.find (\<lambda>e. ev_id e = eid) (containment_events c))"

definition event_record :: "protected_event \<Rightarrow> containment_selector list \<Rightarrow> containment_event" where
  "event_record e removed =
     \<lparr>ev_type = pe_type e, ev_source = pe_source e, ev_observed_at = pe_observed_at e, ev_id = pe_event_id e, ev_removed = removed\<rparr>"

definition prior_version :: "mission \<Rightarrow> int" where
  "prior_version r = (case m_containment r of None \<Rightarrow> 0 | Some c \<Rightarrow> containment_version c)"

definition next_containment :: "mission \<Rightarrow> contain_request \<Rightarrow> mission_containment" where
  "next_containment r q =
     (let removed = merge_containment_selectors [cr_remove q]
      in \<lparr>containment_version = prior_version r + 1,
          contained = merge_containment_selectors [prior_contained r, removed],
          containment_events = (case m_containment r of None \<Rightarrow> [] | Some c \<Rightarrow> containment_events c) @ [event_record (cr_event q) removed]\<rparr>)"

text \<open>The write and its commit, one transaction.\<close>

definition commit_containment ::
    "unicode \<Rightarrow> (string \<Rightarrow> string) \<Rightarrow> mission \<Rightarrow> contain_request \<Rightarrow> kernel \<Rightarrow> kernel_error + kernel \<times> mission" where
  "commit_containment uc digest r q k =
     (let nxt = next_containment r q;
          prior_effective = effective_authority_set digest r;
          new_effective = effective_authority_set digest (r\<lparr>m_containment := Some nxt\<rparr>)
      in if \<not> is_subset_set uc new_effective prior_effective then Inl (InvalidCall (m_id r))
         else
           let changed = \<not> is_subset_set uc prior_effective new_effective;
               k1 = update_missions (\<lambda>m. m_id m = m_id r)
                 (\<lambda>m. m\<lparr>m_containment := Some nxt, m_version := m_version m + 1\<rparr>) k
           in case get_mission (m_id r) k1 of
                None \<Rightarrow> Inl (NotFound (m_id r))
              | Some fresh \<Rightarrow>
                  (case emit_commit fresh (Some (m_state fresh)) changed (iso_text (clock k)) no_extra k1 of
                     Inl e \<Rightarrow> Inl e | Inr k2 \<Rightarrow> Inr (k2, fresh)))"

fun contain_children ::
    "(string \<Rightarrow> containment_selector list \<Rightarrow> kernel \<Rightarrow> kernel \<times> (kernel_error + 'a)) \<Rightarrow>
     containment_selector list \<Rightarrow> mission list \<Rightarrow> kernel \<Rightarrow> kernel \<times> (kernel_error + unit)" where
  "contain_children rec widened [] k = (k, Inr ())"
| "contain_children rec widened (c # cs) k =
     (case apply_expiry c k of
        (k1, Inl e) \<Rightarrow> (k1, Inl e)
      | (k1, Inr fresh) \<Rightarrow>
          if m_state fresh = Terminated then contain_children rec widened cs k1
          else
            let applicable = filter (\<lambda>s. list_ex (selector_overlaps_entry s) (m_authority_set fresh)) widened
            in if applicable = [] then contain_children rec widened cs k1
               else case rec (m_id fresh) applicable k1 of
                 (k2, Inl e) \<Rightarrow> (k2, Inl e)
               | (k2, Inr _) \<Rightarrow> contain_children rec widened cs k2)"

definition widened_removal :: "mission \<Rightarrow> containment_selector list \<Rightarrow> containment_selector list" where
  "widened_removal parent removed =
     merge_containment_selectors [removed, containment_at_entries (m_authority_set parent) removed]"

primrec contain_n ::
    "nat \<Rightarrow> unicode \<Rightarrow> (string \<Rightarrow> string) \<Rightarrow> string \<Rightarrow> contain_request \<Rightarrow> kernel \<Rightarrow>
     kernel \<times> (kernel_error + mission \<times> containment_evidence)" where
  "contain_n 0 uc digest mid q k = (k, Inl OutOfFuel)"
| "contain_n (Suc n) uc digest mid q k =
     (case must_get mid k of
        Inl e \<Rightarrow> (k, Inl e)
      | Inr stored \<Rightarrow>
          (case apply_expiry stored k of
             (k1, Inl e) \<Rightarrow> (k1, Inl e)
           | (k1, Inr r) \<Rightarrow>
               if cr_expected q \<noteq> None \<and> cr_expected q \<noteq> Some (m_version r) then (k1, Inl StaleVersion)
               else if m_state r = Terminated then (k1, Inl (Conflict mid))
               else if cr_remove q = [] then (k1, Inl (InvalidCall mid))
               else if list_ex (\<lambda>s. containment_selector_violation (selector_json s) \<noteq> None) (cr_remove q) then (k1, Inl (InvalidCall mid))
               else
                 case applied_event r (pe_event_id (cr_event q)) of
                   Some applied \<Rightarrow>
                     (k1, Inr (r, evidence_of r q (m_version r) (prior_version r) (prior_version r) (ev_removed applied) (iso_text (clock k))))
                 | None \<Rightarrow>
                     (case commit_containment uc digest r q k1 of
                        Inl e \<Rightarrow> (k1, Inl e)
                      | Inr (k2, fresh) \<Rightarrow>
                          let removed = merge_containment_selectors [cr_remove q]
                          in case contain_children
                                 (\<lambda>cid applicable. contain_n n uc digest cid
                                    \<lparr>cr_event = cr_event q, cr_remove = applicable, cr_policy = cr_policy q, cr_expected = None\<rparr>)
                                 (widened_removal fresh removed) (find_children (m_id fresh) k2) k2 of
                               (k3, Inl e) \<Rightarrow> (k3, Inl e)
                             | (k3, Inr _) \<Rightarrow>
                                 (k3, Inr (fresh, evidence_of r q (m_version fresh) (prior_version r)
                                    (prior_version r + 1) removed (iso_text (clock k)))))))"

definition contain ::
    "unicode \<Rightarrow> (string \<Rightarrow> string) \<Rightarrow> string \<Rightarrow> contain_request \<Rightarrow> kernel \<Rightarrow>
     kernel \<times> (kernel_error + mission \<times> containment_evidence)" where
  "contain uc digest mid q k = contain_n (fuel_for k) uc digest mid q k"

section \<open>The policy\<close>

record policy_rule =
  pr_rule_id :: string
  pr_event_type :: string
  pr_remove :: "containment_selector list"

definition contain_on_event ::
    "unicode \<Rightarrow> (string \<Rightarrow> string) \<Rightarrow> policy_rule list option \<Rightarrow> string \<Rightarrow> protected_event \<Rightarrow> kernel \<Rightarrow>
     kernel \<times> (kernel_error + mission \<times> containment_evidence)" where
  "contain_on_event uc digest policy mid event k =
     (case Option.bind policy (List.find (\<lambda>r. pr_event_type r = pe_type event)) of
        None \<Rightarrow> (k, Inl (NotFound (pe_type event)))
      | Some rule \<Rightarrow>
          contain uc digest mid
            \<lparr>cr_event = event, cr_remove = pr_remove rule, cr_policy = Some (pr_rule_id rule), cr_expected = None\<rparr> k)"

end
