(* ===== verification/Containment_Laws.thy ===== *)
theory Containment_Laws
  imports Containment
begin

text \<open>
  What containment guarantees: an entry that loses actions stays within the entry it
  comes from, the code's own check that authority only narrows never fires on guarded
  entries, and no effective entry admits an action a selector removed.
\<close>

section \<open>An entry with fewer actions\<close>

lemma actions_of_with [simp]: "actions_of (with_actions as e) = as"
  by (simp add: actions_of_def elements_of_def)

lemma constraint_of_with [simp]: "constraint_of k (with_actions as e) = constraint_of k e"
  by (simp add: constraint_of_def)

text \<open>The entries that differ from \<open>e\<close> at most by listing fewer actions.\<close>

definition lesser :: "json \<Rightarrow> json \<Rightarrow> bool" where
  "lesser e c = (\<exists>as. set as \<subseteq> set (actions_of e) \<and> (c = with_actions as e \<or> c = e \<and> as = actions_of e))"

lemma lesser_refl: "lesser e e"
  by (auto simp: lesser_def)

lemma lesser_with: "set as \<subseteq> set (actions_of e) \<Longrightarrow> lesser e (with_actions as e)"
  by (auto simp: lesser_def)

lemma lesserD:
  assumes "lesser e c"
  shows "k \<noteq> ''actions'' \<Longrightarrow> jget k c = jget k e" "set (actions_of c) \<subseteq> set (actions_of e)"
  using assms by (auto simp: lesser_def)

lemma family_None: "unsupported_action_family e = None \<longleftrightarrow> (\<forall>a \<in> set (actions_of e). \<not> is_family a)"
  by (auto simp: unsupported_action_family_def find_None_iff)

lemma lesser_supported:
  assumes "is_authority_entry uc e" "lesser e c"
  shows "unsupported_entry_member c = None" "unsupported_action_family c = None" "unsupported_delegation_member c = None"
proof -
  show "unsupported_entry_member c = None"
    using assms(2) stripped_supported(2)[OF entry_members(1)[OF assms(1)]] entry_members(1)[OF assms(1)] by (auto simp: lesser_def)
  show "unsupported_action_family c = None"
    using entry_members(2)[OF assms(1)] lesserD(2)[OF assms(2)] unfolding family_None by blast
  have "delegation_of c = delegation_of e" unfolding delegation_of_def lesserD(1)[OF assms(2), of "''delegation''", simplified] ..
  then show "unsupported_delegation_member c = None"
    using entry_no_foreign_delegation[OF assms(1)] by (simp add: unsupported_delegation_member_def)
qed

text \<open>Two such entries stand in the subset relation exactly when their actions do.\<close>

lemma lesser_subset:
  assumes e: "is_authority_entry uc e" and c: "lesser e c" and g: "lesser e g" and "set (actions_of c) \<subseteq> set (actions_of g)"
  shows "is_subset_entry uc c g"
proof -
  note jc = lesserD(1)[OF c] and jg = lesserD(1)[OF g]
  have "match_form c = match_form e" "match_form g = match_form e"
    by (simp_all add: match_form_def jc jg)
  then have "resource_within c g = resource_within e e"
    by (simp add: resource_within_def jc jg)
  moreover have "capability_sources_no_broader c g"
    unfolding sources_iff sources_of_def by (simp add: jc jg)
  moreover have "constraint_of k c = constraint_of k e" "constraint_of k g = constraint_of k e" for k
    by (simp_all add: constraint_of_def jc jg)
  ultimately show ?thesis
    using subset_refl[OF e, unfolded entry_subset_iff[OF e e]] assms(4)
    unfolding is_subset_entry_def
    by (simp add: lesser_supported[OF e c] lesser_supported[OF e g] jc jg list_all_iff subset_eq)
qed

section \<open>What an effective entry keeps\<close>

lemma entry_actions:
  assumes "is_authority_entry uc e"
  shows "actions_of e \<noteq> []"
proof -
  note a = assms[unfolded is_authority_entry_def Let_def]
  have "case jget ''actions'' e of None \<Rightarrow> False | Some v \<Rightarrow> string_list v" using a by (simp split: if_split_asm)
  then show ?thesis by (cases "jget ''actions'' e") (simp_all add: actions_of_def elements_of_def string_list_def)
qed

definition kept_after :: "containment_removal option \<Rightarrow> json \<Rightarrow> json list" where
  "kept_after r e = filter (\<lambda>a. \<not> removal_takes r a) (actions_of e)"

lemma contained_entry_None: "actions_of e \<noteq> [] \<Longrightarrow> contained_entry r e = None \<longleftrightarrow> kept_after r e = []"
  by (auto simp: contained_entry_def kept_after_def removal_takes_def Let_def split: option.splits containment_removal.splits)

lemma contained_entry_Some:
  assumes "contained_entry r e = Some x"
  shows "lesser e x \<and> actions_of x = kept_after r e"
proof (cases r)
  case None
  then show ?thesis using assms by (auto simp: contained_entry_def lesser_def kept_after_def removal_takes_def)
next
  case (Some rem)
  then obtain rs where r: "rem = Removed rs" using assms by (cases rem) (simp_all add: contained_entry_def)
  let ?as = "filter (\<lambda>a. a \<notin> JStr ` set rs) (actions_of e)"
  have k: "kept_after r e = ?as" by (simp add: kept_after_def removal_takes_def Some r)
  have "length ?as = length (actions_of e) \<Longrightarrow> ?as = actions_of e"
    by (metis filter_True length_filter_less less_irrefl)
  moreover have "x = (if length ?as = length (actions_of e) then e else with_actions ?as e)"
    using assms by (simp add: contained_entry_def Some r Let_def split: if_splits)
  ultimately have "x = e \<and> ?as = actions_of e \<or> x = with_actions ?as e" by (simp split: if_splits)
  moreover have "set ?as \<subseteq> set (actions_of e)" by simp
  ultimately have "lesser e x \<and> actions_of x = ?as" using lesser_refl[of e] lesser_with[of ?as e] by auto
  then show ?thesis by (simp only: k)
qed

definition removal_of :: "mission \<Rightarrow> json \<Rightarrow> containment_removal option" where
  "removal_of r e = containment_removal_for e (prior_contained r)"

lemma effective_entry_eq:
  "effective_entry digest r e =
     (if entry_digest digest (m_issuer r) e \<in> set (m_discharged r) then None else contained_entry (removal_of r e) e)"
  by (simp add: effective_entry_def removal_of_def prior_contained_def contained_entry_def containment_removal_for_def
      split: option.splits)

lemma effective_set_eq: "effective_authority_set digest r = List.map_filter (effective_entry digest r) (m_authority_set r)"
proof (cases "m_containment r = None \<and> m_discharged r = []")
  case True
  then have "effective_entry digest r = Some" by (simp add: effective_entry_def fun_eq_iff)
  then show ?thesis using True by (simp add: effective_authority_set_def List.map_filter_def)
next
  case False
  have "map snd (List.map_filter (\<lambda>e. map_option (\<lambda>x. (e, x)) (f e)) es) = List.map_filter f es" for f :: "json \<Rightarrow> json option" and es
    by (induction es) (auto simp: List.map_filter_def)
  then show ?thesis using False by (auto simp: effective_authority_set_def effective_entries_with_origin_def)
qed

lemma kept_iff: "a \<in> set (kept_after (removal_of r e) e) \<longleftrightarrow> a \<in> set (actions_of e) \<and> \<not> removes (prior_contained r) e a"
  by (simp add: kept_after_def removal_of_def removal_takes_iff)

lemma effective_source:
  assumes "x \<in> set (effective_authority_set digest r)"
  obtains e where "e \<in> set (m_authority_set r)" "effective_entry digest r e = Some x"
    "entry_digest digest (m_issuer r) e \<notin> set (m_discharged r)" "lesser e x" "actions_of x = kept_after (removal_of r e) e"
proof -
  obtain e where e: "e \<in> set (m_authority_set r)" "effective_entry digest r e = Some x"
    using assms unfolding effective_set_eq by (rule map_filter_source[THEN bexE])
  have x: "entry_digest digest (m_issuer r) e \<notin> set (m_discharged r)" "contained_entry (removal_of r e) e = Some x"
    using e(2) unfolding effective_entry_eq by (simp_all split: if_splits)
  show thesis by (rule that[OF e x(1)]) (use contained_entry_Some[OF x(2)] in simp_all)
qed

section \<open>Containment only narrows\<close>

text \<open>\<open>r'\<close> is \<open>r\<close> with a containment that removes at least as much.\<close>

definition more_contained :: "mission \<Rightarrow> mission \<Rightarrow> bool" where
  "more_contained r r' = (m_authority_set r' = m_authority_set r \<and> m_issuer r' = m_issuer r \<and>
     set (m_discharged r) \<subseteq> set (m_discharged r') \<and>
     (\<forall>e a. removes (prior_contained r) e a \<longrightarrow> removes (prior_contained r') e a))"

lemma effective_narrows:
  assumes "more_contained r r'" "list_all (is_authority_entry uc) (m_authority_set r)"
  shows "is_subset_set uc (effective_authority_set digest r') (effective_authority_set digest r)"
  unfolding is_subset_set_def list_all_iff list_ex_iff
proof
  fix x
  assume "x \<in> set (effective_authority_set digest r')"
  then obtain e where e: "e \<in> set (m_authority_set r')" "effective_entry digest r' e = Some x"
    "entry_digest digest (m_issuer r') e \<notin> set (m_discharged r')" "lesser e x" "actions_of x = kept_after (removal_of r' e) e"
    by (rule effective_source)
  have er: "e \<in> set (m_authority_set r)" using e(1) assms(1) by (simp add: more_contained_def)
  then have g: "is_authority_entry uc e" using assms(2) by (simp add: list_all_iff)
  have sub: "set (kept_after (removal_of r' e) e) \<subseteq> set (kept_after (removal_of r e) e)"
  proof
    fix a
    assume "a \<in> set (kept_after (removal_of r' e) e)"
    then have "a \<in> set (actions_of e)" "\<not> removes (prior_contained r') e a" unfolding kept_iff by simp_all
    then show "a \<in> set (kept_after (removal_of r e) e)" using assms(1) unfolding kept_iff more_contained_def by blast
  qed
  have "contained_entry (removal_of r' e) e = Some x" using e(2,3) by (simp add: effective_entry_eq)
  then have "kept_after (removal_of r' e) e \<noteq> []" using contained_entry_None[OF entry_actions[OF g], of "removal_of r' e"] by simp
  then have "kept_after (removal_of r e) e \<noteq> []" using sub by auto
  then obtain y where y: "contained_entry (removal_of r e) e = Some y"
    using contained_entry_None[OF entry_actions[OF g]] by blast
  have "entry_digest digest (m_issuer r) e \<notin> set (m_discharged r)" using e(3) assms(1) by (auto simp: more_contained_def)
  then have "effective_entry digest r e = Some y" using y by (simp add: effective_entry_eq)
  then have "y \<in> set (effective_authority_set digest r)" unfolding effective_set_eq by (rule find_after[OF er])
  moreover have "is_subset_entry uc x y"
    by (rule lesser_subset[OF g e(4)]) (use contained_entry_Some[OF y] e(5) sub in simp_all)
  ultimately show "\<exists>g \<in> set (effective_authority_set digest r). is_subset_entry uc x g" by blast
qed

lemma next_removes:
  "removes (contained (next_containment r q)) e a \<longleftrightarrow> removes (prior_contained r) e a \<or> removes (cr_remove q) e a"
  by (simp add: next_containment_def Let_def merge_removes)

lemma contained_more: "more_contained r (r\<lparr>m_containment := Some (next_containment r q)\<rparr>)"
  using next_removes[of r q] by (simp add: more_contained_def prior_contained_def)

section \<open>The effective authority, exactly\<close>

lemma selector_json_get:
  "jget ''resource'' (selector_json s) = Some (JStr (sel_resource s))"
  "jget ''resource_match'' (selector_json s) = (if sel_match s = Prefix then Some (JStr ''prefix'') else None)"
  by (auto simp: selector_json_def jget_def split: option.splits)

lemma valid_selector_decidable:
  assumes "containment_selector_violation (selector_json s) = None"
  shows "decidable (selector_json s)"
proof -
  have v: "json_absolute_uri (jget ''resource'' (selector_json s))" "resource_match_violation (selector_json s) = None"
    using assms by (simp_all add: containment_selector_violation_def split: if_splits option.splits)
  show ?thesis
  proof (cases "sel_match s = Prefix")
    case True
    then have "is_enforceable_prefix_base (Some (JStr (sel_resource s)))"
      using v by (auto simp: resource_match_violation_def selector_json_get json_absolute_uri_def is_enforceable_prefix_base_def
          split: if_splits option.splits)
    then show ?thesis using True by (simp add: decidable_def selector_json_get)
  qed (simp add: decidable_def selector_json_get)
qed

lemma entry_decidable:
  assumes "is_authority_entry uc e"
  shows "decidable e"
proof -
  obtain r where r: "jget ''resource'' e = Some (JStr r)"
    using entry_members(3)[OF assms] by (cases "jget ''resource'' e" rule: nonempty_string.cases) simp_all
  show ?thesis using entry_members(4,5)[OF assms] r by (auto simp: decidable_def)
qed

text \<open>The operations a selector takes from an entry: its actions, at an entry whose
  targets it shares.\<close>

definition selector_takes :: "containment_selector \<Rightarrow> json \<Rightarrow> json \<Rightarrow> bool" where
  "selector_takes s e a \<longleftrightarrow>
     (\<exists>t. entry_matches_target (selector_json s) t \<and> entry_matches_target e t) \<and>
     (case sel_actions s of None \<Rightarrow> True | Some as \<Rightarrow> a \<in> JStr ` set as)"

lemma removes_takes:
  assumes "is_authority_entry uc e" "\<forall>s \<in> set ss. containment_selector_violation (selector_json s) = None"
  shows "removes ss e a \<longleftrightarrow> (\<exists>s \<in> set ss. selector_takes s e a)"
  using overlap_shared[OF valid_selector_decidable entry_decidable[OF assms(1)]] assms(2)
  unfolding removes_def selector_takes_def selector_overlaps_entry_def by blast

lemma lesser_admits:
  assumes "lesser e x" "op_action q \<in> set (actions_of x)"
  shows "admits uc x q \<longleftrightarrow> admits uc e q"
  using lesserD[OF assms(1)] assms(2) by (intro admits_cong) auto

text \<open>
  C7. The authority a record carries after containment and discharge, exactly.  For a
  record whose entries have the guarded shape and whose contained selectors passed
  admission, the effective authority admits an operation exactly when an approved,
  undischarged entry admits it and no contained selector that shares a target with that
  entry names the action (or names none, which takes the entry whole).
\<close>

theorem effective_authority_exact:
  assumes "list_all (is_authority_entry uc) (m_authority_set r)"
    and "list_all (\<lambda>s. containment_selector_violation (selector_json s) = None) (prior_contained r)"
  shows "(\<exists>x \<in> set (effective_authority_set digest r). admits uc x q) \<longleftrightarrow>
    (\<exists>e \<in> set (m_authority_set r). admits uc e q \<and>
       entry_digest digest (m_issuer r) e \<notin> set (m_discharged r) \<and>
       \<not> (\<exists>s \<in> set (prior_contained r). selector_takes s e (op_action q)))"
proof -
  have g: "is_authority_entry uc e" if "e \<in> set (m_authority_set r)" for e using assms(1) that by (simp add: list_all_iff)
  have t: "removes (prior_contained r) e a \<longleftrightarrow> (\<exists>s \<in> set (prior_contained r). selector_takes s e a)"
    if "e \<in> set (m_authority_set r)" for e a
    using removes_takes[OF g[OF that]] assms(2) by (simp add: list_all_iff)
  show ?thesis
  proof
    assume "\<exists>x \<in> set (effective_authority_set digest r). admits uc x q"
    then obtain x where x: "x \<in> set (effective_authority_set digest r)" "admits uc x q" by blast
    obtain e where e: "e \<in> set (m_authority_set r)" "entry_digest digest (m_issuer r) e \<notin> set (m_discharged r)"
      "lesser e x" "actions_of x = kept_after (removal_of r e) e"
      using x(1) by (rule effective_source)
    have a: "op_action q \<in> set (actions_of x)" using x(2) by (simp add: admits_def)
    then have "\<not> removes (prior_contained r) e (op_action q)" unfolding e(4) kept_iff by simp
    moreover have "admits uc e q" using lesser_admits[OF e(3) a] x(2) by simp
    ultimately show "\<exists>e \<in> set (m_authority_set r). admits uc e q \<and> entry_digest digest (m_issuer r) e \<notin> set (m_discharged r) \<and>
        \<not> (\<exists>s \<in> set (prior_contained r). selector_takes s e (op_action q))"
      using e(1,2) t by blast
  next
    assume "\<exists>e \<in> set (m_authority_set r). admits uc e q \<and> entry_digest digest (m_issuer r) e \<notin> set (m_discharged r) \<and>
        \<not> (\<exists>s \<in> set (prior_contained r). selector_takes s e (op_action q))"
    then obtain e where e: "e \<in> set (m_authority_set r)" "admits uc e q"
      "entry_digest digest (m_issuer r) e \<notin> set (m_discharged r)" "\<not> removes (prior_contained r) e (op_action q)"
      using t by blast
    have k: "op_action q \<in> set (kept_after (removal_of r e) e)" using e(2,4) unfolding kept_iff by (simp add: admits_def)
    then obtain x where x: "contained_entry (removal_of r e) e = Some x"
      using contained_entry_None[OF entry_actions[OF g[OF e(1)]], of "removal_of r e"] by fastforce
    have "x \<in> set (effective_authority_set digest r)"
      unfolding effective_set_eq using e(1,3) x by (intro find_after[of e]) (simp_all add: effective_entry_eq)
    moreover have "admits uc x q" using lesser_admits[of e x q uc] contained_entry_Some[OF x] k e(2) by simp
    ultimately show "\<exists>x \<in> set (effective_authority_set digest r). admits uc x q" by blast
  qed
qed

text \<open>A record whose writing was contained at one resource beneath its entry.\<close>

definition write_removed :: containment_selector where
  "write_removed = \<lparr>sel_resource = ''https://a/x'', sel_match = Exact, sel_actions = Some [''write'']\<rparr>"

definition contained_sample :: mission where
  "contained_sample =
     \<lparr>m_id = ''m1'', m_issuer = ''as'', m_state = Active, m_termination = None, m_authority_set = [root_entry],
      m_client_id = ''client'', m_created_at = ''1970-01-01T00:00:00.000Z'', m_expires_at = ''1970-01-01T01:00:00.000Z'',
      m_version = 2, m_derivation_limit = None, m_derivation_count = 0, m_grant_id = None, m_predecessor = None,
      m_parent = None, m_projected_from = None, m_schedule = None,
      m_containment = Some \<lparr>containment_version = 1, contained = [write_removed], containment_events = []\<rparr>, m_discharged = []\<rparr>"

theorem effective_authority_exact_witness:
  "(\<exists>x \<in> set (effective_authority_set (\<lambda>s. s) contained_sample). admits plain_unicode x sample_operation) \<and>
   \<not> (\<exists>x \<in> set (effective_authority_set (\<lambda>s. s) contained_sample).
          admits plain_unicode x (sample_operation\<lparr>op_action := JStr ''write''\<rparr>))"
proof -
  have h: "list_all (is_authority_entry plain_unicode) (m_authority_set contained_sample)"
    using sample_entries(1) by (simp add: contained_sample_def)
  have p: "prior_contained contained_sample = [write_removed]" by (simp add: prior_contained_def contained_sample_def)
  have "containment_selector_violation (selector_json write_removed) = None" by code_simp
  then have v: "list_all (\<lambda>s. containment_selector_violation (selector_json s) = None) (prior_contained contained_sample)"
    by (simp add: p)
  note x = effective_authority_exact[OF h v, of "\<lambda>s. s"]
  have m: "entry_matches_target (selector_json write_removed) ''https://a/x''" "entry_matches_target root_entry ''https://a/x''"
    "admits plain_unicode root_entry sample_operation" by code_simp+
  have a: "m_authority_set contained_sample = [root_entry]" "m_discharged contained_sample = []" by (simp_all add: contained_sample_def)
  have w: "selector_takes write_removed root_entry (JStr ''write'')" "\<not> selector_takes write_removed root_entry (JStr ''read'')"
    using m(1,2) by (auto simp: selector_takes_def write_removed_def)
  have o: "op_action sample_operation = JStr ''read''" by (simp add: sample_operation_def)
  have "\<exists>y \<in> set (effective_authority_set (\<lambda>s. s) contained_sample). admits plain_unicode y sample_operation"
    unfolding x p a using m(3) w(2) o by simp
  moreover have "\<not> (\<exists>y \<in> set (effective_authority_set (\<lambda>s. s) contained_sample).
      admits plain_unicode y (sample_operation\<lparr>op_action := JStr ''write''\<rparr>))"
    unfolding x p a using w(1) by simp
  ultimately show ?thesis by blast
qed

end
