(* ===== verification/Containment_Steps.thy ===== *)
theory Containment_Steps
  imports Containment_Laws Lifecycle_Steps
begin

text \<open>
  Containment as a step of the kernel: whatever \<open>contain\<close> answers, the records it leaves
  evolve from those it found, and the kernel stays well formed.
\<close>

lemma commit_containment_InrD:
  assumes "commit_containment uc digest r q k = Inr (k', fresh)"
  defines "f \<equiv> \<lambda>m :: mission. m\<lparr>m_containment := Some (next_containment r q), m_version := m_version m + 1\<rparr>"
  shows "\<exists>ch. emit_commit fresh (Some (m_state fresh)) ch (iso_text (clock k)) no_extra (update_missions (\<lambda>m. m_id m = m_id r) f k) = Inr k'"
    "get_mission (m_id r) (update_missions (\<lambda>m. m_id m = m_id r) f k) = Some fresh"
    "missions k' = update_where (\<lambda>m. m_id m = m_id r) f (missions k)" "clock k' = clock k"
    "get_mission (m_id r) k' = Some fresh"
proof -
  let ?k1 = "update_missions (\<lambda>m. m_id m = m_id r) f k"
  obtain ch where e: "emit_commit fresh (Some (m_state fresh)) ch (iso_text (clock k)) no_extra ?k1 = Inr k'"
    and g: "get_mission (m_id r) ?k1 = Some fresh"
    using assms(1) unfolding commit_containment_def Let_def f_def[symmetric]
    by (auto split: if_splits option.splits sum.splits)
  show "\<exists>ch. emit_commit fresh (Some (m_state fresh)) ch (iso_text (clock k)) no_extra ?k1 = Inr k'" using e by blast
  show "get_mission (m_id r) ?k1 = Some fresh" by (rule g)
  have m: "missions k' = missions ?k1" "clock k' = clock ?k1" using emit_commit_frame[OF e] by simp_all
  then show "missions k' = update_where (\<lambda>m. m_id m = m_id r) f (missions k)" "clock k' = clock k"
    by (simp_all add: update_missions_def)
  show "get_mission (m_id r) k' = Some fresh" using g m(1) by (simp add: get_mission_def)
qed

text \<open>A write that extends an overlay of a live record, with its commit.\<close>

lemma overlay_commit:
  fixes f :: "mission \<Rightarrow> mission"
  assumes "emit_commit fresh (Some (m_state fresh)) ch (iso_text (clock k)) no_extra (update_missions (\<lambda>m. m_id m = m_id r) f k) = Inr k'"
    and "get_mission (m_id r) (update_missions (\<lambda>m. m_id m = m_id r) f k) = Some fresh"
    and "mission_keyed k" "r \<in> set (missions k)" "m_state r \<noteq> Terminated"
    and c: "\<And>m. content (f m) = content m"
    and l: "\<And>m. life (f m) = (m_state m, m_termination m, m_version m + 1, m_projected_from m, m_schedule m)"
    and ov: "overlay_kept r (f r)"
  shows "closes k k'" "fresh = f r" "missions k' = update_where (\<lambda>m. m_id m = m_id r) f (missions k)" "get_mission (m_id r) k' = Some fresh"
proof -
  define k1 where "k1 = update_missions (\<lambda>m. m_id m = m_id r) f k"
  note e = assms(1)[folded k1_def] and g = assms(2)[folded k1_def]
  have m: "missions k' = missions k1" "clock k' = clock k1" using emit_commit_frame[OF e] by simp_all
  then show rows: "missions k' = update_where (\<lambda>m. m_id m = m_id r) f (missions k)" by (simp add: k1_def update_missions_def)
  have ck: "clock k' = clock k" using m(2) by (simp add: k1_def update_missions_def)
  show "get_mission (m_id r) k' = Some fresh" using g m(1) by (simp add: get_mission_def)
  have ids: "m_id (f m) = m_id m" "m_issuer (f m) = m_issuer m" for m using content_fields[OF c[of m]] by simp_all
  have st: "m_state (f m) = m_state m" "m_termination (f m) = m_termination m" "m_version (f m) = m_version m + 1"
    "m_projected_from (f m) = m_projected_from m" "m_schedule (f m) = m_schedule m" for m
    using l[of m] by (simp_all add: life_def)
  have one: "m = r" if "m \<in> set (missions k)" "m_id m = m_id r" for m
    using keyed_unique[OF assms(3) that(1) assms(4)] that(2) by simp
  have s: "settles k k'" by (rule update_emit_settles[OF e k1_def g]) (simp_all add: ids)
  have rf: "row_evolves r (f r)"
    using assms(5) c ov by (simp add: row_evolves_def row_ok_def st) (metis add_increasing2 zero_le_one)
  have "evolves k k'" by (rule evolves_update[OF _ rows ck s]) (use one rf in blast)
  then show "closes k k'"
  proof (rule closes_quiet)
    fix m'
    assume m: "m' \<in> set (missions k')" "m_state m' = Terminated"
    then obtain m where "m \<in> set (missions k)" "m' = m \<or> m' = f m" by (auto simp: rows update_where_def split: if_splits)
    then show "terminated_in k (m_id m')" using m(2) st ids by (auto simp: terminated_in_def)
  qed
  have "get_mission (m_id r) k = Some r" using keyed_select[OF assms(3,4)] by (simp add: get_mission_def)
  then have "get_mission (m_id r) k1 = Some (f r)"
    using ids by (simp add: k1_def get_mission_def update_missions_def select_update_where)
  then show "fresh = f r" using g by simp
qed

lemma commit_containment_closes:
  assumes "commit_containment uc digest r q k = Inr (k', fresh)" "mission_keyed k" "r \<in> set (missions k)" "m_state r \<noteq> Terminated"
  shows "closes k k'" "fresh = r\<lparr>m_containment := Some (next_containment r q), m_version := m_version r + 1\<rparr>"
proof -
  let ?f = "\<lambda>m :: mission. m\<lparr>m_containment := Some (next_containment r q), m_version := m_version m + 1\<rparr>"
  obtain ch where e: "emit_commit fresh (Some (m_state fresh)) ch (iso_text (clock k)) no_extra
      (update_missions (\<lambda>m. m_id m = m_id r) ?f k) = Inr k'"
    using commit_containment_InrD(1)[OF assms(1)] by blast
  have ov: "overlay_kept r (?f r)" using next_removes[of r q] by (simp add: overlay_kept_def prior_contained_def)
  note o = overlay_commit[OF e commit_containment_InrD(2)[OF assms(1)] assms(2-4) _ _ ov]
  show "closes k k'" by (rule o(1)) (simp_all add: life_def)
  show "fresh = r\<lparr>m_containment := Some (next_containment r q), m_version := m_version r + 1\<rparr>" by (rule o(2)) (simp_all add: life_def)
qed

lemma contain_children_closes:
  assumes "contain_children rec widened cs k = (k', res)" "kernel_ok k"
    and "\<And>cid ap k k' res. kernel_ok k \<Longrightarrow> rec cid ap k = (k', res) \<Longrightarrow> closes k k'"
  shows "closes k k'"
  using assms(1,2)
proof (induction cs arbitrary: k)
  case Nil
  then show ?case by simp
next
  case (Cons c cs)
  obtain k1 r1 where ae: "apply_expiry c k = (k1, r1)" by (cases "apply_expiry c k")
  have c1: "closes k k1" by (rule apply_expiry_closes[OF ae])
  have ok1: "kernel_ok k1" by (rule closes_ok[OF c1 Cons.prems(2)])
  show ?case
  proof (cases r1)
    case (Inl e)
    then show ?thesis using Cons.prems(1) c1 by (simp add: ae)
  next
    case (Inr fresh)
    let ?ap = "filter (\<lambda>s. list_ex (selector_overlaps_entry s) (m_authority_set fresh)) widened"
    show ?thesis
    proof (cases "m_state fresh = Terminated \<or> ?ap = []")
      case True
      then have "contain_children rec widened cs k1 = (k', res)"
        using Cons.prems(1) by (cases "m_state fresh = Terminated") (simp_all add: ae Inr Let_def)
      then show ?thesis using Cons.IH[OF _ ok1] closes_trans[OF c1] by blast
    next
      case False
      obtain k2 r2 where rc: "rec (m_id fresh) ?ap k1 = (k2, r2)" by (cases "rec (m_id fresh) ?ap k1")
      have c2: "closes k1 k2" by (rule assms(3)[OF ok1 rc])
      have c02: "closes k k2" by (rule closes_trans[OF c1 c2])
      show ?thesis
      proof (cases r2)
        case (Inl e)
        then show ?thesis using Cons.prems(1) False c02 rc by (simp add: ae Inr Let_def)
      next
        case (Inr x)
        then have "contain_children rec widened cs k2 = (k', res)"
          using Cons.prems(1) False rc by (simp add: ae \<open>r1 = Inr fresh\<close> Let_def)
        then show ?thesis using Cons.IH[OF _ closes_ok[OF c2 ok1]] closes_trans[OF c02] by blast
      qed
    qed
  qed
qed

lemma contain_n_closes:
  assumes "contain_n n uc digest mid q k = (k', res)" "kernel_ok k"
  shows "closes k k'"
  using assms
proof (induction n arbitrary: mid q k k' res)
  case 0
  then show ?case by simp
next
  case (Suc n)
  show ?case
  proof (cases "get_mission mid k")
    case None
    then show ?thesis using Suc.prems(1) by (simp add: must_get_def)
  next
    case (Some stored)
    have st: "stored \<in> set (missions k)" using Some by (auto simp: get_mission_def dest: select_first_SomeD)
    obtain k1 r1 where ae: "apply_expiry stored k = (k1, r1)" by (cases "apply_expiry stored k")
    have c1: "closes k k1" by (rule apply_expiry_closes[OF ae])
    have ok1: "kernel_ok k1" by (rule closes_ok[OF c1 Suc.prems(2)])
    show ?thesis
    proof (cases "k' = k1")
      case False
      then obtain r k2 fresh where r: "r1 = Inr r" and live: "m_state r \<noteq> Terminated"
        and cm: "commit_containment uc digest r q k1 = Inr (k2, fresh)"
        using Suc.prems(1)
        by (auto simp: must_get_def Some ae split: sum.splits if_splits option.splits)
      let ?rec = "\<lambda>cid ap. contain_n n uc digest cid
        \<lparr>cr_event = cr_event q, cr_remove = ap, cr_policy = cr_policy q, cr_expected = None\<rparr>"
      obtain k3 r3 where cc: "contain_children ?rec (widened_removal fresh (merge_containment_selectors [cr_remove q]))
          (find_children (m_id fresh) k2) k2 = (k3, r3)" by (cases "contain_children ?rec (widened_removal fresh
            (merge_containment_selectors [cr_remove q])) (find_children (m_id fresh) k2) k2")
      have k3: "k' = k3"
        using Suc.prems(1) False cm cc
        by (auto simp: must_get_def Some ae r Let_def split: sum.splits if_splits option.splits)
      have key: "mission_keyed k1" using ok1 by (simp add: kernel_ok_def sound_keyed)
      have "r \<in> set (missions k1)" by (rule apply_expiry_current(2)[OF Suc.prems(2) st ae[unfolded r]])
      then have c2: "closes k1 k2" by (rule commit_containment_closes(1)[OF cm key _ live])
      have "closes k2 k3"
        by (rule contain_children_closes[OF cc closes_ok[OF c2 ok1]]) (rule Suc.IH)
      then show ?thesis using c1 c2 closes_trans unfolding k3 by blast
    qed (use c1 in simp)
  qed
qed

lemma contain_closes: "contain uc digest mid q k = (k', res) \<Longrightarrow> kernel_ok k \<Longrightarrow> closes k k'"
  unfolding contain_def by (rule contain_n_closes)

lemma contain_on_event_closes:
  "contain_on_event uc digest policy mid event k = (k', res) \<Longrightarrow> kernel_ok k \<Longrightarrow> closes k k'"
  by (auto simp: contain_on_event_def split: option.splits intro: contain_closes)

end
