(* ===== verification/Discharge_Latch.thy ===== *)
theory Discharge_Latch
  imports Containment_Steps
begin

text \<open>
  The discharge latch: \<open>latchDischarge\<close> and \<open>propagateDischargeToChildren\<close> of
  \<^verbatim>\<open>services/authorization-server/src/kernel/kernel.ts\<close>, with the digests of
  \<^verbatim>\<open>kernel/discharge.ts\<close>.  A record holds the entry digests of its latches; the event
  members a latch repeats for the Status response are left out.  The latches of one call
  share the digest of the condition that fired.
\<close>

section \<open>Digests\<close>

definition condition_digest :: "(string \<Rightarrow> string) \<Rightarrow> json \<Rightarrow> string option" where
  "condition_digest digest c = map_option (\<lambda>b. ''sha-256:'' @ digest b) (condition_canonical_bytes c)"

definition terminal_when_of :: "json \<Rightarrow> json list option" where
  "terminal_when_of e =
     (case constraint_of ''terminal_when'' e of Some (JArr (c # cs)) \<Rightarrow> Some (c # cs) | _ \<Rightarrow> None)"

text \<open>The first condition with a digest; a condition without canonical bytes before it is
  refused.\<close>

fun find_condition :: "(string \<Rightarrow> string) \<Rightarrow> string \<Rightarrow> json list \<Rightarrow> kernel_error + json option" where
  "find_condition digest cd [] = Inr None"
| "find_condition digest cd (c # cs) =
     (case condition_digest digest c of
        None \<Rightarrow> Inl (InvalidCall ''invalid_authorization_details'')
      | Some d \<Rightarrow> if d = cd then Inr (Some c) else find_condition digest cd cs)"

section \<open>The latch\<close>

definition commit_latch ::
    "unicode \<Rightarrow> (string \<Rightarrow> string) \<Rightarrow> mission \<Rightarrow> string list \<Rightarrow> kernel \<Rightarrow> kernel_error + kernel \<times> mission" where
  "commit_latch uc digest r ds k =
     (let nxt = m_discharged r @ ds;
          prior_effective = effective_authority_set digest r;
          new_effective = effective_authority_set digest (r\<lparr>m_discharged := nxt\<rparr>)
      in if \<not> is_subset_set uc new_effective prior_effective then Inl (InvalidCall (m_id r))
         else
           let changed = \<not> is_subset_set uc prior_effective new_effective;
               k1 = update_missions (\<lambda>m. m_id m = m_id r)
                 (\<lambda>m. m\<lparr>m_discharged := nxt, m_version := m_version m + 1\<rparr>) k
           in case get_mission (m_id r) k1 of
                None \<Rightarrow> Inl (NotFound (m_id r))
              | Some fresh \<Rightarrow>
                  (case emit_commit fresh (Some (m_state fresh)) changed (iso_text (clock k)) no_extra k1 of
                     Inl e \<Rightarrow> Inl e | Inr k2 \<Rightarrow> Inr (k2, fresh)))"

definition justifying_entry :: "unicode \<Rightarrow> json \<Rightarrow> json list \<Rightarrow> json option" where
  "justifying_entry uc e parents = List.find (is_subset_entry uc e) parents"

text \<open>The digests of a child's entries a parent's latch on \<open>ed\<close> reaches.\<close>

fun child_latches ::
    "unicode \<Rightarrow> (string \<Rightarrow> string) \<Rightarrow> mission \<Rightarrow> string \<Rightarrow> string \<Rightarrow> mission \<Rightarrow> string list \<Rightarrow> json list \<Rightarrow> kernel_error + string list" where
  "child_latches uc digest parent ed cd fresh seen [] = Inr []"
| "child_latches uc digest parent ed cd fresh seen (e # es) =
     (case justifying_entry uc e (m_authority_set parent) of
        None \<Rightarrow> child_latches uc digest parent ed cd fresh seen es
      | Some j \<Rightarrow>
          if entry_digest digest (m_issuer parent) j \<noteq> ed then child_latches uc digest parent ed cd fresh seen es
          else
            (case find_condition digest cd (case terminal_when_of e of None \<Rightarrow> [] | Some cs \<Rightarrow> cs) of
               Inl err \<Rightarrow> Inl err
             | Inr None \<Rightarrow> child_latches uc digest parent ed cd fresh seen es
             | Inr (Some c) \<Rightarrow>
                 let d = entry_digest digest (m_issuer fresh) e
                 in if d \<in> set (m_discharged fresh) \<or> d \<in> set seen then child_latches uc digest parent ed cd fresh seen es
                    else map_sum id ((#) d) (child_latches uc digest parent ed cd fresh (d # seen) es)))"

type_synonym latcher = "mission \<Rightarrow> string list \<Rightarrow> kernel \<Rightarrow> kernel \<times> (kernel_error + mission)"

fun latch_children ::
    "latcher \<Rightarrow> unicode \<Rightarrow> (string \<Rightarrow> string) \<Rightarrow> mission \<Rightarrow> string \<Rightarrow> string \<Rightarrow> mission list \<Rightarrow> kernel \<Rightarrow>
     kernel \<times> (kernel_error + unit)" where
  "latch_children rec uc digest parent cd ed [] k = (k, Inr ())"
| "latch_children rec uc digest parent cd ed (c # cs) k =
     (case apply_expiry c k of
        (k1, Inl e) \<Rightarrow> (k1, Inl e)
      | (k1, Inr fresh) \<Rightarrow>
          if m_state fresh = Terminated then latch_children rec uc digest parent cd ed cs k1
          else
            (case child_latches uc digest parent ed cd fresh [] (m_authority_set fresh) of
               Inl e \<Rightarrow> (k1, Inl e)
             | Inr [] \<Rightarrow> latch_children rec uc digest parent cd ed cs k1
             | Inr (d # ds) \<Rightarrow>
                 (case rec fresh (d # ds) k1 of
                    (k2, Inl e) \<Rightarrow> (k2, Inl e)
                  | (k2, Inr _) \<Rightarrow> latch_children rec uc digest parent cd ed cs k2)))"

fun latch_each ::
    "latcher \<Rightarrow> unicode \<Rightarrow> (string \<Rightarrow> string) \<Rightarrow> mission \<Rightarrow> string \<Rightarrow> string list \<Rightarrow> kernel \<Rightarrow> kernel \<times> (kernel_error + unit)" where
  "latch_each rec uc digest parent cd [] k = (k, Inr ())"
| "latch_each rec uc digest parent cd (d # ds) k =
     (case latch_children rec uc digest parent cd d (find_children (m_id parent) k) k of
        (k1, Inl e) \<Rightarrow> (k1, Inl e)
      | (k1, Inr _) \<Rightarrow> latch_each rec uc digest parent cd ds k1)"

primrec latch_n :: "nat \<Rightarrow> unicode \<Rightarrow> (string \<Rightarrow> string) \<Rightarrow> string \<Rightarrow> latcher" where
  "latch_n 0 uc digest cd r ds k = (k, Inl OutOfFuel)"
| "latch_n (Suc n) uc digest cd r ds k =
     (case commit_latch uc digest r ds k of
        Inl e \<Rightarrow> (k, Inl e)
      | Inr (k1, fresh) \<Rightarrow>
          (case latch_each (latch_n n uc digest cd) uc digest fresh cd ds k1 of
             (k2, Inl e) \<Rightarrow> (k2, Inl e)
           | (k2, Inr _) \<Rightarrow> (k2, Inr fresh)))"

text \<open>What follows the commit, and the whole.\<close>

definition propagate_latch ::
    "unicode \<Rightarrow> (string \<Rightarrow> string) \<Rightarrow> string \<Rightarrow> mission \<Rightarrow> string list \<Rightarrow> kernel \<Rightarrow> kernel \<times> (kernel_error + unit)" where
  "propagate_latch uc digest cd fresh ds k =
     latch_each (latch_n (length (missions k)) uc digest cd) uc digest fresh cd ds k"

definition latch_discharge ::
    "unicode \<Rightarrow> (string \<Rightarrow> string) \<Rightarrow> string \<Rightarrow> latcher" where
  "latch_discharge uc digest cd r ds k =
     (case commit_latch uc digest r ds k of
        Inl e \<Rightarrow> (k, Inl e)
      | Inr (k1, fresh) \<Rightarrow>
          (case propagate_latch uc digest cd fresh ds k1 of
             (k2, Inl e) \<Rightarrow> (k2, Inl e)
           | (k2, Inr _) \<Rightarrow> (k2, Inr fresh)))"

section \<open>Records evolve\<close>

lemma commit_latch_InrD:
  assumes "commit_latch uc digest r ds k = Inr (k', fresh)"
  defines "f \<equiv> \<lambda>m :: mission. m\<lparr>m_discharged := m_discharged r @ ds, m_version := m_version m + 1\<rparr>"
  shows "\<exists>ch. emit_commit fresh (Some (m_state fresh)) ch (iso_text (clock k)) no_extra (update_missions (\<lambda>m. m_id m = m_id r) f k) = Inr k'"
    "get_mission (m_id r) (update_missions (\<lambda>m. m_id m = m_id r) f k) = Some fresh"
  using assms(1) unfolding commit_latch_def Let_def f_def[symmetric]
  by (auto split: if_splits option.splits sum.splits)

lemma commit_latch_closes:
  assumes "commit_latch uc digest r ds k = Inr (k', fresh)" "mission_keyed k" "r \<in> set (missions k)" "m_state r \<noteq> Terminated"
  shows "closes k k'" "fresh = r\<lparr>m_discharged := m_discharged r @ ds, m_version := m_version r + 1\<rparr>"
    "missions k' = update_where (\<lambda>m. m_id m = m_id r) (\<lambda>m. m\<lparr>m_discharged := m_discharged r @ ds, m_version := m_version m + 1\<rparr>) (missions k)"
    "get_mission (m_id r) k' = Some fresh"
proof -
  let ?f = "\<lambda>m :: mission. m\<lparr>m_discharged := m_discharged r @ ds, m_version := m_version m + 1\<rparr>"
  have ov: "overlay_kept r (?f r)" by (simp add: overlay_kept_def prior_contained_def)
  obtain ch where e: "emit_commit fresh (Some (m_state fresh)) ch (iso_text (clock k)) no_extra
      (update_missions (\<lambda>m. m_id m = m_id r) ?f k) = Inr k'"
    using commit_latch_InrD(1)[OF assms(1)] by blast
  note o = overlay_commit[OF e commit_latch_InrD(2)[OF assms(1)] assms(2-4) _ _ ov]
  show "closes k k'" by (rule o(1)) (simp_all add: life_def)
  show "fresh = ?f r" by (rule o(2)) (simp_all add: life_def)
  show "missions k' = update_where (\<lambda>m. m_id m = m_id r) ?f (missions k)" by (rule o(3)) (simp_all add: life_def)
  show "get_mission (m_id r) k' = Some fresh" by (rule o(4)) (simp_all add: life_def)
qed

lemma expiry_frame:
  assumes "kernel_ok k" "r \<in> set (missions k)" "apply_expiry r k = (k', Inr m)"
  shows "closes k k'" "kernel_ok k'" "m \<in> set (missions k')" "m_id m = m_id r" "only_below (shape_of k) {m_id r} k k'"
proof -
  show c: "closes k k'" by (rule apply_expiry_closes[OF assms(3)])
  show "kernel_ok k'" by (rule closes_ok[OF c assms(1)])
  show "m \<in> set (missions k')" "m_id m = m_id r" using apply_expiry_current[OF assms] by simp_all
  have rd: "ready (height (shape_of k)) (shape_of k) k" using assms(1) sound_ready by (simp add: kernel_ok_def)
  show "only_below (shape_of k) {m_id r} k k'"
  proof (cases "m_state r = Terminated")
    case True
    then have "observe k r = r" by (simp add: observe_def observe_at_terminated)
    then have "k' = k" using assms(3) True by (simp add: apply_expiry_def EXPIRY_RETRIES_def numeral_2_eq_2)
    then show ?thesis by simp
  next
    case False
    then show ?thesis using total.apply_expiry_total[OF height_fuel rd assms(2) False] assms(3) by (auto simp: apply_expiry_def)
  qed
qed

lemma closes_shape: "closes k k' \<Longrightarrow> shape_of k' = shape_of k"
  using evolves_parents[of k k'] by (simp add: closes_def shape_of_def)

text \<open>The siblings of a child keep their rows while the child is latched.\<close>

lemma siblings_stay:
  assumes "kernel_ok k" "set (c # cs) \<subseteq> set (missions k)" "distinct (map m_id (c # cs))" "\<forall>x \<in> set (c # cs). m_parent x = Some p"
    and "only_below (shape_of k) {m_id c} k k2"
  shows "set cs \<subseteq> set (missions k2)"
proof
  fix d
  assume d: "d \<in> set cs"
  have s: "(m_id d, Some p) \<in> set (shape_of k)" "(m_id c, Some p) \<in> set (shape_of k)"
    using d assms(2,4) by (force simp: shape_of_def)+
  have "m_id c \<noteq> m_id d" using assms(3) d by auto
  moreover have "distinct (map fst (shape_of k))" "falls (height (shape_of k)) (shape_of k)"
    using sound_ready assms(1) by (simp_all add: ready_def kernel_ok_def)
  ultimately have "\<not> below (shape_of k) (m_id c) (m_id d)" using siblings_apart[OF _ _ s(2,1)] by blast
  then show "d \<in> set (missions k2)" using assms(2,5) d by (auto simp: only_below_def)
qed

definition frames :: "latcher \<Rightarrow> bool" where
  "frames rec = (\<forall>r ds k k' res. kernel_ok k \<longrightarrow> r \<in> set (missions k) \<longrightarrow> m_state r \<noteq> Terminated \<longrightarrow> rec r ds k = (k', res) \<longrightarrow>
     closes k k' \<and> only_below (shape_of k) {m_id r} k k')"

lemma latch_children_frame:
  assumes "frames rec"
  shows "latch_children rec uc digest parent cd ed cs k = (k', res) \<Longrightarrow> kernel_ok k \<Longrightarrow> set cs \<subseteq> set (missions k) \<Longrightarrow>
    distinct (map m_id cs) \<Longrightarrow> \<forall>x \<in> set cs. m_parent x = Some p \<Longrightarrow>
    closes k k' \<and> only_below (shape_of k) (m_id ` set cs) k k'"
proof (induction cs arbitrary: k)
  case Nil
  then show ?case by simp
next
  case (Cons c cs)
  obtain k1 r1 where ae: "apply_expiry c k = (k1, r1)" by (cases "apply_expiry c k")
  have c1: "closes k k1" by (rule apply_expiry_closes[OF ae])
  have mem: "c \<in> set (missions k)" using Cons.prems(3) by simp
  have mono: "only_below (shape_of k) {m_id c} a b \<Longrightarrow> only_below (shape_of k) (m_id ` set (c # cs)) a b" for a b
    by (auto simp: only_below_def)
  show ?case
  proof (cases r1)
    case (Inl e)
    have rd: "ready (height (shape_of k)) (shape_of k) k" using Cons.prems(2) sound_ready by (simp add: kernel_ok_def)
    have "\<exists>m. r1 = Inr m"
    proof (cases "m_state c = Terminated")
      case True
      then have "observe k c = c" by (simp add: observe_def observe_at_terminated)
      then show ?thesis using ae True by (auto simp: apply_expiry_def EXPIRY_RETRIES_def numeral_2_eq_2)
    next
      case False
      then show ?thesis using total.apply_expiry_total[OF height_fuel rd mem False] ae by (auto simp: apply_expiry_def)
    qed
    then show ?thesis using Inl by simp
  next
    case (Inr fresh)
    note f = expiry_frame[OF Cons.prems(2) mem ae[unfolded Inr]]
    have rest: "closes k k2 \<Longrightarrow> only_below (shape_of k) {m_id c} k k2 \<Longrightarrow>
        latch_children rec uc digest parent cd ed cs k2 = (k', res) \<Longrightarrow>
        closes k k' \<and> only_below (shape_of k) (m_id ` set (c # cs)) k k'" for k2
    proof -
      assume a: "closes k k2" "only_below (shape_of k) {m_id c} k k2" "latch_children rec uc digest parent cd ed cs k2 = (k', res)"
      have st: "set cs \<subseteq> set (missions k2)" by (rule siblings_stay[OF Cons.prems(2-5) a(2)])
      have "closes k2 k' \<and> only_below (shape_of k2) (m_id ` set cs) k2 k'"
        by (rule Cons.IH[OF a(3) closes_ok[OF a(1) Cons.prems(2)] st]) (use Cons.prems(4,5) in simp_all)
      then show "closes k k' \<and> only_below (shape_of k) (m_id ` set (c # cs)) k k'"
        using closes_trans[OF a(1)] a(2) closes_shape[OF a(1)] by (auto simp: only_below_def)
    qed
    show ?thesis
    proof (cases "m_state fresh = Terminated")
      case True
      then show ?thesis using Cons.prems(1) rest[OF f(1,5)] by (simp add: ae Inr)
    next
      case live: False
      show ?thesis
      proof (cases "child_latches uc digest parent ed cd fresh [] (m_authority_set fresh)")
        case (Inl e)
        then show ?thesis using Cons.prems(1) live f(1) mono[OF f(5)] by (simp add: ae Inr)
      next
        case ls: (Inr ls)
        show ?thesis
        proof (cases ls)
          case Nil
          then show ?thesis using Cons.prems(1) live rest[OF f(1,5)] ls by (simp add: ae Inr)
        next
          case dl: (Cons d ds)
          obtain k2 r2 where rc: "rec fresh (d # ds) k1 = (k2, r2)" by (cases "rec fresh (d # ds) k1")
          have "closes k1 k2 \<and> only_below (shape_of k1) {m_id fresh} k1 k2"
            using assms f(2,3) live rc unfolding frames_def by blast
          then have b: "closes k k2" "only_below (shape_of k) {m_id c} k k2"
            using closes_trans[OF f(1)] f(4,5) closes_shape[OF f(1)] only_below_trans by auto
          then show ?thesis
            using Cons.prems(1) live ls dl rc rest[OF b] mono[OF b(2)] by (cases r2) (simp_all add: ae Inr)
        qed
      qed
    qed
  qed
qed

lemma children_listed:
  assumes "kernel_ok k"
  shows "set (find_children p k) \<subseteq> set (missions k)" "distinct (map m_id (find_children p k))"
    "\<forall>c \<in> set (find_children p k). m_parent c = Some p"
proof -
  have "mission_keyed k" using assms sound_keyed by (simp add: kernel_ok_def)
  then show "set (find_children p k) \<subseteq> set (missions k)" "distinct (map m_id (find_children p k))"
    "\<forall>c \<in> set (find_children p k). m_parent c = Some p"
    by (auto simp: find_children_def select_all_def keyed_def intro: distinct_map_filter)
qed

lemma children_below:
  "only_below (shape_of k) (m_id ` set (find_children p k)) a b \<Longrightarrow> only_below (shape_of k) {p} a b"
proof (erule only_below_mono)
  fix a
  assume "a \<in> m_id ` set (find_children p k)"
  then have "(a, Some p) \<in> set (shape_of k)" by (force simp: find_children_def select_all_def shape_of_def)
  then show "\<exists>b \<in> {p}. below (shape_of k) b a" by (auto intro: below.child below.self)
qed

lemma latch_each_frame:
  assumes "frames rec"
  shows "latch_each rec uc digest parent cd ds k = (k', res) \<Longrightarrow> kernel_ok k \<Longrightarrow>
    closes k k' \<and> only_below (shape_of k) {m_id parent} k k'"
proof (induction ds arbitrary: k)
  case (Cons d ds)
  obtain k1 r1 where l: "latch_children rec uc digest parent cd d (find_children (m_id parent) k) k = (k1, r1)"
    by (cases "latch_children rec uc digest parent cd d (find_children (m_id parent) k) k")
  have c: "closes k k1" "only_below (shape_of k) {m_id parent} k k1"
    using latch_children_frame[OF assms l Cons.prems(2) children_listed[OF Cons.prems(2)]] children_below by blast+
  show ?case
  proof (cases r1)
    case (Inl e)
    then show ?thesis using Cons.prems(1) l c by simp
  next
    case (Inr u)
    then have "latch_each rec uc digest parent cd ds k1 = (k', res)" using Cons.prems(1) l by simp
    then show ?thesis
      using Cons.IH[OF _ closes_ok[OF c(1) Cons.prems(2)]] closes_trans[OF c(1)] c(2) closes_shape[OF c(1)] only_below_trans by metis
  qed
qed simp

lemma commit_latch_below:
  assumes "commit_latch uc digest r ds k = Inr (k', fresh)" "kernel_ok k" "r \<in> set (missions k)" "m_state r \<noteq> Terminated"
  shows "closes k k'" "kernel_ok k'" "only_below (shape_of k) {m_id r} k k'" "m_id fresh = m_id r"
proof -
  have key: "mission_keyed k" using assms(2) sound_keyed by (simp add: kernel_ok_def)
  note c = commit_latch_closes[OF assms(1) key assms(3,4)]
  show "closes k k'" by (rule c(1))
  then show "kernel_ok k'" using closes_ok assms(2) by blast
  show "m_id fresh = m_id r" using c(2) by simp
  show "only_below (shape_of k) {m_id r} k k'"
    unfolding only_below_def
  proof (intro ballI impI)
    fix m
    assume m: "m \<in> set (missions k)" "\<forall>a \<in> {m_id r}. \<not> below (shape_of k) a (m_id m)"
    then have "m_id m \<noteq> m_id r" using below.self by force
    then show "m \<in> set (missions k')" using m(1) unfolding c(3) by (force simp: update_where_def)
  qed
qed

lemma latch_then_each:
  assumes "frames rec" "kernel_ok k" "r \<in> set (missions k)" "m_state r \<noteq> Terminated"
    and "(case commit_latch uc digest r ds k of Inl e \<Rightarrow> (k, Inl e)
      | Inr (k1, fresh) \<Rightarrow> (case latch_each rec uc digest fresh cd ds k1 of (k2, Inl e) \<Rightarrow> (k2, Inl e) | (k2, Inr _) \<Rightarrow> (k2, Inr fresh))) = (k', res)"
  shows "closes k k' \<and> only_below (shape_of k) {m_id r} k k'"
proof (cases "commit_latch uc digest r ds k")
  case (Inl e)
  then show ?thesis using assms(5) by simp
next
  case (Inr x)
  obtain k1 fresh where x: "x = (k1, fresh)" by fastforce
  note b = commit_latch_below[OF Inr[unfolded x] assms(2-4)]
  obtain k2 r2 where l: "latch_each rec uc digest fresh cd ds k1 = (k2, r2)" by fastforce
  have "k' = k2" using assms(5) Inr x l by (cases r2) auto
  then show ?thesis
    using latch_each_frame[OF assms(1) l b(2)] closes_trans[OF b(1)] b(3,4) closes_shape[OF b(1)] only_below_trans by auto
qed

lemma latch_n_frames: "frames (latch_n n uc digest cd)"
proof (induction n)
  case 0
  then show ?case by (simp add: frames_def)
next
  case (Suc n)
  show ?case unfolding frames_def
  proof (intro allI impI)
    fix r ds k k' res
    assume a: "kernel_ok k" "r \<in> set (missions k)" "m_state r \<noteq> Terminated" "latch_n (Suc n) uc digest cd r ds k = (k', res)"
    show "closes k k' \<and> only_below (shape_of k) {m_id r} k k'"
      by (rule latch_then_each[OF Suc.IH a(1-3)]) (use a(4) in \<open>simp only: latch_n.simps\<close>)
  qed
qed

lemma propagate_latch_closes:
  "propagate_latch uc digest cd fresh ds k = (k', res) \<Longrightarrow> kernel_ok k \<Longrightarrow> closes k k'"
  unfolding propagate_latch_def using latch_each_frame[OF latch_n_frames] by blast

lemma latch_discharge_closes:
  assumes "latch_discharge uc digest cd r ds k = (k', res)" "kernel_ok k" "r \<in> set (missions k)" "m_state r \<noteq> Terminated"
  shows "closes k k'"
proof (cases "commit_latch uc digest r ds k")
  case (Inl e)
  then show ?thesis using assms(1) by (simp add: latch_discharge_def)
next
  case (Inr x)
  obtain k1 fresh where x: "x = (k1, fresh)" by fastforce
  note b = commit_latch_below[OF Inr[unfolded x] assms(2-4)]
  obtain k2 r2 where l: "propagate_latch uc digest cd fresh ds k1 = (k2, r2)" by fastforce
  have "k' = k2" using assms(1) Inr x l by (cases r2) (auto simp: latch_discharge_def)
  then show ?thesis using propagate_latch_closes[OF l b(2)] closes_trans[OF b(1)] by blast
qed

end
