(* ===== verification/Lifecycle_Props.thy ===== *)
theory Lifecycle_Props
  imports Lifecycle_Reach Discharge_Latch
begin

text \<open>
  The kernel's step relation over the lifecycle operations and the properties of every
  reachable kernel.
\<close>

section \<open>Steps\<close>

definition new_kernel :: "outbox \<Rightarrow> int \<Rightarrow> int \<Rightarrow> kernel" where
  "new_kernel ob now_ms retention =
     \<lparr>missions = [], k_outbox = ob, k_tombstones = [], continuations = \<lparr>anchors = [], handles = [], cs_fresh = 0\<rparr>,
      delegation_families = [], bound_grants = [], clock = now_ms, tombstone_retention = retention\<rparr>"

text \<open>
  The record of a carried child: under its prospective parent, the successor or a
  replacement inserted before it in the same transaction, which is active.
\<close>

definition replacement_record :: "mission \<Rightarrow> kernel \<Rightarrow> bool" where
  "replacement_record r k = (m_state r = Active \<and> m_version r = 1 \<and> m_projected_from r = None \<and>
     list_ex (\<lambda>p. m_parent r = Some (m_id p) \<and> m_state p = Active) (missions k))"

text \<open>
  Every operation of the code that writes the kernel's records or lineages.  Session
  anchors have no constructor: nothing but tests roots or ends one.
\<close>

inductive kernel_step :: "kernel \<Rightarrow> kernel \<Rightarrow> bool" where
  approve: "insert_record iss q precond comps r k = Inr k' \<Longrightarrow> root_record r \<Longrightarrow> kernel_step k k'"
| child: "create_child iss q refusal comps p c k = (k', res) \<Longrightarrow> kernel_step k k'"
| request: "transition mid op v s k = (k', answer) \<Longrightarrow> kernel_step k k'"
| gate: "materialize_expiry mid k = Inr (k', m) \<Longrightarrow> kernel_step k k'"
| timer: "fire_schedule mid gen k = Inr (k', fo, m') \<Longrightarrow> kernel_step k k'"
| redemption: "supersede succ tx k = Inr (k', pid) \<Longrightarrow> kernel_step k k'"
| carry: "carry_subtree jp rt rendered ct k = Inr (k', rows) \<Longrightarrow> kernel_step k k'"
| replacement: "insert_record iss q precond comps r k = Inr k' \<Longrightarrow> replacement_record r k \<Longrightarrow> kernel_step k k'"
| delegation: "delegate_family further g mid k = (k', answered) \<Longrightarrow> kernel_step k k'"
| hop: "continue_hop further i k = (k', answered_hop) \<Longrightarrow> kernel_step k k'"
| grant: "bind_grant mid g k = Inr k' \<Longrightarrow> kernel_step k k'"
| first_grant: "bind_first_grant mid g k = Inr (k', g') \<Longrightarrow> kernel_step k k'"
| prune: "k' = k\<lparr>k_tombstones := fst (prune_details n (k_tombstones k))\<rparr> \<Longrightarrow> kernel_step k k'"
| publish: "k' = k\<lparr>k_outbox := fst (publish_pending jp eff (k_outbox k))\<rparr> \<Longrightarrow> kernel_step k k'"
| narrowing: "contain uc digest mid q k = (k', answer) \<Longrightarrow> kernel_step k k'"
| latching: "latch_discharge uc digest cd r ds k = (k', answer) \<Longrightarrow> r \<in> set (missions k) \<Longrightarrow> m_state r \<noteq> Terminated \<Longrightarrow> kernel_step k k'"
| pass: "k' = k\<lparr>clock := n\<rparr> \<Longrightarrow> clock_ok k' \<Longrightarrow> kernel_step k k'"

inductive_cases kernel_stepE: "kernel_step k k'"

lemma publish_ids: "map e_event_id (ob_events (fst (publish_rows jp eff rows (ob, n)))) = map e_event_id (ob_events ob)
    \<and> ob_fresh (fst (publish_rows jp eff rows (ob, n))) = ob_fresh ob"
proof (induction rows arbitrary: ob n)
  case Nil
  then show ?case by simp
next
  case (Cons r rows)
  obtain ob1 n1 where e: "publish_rows jp eff (r # rows) (ob, n) = publish_rows jp eff rows (ob1, n1)"
    and o1: "map e_event_id (ob_events ob1) = map e_event_id (ob_events ob)" "ob_fresh ob1 = ob_fresh ob"
  proof -
    have u: "map e_event_id (ob_events (mark_published (e_seq r) ob)) = map e_event_id (ob_events ob)"
      "map e_event_id (ob_events (note_failure (e_seq r) x ob)) = map e_event_id (ob_events ob)"
      "ob_fresh (mark_published (e_seq r) ob) = ob_fresh ob" "ob_fresh (note_failure (e_seq r) x ob) = ob_fresh ob" for x
      by (simp_all add: mark_published_def note_failure_def)
    show thesis
      using that u by (cases "event_failure jp eff r") (auto simp: deliver_event_row_def)
  qed
  show ?case unfolding e using Cons.IH[of ob1 n1] o1 by simp
qed

lemma publish_fresh: "outbox_fresh ob \<Longrightarrow> outbox_fresh (fst (publish_pending jp eff ob))"
proof -
  let ?ob = "fst (publish_pending jp eff ob)"
  have "set (map e_event_id (ob_events ?ob)) = set (map e_event_id (ob_events ob))" "ob_fresh ?ob = ob_fresh ob"
    using publish_ids[of jp eff _ ob 0] by (simp_all add: publish_pending_def Let_def del: set_map)
  then show "outbox_fresh ob \<Longrightarrow> outbox_fresh ?ob"
    unfolding outbox_fresh_def by (metis (no_types, lifting) image_eqI imageE set_map)
qed

lemma frame_ok:
  assumes "kernel_ok k" "missions k' = missions k" "outbox_fresh (k_outbox k')" "clock_ok k'"
    and "\<And>m. sealed_row k m \<Longrightarrow> sealed_row k' m"
  shows "kernel_ok k'"
  using assms
  by (auto simp: kernel_ok_def sound_def shape_of_def closed_down_def children_terminated_def sealed_def list_all_iff)

lemma admit_facts:
  assumes "admit further mid k = (k1, res)"
  shows "closes k k1" "kernel_ok k \<Longrightarrow> res = Inr r \<Longrightarrow> r \<in> set (missions k1) \<and> m_id r = mid \<and> m_state r = Active"
proof -
  show "closes k k1"
    using assms by (auto simp: admit_def must_get_def split: option.splits prod.splits sum.splits if_splits intro: apply_expiry_closes)
  show "r \<in> set (missions k1) \<and> m_id r = mid \<and> m_state r = Active" if ok: "kernel_ok k" and r: "res = Inr r"
  proof -
    obtain stored k2 where s: "get_mission mid k = Some stored" "apply_expiry stored k = (k1, Inr r)" "m_state r = Active"
      using assms r by (auto simp: admit_def must_get_def split: option.splits prod.splits sum.splits if_splits)
    then have "stored \<in> set (missions k)" "m_id stored = mid" by (auto simp: get_mission_def dest: select_first_SomeD)
    then show ?thesis using apply_expiry_current[OF ok _ s(2)] s(3) by simp
  qed
qed

text \<open>A lineage recorded for a Mission that is not terminated leaves every seal in place.\<close>

lemma live_not_terminated:
  assumes "kernel_ok k" "r \<in> set (missions k)" "m_state r \<noteq> Terminated" "m \<in> set (missions k)" "m_state m = Terminated"
  shows "m_id m \<noteq> m_id r"
  using keyed_unique[of m_id, OF sound_keyed assms(4,2)] assms by (auto simp: kernel_ok_def)

lemma lineage_ok:
  assumes "kernel_ok k" "missions k' = missions k" "k_outbox k' = k_outbox k" "clock k' = clock k"
    and "\<And>m. m \<in> set (missions k) \<Longrightarrow> m_state m = Terminated \<Longrightarrow> sealed_row k m \<Longrightarrow> sealed_row k' m"
  shows "kernel_ok k'"
  using assms
  by (auto simp: kernel_ok_def sound_def shape_of_def closed_down_def children_terminated_def sealed_def list_all_iff clock_ok_def)

lemma recorded_family:
  "record_family n g mid fs = Some fs' \<Longrightarrow> \<exists>f. fs' = fs @ [f] \<and> f_grant_id f = g \<and> f_mission_id f = mid"
  by (auto simp: record_family_def split: if_splits)

lemma delegate_family_cases:
  assumes "delegate_family further g mid k = (k', res)"
  obtains (kept) "k' = k"
  | (made) fs f bs r where "fs = delegation_families k @ [f]" "f_mission_id f = mid"
      "admit further mid (k\<lparr>delegation_families := fs, bound_grants := bs\<rparr>) = (k', Inr r)"
  | (refused) fs f bs where "fs = delegation_families k @ [f]" "f_grant_id f = g"
      "k' = k\<lparr>bound_grants := bs, delegation_families := invalidate_family g fs\<rparr>"
  | (failed) fs f bs k2 e where "fs = delegation_families k @ [f]" "f_mission_id f = mid" "k' = k\<lparr>delegation_families := fs, bound_grants := bs\<rparr>"
      "admit further mid k' = (k2, Inl e)" "\<And>x. e \<noteq> GateError x"
proof -
  define bs where "bs = fst (insert_or_ignore fst (g, mid) (bound_grants k))"
  show thesis
  proof (cases "record_family (clock k) g mid (delegation_families k)")
    case None
    then show thesis using assms kept by (simp add: delegate_family_def)
  next
    case (Some fs)
    obtain f where f: "fs = delegation_families k @ [f]" "f_grant_id f = g" "f_mission_id f = mid"
      using recorded_family[OF Some] by blast
    obtain k2 ans where a: "admit further mid (k\<lparr>delegation_families := fs, bound_grants := bs\<rparr>) = (k2, ans)" by fastforce
    note d = assms[unfolded delegate_family_def Some option.case Let_def bs_def[symmetric] a prod.case]
    show thesis
    proof (cases ans)
      case (Inr r)
      then show thesis using d a made[OF f(1,3), of bs r] by simp
    next
      case (Inl e)
      show thesis
      proof (cases "\<exists>x. e = GateError x")
        case True
        then show thesis using d Inl refused[OF f(1,2)] by auto
      next
        case False
        then have "k' = k\<lparr>delegation_families := fs, bound_grants := bs\<rparr>" using d Inl by (cases e) auto
        then show thesis using failed[OF f(1,3)] a Inl False by blast
      qed
    qed
  qed
qed

lemma delegate_family_ok:
  assumes "delegate_family further g mid k = (k', res)" "kernel_ok k"
  shows "kernel_ok k'"
  using assms(1)
proof (cases rule: delegate_family_cases)
  case kept
  then show ?thesis using assms(2) by simp
next
  case (made fs f bs r)
  let ?k1 = "k\<lparr>delegation_families := fs, bound_grants := bs\<rparr>"
  obtain stored k2 where s: "get_mission mid k = Some stored" "apply_expiry stored ?k1 = (k', Inr r)" "m_state r = Active"
    using made(3) by (auto simp: admit_def must_get_def get_mission_def split: option.splits prod.splits sum.splits if_splits)
  have st: "stored \<in> set (missions k)" "m_id stored = mid" using s(1) by (auto simp: get_mission_def dest: select_first_SomeD)
  have "m_state stored \<noteq> Terminated"
  proof
    assume t: "m_state stored = Terminated"
    then have "observe ?k1 stored = stored" by (simp add: observe_def observe_at_terminated)
    then show False using s(2,3) t by (simp add: apply_expiry_def EXPIRY_RETRIES_def numeral_2_eq_2)
  qed
  then have nm: False if "m \<in> set (missions k)" "m_state m = Terminated" "f_mission_id f = m_id m" for m
    using live_not_terminated[OF assms(2) st(1) _ that(1,2)] st(2) made(2) that(3) by simp
  have "kernel_ok ?k1"
    by (intro lineage_ok[OF assms(2)]) (auto simp: sealed_row_def made(1) dest: nm)
  then show ?thesis using closes_ok[OF admit_facts(1)[OF made(3)]] by blast
next
  case (refused fs f bs)
  then show ?thesis
    by (intro lineage_ok[OF assms(2)]) (auto simp: sealed_row_def invalidate_family_def update_where_def list_all_iff)
next
  case (failed fs f bs k2 e)
  have nm: False if m: "m \<in> set (missions k)" "m_state m = Terminated" and i': "f_mission_id f = m_id m" for m
  proof -
    have i: "m_id m = mid" using i' failed(2) by simp
    have g: "get_mission mid k' = Some m"
      using keyed_select[OF sound_keyed m(1)] assms(2) i failed(3) by (simp add: get_mission_def kernel_ok_def)
    have "observe k' m = m" using m(2) by (simp add: observe_def observe_at_terminated)
    then have "apply_expiry m k' = (k', Inr m)" using m(2) by (simp add: apply_expiry_def EXPIRY_RETRIES_def numeral_2_eq_2)
    then have "admit further mid k' = (k', Inl (GateError mid))" using g m(2) by (simp add: admit_def must_get_def)
    then show False using failed(4,5) by simp
  qed
  show ?thesis unfolding failed(3) by (intro lineage_ok[OF assms(2)]) (auto simp: sealed_row_def failed(1) dest: nm)
qed

lemma continue_hop_cases:
  assumes "continue_hop further i k = (k', res)"
  obtains (refused) "closes k k'"
  | (made) k1 r db h where "admit further (mi_mission_id i) k = (k1, Inr r)" "mint (clock k1) i (continuations k1) = Some (db, h)"
      "k' = k1\<lparr>continuations := db\<rparr>"
  using assms admit_facts(1)
  by (fastforce simp: continue_hop_def split: prod.splits sum.splits option.splits)

lemma minted:
  "mint n i db = Some (db', h) \<Longrightarrow> anchors db' = anchors db \<and>
     (\<exists>r. handles db' = handles db @ [r] \<and> h_mission_id r = mi_mission_id i)"
  by (auto simp: mint_def Let_def split: option.splits if_splits)

lemma continue_hop_ok:
  assumes "continue_hop further i k = (k', res)" "kernel_ok k"
  shows "kernel_ok k'"
  using assms(1)
proof (cases rule: continue_hop_cases)
  case refused
  then show ?thesis using closes_ok assms(2) by blast
next
  case (made k1 r db h)
  note a = admit_facts[OF made(1)]
  have ok: "kernel_ok k1" using closes_ok[OF a(1) assms(2)] .
  have r: "r \<in> set (missions k1)" "m_id r = mi_mission_id i" "m_state r = Active" using a(2)[OF assms(2)] by simp_all
  obtain h' where h': "anchors db = anchors (continuations k1)" "handles db = handles (continuations k1) @ [h']"
    "h_mission_id h' = mi_mission_id i" using minted[OF made(2)] by blast
  have nm: False if "m \<in> set (missions k1)" "m_state m = Terminated" "mi_mission_id i = m_id m" for m
    using live_not_terminated[OF ok r(1) _ that(1,2)] r(2,3) that(3) by simp
  show ?thesis
    unfolding made(3) by (intro lineage_ok[OF ok]) (auto simp: sealed_row_def h' dest: nm)
qed

lemma step_ok:
  assumes "kernel_step k k'" "kernel_ok k"
  shows "kernel_ok k'"
  using assms(1)
proof (cases rule: kernel_step.cases)
  case (approve iss q precond comps r)
  show ?thesis
    by (rule insert_ok[OF approve(1) assms(2)]) (use approve(2) in \<open>simp_all add: root_record_def placed_def\<close>)
next
  case (child iss q refusal comps p c res)
  then show ?thesis using create_child_ok assms(2) by blast
next
  case (carry jp rt rendered ct rows)
  have "sound k" using assms(2) by (simp add: kernel_ok_def)
  from carry_subtree_facts[OF this, of jp rt rendered ct] obtain k1 rows1 where
    c: "carry_subtree jp rt rendered ct k = (case filter (\<lambda>e. \<not> retained jp k e) (unreached rt k rendered) of
         e # _ \<Rightarrow> Inl (SubtreeChanged (snd e)) | [] \<Rightarrow> Inr (k1, rows1))" "closes k k1" by blast
  then have "k' = k1" using carry by (auto split: list.splits)
  then show ?thesis using c(2) closes_ok assms(2) by simp
next
  case (replacement iss q precond comps r)
  have "placed r k"
    using replacement(2) live_not_terminated[OF assms(2)]
    by (fastforce simp: replacement_record_def placed_def terminated_in_def list_ex_iff)
  then show ?thesis
    using replacement(2) by (intro insert_ok[OF replacement(1) assms(2)]) (simp_all add: replacement_record_def)
next
  case (delegation further g mid ans)
  then show ?thesis using delegate_family_ok assms(2) by blast
next
  case (hop further i ans)
  then show ?thesis using continue_hop_ok assms(2) by blast
next
  case (prune n)
  have "sealed_row k m \<Longrightarrow> sealed_row k' m" for m
    using run_tombstone_op_exists[of "m_issuer m" "m_id m" "k_tombstones k" 0 "TPrune n"]
    by (simp add: sealed_row_def prune)
  then show ?thesis using assms(2) prune by (intro frame_ok[OF assms(2)]) (simp_all add: kernel_ok_def sound_def clock_ok_def)
next
  case (publish jp eff)
  then show ?thesis
    using assms(2) publish_fresh
    by (intro frame_ok[OF assms(2)]) (simp_all add: kernel_ok_def sound_def clock_ok_def sealed_row_def)
next
  case (pass n)
  then show ?thesis
    using assms(2) by (intro frame_ok[OF assms(2)]) (simp_all add: kernel_ok_def sound_def sealed_row_def)
next
  case (request mid op v s answer)
  show ?thesis by (rule closes_ok[OF transition_closes[OF request] assms(2)])
next
  case (gate mid m)
  show ?thesis by (rule closes_ok[OF materialize_closes[OF gate] assms(2)])
next
  case (timer mid gen fo m')
  show ?thesis by (rule closes_ok[OF fire_closes[OF timer] assms(2)])
next
  case (redemption succ tx pid)
  show ?thesis by (rule closes_ok[OF supersede_closes[OF redemption] assms(2)])
next
  case (narrowing uc digest mid q answer)
  show ?thesis by (rule closes_ok[OF contain_closes[OF narrowing assms(2)] assms(2)])
next
  case (latching uc digest cd r ds answer)
  show ?thesis by (rule closes_ok[OF latch_discharge_closes[OF latching(1) assms(2) latching(2,3)] assms(2)])
next
  case (grant mid g)
  show ?thesis by (rule closes_ok[OF bind_grant_closes[OF grant] assms(2)])
next
  case (first_grant mid g g')
  show ?thesis by (rule closes_ok[OF bind_first_grant_closes[OF first_grant] assms(2)])
qed

lemma steps_ok: "kernel_step\<^sup>*\<^sup>* k k' \<Longrightarrow> kernel_ok k \<Longrightarrow> kernel_ok k'"
  by (induction rule: rtranclp_induct) (auto intro: step_ok)

lemma new_kernel_ok:
  "date_parse (iso_text now_ms) \<noteq> None \<Longrightarrow> ob_events ob = [] \<Longrightarrow> kernel_ok (new_kernel ob now_ms ret)"
  by (simp add: kernel_ok_def sound_def closed_down_def sealed_def new_kernel_def shape_of_def outbox_fresh_def clock_ok_def)

section \<open>Rows only evolve\<close>

definition grows :: "kernel \<Rightarrow> kernel \<Rightarrow> bool" where
  "grows k k' = list_all (\<lambda>m. list_ex (row_evolves m) (missions k')) (missions k)"

lemma evolves_grows: "evolves k k' \<Longrightarrow> grows k k'"
  using evolves_forward[of k k'] by (auto simp: grows_def list_all_iff list_ex_iff)

lemma same_grows: "missions k' = missions k @ rs \<Longrightarrow> grows k k'"
  by (auto simp: grows_def list_all_iff list_ex_iff)

lemma grows_trans: "grows a b \<Longrightarrow> grows b c \<Longrightarrow> grows a c"
  unfolding grows_def list_all_iff list_ex_iff by (meson row_evolves_trans)

lemma create_child_grows:
  assumes "create_child iss q refusal comps p c k = (k', res)"
  shows "grows k k'"
proof (cases "get_mission p k")
  case None
  then show ?thesis using assms by (auto simp: create_child_def must_get_def intro: same_grows[of _ _ "[]"])
next
  case (Some stored)
  obtain k1 r1 where ae: "apply_expiry stored k = (k1, r1)" by (cases "apply_expiry stored k")
  have g1: "grows k k1" using apply_expiry_closes[OF ae] by (simp add: closes_def evolves_grows)
  have "k' = k1 \<or> (\<exists>r pre. insert_record iss q pre comps r k1 = Inr k')"
    using assms Some ae by (auto simp: create_child_def must_get_def Let_def split: sum.splits if_splits)
  then have "grows k1 k'" using insert_record_InrD(2) same_grows same_grows[of k1 k1 "[]"] by fastforce
  then show ?thesis using g1 grows_trans by blast
qed

lemma closes_grows: "closes k k' \<Longrightarrow> grows k k'"
  by (simp add: closes_def evolves_grows)

lemma delegate_family_grows:
  assumes "delegate_family further g mid k = (k', res)"
  shows "grows k k'"
  using assms
proof (cases rule: delegate_family_cases)
  case (made fs f bs r)
  have "grows (k\<lparr>delegation_families := fs, bound_grants := bs\<rparr>) k'" using closes_grows[OF admit_facts(1)[OF made(3)]] .
  then show ?thesis by (simp add: grows_def)
qed (simp_all add: same_grows[of _ _ "[]"])

lemma continue_hop_grows:
  assumes "continue_hop further i k = (k', res)"
  shows "grows k k'"
  using assms
proof (cases rule: continue_hop_cases)
  case refused
  then show ?thesis by (rule closes_grows)
next
  case (made k1 r db h)
  then show ?thesis using closes_grows[OF admit_facts(1)[OF made(1)]] by (simp add: grows_def)
qed

lemma carry_subtree_evolves: "carry_subtree jp rt rendered ct k = Inr (k', rows) \<Longrightarrow> evolves k k'"
  by (auto simp: carry_subtree_def Let_def split: sum.splits if_splits option.splits dest: carry_each_facts)

lemma step_grows:
  assumes "kernel_step k k'" "kernel_ok k"
  shows "grows k k'"
  using assms(1)
proof (cases rule: kernel_step.cases)
  case (approve iss q precond comps r)
  then show ?thesis using insert_record_InrD(2) same_grows by blast
next
  case (child iss q refusal comps p c res)
  then show ?thesis using create_child_grows by blast
next
  case (carry jp rt rendered ct rows)
  then show ?thesis using carry_subtree_evolves evolves_grows by blast
next
  case (replacement iss q precond comps r)
  then show ?thesis using insert_record_InrD(2) same_grows by blast
next
  case (delegation further g mid ans)
  then show ?thesis using delegate_family_grows by blast
next
  case (hop further i ans)
  then show ?thesis using continue_hop_grows by blast
next
  case (request mid op v s answer)
  show ?thesis by (rule closes_grows[OF transition_closes[OF request]])
next
  case (gate mid m)
  show ?thesis by (rule closes_grows[OF materialize_closes[OF gate]])
next
  case (timer mid gen fo m')
  show ?thesis by (rule closes_grows[OF fire_closes[OF timer]])
next
  case (redemption succ tx pid)
  show ?thesis by (rule closes_grows[OF supersede_closes[OF redemption]])
next
  case (narrowing uc digest mid q answer)
  show ?thesis by (rule closes_grows[OF contain_closes[OF narrowing assms(2)]])
next
  case (latching uc digest cd r ds answer)
  show ?thesis by (rule closes_grows[OF latch_discharge_closes[OF latching(1) assms(2) latching(2,3)]])
next
  case (grant mid g)
  show ?thesis by (rule closes_grows[OF bind_grant_closes[OF grant]])
next
  case (first_grant mid g g')
  show ?thesis by (rule closes_grows[OF bind_first_grant_closes[OF first_grant]])
qed (simp_all add: same_grows[of _ _ "[]"])

lemma steps_grow: "kernel_step\<^sup>*\<^sup>* k k' \<Longrightarrow> kernel_ok k \<Longrightarrow> grows k k'"
proof (induction rule: rtranclp_induct)
  case base
  show ?case by (rule same_grows[of _ _ "[]"]) simp
next
  case (step b c)
  then show ?case using step_grows steps_ok grows_trans by blast
qed

section \<open>Operations on a well-formed kernel succeed\<close>

lemma ok_sound: "kernel_ok k \<Longrightarrow> sound k"
  by (simp add: kernel_ok_def)

lemma get_in: "get_mission mid k = Some m \<Longrightarrow> m \<in> set (missions k) \<and> m_id m = mid"
  by (auto simp: get_mission_def dest: select_first_SomeD)

lemma get_current: "sound k \<Longrightarrow> m \<in> set (missions k) \<Longrightarrow> get_mission (m_id m) k = Some m"
  using keyed_select[OF sound_keyed] by (simp add: get_mission_def)

lemma set_state_succeeds:
  assumes "sound k" "r \<in> set (missions k)" "m_state r \<noteq> Terminated" "opts_ok to opts"
    "to = Terminated \<longrightarrow> o_termination opts \<noteq> None"
  shows "\<exists>k'. set_state r to opts k = Inr (k', written_row r to opts (iso_text (clock k)) r) \<and> sound k' \<and>
    written_row r to opts (iso_text (clock k)) r \<in> set (missions k') \<and>
    only_below (shape_of k) {m_id r} k k'"
proof -
  obtain k' where k': "set_state r to opts k = Inr (k', written_row r to opts (iso_text (clock k)) r)"
    "written_row r to opts (iso_text (clock k)) r \<in> set (missions k')" "only_below (shape_of k) {m_id r} k k'"
    using total.total[OF height_fuel sound_ready[OF assms(1)] assms(2-5)] by (auto simp: succeeds_def set_state_def)
  moreover have "sound k'"
    using set_state_closes[OF k'(1) assms(4)] evolves_sound[of k k'] assms(1) by (simp add: closes_def)
  ultimately show ?thesis by blast
qed

lemma apply_expiry_succeeds:
  assumes "kernel_ok k" "r \<in> set (missions k)"
  shows "\<exists>k' m. apply_expiry r k = (k', Inr m) \<and> kernel_ok k' \<and> m_id m = m_id r \<and>
    m \<in> set (missions k')"
proof -
  have "\<exists>k' m. apply_expiry r k = (k', Inr m)"
  proof (cases "m_state r = Terminated")
    case True
    then show ?thesis
      by (simp add: apply_expiry_def EXPIRY_RETRIES_def numeral_2_eq_2 observe_def observe_at_terminated)
  next
    case False
    from total.apply_expiry_total[OF height_fuel sound_ready[OF ok_sound[OF assms(1)]] assms(2) False]
    show ?thesis by (auto simp: apply_expiry_def)
  qed
  then obtain k' m where ae: "apply_expiry r k = (k', Inr m)" by blast
  then show ?thesis
    using apply_expiry_current[OF assms ae] closes_ok[OF apply_expiry_closes[OF ae] assms(1)] by blast
qed

lemma replace_schedule_succeeds:
  assumes "sound k" "r \<in> set (missions k)" "m_state r = Suspended"
  shows "\<exists>k' m. replace_schedule r s k = Inr (k', m) \<and> get_mission (m_id r) k' = Some m \<and>
    m = r\<lparr>m_schedule := Some (schedule_of s (m_version r + 1)), m_version := m_version r + 1\<rparr>"
proof -
  let ?here = "\<lambda>m. m_id m = m_id r \<and> m_version m = m_version r \<and> m_state m = Suspended"
  let ?f = "\<lambda>m. m\<lparr>m_schedule := Some (schedule_of s (m_version r + 1)), m_version := m_version m + 1\<rparr>"
  have "?here = row_is r" using assms(3) by (simp add: row_is_def fun_eq_iff)
  then have one: "affected ?here (missions k) = 1"
    using filter_current[OF sound_keyed[OF assms(1)] assms(2)] by (simp add: affected_def)
  have g: "get_mission (m_id r) (update_missions ?here ?f k) = Some (?f r)"
    using get_current[OF assms(1,2)] assms(3) by (simp add: get_mission_def update_missions_def select_update_where)
  obtain fresh k' where "get_mission (m_id r) (update_missions ?here ?f k) = Some fresh"
    and e: "emit_commit fresh (Some Suspended) False (iso_text (clock k))
       \<lparr>x_schedule = map_option schedule_request.truncate (m_schedule (?f r)), x_applied = None\<rparr> (update_missions ?here ?f k) = Inr k'"
    using raw_update_total[OF assms(1) one, of "m_id r" ?f Suspended] by fastforce
  moreover have "get_mission (m_id r) k' = Some (?f r)"
    using g emit_commit_frame[OF e] by (simp add: get_mission_def)
  ultimately show ?thesis using one g by (simp add: replace_schedule_def Let_def must_get_def)
qed

section \<open>Requested transitions\<close>

text \<open>The record a request is decided on: the stored row with its expiry clock run.\<close>

definition decided_on :: "string \<Rightarrow> kernel \<Rightarrow> mission option" where
  "decided_on mid k =
     (case get_mission mid k of None \<Rightarrow> None
      | Some stored \<Rightarrow> (case snd (apply_expiry stored k) of Inl _ \<Rightarrow> None | Inr m \<Rightarrow> Some m))"

text \<open>
  What each operation asks for, and what a request for it is refused with: the contract
  the answers are compared with, written out operation by operation.
\<close>

fun goal_of :: "lifecycle_operation \<Rightarrow> mission_state \<times> string option" where
  "goal_of Suspend = (Suspended, None)"
| "goal_of Resume = (Active, None)"
| "goal_of Revoke = (Terminated, Some ''revoked'')"
| "goal_of Complete = (Terminated, Some ''completed'')"

fun may_start :: "lifecycle_operation \<Rightarrow> mission_state \<Rightarrow> bool" where
  "may_start Suspend st = (st = Active)"
| "may_start Resume st = (st = Suspended)"
| "may_start Revoke st = (st = Active \<or> st = Suspended)"
| "may_start Complete st = (st = Active \<or> st = Suspended)"

definition in_goal :: "lifecycle_operation \<Rightarrow> mission \<Rightarrow> bool" where
  "in_goal op r = (op \<noteq> Resume \<and> m_state r = fst (goal_of op) \<and>
     (snd (goal_of op) \<noteq> None \<longrightarrow> map_option t_reason (m_termination r) = snd (goal_of op)))"

definition refused_with ::
    "string \<Rightarrow> lifecycle_operation \<Rightarrow> int option \<Rightarrow> schedule_request option \<Rightarrow> kernel \<Rightarrow> kernel_error option" where
  "refused_with mid op v s k =
     (if s \<noteq> None \<and> op \<noteq> Suspend then Some (InvalidCall mid)
      else case decided_on mid k of
        None \<Rightarrow> Some (NotFound mid)
      | Some r \<Rightarrow>
          if v \<noteq> None \<and> v \<noteq> Some (m_version r) then Some StaleVersion
          else if in_goal op r \<or> may_start op (m_state r) then None
          else Some (Conflict mid))"

definition granted ::
    "lifecycle_operation \<Rightarrow> schedule_request option \<Rightarrow> mission \<Rightarrow> mission \<Rightarrow> bool" where
  "granted op s r m =
     (if in_goal op r \<and> (case s of None \<Rightarrow> True | Some x \<Rightarrow> same_schedule (m_schedule r) x) then m = r
      else m_id m = m_id r \<and> m_state m = fst (goal_of op) \<and> m_version m = m_version r + 1 \<and>
        (snd (goal_of op) \<noteq> None \<longrightarrow> map_option t_reason (m_termination m) = snd (goal_of op)) \<and>
        m_schedule m = map_option (\<lambda>x. schedule_of x (m_version r + 1)) s)"

definition answered :: "string \<Rightarrow> lifecycle_operation \<Rightarrow> int option \<Rightarrow> schedule_request option \<Rightarrow> kernel \<Rightarrow>
    kernel \<times> (kernel_error + mission) \<Rightarrow> bool" where
  "answered mid op v s k res =
     (case refused_with mid op v s k of
        Some e \<Rightarrow> snd res = Inl e
      | None \<Rightarrow> \<exists>r m. snd res = Inr m \<and> decided_on mid k = Some r \<and> m_id r = mid \<and> granted op s r m \<and>
          get_mission mid (fst res) = Some m)"

lemma legal_goal:
  "rule_to (LEGAL_TRANSITIONS op) = fst (goal_of op)" "rule_reason (LEGAL_TRANSITIONS op) = snd (goal_of op)"
  "st \<in> set (rule_from (LEGAL_TRANSITIONS op)) \<longleftrightarrow> may_start op st"
  "fst (goal_of op) = Terminated \<longleftrightarrow> snd (goal_of op) \<noteq> None"
  by (cases op; auto simp: LEGAL_TRANSITIONS_def)+

lemma set_state_answer:
  assumes "kernel_ok k1" "r \<in> set (missions k1)" "may_start op (m_state r)" "s = None \<or> op = Suspend"
  shows "\<exists>k' m. set_state r (fst (goal_of op))
      (no_opts\<lparr>o_termination := map_option bare_termination (snd (goal_of op)), o_schedule := s\<rparr>) k1 = Inr (k', m) \<and>
    granted op s r m \<and> get_mission (m_id r) k' = Some m"
proof -
  let ?o = "no_opts\<lparr>o_termination := map_option bare_termination (snd (goal_of op)), o_schedule := s\<rparr>"
  let ?w = "written_row r (fst (goal_of op)) ?o (iso_text (clock k1)) r"
  have live: "m_state r \<noteq> Terminated" using assms(3) by (cases op) auto
  have t: "fst (goal_of op) = Terminated \<longrightarrow> o_termination ?o \<noteq> None" by (cases op) simp_all
  obtain k' where k': "set_state r (fst (goal_of op)) ?o k1 = Inr (k', ?w)" "sound k'" "?w \<in> set (missions k')"
    using set_state_succeeds[OF ok_sound[OF assms(1)] assms(2) live _ t] by auto
  have "get_mission (m_id r) k' = Some ?w" using get_current[OF k'(2,3)] by simp
  moreover have "\<not> in_goal op r" using assms(3) by (cases op) (auto simp: in_goal_def)
  then have "granted op s r ?w"
    using assms(4) by (cases op)
      (auto simp: granted_def written_row_def new_schedule_def no_opts_def committed_termination_def bare_termination_def)
  ultimately show ?thesis using k'(1) by blast
qed

lemma transition_answered:
  assumes "kernel_ok k"
  shows "answered mid op v s k (transition mid op v s k)"
proof (cases "s \<noteq> None \<and> op \<noteq> Suspend \<or> get_mission mid k = None")
  case True
  then show ?thesis by (auto simp: transition_def answered_def refused_with_def decided_on_def must_get_def)
next
  case False
  then obtain stored where g: "get_mission mid k = Some stored" by auto
  have so: "s = None \<or> op = Suspend" using False by blast
  have st: "stored \<in> set (missions k)" "m_id stored = mid" using get_in[OF g] by simp_all
  obtain k1 r where ae: "apply_expiry stored k = (k1, Inr r)" "kernel_ok k1" "m_id r = mid"
    "r \<in> set (missions k1)"
    using apply_expiry_succeeds[OF assms st(1)] st(2) by blast
  have d: "decided_on mid k = Some r" using g ae(1) by (simp add: decided_on_def)
  have cur: "get_mission mid k1 = Some r"
    using ae(3,4) get_current[OF ok_sound[OF ae(2)]] by blast
  have rf: "refused_with mid op v s k =
     (if v \<noteq> None \<and> v \<noteq> Some (m_version r) then Some StaleVersion
      else if in_goal op r \<or> may_start op (m_state r) then None else Some (Conflict mid))"
    using so by (auto simp: refused_with_def d)
  have tr: "transition mid op v s k =
     (if v \<noteq> None \<and> v \<noteq> Some (m_version r) then (k1, Inl StaleVersion)
      else if op = Suspend \<and> m_state r = Suspended then
        (case s of Some x \<Rightarrow> if same_schedule (m_schedule r) x then (k1, Inr r) else commit_or k1 (replace_schedule r x k1)
         | None \<Rightarrow> (k1, Inr r))
      else if in_goal op r then (k1, Inr r)
      else if \<not> may_start op (m_state r) then (k1, Inl (Conflict mid))
      else commit_or k1 (set_state r (fst (goal_of op))
         (no_opts\<lparr>o_termination := map_option bare_termination (snd (goal_of op)), o_schedule := s\<rparr>) k1))"
  proof -
    have c: "(s \<noteq> None \<and> op \<noteq> Suspend) = False" using so by auto
    have i: "(op \<noteq> Resume \<and> m_state r = fst (goal_of op) \<and>
        (fst (goal_of op) \<noteq> Terminated \<or> map_option t_reason (m_termination r) = snd (goal_of op))) = in_goal op r"
      unfolding in_goal_def legal_goal(4) by blast
    show ?thesis
      unfolding transition_def must_get_def g
      by (simp only: c if_False option.case sum.case ae(1) prod.case Let_def legal_goal(1-3) i)
  qed
  show ?thesis
  proof (cases "v \<noteq> None \<and> v \<noteq> Some (m_version r)")
    case True
    then show ?thesis by (simp add: answered_def rf tr)
  next
    case v: False
    show ?thesis
    proof (cases "op = Suspend \<and> m_state r = Suspended")
      case True
      then have ig: "in_goal op r" by (simp add: in_goal_def)
      have rn: "refused_with mid op v s k = None" using v ig unfolding rf by (simp only: if_False if_True simp_thms)
      have same: "answered mid op v s k (k1, Inr r)" if "case s of None \<Rightarrow> True | Some x \<Rightarrow> same_schedule (m_schedule r) x"
        using that d ae(3) cur ig by (simp add: answered_def rn granted_def)
      have new: "answered mid op v s k (commit_or k1 (replace_schedule r x k1))"
        if x: "s = Some x" "\<not> same_schedule (m_schedule r) x" for x
      proof -
        obtain k' m where m: "replace_schedule r x k1 = Inr (k', m)" "get_mission (m_id r) k' = Some m"
          "m = r\<lparr>m_schedule := Some (schedule_of x (m_version r + 1)), m_version := m_version r + 1\<rparr>"
          using replace_schedule_succeeds[OF ok_sound[OF ae(2)] ae(4), of x] True by blast
        have "granted op s r m" using x True by (simp add: granted_def m(3))
        then show ?thesis using m(1,2) d ae(3) by (simp add: answered_def rn commit_or_def)
      qed
      have "transition mid op v s k = (case s of Some x \<Rightarrow>
           if same_schedule (m_schedule r) x then (k1, Inr r) else commit_or k1 (replace_schedule r x k1)
         | None \<Rightarrow> (k1, Inr r))"
        using True v unfolding tr by (simp only: if_False if_True simp_thms)
      then show ?thesis using same new by (cases s) simp_all
    next
      case ns: False
      show ?thesis
      proof (cases "in_goal op r")
        case True
        have "s = None" using so ns True by (auto simp: in_goal_def)
        then have "granted op s r r" using True by (simp add: granted_def)
        moreover have "transition mid op v s k = (k1, Inr r)" using v ns True unfolding tr by (simp only: if_False if_True)
        moreover have "refused_with mid op v s k = None" using v True unfolding rf by (simp only: if_False if_True simp_thms)
        ultimately show ?thesis using d ae(3) cur by (simp add: answered_def)
      next
        case ng: False
        show ?thesis
        proof (cases "may_start op (m_state r)")
          case True
          obtain k' m where m: "set_state r (fst (goal_of op))
              (no_opts\<lparr>o_termination := map_option bare_termination (snd (goal_of op)), o_schedule := s\<rparr>) k1 = Inr (k', m)"
            "granted op s r m" "get_mission (m_id r) k' = Some m"
            using set_state_answer[OF ae(2,4) True so] by blast
          have "transition mid op v s k = (k', Inr m)"
            using v ns ng True unfolding tr m(1) by (simp only: if_False if_True simp_thms commit_or_def sum.case prod.case)
          moreover have "refused_with mid op v s k = None" using v True unfolding rf by (simp only: if_False if_True simp_thms)
          ultimately show ?thesis using m(2,3) d ae(3) by (simp add: answered_def)
        next
          case False
          then have "transition mid op v s k = (k1, Inl (Conflict mid))" "refused_with mid op v s k = Some (Conflict mid)"
            using v ns ng unfolding tr rf by (simp_all only: if_False if_True simp_thms)
          then show ?thesis by (simp add: answered_def)
        qed
      qed
    qed
  qed
qed

lemma transition_granted:
  assumes "kernel_ok k" "transition mid op v s k = (k', Inr m)"
  shows "get_mission mid k' = Some m" "m_state m = fst (goal_of op)"
proof -
  have "answered mid op v s k (k', Inr m)" using transition_answered[OF assms(1), of mid op v s] by (simp only: assms(2))
  then show "get_mission mid k' = Some m" "m_state m = fst (goal_of op)"
    by (auto simp: answered_def granted_def in_goal_def split: option.splits if_splits)
qed

section \<open>Observation\<close>

text \<open>The record and its ancestors, as far as the observation walks.\<close>

primrec ancestry :: "nat \<Rightarrow> kernel \<Rightarrow> mission \<Rightarrow> mission list" where
  "ancestry 0 k r = [r]"
| "ancestry (Suc n) k r = r #
     (case non_empty (m_parent r) of None \<Rightarrow> []
      | Some p \<Rightarrow> (case get_mission p k of None \<Rightarrow> [] | Some parent \<Rightarrow> ancestry n k parent))"

definition live_now :: "int \<Rightarrow> bool \<Rightarrow> mission \<Rightarrow> bool" where
  "live_now now_ms due_revoke m =
     (m_state m \<noteq> Terminated \<and> \<not> due_by (m_expires_at m) now_ms \<and>
      (due_revoke \<longrightarrow> m_state (observe_due_revoke m now_ms) \<noteq> Terminated))"

lemma observe_due_revoke_cases:
  "observe_due_revoke m n = m \<or> m_state (observe_due_revoke m n) = Terminated"
  by (auto simp: observe_due_revoke_def split: option.splits mission_state.splits)

lemma own_live:
  "(let own0 = observe_expiry r n; own = (if d \<and> m_state own0 \<noteq> Terminated then observe_due_revoke own0 n else own0)
    in if live_now n d r then own = r else m_state own = Terminated)"
  using observe_due_revoke_cases[of r n]
  by (cases "m_state r") (auto simp: Let_def observe_expiry_def live_now_def)

lemma ancestry_self: "list_all p (ancestry n k r) \<Longrightarrow> p r"
  by (cases n) simp_all

lemma observe_at_live_iff:
  "(m_state (observe_at n k now_ms d r) \<noteq> Terminated) = list_all (live_now now_ms d) (ancestry n k r) \<and>
   (list_all (live_now now_ms d) (ancestry n k r) \<longrightarrow> observe_at n k now_ms d r = r)"
proof (induction n arbitrary: r)
  case 0
  show ?case using own_live[of r now_ms d]
    by (subst (1 2) observe_at.simps) (auto simp: Let_def live_now_def split: if_splits)
next
  case (Suc n)
  define own where "own = (let own0 = observe_expiry r now_ms in
      if d \<and> m_state own0 \<noteq> Terminated then observe_due_revoke own0 now_ms else own0)"
  have o: "if live_now now_ms d r then own = r else m_state own = Terminated"
    using own_live[of r now_ms d] by (simp add: own_def Let_def)
  have eq: "observe_at (Suc n) k now_ms d r =
     (if m_state own = Terminated then own
      else case non_empty (m_parent r) of None \<Rightarrow> own
        | Some p \<Rightarrow> (case get_mission p k of None \<Rightarrow> own
           | Some stored \<Rightarrow> if m_state (observe_at n k now_ms d stored) \<noteq> Terminated then own
               else own\<lparr>m_state := Terminated,
                    m_termination := Some (parent_terminated_termination (observe_at n k now_ms d stored))\<rparr>))"
    by (subst observe_at.simps) (simp add: own_def Let_def split: option.split)
  have live: "live_now now_ms d r \<Longrightarrow> m_state r \<noteq> Terminated" by (simp add: live_now_def)
  show ?case
    using o live Suc.IH
    by (auto simp: eq live_now_def split: if_splits option.splits dest: ancestry_self)
qed

section \<open>A termination reaches the whole subtree\<close>

lemma below_terminated:
  assumes "below sh a b" "sh = shape_of k" "kernel_ok k" "terminated_in k a" "b \<in> set (map m_id (missions k))"
  shows "terminated_in k b"
  using assms
proof (induction rule: below.induct)
  case (self a)
  then show ?case by simp
next
  case (child b p a)
  obtain c where c: "c \<in> set (missions k)" "m_id c = b" "m_parent c = Some p"
    using child by (auto simp: shape_of_def)
  have "p \<in> set (map fst (shape_of k))"
  proof -
    have "parents_first [] (shape_of k)" using child.prems(2) by (simp add: kernel_ok_def sound_def)
    moreover have "parents_first seen t \<Longrightarrow> (b, Some p) \<in> set t \<Longrightarrow> p \<in> set seen \<union> set (map fst t)" for seen t
      by (induction seen t rule: parents_first.induct) auto
    ultimately show ?thesis using child.hyps(1) child.prems(1) by fastforce
  qed
  then have "terminated_in k p" using child by (auto simp: shape_of_def comp_def)
  then obtain m where "m \<in> set (missions k)" "m_id m = p" "m_state m = Terminated" by (auto simp: terminated_in_def)
  then have "children_terminated k p" using child.prems(2) by (auto simp: kernel_ok_def closed_down_def list_all_iff)
  then show ?case using c by (auto simp: children_terminated_def terminated_in_def)
qed

section \<open>The timer\<close>

lemma observe_reason:
  assumes "m_state (observe k r) = Terminated" "m_state r \<noteq> Terminated"
  shows "\<exists>t. m_termination (observe k r) = Some t \<and> t_reason t \<in> {''expired'', ''parent_terminated''}"
proof -
  have "\<exists>t. m_termination (observe_at n k now_ms False r) = Some t \<and> t_reason t \<in> {''expired'', ''parent_terminated''}"
    if "m_state (observe_at n k now_ms False r) = Terminated" for n now_ms
    using that assms(2) by (subst observe_at.simps, subst (asm) observe_at.simps)
      (auto simp: Let_def observe_expiry_def parent_terminated_termination_def bare_termination_def
        split: option.splits nat.splits if_splits)
  then show ?thesis using assms(1) by (simp add: observe_def)
qed

lemma apply_expiry_exact:
  assumes "kernel_ok k" "r \<in> set (missions k)" "m_state r \<noteq> Terminated"
  shows "m_state (observe k r) = Terminated \<Longrightarrow> \<exists>k'. apply_expiry r k =
      (k', Inr (written_row r Terminated (no_opts\<lparr>o_termination := m_termination (observe k r)\<rparr>) (iso_text (clock k)) r))"
    "m_state (observe k r) \<noteq> Terminated \<Longrightarrow> due_schedule_transition r (Some (clock k)) = None \<Longrightarrow>
      apply_expiry r k = (k, Inr r)"
    "m_state (observe k r) \<noteq> Terminated \<Longrightarrow> due_schedule_transition r (Some (clock k)) = Some (to, tm) \<Longrightarrow>
      \<exists>k'. apply_expiry r k =
      (k', Inr (written_row r to (no_opts\<lparr>o_termination := tm, o_applied := m_schedule r\<rparr>) (iso_text (clock k)) r))"
proof -
  note ss = set_state_succeeds[OF ok_sound[OF assms(1)] assms(2,3), unfolded set_state_def]
  show "\<exists>k'. apply_expiry r k =
      (k', Inr (written_row r Terminated (no_opts\<lparr>o_termination := m_termination (observe k r)\<rparr>) (iso_text (clock k)) r))"
    if ob: "m_state (observe k r) = Terminated"
  proof -
    obtain t where t: "m_termination (observe k r) = Some t" using observe_reason[OF ob assms(3)] by blast
    from ss[of Terminated "no_opts\<lparr>o_termination := m_termination (observe k r)\<rparr>"] t ob assms(3)
    show ?thesis by (auto simp: apply_expiry_def EXPIRY_RETRIES_def numeral_2_eq_2 Let_def no_opts_def opts_ok_def)
  qed
  show "apply_expiry r k = (k, Inr r)"
    if "m_state (observe k r) \<noteq> Terminated" "due_schedule_transition r (Some (clock k)) = None"
    using that observe_live by (simp add: apply_expiry_def EXPIRY_RETRIES_def numeral_2_eq_2 Let_def)
  show "\<exists>k'. apply_expiry r k =
      (k', Inr (written_row r to (no_opts\<lparr>o_termination := tm, o_applied := m_schedule r\<rparr>) (iso_text (clock k)) r))"
    if that: "m_state (observe k r) \<noteq> Terminated" "due_schedule_transition r (Some (clock k)) = Some (to, tm)"
  proof -
    have "to = Terminated \<longrightarrow> tm \<noteq> None"
      using that(2) by (auto simp: due_schedule_transition_def owed_transition_def
          split: option.splits if_splits on_expiry.splits)
    from ss[of to "no_opts\<lparr>o_termination := tm, o_applied := m_schedule r\<rparr>"] this that
    show ?thesis by (auto simp: apply_expiry_def EXPIRY_RETRIES_def numeral_2_eq_2 Let_def no_opts_def opts_ok_def)
  qed
qed

lemma due_forever:
  "due_schedule_transition r (Some n) = Some d \<Longrightarrow> due_schedule_transition r None = Some d"
  by (auto simp: due_schedule_transition_def split: option.splits if_splits)

lemma due_reason: "due_schedule_transition r n = Some (to, tm) \<Longrightarrow>
    m_state r = Suspended \<and> (to = Active \<and> tm = None \<or> to = Terminated \<and> map_option t_reason tm = Some ''revoked'')"
  by (auto simp: due_schedule_transition_def owed_transition_def bare_termination_def
      split: option.splits if_splits on_expiry.splits)

text \<open>
  What a timer owes for the schedule of a suspended record, read from the schedule
  itself: nothing before its deadline; then the resumption or the revocation it names.
\<close>

definition lapsed :: "kernel \<Rightarrow> mission \<Rightarrow> bool" where
  "lapsed k r = list_ex (\<lambda>a. m_state a = Terminated \<or> due_by (m_expires_at a) (clock k)) (ancestry 65 k r)"

definition deadline_passed :: "suspension_schedule \<Rightarrow> int \<Rightarrow> bool" where
  "deadline_passed sch now_ms =
     (case date_parse (suspend_until sch) of None \<Rightarrow> on_expiry sch = OnResume | Some until \<Rightarrow> until \<le> now_ms)"

definition applied_schedule :: "suspension_schedule \<Rightarrow> mission \<Rightarrow> bool" where
  "applied_schedule sch m =
     (case on_expiry sch of
        OnResume \<Rightarrow> m_state m = Active \<and> m_termination m = None
      | OnRevoke \<Rightarrow> m_state m = Terminated \<and> map_option t_reason (m_termination m) = Some ''revoked'')"

definition fires :: "kernel \<Rightarrow> mission \<Rightarrow> suspension_schedule \<Rightarrow> kernel_error + kernel \<times> fire_outcome \<times> mission option \<Rightarrow> bool" where
  "fires k r sch res =
     (\<exists>k' fo m. res = Inr (k', fo, Some m) \<and> kernel_ok k' \<and> get_mission (m_id r) k' = Some m \<and>
        (if lapsed k r \<or> deadline_passed sch (clock k)
         then m_version m = m_version r + 1 \<and> m_schedule m = None \<and>
           (if lapsed k r
            then fo = FEnded \<and> m_state m = Terminated \<and>
              (\<exists>t. m_termination m = Some t \<and> t_reason t \<in> {''expired'', ''parent_terminated''})
            else fo = FApplied \<and> applied_schedule sch m)
         else k' = k \<and> m = r \<and>
           fo = (if date_parse (suspend_until sch) = None \<or> date_parse (m_expires_at r) = None then FRetry else FNotDue)))"

lemma lapsed_observed: "m_state (observe k r) = Terminated \<longleftrightarrow> lapsed k r"
  using observe_at_live_iff[of 65 k "clock k" False r]
  by (auto simp: observe_def lapsed_def live_now_def list_all_iff list_ex_iff)

lemma lapsed_not_expired: "\<not> lapsed k r \<Longrightarrow> \<not> due_by (m_expires_at r) (clock k)"
  using ancestry_self[of "\<lambda>a. \<not> (m_state a = Terminated \<or> due_by (m_expires_at a) (clock k))" 65 k r]
  by (auto simp: lapsed_def list_all_iff list_ex_iff)

lemma due_iff:
  assumes "m_state r = Suspended" "m_schedule r = Some sch"
  shows "due_schedule_transition r (Some n) = None \<longleftrightarrow> \<not> deadline_passed sch n"
    "due_schedule_transition r (Some n) = Some (to, tm) \<Longrightarrow>
       to = (if on_expiry sch = OnResume then Active else Terminated) \<and> (on_expiry sch = OnResume \<longrightarrow> tm = None) \<and>
       (on_expiry sch = OnRevoke \<longrightarrow> map_option t_reason tm = Some ''revoked'')"
  using assms
  by (auto simp: due_schedule_transition_def deadline_passed_def owed_transition_def bare_termination_def
      split: option.splits if_splits on_expiry.splits)

lemma expiry_stored:
  assumes "kernel_ok k" "r \<in> set (missions k)" "apply_expiry r k = (k', Inr m)"
  shows "kernel_ok k' \<and> get_mission (m_id r) k' = Some m"
  using apply_expiry_succeeds[OF assms(1,2)] assms(3) get_current ok_sound by fastforce

lemma fire_fires:
  assumes "kernel_ok k" "get_mission mid k = Some r" "m_state r = Suspended" "m_schedule r = Some sch"
  shows "fires k r sch (fire_schedule mid (generation sch) k)"
proof -
  have r: "r \<in> set (missions k)" "m_id r = mid" "m_state r \<noteq> Terminated" using get_in[OF assms(2)] assms(3) by simp_all
  have row: "row_ok r" using r(1) ok_sound[OF assms(1)] by (simp add: sound_def list_all_iff)
  note ae = apply_expiry_exact[OF assms(1) r(1,3), unfolded lapsed_observed]
  have f: "fire_schedule mid (generation sch) k =
     (case apply_expiry r k of
        (k1, Inl e) \<Rightarrow> Inl e
      | (k1, Inr after) \<Rightarrow>
          if m_version after = m_version r
          then Inr (k1, (if (case schedule_due_at_ms r of Some d \<Rightarrow> clock k1 < d | None \<Rightarrow> False) then FNotDue else FRetry), Some after)
          else Inr (k1, (if (case due_schedule_transition r None of None \<Rightarrow> False
              | Some (to, tm) \<Rightarrow> m_state after = to \<and> map_option t_reason (m_termination after) = map_option t_reason tm)
              then FApplied else FEnded), Some after))"
    unfolding fire_schedule_def Let_def assms(2) option.case using assms(3,4) by simp
  show ?thesis
  proof (cases "lapsed k r")
    case True
    obtain t where t: "m_termination (observe k r) = Some t" "t_reason t \<in> {''expired'', ''parent_terminated''}"
      using observe_reason[of k r] lapsed_observed True r(3) by blast
    let ?w = "written_row r Terminated (no_opts\<lparr>o_termination := m_termination (observe k r)\<rparr>) (iso_text (clock k)) r"
    obtain k' where k': "apply_expiry r k = (k', Inr ?w)" using ae(1)[OF True] by blast
    have w: "m_version ?w = m_version r + 1" "m_schedule ?w = None" "m_state ?w = Terminated"
      "map_option t_reason (m_termination ?w) = Some (t_reason t)"
      using t(1) by (simp_all add: written_row_def no_opts_def committed_termination_def)
    have "map_option t_reason (m_termination ?w) \<noteq> Some ''revoked''" unfolding w(4) using t(2) by auto
    then have "\<not> (m_state ?w = to \<and> map_option t_reason (m_termination ?w) = map_option t_reason tm)"
      if "due_schedule_transition r None = Some (to, tm)" for to tm
      using due_reason[OF that] w(3) by auto
    then have "fire_schedule mid (generation sch) k = Inr (k', FEnded, Some ?w)"
      unfolding f k' prod.case sum.case using w(1) by (auto split: option.split)
    then show ?thesis
      using expiry_stored[OF assms(1) r(1) k'] w t(2) True unfolding fires_def
      by (intro exI[of _ k'] exI[of _ FEnded] exI[of _ ?w]) auto
  next
    case nl: False
    show ?thesis
    proof (cases "deadline_passed sch (clock k)")
      case False
      then have dn: "due_schedule_transition r (Some (clock k)) = None" using due_iff(1)[OF assms(3,4)] by simp
      have "apply_expiry r k = (k, Inr r)" using ae(2) nl dn by simp
      moreover have "(case schedule_due_at_ms r of Some d \<Rightarrow> clock k < d | None \<Rightarrow> False) \<longleftrightarrow>
          \<not> (date_parse (suspend_until sch) = None \<or> date_parse (m_expires_at r) = None)"
        using False lapsed_not_expired[OF nl]
        by (auto simp: schedule_due_at_ms_def assms(4) deadline_passed_def due_by_def split: option.splits)
      ultimately have "fire_schedule mid (generation sch) k = Inr (k, (if date_parse (suspend_until sch) = None \<or>
          date_parse (m_expires_at r) = None then FRetry else FNotDue), Some r)"
        unfolding f by simp
      then show ?thesis using nl False assms(1,2) r(2) unfolding fires_def by simp
    next
      case True
      then obtain d where "due_schedule_transition r (Some (clock k)) = Some d" using due_iff(1)[OF assms(3,4)] by fastforce
      then obtain to tm where d: "due_schedule_transition r (Some (clock k)) = Some (to, tm)" by (cases d) simp
      note du = due_iff(2)[OF assms(3,4) d]
      let ?w = "written_row r to (no_opts\<lparr>o_termination := tm, o_applied := m_schedule r\<rparr>) (iso_text (clock k)) r"
      obtain k' where k': "apply_expiry r k = (k', Inr ?w)" using ae(3)[OF nl d] by blast
      have w: "m_version ?w = m_version r + 1" "m_schedule ?w = None" "m_state ?w = to"
        using du by (auto simp: written_row_def new_schedule_def split: if_splits)
      have re: "map_option t_reason (m_termination ?w) = map_option t_reason tm"
        using du row r(3) by (cases "on_expiry sch"; cases tm)
          (auto simp: written_row_def no_opts_def committed_termination_def row_ok_def)
      have "fire_schedule mid (generation sch) k = Inr (k', FApplied, Some ?w)"
        unfolding f k' prod.case sum.case due_forever[OF d] option.case using w(1) re by (simp add: w(3))
      moreover have "applied_schedule sch ?w"
        using du w(3) re by (cases "on_expiry sch") (auto simp: applied_schedule_def)
      ultimately show ?thesis
        using expiry_stored[OF assms(1) r(1) k'] w nl True unfolding fires_def
        by (intro exI[of _ k'] exI[of _ FApplied] exI[of _ ?w]) simp
    qed
  qed
qed

section \<open>Supersession\<close>

lemma supersede_acts:
  assumes "kernel_ok k" "get_mission succ k = Some sm" "m_predecessor sm = Some pid" "pid \<noteq> []"
    and "get_mission pid k = Some pred" "m_state pred = Active" "m_state (observe k pred) = Active"
  shows "\<exists>k' m. supersede succ tx k = Inr (k', Some pid) \<and> kernel_ok k' \<and> get_mission pid k' = Some m \<and>
    m_state m = Terminated \<and> m_version m = m_version pred + 1 \<and>
    map_option t_reason (m_termination m) = Some ''superseded'' \<and>
    Option.bind (m_termination m) t_successor = Some succ"
proof -
  have so: "sound k" and pin: "pred \<in> set (missions k)" "m_id pred = pid"
    using assms(1) get_in[OF assms(5)] by (simp_all add: kernel_ok_def)
  define tm where "tm = (bare_termination ''superseded'')
    \<lparr>t_terminated_at := Some (case tx of Some x \<Rightarrow> x | None \<Rightarrow> iso_text (clock k)),
     t_successor := Some succ, t_version := Some (m_version pred + 1)\<rparr>"
  define here :: "mission \<Rightarrow> bool" where "here = (\<lambda>m. m_id m = m_id pred \<and> m_version m = m_version pred \<and> m_state m = Active)"
  define f :: "mission \<Rightarrow> mission" where "f = (\<lambda>m. m\<lparr>m_state := Terminated, m_termination := Some tm, m_version := m_version m + 1\<rparr>)"
  have "here = row_is pred" using assms(6) by (simp add: here_def row_is_def fun_eq_iff)
  then have one: "affected here (missions k) = 1"
    using filter_current[OF sound_keyed[OF so] pin(1)] by (simp add: affected_def)
  obtain fresh k2 where g: "get_mission (m_id pred) (update_missions here f k) = Some fresh"
    and e: "emit_commit fresh (Some Active) False (iso_text (clock k)) no_extra (update_missions here f k) = Inr k2"
    using raw_update_total[OF so one, of "m_id pred" f] by (fastforce simp: here_def f_def)
  have tv: "t_version tm = Some (m_version pred + 1)" by (simp add: tm_def)
  note raw = raw_termination[OF e f_def here_def _ tv g]
  have s2: "sound k2" using evolves_sound[OF raw(1) so] by simp
  have "select_first (\<lambda>m. m_id m = pid) (update_where here f (missions k)) = Some (if here pred then f pred else pred)"
    using assms(5) by (subst select_update_where) (simp_all add: f_def get_mission_def)
  then have g2: "get_mission pid k2 = Some (f pred)"
    using assms(6) by (simp add: get_mission_def raw(2) here_def)
  obtain k3 where c: "cascade_children (set_state_n (fuel_for k2)) (m_id pred) k2 = Inr k3"
    using total.cascade_total[OF sound_ready[OF s2] less_imp_le[OF height_fuel]] by (auto simp: total.steps_ok_def)
  have su: "supersede succ tx k = Inr (k3, Some pid)"
  proof -
    have "supersede succ tx k = (if affected here (missions k) \<noteq> 1 then Inr (k, None)
       else case (case get_mission (m_id pred) (update_missions here f k) of None \<Rightarrow> Inr (update_missions here f k)
           | Some fresh \<Rightarrow> emit_commit fresh (Some Active) False (iso_text (clock k)) no_extra (update_missions here f k)) of
         Inl e \<Rightarrow> Inl e
       | Inr k2 \<Rightarrow> (case cascade_children (set_state_n (fuel_for k2)) (m_id pred) k2 of
           Inl e \<Rightarrow> Inl e | Inr k3 \<Rightarrow> Inr (k3, Some (m_id pred))))"
      unfolding supersede_def tm_def here_def f_def using assms(2-7) by (simp add: Let_def)
    then show ?thesis using one g e c pin(2) by simp
  qed
  have "evolves k2 k3" using setter.cascade_closes[OF c] by (simp add: closes_def)
  from evolves_get[OF this g2] obtain m where m: "get_mission pid k3 = Some m" "row_evolves (f pred) m" by blast
  have "life m = life (f pred)" using m(2) by (simp add: row_evolves_def f_def)
  moreover have "kernel_ok k3" using closes_ok[OF supersede_closes[OF su] assms(1)] .
  ultimately show ?thesis
    using su m(1) by (intro exI[of _ k3] exI[of _ m]) (simp add: life_def f_def tm_def bare_termination_def)
qed

end
