(* ===== verification/Lifecycle_Theorems.thy ===== *)
theory Lifecycle_Theorems
  imports Lifecycle_Props
begin

text \<open>
  The properties of the lifecycle, each with a concrete kernel at which its hypotheses
  hold.
\<close>

section \<open>Sample kernels\<close>

definition sample_mission :: "string \<Rightarrow> string option \<Rightarrow> mission" where
  "sample_mission mid p =
     \<lparr>m_id = mid, m_issuer = ''as'', m_state = Active, m_termination = None, m_authority_set = [],
      m_client_id = ''client'', m_created_at = ''1970-01-01T00:00:00.000Z'',
      m_expires_at = ''1970-01-01T01:00:00.000Z'', m_version = 1, m_derivation_limit = None,
      m_derivation_count = 0, m_grant_id = None, m_predecessor = None, m_parent = p, m_projected_from = None,
      m_schedule = None, m_containment = None, m_discharged = []\<rparr>"

definition sample_start :: kernel where
  "sample_start = new_kernel empty_outbox 1000 60"

text \<open>A parent and its child, both active.\<close>

definition sample_family :: kernel where
  "sample_family = sample_start\<lparr>missions := [sample_mission ''m1'' None, sample_mission ''m2'' (Some ''m1'')]\<rparr>"

text \<open>A Mission suspended until two seconds past the epoch, then revoked.\<close>

definition sample_held :: kernel where
  "sample_held = sample_start\<lparr>clock := 3000, missions := [(sample_mission ''m1'' None)
     \<lparr>m_state := Suspended, m_version := 2,
      m_schedule := Some \<lparr>suspend_until = ''1970-01-01T00:00:02.000Z'', on_expiry = OnRevoke,
        committing_party = ''op'', generation = 2\<rparr>\<rparr>]\<rparr>"

lemma sample_date0: "date_parse ''1970-01-01T00:00:00.000Z'' = Some 0"
  by code_simp

lemma sample_date1: "date_parse ''1970-01-01T01:00:00.000Z'' = Some 3600000"
  by code_simp

lemma sample_date2: "date_parse ''1970-01-01T00:00:02.000Z'' = Some 2000"
  by code_simp

lemma sample_date3: "date_parse ''1970-01-01T00:00:01.000Z'' = Some 1000"
  by code_simp

lemma sample_date4: "date_parse ''1970-01-01T00:00:03.000Z'' = Some 3000"
  by code_simp

lemma sample_date5: "iso_text 1000 = ''1970-01-01T00:00:01.000Z''"
  by code_simp

lemma sample_date6: "iso_text 3000 = ''1970-01-01T00:00:03.000Z''"
  by code_simp

lemmas sample_dates = sample_date0 sample_date1 sample_date2 sample_date3 sample_date4 sample_date5 sample_date6

lemmas sample_defs = sample_start_def sample_family_def sample_held_def sample_mission_def new_kernel_def empty_outbox_def

lemmas kernel_ok_defs = kernel_ok_def sound_def closed_down_def sealed_def shape_of_def outbox_fresh_def clock_ok_def
  children_terminated_def row_ok_def

lemma sample_family_ok: "kernel_ok sample_family"
  by (simp add: kernel_ok_defs sample_defs sample_dates)

lemma sample_held_ok: "kernel_ok sample_held"
  by (simp add: kernel_ok_defs sample_defs sample_dates)

lemma sample_family_get:
  "get_mission ''m1'' sample_family = Some (sample_mission ''m1'' None)"
  "get_mission ''m2'' sample_family = Some (sample_mission ''m2'' (Some ''m1''))"
  by (simp_all add: get_mission_def sample_defs)

lemma sample_family_decided: "decided_on ''m1'' sample_family = Some (sample_mission ''m1'' None)"
proof -
  let ?m = "sample_mission ''m1'' None"
  have m: "?m \<in> set (missions sample_family)" "m_state ?m \<noteq> Terminated" by (simp_all add: sample_defs)
  have o: "observe_at n sample_family 1000 False ?m = ?m" for n
    by (subst observe_at.simps) (simp add: Let_def observe_expiry_def due_by_def sample_dates sample_mission_def split: nat.split)
  have "m_state (observe sample_family ?m) \<noteq> Terminated"
    unfolding observe_def using o m(2) by (simp add: sample_family_def sample_start_def new_kernel_def)
  from apply_expiry_exact(2)[OF sample_family_ok m this] show ?thesis
    by (simp add: decided_on_def sample_family_get due_schedule_transition_def sample_mission_def)
qed

section \<open>Every reachable kernel\<close>

text \<open>
  C1. The invariant of every kernel the operations reach from an empty one: a record
  carries a termination exactly when it is terminated; an active one carries neither a
  suspension schedule nor a projection marker; and a terminated one has its tombstone,
  no live child, and no continuation handle or delegation family that still resolves.
  The operations include the ones that record lineages: approvals and replacements root
  a handle, derivations record delegation families, continuations record further hops.
\<close>

theorem lifecycle_invariant:
  assumes "kernel_step\<^sup>*\<^sup>* (new_kernel ob now_ms ret) k" "ob_events ob = []" "date_parse (iso_text now_ms) \<noteq> None"
    and "m \<in> set (missions k)"
  shows "(m_termination m \<noteq> None) = (m_state m = Terminated) \<and>
    (m_state m = Active \<longrightarrow> m_schedule m = None \<and> m_projected_from m = None) \<and>
    (m_state m = Terminated \<longrightarrow>
       tombstone_exists (m_issuer m) (m_id m) (k_tombstones k) \<and>
       (\<forall>c \<in> set (missions k). m_parent c = Some (m_id m) \<longrightarrow> m_state c = Terminated) \<and>
       (\<forall>h a. resolve_handle (h_handle h) (continuations k) = Some (h, a) \<longrightarrow> h_mission_id h \<noteq> m_id m) \<and>
       (\<forall>g st. resolve_family g (delegation_families k) \<noteq> Some (m_id m, st)))"
proof -
  have ok: "kernel_ok k" using steps_ok[OF assms(1) new_kernel_ok[OF assms(3,2)]] .
  have r: "row_ok m" using ok assms(4) by (simp add: kernel_ok_def sound_def list_all_iff)
  have "tombstone_exists (m_issuer m) (m_id m) (k_tombstones k) \<and>
       (\<forall>c \<in> set (missions k). m_parent c = Some (m_id m) \<longrightarrow> m_state c = Terminated) \<and>
       (\<forall>h a. resolve_handle (h_handle h) (continuations k) = Some (h, a) \<longrightarrow> h_mission_id h \<noteq> m_id m) \<and>
       (\<forall>g st. resolve_family g (delegation_families k) \<noteq> Some (m_id m, st))" if T: "m_state m = Terminated"
  proof -
    have s: "sealed_row k m" using ok assms(4) T by (auto simp: kernel_ok_def sealed_def list_all_iff)
    have "h_mission_id h \<noteq> m_id m" if "resolve_handle (h_handle h) (continuations k) = Some (h, a)" for h a
    proof -
      have "h \<in> set (handles (continuations k)) \<and> h_state h \<noteq> CTerminal"
        using that by (auto simp: resolve_handle_def lookup_handle_def find_handle_def
            split: option.splits if_splits handle_lookup.splits dest: select_first_SomeD)
      then show ?thesis using s by (auto simp: sealed_row_def list_all_iff)
    qed
    moreover have "resolve_family g (delegation_families k) \<noteq> Some (m_id m, st)" for g st
      using s by (auto simp: resolve_family_def find_family_def sealed_row_def list_all_iff
          split: option.splits dest!: select_first_SomeD)
    moreover have "children_terminated k (m_id m)"
      using ok assms(4) T by (auto simp: kernel_ok_def closed_down_def list_all_iff)
    ultimately show ?thesis using s by (auto simp: sealed_row_def children_terminated_def)
  qed
  then show ?thesis using r by (auto simp: row_ok_def)
qed

lemma sample_approve:
  "\<exists>k. insert_record ''as'' ''1970-01-01T01:00:00.000Z'' None None (sample_mission ''m1'' None) sample_start = Inr k
     \<and> missions k = [sample_mission ''m1'' None] \<and> clock k = 1000 \<and> delegation_families k = []"
  by (simp add: insert_record_def sample_defs sample_dates tombstone_exists_def emit_commit_def enqueue_def
      persist_commit_def insert_event_def commit_of_def root_grant_def mint_def get_mission_def
      is_activating_commit_def root_grant_anchor_def insert_anchor_def Let_def no_extra_def select_first_append)

lemma sample_live:
  assumes "kernel_ok k" "missions k = [sample_mission ''m1'' None]" "clock k = 1000"
  shows "apply_expiry (sample_mission ''m1'' None) k = (k, Inr (sample_mission ''m1'' None))"
proof -
  let ?m = "sample_mission ''m1'' None"
  have m: "?m \<in> set (missions k)" "m_state ?m \<noteq> Terminated" by (simp_all add: assms(2) sample_mission_def)
  have "observe_at n k 1000 False ?m = ?m" for n
    by (subst observe_at.simps) (simp add: Let_def observe_expiry_def due_by_def sample_dates sample_mission_def split: nat.split)
  then have "m_state (observe k ?m) \<noteq> Terminated" unfolding observe_def using m(2) assms(3) by simp
  from apply_expiry_exact(2)[OF assms(1) m this] show ?thesis
    by (simp add: due_schedule_transition_def sample_mission_def)
qed

text \<open>A run: the Mission is approved, a delegation family is recorded for it and resolves;
  then the Mission is revoked.\<close>

theorem lifecycle_invariant_witness:
  "\<exists>k1 k2 m. kernel_step\<^sup>*\<^sup>* sample_start k1 \<and> resolve_family ''g'' (delegation_families k1) = Some (''m1'', CActive) \<and>
     kernel_step\<^sup>*\<^sup>* k1 k2 \<and> get_mission ''m1'' k2 = Some m \<and> m_state m = Terminated \<and>
     tombstone_exists ''as'' ''m1'' (k_tombstones k2) \<and>
     (\<forall>st. resolve_family ''g'' (delegation_families k2) \<noteq> Some (''m1'', st))"
proof -
  let ?m = "sample_mission ''m1'' None"
  obtain k where k: "insert_record ''as'' ''1970-01-01T01:00:00.000Z'' None None ?m sample_start = Inr k"
    "missions k = [?m]" "clock k = 1000" "delegation_families k = []"
    using sample_approve by blast
  have s1: "kernel_step sample_start k"
    by (rule kernel_step.approve[OF k(1)]) (simp add: root_record_def sample_mission_def)
  have start: "kernel_ok sample_start" "date_parse (iso_text 1000) \<noteq> None" "ob_events empty_outbox = []"
    by (simp_all add: kernel_ok_defs sample_defs sample_dates)
  have ok: "kernel_ok k" using step_ok[OF s1 start(1)] .
  define f where "f = \<lparr>f_grant_id = ''g'', f_mission_id = ''m1'', f_state = CActive, f_created_at = iso_text 1000\<rparr>"
  define k1 where "k1 = k\<lparr>delegation_families := [f], bound_grants := fst (insert_or_ignore fst (''g'', ''m1'') (bound_grants k))\<rparr>"
  have "kernel_ok k1"
    unfolding k1_def using ok k(2) by (intro lineage_ok[OF ok]) (auto simp: sample_mission_def)
  then have live: "apply_expiry ?m k1 = (k1, Inr ?m)" by (rule sample_live) (simp_all add: k1_def k)
  have g: "get_mission ''m1'' k1 = Some ?m" by (simp add: get_mission_def k1_def k(2) select_first_def sample_mission_def)
  have "admit (\<lambda>_ _. None) ''m1'' k1 = (k1, Inr ?m)"
    using live by (simp add: admit_def must_get_def g) (simp add: sample_mission_def)
  then have "delegate_family (\<lambda>_ _. None) ''g'' ''m1'' k = (k1, Inr ?m)"
    by (simp add: delegate_family_def record_family_def k f_def[symmetric] k1_def[symmetric])
  then have s2: "kernel_step k k1" by (rule kernel_step.delegation)
  have rf: "resolve_family ''g'' (delegation_families k1) = Some (''m1'', CActive)"
    by (simp add: resolve_family_def find_family_def select_first_def k1_def f_def)
  obtain k2 a where t: "transition ''m1'' Revoke None None k1 = (k2, a)" by fastforce
  then have s3: "kernel_step k1 k2" by (rule kernel_step.request)
  have dn: "decided_on ''m1'' k1 = Some ?m" by (simp add: decided_on_def g live)
  have "refused_with ''m1'' Revoke None None k1 = None"
    by (simp add: refused_with_def dn) (simp add: sample_mission_def)
  then obtain m where m: "a = Inr m"
    using transition_answered[OF \<open>kernel_ok k1\<close>, of "''m1''" Revoke None None] by (auto simp: answered_def t)
  note gm = transition_granted[OF \<open>kernel_ok k1\<close> t[unfolded m]]
  have path: "kernel_step\<^sup>*\<^sup>* (new_kernel empty_outbox 1000 60) k2"
    using s1 s2 s3 unfolding sample_start_def by (meson rtranclp.rtrancl_into_rtrancl rtranclp.rtrancl_refl)
  have in2: "m \<in> set (missions k2)" "m_id m = ''m1''" using get_in[OF gm(1)] by simp_all
  have "grows k k2" using steps_grow[of k k2] s2 s3 ok by (meson rtranclp.rtrancl_into_rtrancl rtranclp.rtrancl_refl)
  then obtain m' where "m' \<in> set (missions k2)" "row_evolves ?m m'" unfolding grows_def k(2) by (auto simp: list_ex_iff)
  then have c: "m' \<in> set (missions k2)" "content m' = content ?m" by (simp_all add: row_evolves_def)
  have "m_id m' = ''m1''" "m_issuer m' = ''as''" using content_fields[OF c(2)] by (simp_all add: sample_mission_def)
  moreover have ok2: "kernel_ok k2" using step_ok[OF s3 \<open>kernel_ok k1\<close>] .
  ultimately have iss: "m_issuer m = ''as''"
    using keyed_unique[of m_id, OF sound_keyed[OF ok_sound[OF ok2]] in2(1) c(1)] in2(2) by simp
  have st: "m_state m = Terminated" using gm(2) by simp
  from lifecycle_invariant[OF path start(3,2) in2(1)] st in2(2) iss
  have "tombstone_exists ''as'' ''m1'' (k_tombstones k2) \<and>
     (\<forall>st. resolve_family ''g'' (delegation_families k2) \<noteq> Some (''m1'', st))" by simp
  moreover have "kernel_step\<^sup>*\<^sup>* sample_start k1" "kernel_step\<^sup>*\<^sup>* k1 k2"
    using s1 s2 s3 by (meson rtranclp.rtrancl_into_rtrancl rtranclp.rtrancl_refl)+
  ultimately show ?thesis using rf gm(1) st by blast
qed



section \<open>Requested transitions\<close>

text \<open>
  C6. Every requested transition is answered exactly.  An error is answered exactly when
  its condition holds, in the order of the checks: a schedule without a suspension; an
  unknown Mission; an expected version that is not the record's; a record that neither
  is what the operation asks for nor in a state the operation may start from.  Nothing
  else is ever answered (no stale compare-and-set, exhausted nesting or duplicate
  event).  A success is what the store then holds: the record the request was decided
  on, unchanged, when it already is what the operation asks for, with the same schedule
  where one is given; otherwise that record one version later, in the target state, with
  the operation's termination reason and the given schedule.
\<close>

theorem transition_exact:
  assumes "kernel_ok k"
  shows "kernel_ok (fst (transition mid op v s k)) \<and> (decided_on mid k = None \<longleftrightarrow> get_mission mid k = None) \<and>
    (\<forall>e. snd (transition mid op v s k) = Inl e \<longleftrightarrow> refused_with mid op v s k = Some e) \<and>
    (\<forall>m. snd (transition mid op v s k) = Inr m \<longrightarrow>
       get_mission mid (fst (transition mid op v s k)) = Some m \<and> m_id m = mid \<and>
       (\<exists>r. decided_on mid k = Some r \<and> granted op s r m))"
proof -
  have a: "answered mid op v s k (transition mid op v s k)" using transition_answered[OF assms] .
  have "kernel_ok (fst (transition mid op v s k))"
    using closes_ok[OF transition_closes assms] by (cases "transition mid op v s k") auto
  moreover have "decided_on mid k = None \<longleftrightarrow> get_mission mid k = None"
  proof (cases "get_mission mid k")
    case (Some r)
    then show ?thesis using apply_expiry_succeeds[OF assms, of r] get_in[OF Some] by (auto simp: decided_on_def)
  qed (simp add: decided_on_def)
  moreover have "snd (transition mid op v s k) = Inl e \<longleftrightarrow> refused_with mid op v s k = Some e" for e
    using a unfolding answered_def by (cases "refused_with mid op v s k") auto
  moreover have "get_mission mid (fst (transition mid op v s k)) = Some m \<and> m_id m = mid \<and>
      (\<exists>r. decided_on mid k = Some r \<and> granted op s r m)" if "snd (transition mid op v s k) = Inr m" for m
    using a that get_in unfolding answered_def by (cases "refused_with mid op v s k") auto
  ultimately show ?thesis by blast
qed

theorem transition_exact_witness:
  "\<exists>k' m. transition ''m1'' Suspend (Some 1) None sample_family = (k', Inr m) \<and> kernel_ok k' \<and>
     m_state m = Suspended \<and> m_version m = 2 \<and> get_mission ''m1'' k' = Some m \<and>
     snd (transition ''m1'' Resume (Some 1) None sample_family) = Inl (Conflict ''m1'') \<and>
     snd (transition ''m1'' Suspend (Some 2) None sample_family) = Inl StaleVersion"
proof -
  note x = transition_exact[OF sample_family_ok]
  let ?t = "transition ''m1'' Suspend (Some 1) None sample_family"
  have r: "refused_with ''m1'' Suspend (Some 1) None sample_family = None"
    "refused_with ''m1'' Resume (Some 1) None sample_family = Some (Conflict ''m1'')"
    "refused_with ''m1'' Suspend (Some 2) None sample_family = Some StaleVersion"
    unfolding refused_with_def sample_family_decided by (simp_all add: in_goal_def sample_mission_def)
  obtain m where m: "snd ?t = Inr m" using x[of "''m1''" Suspend "Some 1" None] r(1) by (cases "snd ?t") auto
  then have "get_mission ''m1'' (fst ?t) = Some m" "granted Suspend None (sample_mission ''m1'' None) m" "kernel_ok (fst ?t)"
    using x[of "''m1''" Suspend "Some 1" None] by (auto simp: sample_family_decided)
  moreover from this(2) have "m_state m = Suspended" "m_version m = 2"
    by (auto simp: granted_def in_goal_def sample_mission_def split: if_splits)
  moreover have "snd (transition ''m1'' Resume (Some 1) None sample_family) = Inl (Conflict ''m1'')"
    "snd (transition ''m1'' Suspend (Some 2) None sample_family) = Inl StaleVersion"
    using x r(2,3) by blast+
  ultimately show ?thesis using m by (intro exI[of _ "fst ?t"] exI[of _ m]) (simp add: prod_eq_iff)
qed

text \<open>
  C2. A termination reaches the whole subtree.  When a revocation or completion
  succeeds, every record below it, at any depth and whatever its own state was, is
  terminated in the same transaction, has its tombstone, and none of its continuation
  handles, anchors or delegation families is live.
\<close>

theorem termination_reaches_subtree:
  assumes "kernel_ok k" "transition mid op v s k = (k', Inr m)" "rule_to (LEGAL_TRANSITIONS op) = Terminated"
    and "d \<in> set (missions k')" "below (shape_of k') mid (m_id d)"
  shows "m_state d = Terminated \<and> sealed_row k' d"
proof -
  have ok: "kernel_ok k'" using closes_ok[OF transition_closes[OF assms(2)] assms(1)] .
  have "get_mission mid k' = Some m \<and> m_state m = Terminated"
    using transition_granted[OF assms(1,2)] assms(3) by (simp add: legal_goal(1))
  then have "terminated_in k' mid" using get_in by (auto simp: terminated_in_def)
  then have "terminated_in k' (m_id d)"
    using below_terminated[OF assms(5) refl ok] assms(4) by auto
  then have "m_state d = Terminated" using terminated_in_row[OF sound_keyed[OF ok_sound[OF ok]] _ assms(4)] by blast
  then show ?thesis using ok assms(4) by (auto simp: kernel_ok_def sealed_def list_all_iff)
qed

theorem termination_reaches_subtree_witness:
  "\<exists>k' d. fst (transition ''m1'' Revoke None None sample_family) = k' \<and> get_mission ''m2'' k' = Some d \<and>
     m_state d = Terminated \<and> tombstone_exists ''as'' ''m2'' (k_tombstones k')"
proof -
  obtain k' a where t: "transition ''m1'' Revoke None None sample_family = (k', a)" by fastforce
  have "refused_with ''m1'' Revoke None None sample_family = None"
    unfolding refused_with_def sample_family_decided by (simp add: sample_mission_def)
  then have "\<exists>m. a = Inr m"
    using transition_answered[OF sample_family_ok, of "''m1''" Revoke None None] by (auto simp: t answered_def)
  then obtain m where m: "a = Inr m" by blast
  have ev: "evolves sample_family k'" using transition_closes[OF t] by (simp add: closes_def)
  obtain d where d: "get_mission ''m2'' k' = Some d" "content d = content (sample_mission ''m2'' (Some ''m1''))"
    using evolves_get[OF ev sample_family_get(2)] by (auto simp: row_evolves_def)
  have i: "m_id d = ''m2''" "m_parent d = Some ''m1''" "m_issuer d = ''as''"
    using content_fields[OF d(2)] by (simp_all add: sample_mission_def)
  have din: "d \<in> set (missions k')" using get_in[OF d(1)] by blast
  then have "(''m2'', Some ''m1'') \<in> set (shape_of k')" using i by (force simp: shape_of_def)
  then have "below (shape_of k') ''m1'' (m_id d)" using i by (auto intro: below.child below.self)
  from termination_reaches_subtree[OF sample_family_ok t[unfolded m] _ din this]
  have "m_state d = Terminated \<and> sealed_row k' d" by (simp add: LEGAL_TRANSITIONS_def)
  then show ?thesis using t d(1) i by (auto simp: sealed_row_def)
qed

section \<open>Observation\<close>

text \<open>
  C20. A gate never reads a Mission live past its lineage.  The observed record is
  terminated exactly when the record itself or one of its ancestors (as many as the
  walk reads) is terminated or past its own expiry, whether or not any of it was ever
  written; a release decision also counts a due revocation anywhere in the lineage.
  A record observed live is the stored record, unchanged.
\<close>

theorem observe_exact:
  "observe k r = (if list_all (\<lambda>a. m_state a \<noteq> Terminated \<and> \<not> due_by (m_expires_at a) (clock k)) (ancestry 65 k r)
     then r else observe k r) \<and>
   (m_state (observe k r) = Terminated) =
     list_ex (\<lambda>a. m_state a = Terminated \<or> due_by (m_expires_at a) (clock k)) (ancestry 65 k r) \<and>
   map_option (\<lambda>m. m_state m = Terminated) (observed_for_release (m_id r) k) =
     map_option (\<lambda>m. list_ex (\<lambda>a. m_state a = Terminated \<or> due_by (m_expires_at a) (clock k) \<or>
        m_state (observe_due_revoke a (clock k)) = Terminated) (ancestry 65 k m)) (get_mission (m_id r) k)"
proof -
  have n: "(\<not> list_all p xs) = list_ex (\<lambda>a. \<not> p a) xs" for p :: "mission \<Rightarrow> bool" and xs
    by (auto simp: list_all_iff list_ex_iff)
  have "(m_state (observe_at 65 k (clock k) b m) = Terminated) =
      list_ex (\<lambda>a. \<not> live_now (clock k) b a) (ancestry 65 k m)" for b m
    using observe_at_live_iff[of 65 k "clock k" b m] n by blast
  then show ?thesis
    using observe_at_live_iff[of 65 k "clock k" False r]
    by (simp add: observe_def observed_for_release_def live_now_def[abs_def] option.map_comp comp_def)
qed

section \<open>The timer\<close>

text \<open>
  C19. A timer delivery does exactly what the suspension it was armed for owes.  For any
  other generation it changes nothing.  For the current one, what it answers is what the
  store then holds: under an expired or ended lineage that termination, and the schedule
  never applies; otherwise, once the deadline has passed, the resumption or the
  revocation the schedule names, one version later and with the schedule cleared; before
  the deadline nothing changes, and the delivery answers that it is not due (or to try
  again, where a date cannot be read).
\<close>

theorem fire_schedule_exact:
  assumes "kernel_ok k" "get_mission mid k = Some r" "m_state r = Suspended" "m_schedule r = Some sch"
  shows "(gen = generation sch \<or> fire_schedule mid gen k = Inr (k, FSuperseded, Some r)) \<and>
    (\<exists>k' fo m. fire_schedule mid (generation sch) k = Inr (k', fo, Some m) \<and> kernel_ok k' \<and> get_mission mid k' = Some m \<and>
      (if lapsed k r \<or> deadline_passed sch (clock k)
       then m_version m = m_version r + 1 \<and> m_schedule m = None \<and>
         (if lapsed k r
          then fo = FEnded \<and> m_state m = Terminated \<and>
            (\<exists>t. m_termination m = Some t \<and> t_reason t \<in> {''expired'', ''parent_terminated''})
          else fo = FApplied \<and> applied_schedule sch m)
       else k' = k \<and> m = r \<and>
         fo = (if date_parse (suspend_until sch) = None \<or> date_parse (m_expires_at r) = None then FRetry else FNotDue)))"
proof -
  have "gen = generation sch \<or> fire_schedule mid gen k = Inr (k, FSuperseded, Some r)"
    using assms(2-4) by (simp add: fire_schedule_def)
  moreover have "m_id r = mid" using get_in[OF assms(2)] by simp
  ultimately show ?thesis using fire_fires[OF assms] unfolding fires_def by blast
qed

theorem fire_schedule_exact_witness:
  "\<exists>k' m. fire_schedule ''m1'' 2 sample_held = Inr (k', FApplied, Some m) \<and> get_mission ''m1'' k' = Some m \<and>
     m_state m = Terminated \<and> m_version m = 3"
proof -
  obtain r sch where r: "get_mission ''m1'' sample_held = Some r" "m_state r = Suspended" "m_schedule r = Some sch"
    "generation sch = 2" "m_version r = 2" "suspend_until sch = ''1970-01-01T00:00:02.000Z''" "on_expiry sch = OnRevoke"
    "m_parent r = None" "m_expires_at r = ''1970-01-01T01:00:00.000Z''"
    by (simp add: get_mission_def sample_defs)
  have c: "clock sample_held = 3000" by (simp add: sample_held_def)
  have "ancestry n sample_held r = [r]" for n using r(8) by (cases n) simp_all
  then have o: "\<not> lapsed sample_held r" by (simp add: lapsed_def r(2,9) c due_by_def sample_dates)
  have d: "deadline_passed sch (clock sample_held)" by (simp add: deadline_passed_def r(6) c sample_dates)
  from conjunct2[OF fire_schedule_exact[OF sample_held_ok r(1-3)]] o d r(4,5,7) show ?thesis
    by (auto simp: applied_schedule_def)
qed

section \<open>Subtrees and supersession\<close>

text \<open>
  C36. The breadth-first enumeration of a subtree is exact: it lists every record below
  the root, in every state, exactly once, and not the root itself.
\<close>

theorem descendants_exact:
  assumes "sound k"
  shows "(m \<in> set (descendants_of rt k)) =
      (m \<in> set (missions k) \<and> below (shape_of k) rt (m_id m) \<and> m_id m \<noteq> rt) \<and>
    distinct (map m_id (descendants_of rt k))"
proof -
  have key: "mission_keyed k" using sound_keyed[OF assms] .
  have "m \<in> set (descendants_of rt k)"
    if m: "m \<in> set (missions k)" "below (shape_of k) rt (m_id m)" "m_id m \<noteq> rt"
  proof -
    obtain d where d: "d \<in> set (descendants_of rt k)" "m_id d = m_id m"
      using below_descendant[OF assms m] by auto
    then have "d \<in> set (missions k)" using descendants_facts(2)[of rt k] by blast
    then have "d = m" using keyed_unique[of m_id, OF key _ m(1)] d(2) by blast
    then show ?thesis using d(1) by simp
  qed
  then have "(m \<in> set (descendants_of rt k)) =
      (m \<in> set (missions k) \<and> below (shape_of k) rt (m_id m) \<and> m_id m \<noteq> rt)"
    using descendants_facts(2,4)[of rt k] descendants_facts(3)[of m rt k] by force
  then show ?thesis using descendants_distinct by blast
qed

text \<open>
  C17. Carrying a subtree to a successor terminates it completely or is refused for one
  reason.  It is refused exactly when a rendered row is neither below the predecessor
  nor kept by a tombstone with its terminal state and termination, and the error names
  the first such row; no other failure, its own final assertion included, ever occurs.
  Otherwise it reports one outcome per descendant, in generation order, and then for
  every rendered row that is gone the end its tombstone committed; it leaves every
  descendant terminated, also those behind a terminal intermediate, and touches neither
  the predecessor nor any record outside its subtree.
\<close>

theorem carry_subtree_complete:
  assumes "kernel_ok k"
  shows "case filter (\<lambda>e. \<not> retained jp k e) (unreached rt k rendered) of
      e # _ \<Rightarrow> carry_subtree jp rt rendered ct k = Inl (SubtreeChanged (snd e))
    | [] \<Rightarrow> (\<exists>k' carried gone. carry_subtree jp rt rendered ct k = Inr (k', carried @ gone) \<and> kernel_ok k' \<and>
        map co_old_child carried = map m_id (descendants_of rt k) \<and>
        list_all2 (recorded_end jp k) (unreached rt k rendered) gone \<and>
        (\<forall>m \<in> set (missions k'). below (shape_of k) rt (m_id m) \<longrightarrow> m_id m \<noteq> rt \<longrightarrow> m_state m = Terminated) \<and>
        (\<forall>m \<in> set (missions k). m_id m = rt \<or> \<not> below (shape_of k) rt (m_id m) \<longrightarrow> m \<in> set (missions k')))"
proof (cases "filter (\<lambda>e. \<not> retained jp k e) (unreached rt k rendered)")
  case Nil
  then show ?thesis
    using carry_subtree_facts[OF ok_sound[OF assms], of jp rt rendered ct] closes_ok[OF _ assms]
    by (simp del: filter_empty_conv) blast
next
  case (Cons e es)
  then show ?thesis using carry_subtree_facts[OF ok_sound[OF assms], of jp rt rendered ct] by auto
qed

theorem carry_subtree_complete_witness:
  "(\<exists>k' rows. carry_subtree (\<lambda>_. None) ''m1'' [(''as'', ''m2'')] (\<lambda>_. None) sample_family = Inr (k', rows) \<and>
     sample_mission ''m1'' None \<in> set (missions k')) \<and>
   carry_subtree (\<lambda>_. None) ''m1'' [(''as'', ''m2''), (''as'', ''gone'')] (\<lambda>_. None) sample_family =
     Inl (SubtreeChanged ''gone'')"
proof -
  have "(''m2'', Some ''m1'') \<in> set (shape_of sample_family)" by (simp add: shape_of_def sample_defs)
  then have b: "below (shape_of sample_family) ''m1'' ''m2''" by (rule below.child) (rule below.self)
  have d: "''m2'' \<in> m_id ` set (descendants_of ''m1'' sample_family)" using descendants_complete[OF b] by simp
  have n: "''gone'' \<notin> m_id ` set (descendants_of ''m1'' sample_family)"
    using descendants_facts(2)[of "''m1''" sample_family] by (auto simp: sample_family_def sample_mission_def)
  have u: "unreached ''m1'' sample_family [(''as'', ''m2'')] = []"
    "unreached ''m1'' sample_family [(''as'', ''m2''), (''as'', ''gone'')] = [(''as'', ''gone'')]"
    using d n by (simp_all add: unreached_def)
  have t: "\<not> retained (\<lambda>_. None) sample_family (''as'', ''gone'')"
    by (simp add: retained_def find_tombstone_def sample_family_def sample_start_def new_kernel_def select_first_def)
  obtain k' rows where c: "carry_subtree (\<lambda>_. None) ''m1'' [(''as'', ''m2'')] (\<lambda>_. None) sample_family = Inr (k', rows)"
    "\<forall>m \<in> set (missions sample_family). m_id m = ''m1'' \<or> \<not> below (shape_of sample_family) ''m1'' (m_id m) \<longrightarrow>
       m \<in> set (missions k')"
    using carry_subtree_complete[OF sample_family_ok, of "\<lambda>_. None" "''m1''" "[(''as'', ''m2'')]" "\<lambda>_. None"]
    unfolding u(1) filter.simps list.case by blast
  have "sample_mission ''m1'' None \<in> set (missions k')"
    using bspec[OF c(2), of "sample_mission ''m1'' None"] by (simp add: sample_family_def sample_mission_def)
  moreover have "carry_subtree (\<lambda>_. None) ''m1'' [(''as'', ''m2''), (''as'', ''gone'')] (\<lambda>_. None) sample_family =
      Inl (SubtreeChanged ''gone'')"
    using carry_subtree_complete[OF sample_family_ok, of "\<lambda>_. None" "''m1''" "[(''as'', ''m2''), (''as'', ''gone'')]" "\<lambda>_. None"] t
    unfolding u(2) by simp
  ultimately show ?thesis using c(1) by blast
qed

text \<open>
  C18. Supersession is one transaction that cannot fail half way.  Redeeming a successor
  either changes nothing or terminates exactly its predecessor as \<open>superseded\<close>, naming
  the successor, and with it every record below the predecessor; and it acts exactly
  when the predecessor is stored and observed active.
\<close>

theorem supersede_exact:
  assumes "kernel_ok k" "get_mission succ k = Some sm" "m_predecessor sm = Some pid" "pid \<noteq> []"
    and "get_mission pid k = Some pred"
  shows "if m_state pred = Active \<and> m_state (observe k pred) = Active
    then \<exists>k' m. supersede succ tx k = Inr (k', Some pid) \<and> kernel_ok k' \<and> get_mission pid k' = Some m \<and>
      m_state m = Terminated \<and> m_version m = m_version pred + 1 \<and>
      map_option t_reason (m_termination m) = Some ''superseded'' \<and>
      Option.bind (m_termination m) t_successor = Some succ \<and>
      list_all (\<lambda>d. below (shape_of k') pid (m_id d) \<longrightarrow> m_state d = Terminated) (missions k')
    else supersede succ tx k = Inr (k, None)"
proof (cases "m_state pred = Active \<and> m_state (observe k pred) = Active")
  case False
  then show ?thesis using assms by (auto simp: supersede_def)
next
  case True
  obtain k' m where k': "supersede succ tx k = Inr (k', Some pid)" "kernel_ok k'" "get_mission pid k' = Some m"
    "m_state m = Terminated" "m_version m = m_version pred + 1"
    "map_option t_reason (m_termination m) = Some ''superseded''" "Option.bind (m_termination m) t_successor = Some succ"
    using supersede_acts[OF assms] True by blast
  have "terminated_in k' pid" using get_in[OF k'(3)] k'(4) by (auto simp: terminated_in_def)
  then have "m_state d = Terminated" if "d \<in> set (missions k')" "below (shape_of k') pid (m_id d)" for d
    using below_terminated[OF that(2) refl k'(2)] that(1) terminated_in_row[OF sound_keyed[OF ok_sound[OF k'(2)]]] by auto
  then show ?thesis using True k' by (auto simp: list_all_iff)
qed

text \<open>A successor of the active Mission, beside it.\<close>

definition sample_successor :: kernel where
  "sample_successor = sample_family\<lparr>missions := missions sample_family @
     [(sample_mission ''m3'' None)\<lparr>m_predecessor := Some ''m1''\<rparr>]\<rparr>"

lemma sample_successor_ok: "kernel_ok sample_successor"
  by (simp add: kernel_ok_defs sample_successor_def sample_defs sample_dates)

theorem supersede_exact_witness:
  "\<exists>k' m. supersede ''m3'' None sample_successor = Inr (k', Some ''m1'') \<and> get_mission ''m1'' k' = Some m \<and>
     m_state m = Terminated"
proof -
  let ?m = "sample_mission ''m1'' None"
  have g: "get_mission ''m3'' sample_successor = Some ((sample_mission ''m3'' None)\<lparr>m_predecessor := Some ''m1''\<rparr>)"
    "get_mission ''m1'' sample_successor = Some ?m"
    by (simp_all add: get_mission_def sample_successor_def sample_defs)
  have "observe_at n sample_successor 1000 False ?m = ?m" for n
    by (subst observe_at.simps) (simp add: Let_def observe_expiry_def due_by_def sample_dates sample_mission_def split: nat.split)
  then have o: "m_state (observe sample_successor ?m) = Active"
    by (simp add: observe_def sample_successor_def sample_family_def sample_start_def new_kernel_def)
      (simp add: sample_mission_def)
  from supersede_exact[OF sample_successor_ok g(1) _ _ g(2), of None] o show ?thesis
    by (auto simp: sample_mission_def)
qed

theorem descendants_exact_witness:
  "sample_mission ''m2'' (Some ''m1'') \<in> set (descendants_of ''m1'' sample_family)"
proof -
  have "(''m2'', Some ''m1'') \<in> set (shape_of sample_family)" by (simp add: shape_of_def sample_defs)
  then have "below (shape_of sample_family) ''m1'' ''m2''" by (rule below.child) (rule below.self)
  then show ?thesis
    using descendants_exact[OF ok_sound[OF sample_family_ok], of "sample_mission ''m2'' (Some ''m1'')" "''m1''"]
    by (simp add: sample_family_def sample_mission_def)
qed

end
