(* ===== verification/Single_Use.thy ===== *)
theory Single_Use
  imports Prelude
begin

text \<open>
  The single-use tables of the enforcement point: the redemption table of
  \<^verbatim>\<open>packages/store/src/index.ts\<close> (\<open>redeemOnce\<close>), the transaction engine of
  \<^verbatim>\<open>services/mcp-payments/src/transaction.ts\<close> built on it, and the transaction
  consumption table of \<^verbatim>\<open>services/mcp-payments/src/txn-store.ts\<close>.  Each provides
  \<open>single_use\<close>.  Times are milliseconds read once per call; a lease end that is no
  finite number is \<open>None\<close>.
\<close>

section \<open>Redemption\<close>

record redemption_row =
  rd_key :: string
  rd_epoch :: string
  rd_at :: int

definition redeem_once :: "int \<Rightarrow> string \<Rightarrow> string \<Rightarrow> redemption_row table \<Rightarrow> redemption_row table \<times> bool" where
  "redeem_once now_s key epoch t = insert_or_ignore rd_key \<lparr>rd_key = key, rd_epoch = epoch, rd_at = now_s\<rparr> t"

interpretation redemption: single_use fst "\<lambda>(key, now_s, epoch). redeem_once now_s key epoch"
    "\<lambda>t k. k \<in> set (map rd_key t)"
  by unfold_locales (auto simp: redeem_once_def insert_or_ignore_def split: if_splits)

section \<open>The transaction engine\<close>

datatype op_state = OReserved | OPermitConsumed | OConnectorCommitted | OEvidenceEmitted | OReconciled | OAbandoned

record operation_row =
  op_key :: string
  op_permit :: string
  op_mission :: string
  op_action :: string
  op_epoch :: string
  op_state_of :: op_state
  op_lease_expires_at :: int

record engine =
  redemptions :: "redemption_row table"
  operations :: "operation_row table"
  instance_epoch :: string

definition new_engine :: "string \<Rightarrow> engine" where
  "new_engine epoch = \<lparr>redemptions = [], operations = [], instance_epoch = epoch\<rparr>"

record redeem_input =
  ri_permit :: string
  ri_op_key :: string
  ri_mission :: string
  ri_action :: string
  ri_lease_expires :: "int option"

datatype redeem_result = Redeemed | PermitConsumed | OperationAlreadyClaimed | LeaseSetupFailed | RedeemThrows

definition redeem_permit :: "int \<Rightarrow> redeem_input \<Rightarrow> engine \<Rightarrow> engine \<times> redeem_result" where
  "redeem_permit now_ms i e =
     (case ri_lease_expires i of
        None \<Rightarrow> (e, LeaseSetupFailed)
      | Some lease \<Rightarrow>
          if lease \<le> now_ms then (e, LeaseSetupFailed)
          else
            let (t, consumed) = redeem_once (now_ms div 1000) (ri_op_key i) (instance_epoch e) (redemptions e);
                e1 = e\<lparr>redemptions := t\<rparr>
            in if \<not> consumed then
                 (case select_first (\<lambda>r. op_key r = ri_op_key i \<and> op_epoch r = instance_epoch e) (operations e1) of
                    Some prior \<Rightarrow> (e1, if op_permit prior = ri_permit i then PermitConsumed else OperationAlreadyClaimed)
                  | None \<Rightarrow> (e1, OperationAlreadyClaimed))
               else if ri_op_key i \<in> set (map op_key (operations e1)) then (e1, RedeemThrows)
               else (e1\<lparr>operations := operations e1 @
                 [\<lparr>op_key = ri_op_key i, op_permit = ri_permit i, op_mission = ri_mission i, op_action = ri_action i,
                   op_epoch = instance_epoch e, op_state_of = OPermitConsumed, op_lease_expires_at = lease\<rparr>]\<rparr>, Redeemed))"

definition find_operation :: "string \<Rightarrow> engine \<Rightarrow> operation_row option" where
  "find_operation k e = select_first (\<lambda>r. op_key r = k) (operations e)"

definition lease_valid :: "int \<Rightarrow> string \<Rightarrow> engine \<Rightarrow> bool" where
  "lease_valid now_ms k e =
     (case find_operation k e of
        None \<Rightarrow> False
      | Some r \<Rightarrow> op_state_of r = OConnectorCommitted \<or> now_ms \<le> op_lease_expires_at r)"

definition advance :: "string \<Rightarrow> op_state \<Rightarrow> engine \<Rightarrow> engine" where
  "advance k to e = e\<lparr>operations := update_where (\<lambda>r. op_key r = k) (\<lambda>r. r\<lparr>op_state_of := to\<rparr>) (operations e)\<rparr>"

definition operation_state :: "string \<Rightarrow> engine \<Rightarrow> op_state option" where
  "operation_state k e = map_option op_state_of (find_operation k e)"

definition operation_key :: "string \<Rightarrow> string \<Rightarrow> string \<Rightarrow> string option \<Rightarrow> string" where
  "operation_key mission_id action parameter_digest action_phase =
     (let scope = (case action_phase of None \<Rightarrow> action | Some ph \<Rightarrow> action @ '':'' @ ph)
      in ''op:'' @ mission_id @ '':'' @ scope @ '':'' @ parameter_digest)"

text \<open>A history of one engine: redemptions and state changes, with their results.\<close>

datatype engine_call = CRedeem int redeem_input | CAdvance string op_state

fun run_engine :: "engine_call list \<Rightarrow> engine \<Rightarrow> engine \<times> redeem_result list" where
  "run_engine [] e = (e, [])"
| "run_engine (CRedeem n i # cs) e =
     (let (e1, r) = redeem_permit n i e; (e2, rs) = run_engine cs e1 in (e2, r # rs))"
| "run_engine (CAdvance k to # cs) e = run_engine cs (advance k to e)"

fun redeemed_for :: "string \<Rightarrow> engine_call list \<Rightarrow> redeem_result list \<Rightarrow> (redeem_input \<times> redeem_result) list" where
  "redeemed_for k (CRedeem n i # cs) (r # rs) =
     (if ri_op_key i = k then [(i, r)] else []) @ redeemed_for k cs rs"
| "redeemed_for k (CAdvance _ _ # cs) rs = redeemed_for k cs rs"
| "redeemed_for k _ _ = []"

definition engine_ok :: "engine \<Rightarrow> bool" where
  "engine_ok e = (map rd_key (redemptions e) = map op_key (operations e) \<and> distinct (map op_key (operations e)) \<and>
     (\<forall>r \<in> set (operations e). op_epoch r = instance_epoch e))"

lemma advance_ok: "engine_ok e \<Longrightarrow> engine_ok (advance k to e)"
  by (auto simp: engine_ok_def advance_def update_where_keys) (auto simp: update_where_def)

lemma advance_permit: "map_option op_permit (find_operation x (advance k to e)) = map_option op_permit (find_operation x e)"
  by (cases "find_operation x e") (simp_all add: find_operation_def advance_def select_update_where)

lemma find_scoped:
  assumes "engine_ok e"
  shows "select_first (\<lambda>r. op_key r = k \<and> op_epoch r = instance_epoch e) (operations e) = find_operation k e"
  unfolding find_operation_def using assms by (intro select_first_cong) (auto simp: engine_ok_def)

lemma claimed_iff: "engine_ok e \<Longrightarrow> k \<in> set (map rd_key (redemptions e)) \<longleftrightarrow> find_operation k e \<noteq> None"
  by (auto simp: engine_ok_def find_operation_def select_first_None)

text \<open>One redemption, in full.\<close>

lemma redeem_cases:
  assumes "engine_ok e"
  shows "case redeem_permit n i e of (e', r) \<Rightarrow> engine_ok e' \<and>
    (if ri_lease_expires i = None \<or> the (ri_lease_expires i) \<le> n then e' = e \<and> r = LeaseSetupFailed
     else case find_operation (ri_op_key i) e of
       Some prior \<Rightarrow> e' = e \<and> r = (if op_permit prior = ri_permit i then PermitConsumed else OperationAlreadyClaimed)
     | None \<Rightarrow> r = Redeemed \<and>
         (\<forall>k. map_option op_permit (find_operation k e') =
            (if k = ri_op_key i then Some (ri_permit i) else map_option op_permit (find_operation k e))))"
proof (cases "ri_lease_expires i = None \<or> the (ri_lease_expires i) \<le> n")
  case True
  then show ?thesis using assms by (auto simp: redeem_permit_def split: option.splits)
next
  case False
  then obtain lease where l: "ri_lease_expires i = Some lease" "\<not> lease \<le> n" by auto
  note ck = claimed_iff[OF assms, of "ri_op_key i"]
  show ?thesis
  proof (cases "find_operation (ri_op_key i) e")
    case (Some prior)
    then have "redeem_once (n div 1000) (ri_op_key i) (instance_epoch e) (redemptions e) = (redemptions e, False)"
      using ck by (simp add: redeem_once_def insert_or_ignore_def)
    then show ?thesis
      using l assms Some find_scoped[OF assms, of "ri_op_key i"] by (simp add: redeem_permit_def)
  next
    case None
    then have fresh: "ri_op_key i \<notin> set (map rd_key (redemptions e))" using ck by simp
    then have "ri_op_key i \<notin> set (map op_key (operations e))" using assms by (simp only: engine_ok_def) simp
    then show ?thesis
      using l assms None fresh
      by (auto simp: redeem_permit_def redeem_once_def insert_or_ignore_def engine_ok_def find_operation_def
          select_first_append Let_def split: option.splits)
  qed
qed

text \<open>
  The abstract claim of one operation: nothing, then the permit that redeemed it, for
  ever.  \<open>claim_history\<close> is the sequence of answers it allows.
\<close>

fun claim_history :: "string option \<Rightarrow> (redeem_input \<times> redeem_result) list \<Rightarrow> bool" where
  "claim_history p [] = True"
| "claim_history None ((i, r) # xs) =
     (r = LeaseSetupFailed \<and> claim_history None xs \<or> r = Redeemed \<and> claim_history (Some (ri_permit i)) xs)"
| "claim_history (Some p) ((i, r) # xs) =
     ((r = LeaseSetupFailed \<or> r = (if p = ri_permit i then PermitConsumed else OperationAlreadyClaimed)) \<and>
      claim_history (Some p) xs)"

lemma claim_history_once:
  "claim_history p xs \<Longrightarrow> length (filter (\<lambda>(i, r). r = Redeemed) xs) \<le> (if p = None then 1 else 0)"
  by (induction p xs rule: claim_history.induct) (auto split: if_splits)

lemma claim_history_lease [simp]: "claim_history p ((i, LeaseSetupFailed) # xs) = claim_history p xs"
  by (cases p) auto

lemma run_engine_claims:
  assumes "engine_ok e"
  shows "engine_ok (fst (run_engine cs e)) \<and>
    claim_history (map_option op_permit (find_operation k e)) (redeemed_for k cs (snd (run_engine cs e)))"
  using assms
proof (induction cs e rule: run_engine.induct)
  case (1 e)
  then show ?case by simp
next
  case (2 n i cs e)
  obtain e1 r where st: "redeem_permit n i e = (e1, r)" by (cases "redeem_permit n i e")
  have c: "engine_ok e1" and
    cc: "if ri_lease_expires i = None \<or> the (ri_lease_expires i) \<le> n then e1 = e \<and> r = LeaseSetupFailed
     else case find_operation (ri_op_key i) e of
       Some prior \<Rightarrow> e1 = e \<and> r = (if op_permit prior = ri_permit i then PermitConsumed else OperationAlreadyClaimed)
     | None \<Rightarrow> r = Redeemed \<and>
         (\<forall>k. map_option op_permit (find_operation k e1) =
            (if k = ri_op_key i then Some (ri_permit i) else map_option op_permit (find_operation k e)))"
    using redeem_cases[OF 2(2), of i n] by (simp_all add: st)
  obtain e2 rs where run: "run_engine cs e1 = (e2, rs)" by (cases "run_engine cs e1")
  have ih: "engine_ok e2" "claim_history (map_option op_permit (find_operation k e1)) (redeemed_for k cs rs)"
    using 2(1)[OF st[symmetric] refl c] run by simp_all
  let ?p = "map_option op_permit (find_operation k e)"
  have "claim_history ?p ((if ri_op_key i = k then [(i, r)] else []) @ redeemed_for k cs rs)"
  proof (cases "ri_lease_expires i = None \<or> the (ri_lease_expires i) \<le> n")
    case True
    then show ?thesis using cc ih(2) by simp
  next
    case False
    show ?thesis
    proof (cases "find_operation (ri_op_key i) e")
      case None
      then have r: "r = Redeemed"
        and e1: "map_option op_permit (find_operation k e1) = (if k = ri_op_key i then Some (ri_permit i) else ?p)"
        using cc False by simp_all
      show ?thesis
      proof (cases "k = ri_op_key i")
        case True
        have "claim_history (Some (ri_permit i)) (redeemed_for k cs rs)"
          using ih(2) unfolding e1 by (simp add: True)
        then show ?thesis using r None True by simp
      next
        case False
        then show ?thesis using ih(2) e1 by simp
      qed
    next
      case (Some prior)
      then have "e1 = e" "r = (if op_permit prior = ri_permit i then PermitConsumed else OperationAlreadyClaimed)"
        using cc False by simp_all
      then show ?thesis using ih(2) Some by (cases "k = ri_op_key i") auto
    qed
  qed
  then show ?case using ih(1) run by (simp add: st)
next
  case (3 x to cs e)
  then show ?case using advance_ok[OF 3(2)] advance_permit[of k x to e] by simp
qed

section \<open>The transaction consumption table\<close>

datatype consumption_state = TConsumed | TEffectCommitted

record consumption_row =
  tc_resource :: string
  tc_txn :: string
  tc_op_key :: string
  tc_state :: consumption_state
  tc_consumed_at :: int
  tc_committed_at :: "int option"

definition tc_key :: "consumption_row \<Rightarrow> string \<times> string" where
  "tc_key r = (tc_resource r, tc_txn r)"

definition txn_get :: "string \<Rightarrow> string \<Rightarrow> consumption_row table \<Rightarrow> consumption_row option" where
  "txn_get resource txn t = select_first (\<lambda>r. tc_key r = (resource, txn)) t"

datatype consume_outcome = First | Existing consumption_row | ConflictWithoutRow

definition txn_consume ::
    "int \<Rightarrow> string \<Rightarrow> string \<Rightarrow> string \<Rightarrow> consumption_row table \<Rightarrow> consumption_row table \<times> consume_outcome" where
  "txn_consume now_s resource txn k t =
     (let (t1, took) = insert_or_ignore tc_key
        \<lparr>tc_resource = resource, tc_txn = txn, tc_op_key = k, tc_state = TConsumed, tc_consumed_at = now_s,
         tc_committed_at = None\<rparr> t
      in if took then (t1, First)
         else case txn_get resource txn t1 of None \<Rightarrow> (t1, ConflictWithoutRow) | Some r \<Rightarrow> (t1, Existing r))"

definition txn_commit :: "int \<Rightarrow> string \<Rightarrow> string \<Rightarrow> consumption_row table \<Rightarrow> consumption_row table" where
  "txn_commit now_s resource txn t =
     update_where (\<lambda>r. tc_key r = (resource, txn))
       (\<lambda>r. r\<lparr>tc_state := TEffectCommitted, tc_committed_at := Some now_s\<rparr>) t"

definition txn_take :: "(string \<times> string) \<times> int \<times> string \<Rightarrow> consumption_row table \<Rightarrow> consumption_row table \<times> bool" where
  "txn_take i t = (case i of ((resource, txn), now_s, k) \<Rightarrow>
     (let (t1, o1) = txn_consume now_s resource txn k t in (t1, o1 = First)))"

interpretation consumption: single_use fst txn_take "\<lambda>t k. k \<in> set (map tc_key t)"
proof
  fix i :: "(string \<times> string) \<times> int \<times> string" and s :: "consumption_row table" and k
  obtain r x n o' where i: "i = ((r, x), n, o')" by (cases i) auto
  have d: "txn_get r x s \<noteq> None \<longleftrightarrow> (r, x) \<in> set (map tc_key s)"
    by (simp only: txn_get_def select_key_None) simp
  show "snd (txn_take i s) \<longleftrightarrow> fst i \<notin> set (map tc_key s)"
    by (auto simp: i txn_take_def txn_consume_def insert_or_ignore_def tc_key_def split: option.splits)
  show "k \<in> set (map tc_key (fst (txn_take i s))) \<longleftrightarrow> k \<in> set (map tc_key s) \<or> k = fst i"
    by (auto simp: i txn_take_def txn_consume_def insert_or_ignore_def tc_key_def split: option.splits)
qed

lemma txn_consume_exact:
  "txn_consume n r x k t =
     (case txn_get r x t of
        Some row \<Rightarrow> (t, Existing row)
      | None \<Rightarrow> (t @ [\<lparr>tc_resource = r, tc_txn = x, tc_op_key = k, tc_state = TConsumed, tc_consumed_at = n,
          tc_committed_at = None\<rparr>], First))"
proof -
  have "(r, x) \<in> set (map tc_key t) \<longleftrightarrow> txn_get r x t \<noteq> None"
    by (simp only: txn_get_def select_key_None) simp
  then show ?thesis
    by (cases "txn_get r x t") (simp_all add: txn_consume_def insert_or_ignore_def tc_key_def)
qed

datatype txn_call = TConsume int string string string | TCommit int string string

fun run_txn_call :: "txn_call \<Rightarrow> consumption_row table \<Rightarrow> consumption_row table" where
  "run_txn_call (TConsume n r x k) t = fst (txn_consume n r x k t)"
| "run_txn_call (TCommit n r x) t = txn_commit n r x t"

lemma txn_get_call:
  assumes "txn_get r x t = Some row"
  shows "\<exists>row'. txn_get r x (run_txn_call c t) = Some row' \<and> tc_op_key row' = tc_op_key row \<and>
    (tc_state row = TEffectCommitted \<longrightarrow> tc_state row' = TEffectCommitted)"
proof (cases c)
  case (TConsume n a b k)
  then show ?thesis
    using assms by (auto simp: txn_consume_exact txn_get_def select_first_append split: option.splits)
next
  case (TCommit n a b)
  then show ?thesis
    using assms by (auto simp: txn_commit_def txn_get_def select_update_where tc_key_def)
qed

lemma txn_get_calls:
  "txn_get r x t = Some row \<Longrightarrow>
   \<exists>row'. txn_get r x (fold run_txn_call cs t) = Some row' \<and> tc_op_key row' = tc_op_key row \<and>
    (tc_state row = TEffectCommitted \<longrightarrow> tc_state row' = TEffectCommitted)"
proof (induction cs arbitrary: t row)
  case Nil
  then show ?case by simp
next
  case (Cons c cs)
  from txn_get_call[OF Cons.prems, of c] obtain row1 where
    "txn_get r x (run_txn_call c t) = Some row1" "tc_op_key row1 = tc_op_key row"
    "tc_state row = TEffectCommitted \<longrightarrow> tc_state row1 = TEffectCommitted" by blast
  with Cons.IH[OF this(1)] show ?case by auto
qed

section \<open>Properties\<close>

text \<open>
  C14. An operation is executed under one permit at most.  Along any history of one
  engine (redemptions under any permits and clocks, and any state changes between
  them) the answers for one operation key are: refusals for want of a lease, at most
  one redemption, and after it every presentation of the winning permit is reported
  consumed and every other permit is told the operation is already claimed.  The
  insert that opens the operation never fails.
\<close>

theorem redeemed_once_per_operation:
  "claim_history None (redeemed_for k cs (snd (run_engine cs (new_engine epoch)))) \<and>
   length (filter (\<lambda>(i, r). r = Redeemed) (redeemed_for k cs (snd (run_engine cs (new_engine epoch))))) \<le> 1"
proof -
  have "engine_ok (new_engine epoch)" "find_operation k (new_engine epoch) = None"
    by (simp_all add: engine_ok_def new_engine_def find_operation_def)
  then have "claim_history None (redeemed_for k cs (snd (run_engine cs (new_engine epoch))))"
    using run_engine_claims[of "new_engine epoch" cs k] by simp
  then show ?thesis using claim_history_once[of None] by force
qed

text \<open>
  C15. A transaction is consumed once across every replica that shares the table: over
  any interleaving of attempts, exactly one is told it was first; and whatever
  consumptions and commits follow, the record keeps the operation key of the request
  that took it, stays committed once committed, and is what every later attempt gets.
\<close>

theorem txn_consumed_once:
  assumes "txn_get r x t = None"
  shows "wins fst txn_take t is (r, x) = (if (r, x) \<in> set (map fst is) then 1 else 0) \<and>
    (\<exists>row. txn_get r x (fold run_txn_call cs (fst (txn_consume n r x k t))) = Some row \<and> tc_op_key row = k \<and>
       snd (txn_consume n' r x k' (fold run_txn_call cs (fst (txn_consume n r x k t)))) = Existing row) \<and>
    (\<exists>row. txn_get r x (fold run_txn_call cs (txn_commit m r x (fst (txn_consume n r x k t)))) = Some row \<and>
       tc_state row = TEffectCommitted)"
proof -
  have "(r, x) \<notin> set (map tc_key t)" using assms by (simp only: txn_get_def select_key_None) simp
  then have w: "wins fst txn_take t is (r, x) = (if (r, x) \<in> set (map fst is) then 1 else 0)"
    using consumption.wins_once[of t "is" "(r, x)"] by simp
  let ?t1 = "fst (txn_consume n r x k t)"
  have g: "\<exists>row. txn_get r x ?t1 = Some row \<and> tc_op_key row = k"
    using assms by (simp add: txn_consume_exact) (simp add: txn_get_def select_first_append tc_key_def)
  then obtain row where row: "txn_get r x ?t1 = Some row" "tc_op_key row = k" by blast
  have c: "txn_get r x (txn_commit m r x ?t1) = Some (row\<lparr>tc_state := TEffectCommitted, tc_committed_at := Some m\<rparr>)"
    using row(1) select_first_SomeD[of "\<lambda>r'. tc_key r' = (r, x)" ?t1 row]
    by (simp add: txn_get_def txn_commit_def select_update_where tc_key_def)
  show ?thesis
    using w txn_get_calls[OF row(1), of cs] txn_get_calls[OF c, of cs] row(2)
    by (auto simp: txn_consume_exact)
qed

theorem txn_consumed_once_witness:
  "wins fst txn_take [] [((''rs'', ''t1''), 1, ''op1''), ((''rs'', ''t1''), 2, ''op2'')] (''rs'', ''t1'') = 1"
  using txn_consumed_once[of "''rs''" "''t1''" "[]" "[((''rs'', ''t1''), 1, ''op1''), ((''rs'', ''t1''), 2, ''op2'')]"]
  by (simp add: txn_get_def)

end
