(* ===== verification/Merkle_Log.thy ===== *)
theory Merkle_Log
  imports Prelude "HOL-Library.Word"
begin

text \<open>
  The append-only log of the transparency service
  (\<^verbatim>\<open>services/transparency/src/merkle.ts\<close>): the tree hash, the inclusion proof,
  the iterative verifier and the log itself.  The hash function is a parameter
  \<open>sha\<close>; where a statement needs it, its digests have a fixed length \<open>d\<close>, as
  SHA-256's have.  Indexes and sizes are natural numbers, as the service issues
  them.

  The verifier walks the proof bottom-up by arithmetic on the index; the proof is
  built top-down by splitting the tree.  \<open>sides\<close> is the common reference: the
  list of the sides on which the siblings stand, from the leaf to the root.
\<close>

type_synonym bytes = "8 word list"

section \<open>The tree hash and the inclusion proof\<close>

definition leaf_hash :: "(bytes \<Rightarrow> bytes) \<Rightarrow> bytes \<Rightarrow> bytes" where
  "leaf_hash sha data = sha (0 # data)"

definition node_hash :: "(bytes \<Rightarrow> bytes) \<Rightarrow> bytes \<Rightarrow> bytes \<Rightarrow> bytes" where
  "node_hash sha left right = sha (1 # left @ right)"

text \<open>The loop doubles a positive \<open>k\<close>; the guard on \<open>0\<close> only makes the function total.\<close>

function double_below :: "nat \<Rightarrow> nat \<Rightarrow> nat" where
  "double_below k n = (if 0 < k \<and> k * 2 < n then double_below (k * 2) n else k)"
  by pat_completeness auto
termination
  by (relation "measure (\<lambda>(k, n). n - k)") auto

declare double_below.simps [simp del]

definition largest_power_of_two_below :: "nat \<Rightarrow> nat" where
  "largest_power_of_two_below n = double_below 1 n"

lemma double_below_power:
  "\<exists>e. double_below (2 ^ j) n = 2 ^ e \<and> (2 ^ j < n \<longrightarrow> 2 ^ e < n) \<and> n \<le> 2 * 2 ^ e"
proof (induction "2 ^ j :: nat" n arbitrary: j rule: double_below.induct)
  case (1 n)
  show ?case
  proof (cases "2 ^ j * 2 < n")
    case True
    then obtain e where "double_below (2 ^ Suc j) n = 2 ^ e \<and> (2 ^ Suc j < n \<longrightarrow> 2 ^ e < n) \<and> n \<le> 2 * 2 ^ e"
      using 1[of "Suc j"] by (auto simp: mult.commute)
    then show ?thesis
      using True by (intro exI[of _ e]) (simp add: double_below.simps[of "2 ^ j"] mult.commute)
  next
    case False
    then show ?thesis by (intro exI[of _ j]) (simp add: double_below.simps[of "2 ^ j"])
  qed
qed

lemma split_point:
  assumes "1 < n"
  obtains e where "largest_power_of_two_below n = 2 ^ e" "2 ^ e < n" "n \<le> 2 * 2 ^ e"
  using double_below_power[of 0 n] assms by (auto simp: largest_power_of_two_below_def)

lemma split_bounds:
  assumes "\<not> n \<le> Suc 0"
  shows "0 < largest_power_of_two_below n" "largest_power_of_two_below n < n" "n - largest_power_of_two_below n < n"
    "min n (largest_power_of_two_below n) < n"
proof -
  obtain e where "largest_power_of_two_below n = 2 ^ e" "2 ^ e < n" using assms split_point[of n] by auto
  then show "0 < largest_power_of_two_below n" "largest_power_of_two_below n < n" "n - largest_power_of_two_below n < n"
    "min n (largest_power_of_two_below n) < n"
    by simp_all
qed

lemma two_leaves: "length leaves \<noteq> 0 \<Longrightarrow> length leaves \<noteq> 1 \<Longrightarrow> \<not> length leaves \<le> Suc 0" by linarith

function mth :: "(bytes \<Rightarrow> bytes) \<Rightarrow> bytes list \<Rightarrow> bytes" where
  "mth sha leaves =
     (if length leaves = 0 then sha []
      else if length leaves = 1 then leaves ! 0
      else let k = largest_power_of_two_below (length leaves)
           in node_hash sha (mth sha (take k leaves)) (mth sha (drop k leaves)))"
  by pat_completeness auto
termination
  by (relation "measure (\<lambda>(_, leaves). length leaves)") (use split_bounds[OF two_leaves] in auto)

declare mth.simps [simp del]

function inclusion_proof :: "(bytes \<Rightarrow> bytes) \<Rightarrow> nat \<Rightarrow> bytes list \<Rightarrow> bytes list" where
  "inclusion_proof sha m leaves =
     (if length leaves \<le> 1 then []
      else let k = largest_power_of_two_below (length leaves)
           in if m < k then inclusion_proof sha m (take k leaves) @ [mth sha (drop k leaves)]
              else inclusion_proof sha (m - k) (drop k leaves) @ [mth sha (take k leaves)])"
  by pat_completeness auto
termination
  by (relation "measure (\<lambda>(_, _, leaves). length leaves)") (auto simp: split_bounds)

declare inclusion_proof.simps [simp del]

section \<open>The verifier\<close>

fun strip_even :: "nat \<Rightarrow> nat \<Rightarrow> nat \<times> nat" where
  "strip_even fn sn = (if fn mod 2 = 0 \<and> fn \<noteq> 0 then strip_even (fn div 2) (sn div 2) else (fn, sn))"

declare strip_even.simps [simp del]

lemma strip_even_le: "snd (strip_even fn sn) \<le> sn"
proof (induction fn sn rule: strip_even.induct)
  case (1 fn sn)
  then show ?case
    by (subst strip_even.simps) (auto intro: order_trans[OF _ div_le_dividend])
qed

function verify_loop :: "(bytes \<Rightarrow> bytes) \<Rightarrow> bytes \<Rightarrow> nat \<Rightarrow> nat \<Rightarrow> bytes list \<Rightarrow> (bytes \<times> bytes list) option" where
  "verify_loop sha hash fn sn proof =
     (if sn = 0 then Some (hash, proof)
      else case proof of
        [] \<Rightarrow> None
      | sibling # rest \<Rightarrow>
          if fn mod 2 = 1 \<or> fn = sn then
            (case strip_even fn sn of (fn', sn') \<Rightarrow>
               verify_loop sha (node_hash sha sibling hash) (fn' div 2) (sn' div 2) rest)
          else verify_loop sha (node_hash sha hash sibling) (fn div 2) (sn div 2) rest)"
  by pat_completeness auto
termination
  by (relation "measure (\<lambda>(_, _, _, _, proof). length proof)") auto

declare verify_loop.simps [simp del]

definition verify_inclusion :: "(bytes \<Rightarrow> bytes) \<Rightarrow> bytes \<Rightarrow> nat \<Rightarrow> nat \<Rightarrow> bytes list \<Rightarrow> bytes \<Rightarrow> bool" where
  "verify_inclusion sha leaf index tree_size proof root =
     (if tree_size \<le> index then False
      else case verify_loop sha leaf index (tree_size - 1) proof of
        None \<Rightarrow> False
      | Some (hash, rest) \<Rightarrow> rest = [] \<and> hash = root)"

section \<open>The log\<close>

type_synonym merkle_log = "bytes list"

definition log_append :: "bytes \<Rightarrow> merkle_log \<Rightarrow> merkle_log \<times> nat" where
  "log_append leaf l = (let l' = l @ [leaf] in (l', length l' - 1))"

definition log_root :: "(bytes \<Rightarrow> bytes) \<Rightarrow> merkle_log \<Rightarrow> bytes" where
  "log_root sha l = mth sha l"

definition log_proof :: "(bytes \<Rightarrow> bytes) \<Rightarrow> nat \<Rightarrow> merkle_log \<Rightarrow> bytes list" where
  "log_proof sha index l = inclusion_proof sha index l"

section \<open>The reference: the sides of the siblings\<close>

function sides :: "nat \<Rightarrow> nat \<Rightarrow> bool list" where
  "sides m n =
     (if n \<le> 1 then []
      else let k = largest_power_of_two_below n
           in if m < k then sides m k @ [False] else sides (m - k) (n - k) @ [True])"
  by pat_completeness auto
termination
  by (relation "measure snd") (auto simp: split_bounds)

declare sides.simps [simp del]

fun climb :: "(bytes \<Rightarrow> bytes) \<Rightarrow> bool list \<Rightarrow> bytes \<Rightarrow> bytes list \<Rightarrow> (bytes \<times> bytes list) option" where
  "climb sha [] h ps = Some (h, ps)"
| "climb sha (b # bs) h [] = None"
| "climb sha (b # bs) h (p # ps) = climb sha bs (if b then node_hash sha p h else node_hash sha h p) ps"

definition side_input :: "bool \<Rightarrow> bytes \<Rightarrow> bytes \<Rightarrow> bytes" where
  "side_input b h p = 1 # (if b then p @ h else h @ p)"

fun climb_inputs :: "(bytes \<Rightarrow> bytes) \<Rightarrow> bool list \<Rightarrow> bytes \<Rightarrow> bytes list \<Rightarrow> bytes list" where
  "climb_inputs sha (b # bs) h (p # ps) = side_input b h p # climb_inputs sha bs (sha (side_input b h p)) ps"
| "climb_inputs sha _ h _ = []"

lemma climb_snoc:
  "climb sha bs h qs = Some (h', []) \<Longrightarrow> climb sha (bs @ [b]) h (qs @ [p]) = Some (sha (side_input b h' p), [])"
  by (induction sha bs h qs rule: climb.induct) (auto simp: side_input_def node_hash_def)

lemma climb_snocD:
  "climb sha (bs @ [b]) h ps = Some (r, []) \<Longrightarrow>
   \<exists>qs p h'. ps = qs @ [p] \<and> climb sha bs h qs = Some (h', []) \<and> r = sha (side_input b h' p) \<and>
     climb_inputs sha (bs @ [b]) h ps = climb_inputs sha bs h qs @ [side_input b h' p]"
proof (induction bs arbitrary: h ps)
  case Nil
  then obtain p where "ps = [p]" by (cases ps) auto
  then show ?case using Nil by (auto simp: side_input_def node_hash_def split: if_splits)
next
  case (Cons c bs)
  then obtain p ps' where ps: "ps = p # ps'" by (cases ps) auto
  then have "climb sha (bs @ [b]) (sha (side_input c h p)) ps' = Some (r, [])"
    using Cons.prems by (auto simp: side_input_def node_hash_def split: if_splits)
  from Cons.IH[OF this] obtain qs q h' where
    "ps' = qs @ [q]" "climb sha bs (sha (side_input c h p)) qs = Some (h', [])" "r = sha (side_input b h' q)"
    "climb_inputs sha (bs @ [b]) (sha (side_input c h p)) ps' =
      climb_inputs sha bs (sha (side_input c h p)) qs @ [side_input b h' q]" by blast
  then show ?case
    using ps by (intro exI[of _ "p # qs"] exI[of _ q] exI[of _ h'])
      (auto simp: side_input_def node_hash_def split: if_splits)
qed

lemma climb_length: "(\<And>x. length (sha x) = d) \<Longrightarrow> length h = d \<Longrightarrow> climb sha bs h ps = Some (r, qs) \<Longrightarrow> length r = d"
  by (induction sha bs h ps rule: climb.induct) (auto simp: node_hash_def split: if_splits)

text \<open>The sides the arithmetic of the verifier visits.\<close>

function loop_sides :: "nat \<Rightarrow> nat \<Rightarrow> bool list" where
  "loop_sides fn sn =
     (if sn = 0 then []
      else if fn mod 2 = 1 \<or> fn = sn then
        (case strip_even fn sn of (fn', sn') \<Rightarrow> True # loop_sides (fn' div 2) (sn' div 2))
      else False # loop_sides (fn div 2) (sn div 2))"
  by pat_completeness auto
termination
proof (relation "measure snd", goal_cases)
  case (2 fn sn fn' sn')
  then show ?case using strip_even_le[of fn sn] by (auto dest: sym)
qed auto

declare loop_sides.simps [simp del]

lemma verify_loop_climb: "verify_loop sha h fn sn ps = climb sha (loop_sides fn sn) h ps"
proof (induction sha h fn sn ps rule: verify_loop.induct)
  case (1 sha h fn sn ps)
  show ?case
    by (cases ps; cases "strip_even fn sn")
      (use 1 in \<open>auto simp: verify_loop.simps[of sha h fn sn] loop_sides.simps[of fn sn]\<close>)
qed

text \<open>
  Inside a perfect tree of \<open>2 ^ e\<close> leaves the sides are the bits of the index,
  whatever the size; above it, one step reaches the root.
\<close>

lemma loop_left:
  "m < 2 ^ e \<Longrightarrow> 2 ^ e \<le> s \<Longrightarrow> s < 2 * 2 ^ e \<Longrightarrow> loop_sides m s = loop_sides m (2 ^ e - 1) @ [False]"
proof (induction e arbitrary: m s)
  case 0
  then show ?case by (simp add: loop_sides.simps)
next
  case (Suc e)
  define t :: nat where "t = 2 * 2 ^ e - 1"
  have half: "t div 2 = 2 ^ e - 1" and ones: "t mod 2 = 1" and pos: "t \<noteq> 0"
    unfolding t_def by (cases "2 ^ e :: nat"; simp)+
  have IH: "loop_sides (m div 2) (s div 2) = loop_sides (m div 2) (2 ^ e - 1) @ [False]"
    using Suc.prems by (intro Suc.IH) auto
  have s0: "s \<noteq> 0" "m \<noteq> s" using Suc.prems by auto
  have "loop_sides m s = loop_sides m t @ [False]"
  proof (cases "m mod 2 = 1")
    case True
    then have "strip_even m x = (m, x)" for x by (simp add: strip_even.simps[of m])
    then show ?thesis
      using True s0 pos IH by (simp add: loop_sides.simps[of m s] loop_sides.simps[of m t] half)
  next
    case False
    then have "m \<noteq> t" using ones by auto
    then show ?thesis
      using False s0 pos IH by (simp add: loop_sides.simps[of m s] loop_sides.simps[of m t] half)
  qed
  then show ?case by (simp add: t_def)
qed

lemma strip_even_power: "strip_even (2 ^ e) (2 ^ e) = (1, 1)"
proof (induction e)
  case 0
  then show ?case by (subst strip_even.simps) simp
next
  case (Suc e)
  then show ?case by (simp add: strip_even.simps[of "2 * 2 ^ e"])
qed

lemma strip_even_shift:
  assumes "0 < m" "m < 2 ^ e"
  shows "\<exists>j. 0 < e - j \<and> strip_even m s = (m div 2 ^ j, s div 2 ^ j) \<and>
    strip_even (2 ^ e + m) (2 ^ e + s) = (2 ^ (e - j) + m div 2 ^ j, 2 ^ (e - j) + s div 2 ^ j)"
  using assms
proof (induction m s arbitrary: e rule: strip_even.induct)
  case (1 m s)
  then obtain f where e: "e = Suc f" by (cases e) auto
  have sh: "(2 ^ e + x) div 2 = 2 ^ f + x div 2" "(2 ^ e + x) mod 2 = x mod 2" for x :: nat by (simp_all add: e)
  show ?case
  proof (cases "m mod 2 = 0")
    case True
    then have "0 < m div 2" "m div 2 < 2 ^ f" using 1(2,3) e by auto
    then obtain j where "0 < f - j" "strip_even (m div 2) (s div 2) = (m div 2 div 2 ^ j, s div 2 div 2 ^ j)"
      "strip_even (2 ^ f + m div 2) (2 ^ f + s div 2) =
        (2 ^ (f - j) + m div 2 div 2 ^ j, 2 ^ (f - j) + s div 2 div 2 ^ j)"
      using 1(1)[of f] True 1(2) by auto
    then show ?thesis
      using True 1(2) sh e
      by (intro exI[of _ "Suc j"]) (simp add: strip_even.simps[of m] strip_even.simps[of "2 * 2 ^ f + m"] div_mult2_eq)
  next
    case False
    then show ?thesis
      using e sh by (intro exI[of _ 0]) (simp add: strip_even.simps[of m] strip_even.simps[of "2 * 2 ^ f + m"])
  qed
qed

lemma loop_right:
  "m \<le> s \<Longrightarrow> s < 2 ^ e \<Longrightarrow> loop_sides (2 ^ e + m) (2 ^ e + s) = loop_sides m s @ [True]"
proof (induction m s arbitrary: e rule: loop_sides.induct)
  case (1 m s)
  show ?case
  proof (cases "s = 0")
    case True
    then show ?thesis using 1 by (simp add: loop_sides.simps strip_even_power)
  next
    case s0: False
    then obtain f where e: "e = Suc f" using 1 by (cases e) auto
    have sh: "(2 ^ e + x) div 2 = 2 ^ f + x div 2" "(2 ^ e + x) mod 2 = x mod 2" for x :: nat by (simp_all add: e)
    show ?thesis
    proof (cases "m mod 2 = 1 \<or> m = s")
      case True
      then have "0 < m" "m < 2 ^ e" using s0 1 by auto
      then obtain j where j: "0 < e - j" "strip_even m s = (m div 2 ^ j, s div 2 ^ j)"
        "strip_even (2 ^ e + m) (2 ^ e + s) = (2 ^ (e - j) + m div 2 ^ j, 2 ^ (e - j) + s div 2 ^ j)"
        using strip_even_shift by blast
      then obtain g where g: "e - j = Suc g" by (cases "e - j") auto
      have bound: "s div 2 ^ j div 2 < 2 ^ g"
      proof -
        have "s < 2 ^ j * (2 * 2 ^ g)" using 1(4) g j(1) by (metis le_add_diff_inverse less_imp_le power_Suc power_add zero_less_diff)
        then show ?thesis by (simp add: less_mult_imp_div_less mult.commute mult.left_commute)
      qed
      have "m div 2 ^ j div 2 \<le> s div 2 ^ j div 2" using 1(3) by (simp add: div_le_mono)
      then have "loop_sides (2 ^ g + m div 2 ^ j div 2) (2 ^ g + s div 2 ^ j div 2) =
          loop_sides (m div 2 ^ j div 2) (s div 2 ^ j div 2) @ [True]"
        using 1(1)[OF s0 True j(2)[symmetric]] bound by simp
      then show ?thesis
        using True s0 j g sh
        by (simp add: loop_sides.simps[of m s] loop_sides.simps[of "2 ^ e + m" "2 ^ e + s"])
    next
      case False
      have "loop_sides (2 ^ f + m div 2) (2 ^ f + s div 2) = loop_sides (m div 2) (s div 2) @ [True]"
        using 1(2)[OF s0 False, of f] 1(3,4) e by (simp add: div_le_mono)
      then show ?thesis
        using False s0 sh by (simp add: loop_sides.simps[of m s] loop_sides.simps[of "2 ^ e + m" "2 ^ e + s"])
    qed
  qed
qed

lemma loop_sides_sides: "m < n \<Longrightarrow> loop_sides m (n - 1) = sides m n"
proof (induction m n rule: sides.induct)
  case (1 m n)
  show ?case
  proof (cases "n \<le> 1")
    case True
    then show ?thesis by (simp add: sides.simps loop_sides.simps)
  next
    case False
    then obtain e where e: "largest_power_of_two_below n = 2 ^ e" "2 ^ e < n" "n \<le> 2 * 2 ^ e"
      using split_point[of n] by (auto simp: not_le)
    show ?thesis
    proof (cases "m < 2 ^ e")
      case True
      then show ?thesis
        using 1(1)[OF False refl] loop_left[of m e "n - 1"] e False by (simp add: sides.simps[of m n] Let_def)
    next
      case right: False
      have "loop_sides (2 ^ e + (m - 2 ^ e)) (2 ^ e + (n - 2 ^ e - 1)) = loop_sides (m - 2 ^ e) (n - 2 ^ e - 1) @ [True]"
        using 1(3) e right by (intro loop_right) auto
      then show ?thesis
        using 1(2)[OF False refl] 1(3) e right False by (simp add: sides.simps[of m n] Let_def)
    qed
  qed
qed

lemma verify_reference:
  "verify_inclusion sha leaf m n ps root \<longleftrightarrow> m < n \<and> climb sha (sides m n) leaf ps = Some (root, [])"
  using loop_sides_sides[of m n]
  by (auto simp: verify_inclusion_def verify_loop_climb split: option.splits)

section \<open>Completeness and soundness\<close>

text \<open>The recursions at a tree of at least two leaves.\<close>

lemma mth_split:
  "\<not> length leaves \<le> 1 \<Longrightarrow>
   mth sha leaves = sha (1 # mth sha (take (largest_power_of_two_below (length leaves)) leaves) @
     mth sha (drop (largest_power_of_two_below (length leaves)) leaves))"
  by (subst mth.simps) (auto simp: node_hash_def Let_def)

lemma proof_split:
  "\<not> length leaves \<le> 1 \<Longrightarrow> k = largest_power_of_two_below (length leaves) \<Longrightarrow>
   inclusion_proof sha m leaves =
     (if m < k then inclusion_proof sha m (take k leaves) @ [mth sha (drop k leaves)]
      else inclusion_proof sha (m - k) (drop k leaves) @ [mth sha (take k leaves)])"
  by (subst inclusion_proof.simps) (simp add: Let_def)

lemma sides_split:
  "\<not> n \<le> 1 \<Longrightarrow> k = largest_power_of_two_below n \<Longrightarrow>
   sides m n = (if m < k then sides m k @ [False] else sides (m - k) (n - k) @ [True])"
  by (subst sides.simps) (simp add: Let_def)

lemma proof_climbs:
  "m < length leaves \<Longrightarrow>
   climb sha (sides m (length leaves)) (leaves ! m) (inclusion_proof sha m leaves) = Some (mth sha leaves, [])"
proof (induction sha m leaves rule: inclusion_proof.induct)
  case (1 sha m leaves)
  let ?n = "length leaves" and ?k = "largest_power_of_two_below (length leaves)"
  show ?case
  proof (cases "?n \<le> 1")
    case True
    then obtain x where "leaves = [x]" "m = 0" using 1(3) by (cases leaves) auto
    then show ?thesis by (simp add: sides.simps inclusion_proof.simps[of sha 0 "[x]"] mth.simps[of sha "[x]"])
  next
    case False
    note k = split_bounds[of ?n]
    show ?thesis
    proof (cases "m < ?k")
      case True
      then have "climb sha (sides m ?k) (leaves ! m) (inclusion_proof sha m (take ?k leaves)) =
          Some (mth sha (take ?k leaves), [])"
        using 1(1)[OF False refl True] k False by (simp add: min_def)
      from climb_snoc[OF this, of False "mth sha (drop ?k leaves)"] show ?thesis
        using True
        by (simp add: sides_split[OF False refl] proof_split[OF False refl] mth_split[OF False] side_input_def)
    next
      case right: False
      then have "climb sha (sides (m - ?k) (?n - ?k)) (leaves ! m) (inclusion_proof sha (m - ?k) (drop ?k leaves)) =
          Some (mth sha (drop ?k leaves), [])"
        using 1(2)[OF False refl right] 1(3) k False by simp
      from climb_snoc[OF this, of True "mth sha (take ?k leaves)"] show ?thesis
        using right
        by (simp add: sides_split[OF False refl] proof_split[OF False refl] mth_split[OF False] side_input_def)
    qed
  qed
qed

text \<open>Every input the tree hash of a non-empty log gives to the hash function.\<close>

function tree_inputs :: "(bytes \<Rightarrow> bytes) \<Rightarrow> bytes list \<Rightarrow> bytes list" where
  "tree_inputs sha leaves =
     (if length leaves \<le> 1 then []
      else let k = largest_power_of_two_below (length leaves)
           in (1 # mth sha (take k leaves) @ mth sha (drop k leaves)) #
              tree_inputs sha (take k leaves) @ tree_inputs sha (drop k leaves))"
  by pat_completeness auto
termination
  by (relation "measure (\<lambda>(_, leaves). length leaves)") (auto simp: split_bounds)

declare tree_inputs.simps [simp del]

text \<open>Two different inputs, one of each list, with the same digest.\<close>

definition collides :: "(bytes \<Rightarrow> bytes) \<Rightarrow> bytes list \<Rightarrow> bytes list \<Rightarrow> bool" where
  "collides sha xs ys = (\<exists>x \<in> set xs. \<exists>y \<in> set ys. x \<noteq> y \<and> sha x = sha y)"

lemma collides_mono: "collides sha xs ys \<Longrightarrow> set xs \<subseteq> set xs' \<Longrightarrow> set ys \<subseteq> set ys' \<Longrightarrow> collides sha xs' ys'"
  unfolding collides_def by blast

lemma mth_length:
  assumes "\<And>x. length (sha x) = d" "\<forall>x \<in> set leaves. length x = d"
  shows "length (mth sha leaves) = d"
  using assms by (auto simp: mth.simps[of sha leaves] Let_def node_hash_def)

lemma climb_sound:
  assumes "\<And>x. length (sha x) = d" "length h = d"
  shows "m < length leaves \<Longrightarrow> \<forall>x \<in> set leaves. length x = d \<Longrightarrow>
    climb sha (sides m (length leaves)) h ps = Some (mth sha leaves, []) \<Longrightarrow>
    h = leaves ! m \<or>
    collides sha (tree_inputs sha leaves) (climb_inputs sha (sides m (length leaves)) h ps)"
  using assms(1)
proof (induction sha m leaves arbitrary: ps rule: inclusion_proof.induct)
  case (1 sha m leaves)
  let ?n = "length leaves" and ?k = "largest_power_of_two_below (length leaves)"
  show ?case
  proof (cases "?n \<le> 1")
    case True
    then obtain x where "leaves = [x]" "m = 0" using 1(3) by (cases leaves) auto
    then show ?thesis using 1(5) by (simp add: sides.simps mth.simps[of sha "[x]"])
  next
    case False
    note k = split_bounds[of ?n]
    define bs where "bs = (if m < ?k then sides m ?k else sides (m - ?k) (?n - ?k))"
    define b where "b = (\<not> m < ?k)"
    have split: "sides m ?n = bs @ [b]" by (simp add: sides_split[OF False refl] bs_def b_def)
    obtain qs p h' where c: "ps = qs @ [p]" "climb sha bs h qs = Some (h', [])"
      "mth sha leaves = sha (side_input b h' p)"
      "climb_inputs sha (sides m ?n) h ps = climb_inputs sha bs h qs @ [side_input b h' p]"
      using climb_snocD[of sha bs b h ps "mth sha leaves"] 1(5) by (auto simp: split)
    let ?L = "mth sha (take ?k leaves)" and ?R = "mth sha (drop ?k leaves)"
    note root = mth_split[OF False, of sha]
    have inputs: "tree_inputs sha leaves = (1 # ?L @ ?R) # tree_inputs sha (take ?k leaves) @ tree_inputs sha (drop ?k leaves)"
      using False by (simp add: tree_inputs.simps[of sha leaves] Let_def)
    have sub: "\<forall>x \<in> set (take ?k leaves). length x = d" "\<forall>x \<in> set (drop ?k leaves). length x = d"
      using 1(4) by (auto dest: in_set_takeD in_set_dropD)
    have len: "length ?L = d" "length ?R = d" "length h' = d"
      by (rule mth_length[OF 1(6) sub(1)], rule mth_length[OF 1(6) sub(2)], rule climb_length[OF 1(6) assms(2) c(2)])
    show ?thesis
    proof (cases "side_input b h' p = 1 # ?L @ ?R")
      case False
      then have "1 # ?L @ ?R \<noteq> side_input b h' p" "sha (1 # ?L @ ?R) = sha (side_input b h' p)"
        using root c(3) by simp_all
      then show ?thesis
        unfolding collides_def
        by (intro disjI2 bexI[of _ "1 # ?L @ ?R"] bexI[of _ "side_input b h' p"]) (simp_all add: inputs c(4))
    next
      case True
      show ?thesis
      proof (cases "m < ?k")
        case left: True
        then have "climb sha (sides m (length (take ?k leaves))) h qs = Some (?L, [])"
          using True c(2) len k False by (simp add: bs_def b_def side_input_def min_def)
        from 1(1)[OF False refl left _ sub(1) this 1(6)]
        have "h = leaves ! m \<or> collides sha (tree_inputs sha (take ?k leaves)) (climb_inputs sha bs h qs)"
          using left k False by (simp add: bs_def min_def)
        then show ?thesis by (elim disjE) (auto simp: inputs c(4) intro!: disjI2 elim!: collides_mono)
      next
        case right: False
        then have "climb sha (sides (m - ?k) (length (drop ?k leaves))) h qs = Some (?R, [])"
          using True c(2) len k by (simp add: bs_def b_def side_input_def append_eq_append_conv)
        from 1(2)[OF False refl right _ sub(2) this 1(6)]
        have "h = leaves ! m \<or> collides sha (tree_inputs sha (drop ?k leaves)) (climb_inputs sha bs h qs)"
          using right k False 1(3) by (simp add: bs_def)
        then show ?thesis by (elim disjE) (auto simp: inputs c(4) intro!: disjI2 elim!: collides_mono)
      qed
    qed
  qed
qed

section \<open>Properties\<close>

text \<open>
  C26. A receipt verifies: the leaf the service appends is accepted by the offline
  verifier, at the index the append returned, against the root and the inclusion
  proof of the log at any later size, whatever was appended in between.
\<close>

theorem registered_leaf_verifies:
  "case log_append leaf l of (l1, i) \<Rightarrow>
     let l2 = fold (\<lambda>x l. fst (log_append x l)) more l1
     in verify_inclusion sha leaf i (length l2) (log_proof sha i l2) (log_root sha l2)"
proof -
  have more: "fold (\<lambda>x l. fst (log_append x l)) more l1 = l1 @ more" for l1
    by (induction more arbitrary: l1) (simp_all add: log_append_def)
  have "verify_inclusion sha leaf (length l) (length (l @ leaf # more)) (log_proof sha (length l) (l @ leaf # more))
      (log_root sha (l @ leaf # more))"
    unfolding verify_reference log_proof_def log_root_def
    using proof_climbs[of "length l" "l @ leaf # more" sha] by simp
  moreover have "log_append leaf l = (l @ [leaf], length l)" by (simp add: log_append_def)
  ultimately show ?thesis by (simp add: more)
qed

text \<open>
  C25. A verified inclusion proof binds the leaf to the log: whatever leaf, index and
  proof the verifier accepts against the log's root, the leaf is the one the log
  holds at that index, unless two different inputs, one hashed in building the
  tree and one hashed by the verifier, have the same digest.
\<close>

theorem inclusion_binds_leaf:
  assumes "\<And>x. length (sha x) = d" "length leaf = d" "\<And>x. x \<in> set l \<Longrightarrow> length x = d"
    and "verify_inclusion sha leaf i (length l) ps (log_root sha l)"
  shows "i < length l \<and>
    (leaf = l ! i \<or>
     collides sha (tree_inputs sha l) (climb_inputs sha (sides i (length l)) leaf ps))"
proof -
  have i: "i < length l" and c: "climb sha (sides i (length l)) leaf ps = Some (mth sha l, [])"
    using assms(4) by (simp_all add: verify_reference log_root_def)
  have "\<forall>x \<in> set l. length x = d" using assms(3) by blast
  from climb_sound[OF assms(1,2) i this c] i show ?thesis by (rule conjI[rotated])
qed

text \<open>A two-byte toy digest shows that the hypotheses can hold.\<close>

definition toy_digest :: "bytes \<Rightarrow> bytes" where
  "toy_digest x = take 2 (x @ [0, 0])"

lemma toy_length: "length (toy_digest x) = 2"
  by (simp add: toy_digest_def)

lemma toy_accepts: "verify_inclusion toy_digest [7, 8] 1 (length [[5, 6], [7, 8], [9, 9 :: 8 word]])
    [[5, 6], [9, 9]] (log_root toy_digest [[5, 6], [7, 8], [9, 9]])"
  by code_simp

theorem inclusion_binds_leaf_witness:
  "1 < length [[5, 6], [7, 8], [9, 9 :: 8 word]] \<and>
    ([7, 8 :: 8 word] = [[5, 6], [7, 8], [9, 9]] ! 1 \<or>
     collides toy_digest (tree_inputs toy_digest [[5, 6], [7, 8], [9, 9]])
       (climb_inputs toy_digest (sides 1 (length [[5, 6], [7, 8], [9, 9 :: 8 word]])) [7, 8] [[5, 6], [9, 9]]))"
  by (rule inclusion_binds_leaf[where d = 2, OF toy_length]) (use toy_accepts in auto)

end
