(* ===== verification/Orchestration.thy ===== *)
theory Orchestration
  imports Single_Use Mission_Types
begin

text \<open>
  The orchestrator's decisions (\<^verbatim>\<open>packages/orchestration/src\<close>): the reversibility
  floor of a step (\<open>reversibility.ts\<close>), the outcome classes of in-flight work
  (\<open>in-flight.ts\<close>), the unwind plan (\<open>unwind-plan.ts\<close>), the reaction to a state
  change (\<open>state-change.ts\<close>) and to a narrowing (\<open>authority-narrowing.ts\<close>), and
  compensation with its order (\<open>compensation.ts\<close>).
\<close>

section \<open>Reversibility\<close>

datatype reversibility_class =
  ReadOnly | ReversibleWrite | IrreversibleAction | ExternalCommitment | PrivilegedAdministration

datatype runtime_action_class =
  NonConsequential | ConsequentialRead | ConsequentialWrite | RIrreversibleAction | RExternalCommitment
  | RPrivilegedAdministration

fun REVERSIBILITY_FLOOR :: "runtime_action_class \<Rightarrow> reversibility_class" where
  "REVERSIBILITY_FLOOR NonConsequential = ReadOnly"
| "REVERSIBILITY_FLOOR ConsequentialRead = ReadOnly"
| "REVERSIBILITY_FLOOR ConsequentialWrite = ReversibleWrite"
| "REVERSIBILITY_FLOOR RIrreversibleAction = IrreversibleAction"
| "REVERSIBILITY_FLOOR RExternalCommitment = ExternalCommitment"
| "REVERSIBILITY_FLOOR RPrivilegedAdministration = PrivilegedAdministration"

fun TIER :: "reversibility_class \<Rightarrow> nat" where
  "TIER ReadOnly = 0"
| "TIER ReversibleWrite = 1"
| "TIER IrreversibleAction = 2"
| "TIER ExternalCommitment = 2"
| "TIER PrivilegedAdministration = 2"

definition meets :: "reversibility_class \<Rightarrow> reversibility_class \<Rightarrow> bool" where
  "meets proposed least \<longleftrightarrow> TIER least \<le> TIER proposed"

definition HIGH_RISK_REVERSIBILITY :: "reversibility_class list" where
  "HIGH_RISK_REVERSIBILITY = [IrreversibleAction, ExternalCommitment, PrivilegedAdministration]"

datatype class_source =
  RsRuntimeProfile | OperationProfile | ReviewedWorkflowDefinition | ResourcePolicy
  | ModelOutput | AgentPlan | ToolDescription

definition is_trusted_class_source :: "class_source \<Rightarrow> bool" where
  "is_trusted_class_source s =
     (s \<in> set [RsRuntimeProfile, OperationProfile, ReviewedWorkflowDefinition, ResourcePolicy])"

definition floor_reversibility :: "runtime_action_class \<Rightarrow> reversibility_class" where
  "floor_reversibility c = REVERSIBILITY_FLOOR c"

text \<open>\<open>None\<close> is the thrown error of an empty list of classes.\<close>

definition floor_reversibility_over :: "runtime_action_class list \<Rightarrow> reversibility_class option" where
  "floor_reversibility_over cs =
     (let floors = map floor_reversibility cs in find (\<lambda>f. \<forall>g \<in> set floors. meets f g) floors)"

definition enforce_reversibility_floor ::
    "reversibility_class \<Rightarrow> runtime_action_class list \<Rightarrow> reversibility_class option" where
  "enforce_reversibility_floor proposed cs =
     (if \<forall>c \<in> set cs. meets proposed (floor_reversibility c) then Some proposed
      else floor_reversibility_over cs)"

record derived_class =
  dc_reversibility :: reversibility_class
  dc_adopted :: bool
  dc_reason :: string

definition derive_reversibility ::
    "runtime_action_class \<Rightarrow> runtime_action_class list option \<Rightarrow> reversibility_class option \<Rightarrow> class_source \<Rightarrow>
     derived_class option" where
  "derive_reversibility c additional proposed source =
     (let cs = c # (case additional of None \<Rightarrow> [] | Some l \<Rightarrow> l) in
      case floor_reversibility_over cs of
        None \<Rightarrow> None
      | Some low \<Rightarrow>
          (case proposed of
             None \<Rightarrow> Some \<lparr>dc_reversibility = low, dc_adopted = True, dc_reason = ''floor_from_runtime_action_class''\<rparr>
           | Some p \<Rightarrow>
               if \<not> is_trusted_class_source source
               then Some \<lparr>dc_reversibility = low, dc_adopted = False, dc_reason = ''untrusted_source_not_adopted''\<rparr>
               else map_option (\<lambda>r. \<lparr>dc_reversibility = r, dc_adopted = True, dc_reason = ''trusted_source_floored''\<rparr>)
                      (enforce_reversibility_floor p cs)))"

lemma floor_over_meets:
  "floor_reversibility_over cs = Some f \<Longrightarrow> c \<in> set cs \<Longrightarrow> meets f (floor_reversibility c)"
  by (auto simp: floor_reversibility_over_def Let_def find_Some_iff)

lemma floor_over_attained: "floor_reversibility_over cs = Some f \<Longrightarrow> f \<in> set (map floor_reversibility cs)"
  by (auto simp: floor_reversibility_over_def Let_def find_Some_iff)

lemma highest_tier: "fs \<noteq> [] \<Longrightarrow> \<exists>f \<in> set fs. \<forall>g \<in> set fs. meets f g"
proof (induction fs)
  case Nil
  then show ?case by simp
next
  case (Cons x fs)
  show ?case
  proof (cases "fs = []")
    case True
    then show ?thesis by (simp add: meets_def)
  next
    case False
    with Cons.IH obtain f where "f \<in> set fs" "\<forall>g \<in> set fs. meets f g" by blast
    then show ?thesis by (cases "meets f x") (auto simp: meets_def)
  qed
qed

lemma floor_over_total: "floor_reversibility_over cs = None \<longleftrightarrow> cs = []"
proof (cases "cs = []")
  case True
  then show ?thesis by (simp add: floor_reversibility_over_def)
next
  case False
  then show ?thesis
    using highest_tier[of "map floor_reversibility cs"]
    unfolding floor_reversibility_over_def Let_def find_None_iff by blast
qed

section \<open>In-flight work\<close>

datatype outcome_class = NotDispatched | DispatchedNotCommitted | Committed | UnknownOutcome

definition classify_outcome :: "op_state option \<Rightarrow> outcome_class" where
  "classify_outcome s =
     (case s of
        Some OReserved \<Rightarrow> NotDispatched
      | Some OPermitConsumed \<Rightarrow> DispatchedNotCommitted
      | Some OConnectorCommitted \<Rightarrow> Committed
      | Some OEvidenceEmitted \<Rightarrow> Committed
      | Some OReconciled \<Rightarrow> Committed
      | _ \<Rightarrow> UnknownOutcome)"

definition requires_human_review :: "outcome_class \<Rightarrow> reversibility_class \<Rightarrow> bool" where
  "requires_human_review outcome r = (outcome = UnknownOutcome)"

definition is_high_risk_unknown :: "outcome_class \<Rightarrow> reversibility_class \<Rightarrow> bool" where
  "is_high_risk_unknown outcome r = (outcome = UnknownOutcome \<and> r \<in> set HIGH_RISK_REVERSIBILITY)"

section \<open>The unwind plan\<close>

datatype pre_start_behavior = PSuppress | PPause | PCancelWorkflow | PHumanReview
datatype in_flight_behavior = CancelIfPossible | WaitThenReview | ContinueToSafePoint | IHumanReview
datatype post_completion_behavior = PostCompensate | PostRecordOnly | PostHumanReview

definition WRITE_CLASSES :: "reversibility_class list" where
  "WRITE_CLASSES = [ReversibleWrite, IrreversibleAction, ExternalCommitment, PrivilegedAdministration]"

record unwind_plan =
  up_step :: string
  up_mission :: string
  up_reversibility :: reversibility_class
  up_pre_start :: pre_start_behavior
  up_in_flight :: in_flight_behavior
  up_post_completion :: "post_completion_behavior option"
  up_compensation_action :: "string option"
  up_review_queue :: "string option"

datatype plan_error = PostCompletionRequired reversibility_class | CompensationActionRequired | ReviewQueueRequired

definition validate_unwind_plan :: "unwind_plan \<Rightarrow> plan_error list" where
  "validate_unwind_plan p =
     (if up_reversibility p \<in> set WRITE_CLASSES \<and> up_post_completion p = None
      then [PostCompletionRequired (up_reversibility p)] else []) @
     (if up_post_completion p = Some PostCompensate \<and> up_compensation_action p = None
      then [CompensationActionRequired] else []) @
     (if (up_pre_start p = PHumanReview \<or> up_in_flight p = IHumanReview \<or> up_post_completion p = Some PostHumanReview)
         \<and> up_review_queue p = None
      then [ReviewQueueRequired] else [])"

text \<open>
  The dispatch gate: the hash of the plan (a parameter) is committed by the caller's
  durable write, over whose state \<open>'w\<close> the gate runs, before the verdict exists.
\<close>

definition commit_unwind_plan ::
    "(string \<Rightarrow> unwind_plan \<Rightarrow> string) \<Rightarrow> (string \<Rightarrow> 'w \<Rightarrow> 'w \<times> bool) \<Rightarrow> string \<Rightarrow> unwind_plan \<Rightarrow> 'w \<Rightarrow>
     'w \<times> string \<times> bool" where
  "commit_unwind_plan hash_plan write iss p w =
     (let h = hash_plan iss p; (w', ok) = write h w in (w', h, ok))"

section \<open>State change\<close>

datatype orchestration_decision =
  DSuppress | DPause | DCancel | DContinueToSafePoint | DCompensate | DHumanReview | DRecordOnly

datatype state_change_step = StopDispatch | SuppressOrPauseQueued | EvaluateInFlight | PostCompletion | EmitEvidence
datatype state_change_trigger = EstablishedNonActive | Staleness | NoTrigger

record in_flight_step =
  is_step :: string
  is_reversibility :: reversibility_class
  is_outcome :: outcome_class
  is_pre_start :: pre_start_behavior
  is_in_flight :: in_flight_behavior
  is_post_completion :: "post_completion_behavior option"

record step_decision =
  sd_step :: string
  sd_outcome :: outcome_class
  sd_decision :: "orchestration_decision option"
  sd_review :: bool
  sd_deferred :: bool

record state_change_result =
  sc_triggered :: bool
  sc_trigger :: state_change_trigger
  sc_sequence :: "state_change_step list"
  sc_runs_post :: bool
  sc_steps :: "step_decision list"
  sc_successor :: "string option"

definition superseded_successor :: "string \<Rightarrow> mission_termination option \<Rightarrow> string option" where
  "superseded_successor state t =
     (case t of
        None \<Rightarrow> None
      | Some x \<Rightarrow>
          if state \<noteq> ''terminated'' \<or> t_reason x \<noteq> ''superseded'' then None
          else if t_successor x = Some '''' then None else t_successor x)"

fun from_pre_start :: "pre_start_behavior \<Rightarrow> orchestration_decision" where
  "from_pre_start PCancelWorkflow = DCancel"
| "from_pre_start PSuppress = DSuppress"
| "from_pre_start PPause = DPause"
| "from_pre_start PHumanReview = DHumanReview"

fun from_in_flight :: "in_flight_behavior \<Rightarrow> orchestration_decision" where
  "from_in_flight CancelIfPossible = DCancel"
| "from_in_flight ContinueToSafePoint = DContinueToSafePoint"
| "from_in_flight WaitThenReview = DHumanReview"
| "from_in_flight IHumanReview = DHumanReview"

fun from_post_completion :: "post_completion_behavior option \<Rightarrow> orchestration_decision" where
  "from_post_completion (Some PostCompensate) = DCompensate"
| "from_post_completion (Some PostRecordOnly) = DRecordOnly"
| "from_post_completion _ = DHumanReview"

definition decided :: "in_flight_step \<Rightarrow> orchestration_decision \<Rightarrow> step_decision" where
  "decided s d = \<lparr>sd_step = is_step s, sd_outcome = is_outcome s, sd_decision = Some d,
     sd_review = (d = DHumanReview), sd_deferred = False\<rparr>"

definition classify_step :: "in_flight_step \<Rightarrow> bool \<Rightarrow> step_decision" where
  "classify_step s runs_post =
     (case is_outcome s of
        NotDispatched \<Rightarrow> decided s (from_pre_start (is_pre_start s))
      | DispatchedNotCommitted \<Rightarrow> decided s (from_in_flight (is_in_flight s))
      | Committed \<Rightarrow>
          if \<not> runs_post
          then \<lparr>sd_step = is_step s, sd_outcome = is_outcome s, sd_decision = None, sd_review = False, sd_deferred = True\<rparr>
          else decided s (from_post_completion (is_post_completion s))
      | UnknownOutcome \<Rightarrow>
          \<lparr>sd_step = is_step s, sd_outcome = is_outcome s, sd_decision = Some DHumanReview,
           sd_review = requires_human_review UnknownOutcome (is_reversibility s), sd_deferred = False\<rparr>)"

definition on_mission_state_change ::
    "string \<Rightarrow> mission_termination option \<Rightarrow> bool \<Rightarrow> in_flight_step list option \<Rightarrow> state_change_result" where
  "on_mission_state_change state t stale steps =
     (let is_active = (state = ''active'');
          trigger = (if \<not> is_active then EstablishedNonActive else if stale then Staleness else NoTrigger)
      in if trigger = NoTrigger
         then \<lparr>sc_triggered = False, sc_trigger = trigger, sc_sequence = [], sc_runs_post = False, sc_steps = [],
               sc_successor = None\<rparr>
         else let runs_post = (trigger = EstablishedNonActive)
              in \<lparr>sc_triggered = True, sc_trigger = trigger,
                  sc_sequence = [StopDispatch, SuppressOrPauseQueued, EvaluateInFlight] @
                    (if runs_post then [PostCompletion] else []) @ [EmitEvidence],
                  sc_runs_post = runs_post,
                  sc_steps = map (\<lambda>s. classify_step s runs_post) (case steps of None \<Rightarrow> [] | Some l \<Rightarrow> l),
                  sc_successor = superseded_successor state t\<rparr>)"

section \<open>Authority narrowing\<close>

record narrowing_step =
  ns_step :: string
  ns_outcome :: outcome_class
  ns_in_flight :: in_flight_behavior

record narrowing_decision =
  nd_step :: string
  nd_outcome :: outcome_class
  nd_still_authorized :: bool
  nd_decision :: "orchestration_decision option"
  nd_requires_evidence :: bool

definition re_evaluate_step :: "narrowing_step \<Rightarrow> (narrowing_step \<Rightarrow> bool) \<Rightarrow> narrowing_decision" where
  "re_evaluate_step s still_authorized =
     (if ns_outcome s \<noteq> NotDispatched \<and> ns_outcome s \<noteq> DispatchedNotCommitted
      then \<lparr>nd_step = ns_step s, nd_outcome = ns_outcome s, nd_still_authorized = True, nd_decision = None,
            nd_requires_evidence = False\<rparr>
      else if still_authorized s
      then \<lparr>nd_step = ns_step s, nd_outcome = ns_outcome s, nd_still_authorized = True, nd_decision = None,
            nd_requires_evidence = False\<rparr>
      else \<lparr>nd_step = ns_step s, nd_outcome = ns_outcome s, nd_still_authorized = False,
            nd_decision = Some (if ns_outcome s = NotDispatched then DSuppress else from_in_flight (ns_in_flight s)),
            nd_requires_evidence = True\<rparr>)"

definition re_evaluate :: "narrowing_step list \<Rightarrow> (narrowing_step \<Rightarrow> bool) \<Rightarrow> narrowing_decision list" where
  "re_evaluate steps still_authorized = map (\<lambda>s. re_evaluate_step s still_authorized) steps"

section \<open>Properties\<close>

text \<open>
  The order the profile fixes, spelled out class by class: a consequential write may not
  be carried as read-only, and each of the three high-risk runtime classes only as one of
  the three high-risk classes.
\<close>

definition class_allows :: "reversibility_class \<Rightarrow> runtime_action_class \<Rightarrow> bool" where
  "class_allows p r \<longleftrightarrow>
     (r = ConsequentialWrite \<longrightarrow> p \<noteq> ReadOnly) \<and>
     (r \<in> {RIrreversibleAction, RExternalCommitment, RPrivilegedAdministration} \<longrightarrow>
        p \<in> {IrreversibleAction, ExternalCommitment, PrivilegedAdministration})"

lemma meets_floor_allows: "meets p (floor_reversibility r) \<longleftrightarrow> class_allows p r"
  by (cases p; cases r) (simp_all add: meets_def floor_reversibility_def class_allows_def)

text \<open>
  C40. A step never carries a class below what its runtime classes require.  Deriving
  the class always succeeds, whatever is proposed, and the result is allowed for every
  applicable runtime class: never read-only where one of them writes, and one of the
  three high-risk classes where one of them is high-risk.  A proposal of an untrusted
  source is not adopted and changes nothing; a trusted proposal is kept exactly when
  every applicable class allows it; and what is derived otherwise is the minimum of one
  of the applicable classes.
\<close>

theorem reversibility_never_below:
  "let cs = c # (case extra of None \<Rightarrow> [] | Some l \<Rightarrow> l) in
   \<exists>d. derive_reversibility c extra proposed source = Some d \<and>
     (\<forall>r \<in> set cs. class_allows (dc_reversibility d) r) \<and>
     (dc_adopted d \<longleftrightarrow> proposed = None \<or> is_trusted_class_source source) \<and>
     (\<not> is_trusted_class_source source \<longrightarrow>
        map_option dc_reversibility (derive_reversibility c extra None source) = Some (dc_reversibility d)) \<and>
     (\<forall>p. proposed = Some p \<and> is_trusted_class_source source \<longrightarrow>
        (dc_reversibility d = p \<longleftrightarrow> (\<forall>r \<in> set cs. class_allows p r))) \<and>
     (proposed \<noteq> Some (dc_reversibility d) \<longrightarrow> (\<exists>r \<in> set cs. dc_reversibility d = floor_reversibility r))"
proof -
  define cs where "cs = c # (case extra of None \<Rightarrow> [] | Some l \<Rightarrow> l)"
  obtain low where low: "floor_reversibility_over cs = Some low"
    using floor_over_total[of cs] by (cases "floor_reversibility_over cs") (auto simp: cs_def)
  have m: "\<forall>r \<in> set cs. class_allows low r" using floor_over_meets[OF low] meets_floor_allows by blast
  have a: "\<exists>r \<in> set cs. low = floor_reversibility r" using floor_over_attained[OF low] by auto
  have e: "enforce_reversibility_floor p cs = (if \<forall>r \<in> set cs. class_allows p r then Some p else Some low)" for p
    by (simp add: enforce_reversibility_floor_def meets_floor_allows low)
  have d: "derive_reversibility c extra q source = Some d \<longleftrightarrow>
     (case q of None \<Rightarrow> d = \<lparr>dc_reversibility = low, dc_adopted = True, dc_reason = ''floor_from_runtime_action_class''\<rparr>
      | Some p \<Rightarrow> d = (if \<not> is_trusted_class_source source
          then \<lparr>dc_reversibility = low, dc_adopted = False, dc_reason = ''untrusted_source_not_adopted''\<rparr>
          else \<lparr>dc_reversibility = if \<forall>r \<in> set cs. class_allows p r then p else low, dc_adopted = True,
            dc_reason = ''trusted_source_floored''\<rparr>))" for q d
    unfolding derive_reversibility_def cs_def[symmetric] Let_def low e by (auto split: option.split)
  show ?thesis
    unfolding Let_def cs_def[symmetric] d
    using m a by (cases proposed; cases "is_trusted_class_source source") (auto simp: d)
qed

text \<open>
  C29. The reaction to a state change is fail-closed.  It is triggered exactly when the
  Mission is not \<open>active\<close> - a suspended one included - or its activity is stale, and it
  then decides every step, in the order given.  Work of unknown outcome goes to human
  review whatever its plan says; committed work is compensated exactly under a state that
  is not \<open>active\<close> when its plan says so, and under staleness alone it is deferred with no
  decision; work not dispatched or not committed is never compensated; and exactly an
  operation never recorded, or abandoned, is of unknown outcome.
\<close>

theorem state_change_fail_closed:
  "let r = on_mission_state_change state t stale (Some steps) in
    (sc_triggered r \<longleftrightarrow> state \<noteq> ''active'' \<or> stale) \<and>
    (StopDispatch \<in> set (sc_sequence r) \<longleftrightarrow> state \<noteq> ''active'' \<or> stale) \<and>
    (PostCompletion \<in> set (sc_sequence r) \<longleftrightarrow> state \<noteq> ''active'') \<and>
    map (\<lambda>d. (sd_step d, sd_outcome d)) (sc_steps r) =
      (if state \<noteq> ''active'' \<or> stale then map (\<lambda>s. (is_step s, is_outcome s)) steps else []) \<and>
    (\<forall>(s, d) \<in> set (zip steps (sc_steps r)).
       (sd_outcome d = UnknownOutcome \<longrightarrow> sd_decision d = Some DHumanReview) \<and>
       (sd_decision d = Some DCompensate \<longleftrightarrow>
          sd_outcome d = Committed \<and> state \<noteq> ''active'' \<and> is_post_completion s = Some PostCompensate) \<and>
       (sd_decision d = None \<longleftrightarrow> sd_outcome d = Committed \<and> state = ''active'') \<and>
       (sd_deferred d \<longleftrightarrow> sd_decision d = None) \<and>
       (sd_review d \<longleftrightarrow> sd_decision d = Some DHumanReview)) \<and>
    (classify_outcome op = UnknownOutcome \<longleftrightarrow> op = None \<or> op = Some OAbandoned) \<and>
    (classify_outcome op = NotDispatched \<longleftrightarrow> op = Some OReserved) \<and>
    (classify_outcome op = DispatchedNotCommitted \<longleftrightarrow> op = Some OPermitConsumed)"
proof -
  define r where "r = on_mission_state_change state t stale (Some steps)"
  have z: "(\<forall>x \<in> set (zip steps (map f steps)). case x of (s, d) \<Rightarrow> P s d) \<longleftrightarrow> (\<forall>s \<in> set steps. P s (f s))"
    for f :: "in_flight_step \<Rightarrow> step_decision" and P
    by (simp add: zip_map2 zip_same_conv_map)
  have o: "sd_step (classify_step s b) = is_step s" "sd_outcome (classify_step s b) = is_outcome s" for s b
    by (simp_all add: classify_step_def decided_def split: outcome_class.split)
  have c: "(is_outcome s = UnknownOutcome \<longrightarrow> sd_decision (classify_step s b) = Some DHumanReview) \<and>
      (sd_decision (classify_step s b) = Some DCompensate \<longleftrightarrow>
         is_outcome s = Committed \<and> b \<and> is_post_completion s = Some PostCompensate) \<and>
      (sd_decision (classify_step s b) = None \<longleftrightarrow> is_outcome s = Committed \<and> \<not> b) \<and>
      (sd_deferred (classify_step s b) \<longleftrightarrow> sd_decision (classify_step s b) = None) \<and>
      (sd_review (classify_step s b) \<longleftrightarrow> sd_decision (classify_step s b) = Some DHumanReview)" for s b
    by (auto simp: classify_step_def decided_def requires_human_review_def split: outcome_class.splits
        elim!: from_pre_start.elims from_in_flight.elims from_post_completion.elims)
  have k: "(classify_outcome op = UnknownOutcome \<longleftrightarrow> op = None \<or> op = Some OAbandoned) \<and>
    (classify_outcome op = NotDispatched \<longleftrightarrow> op = Some OReserved) \<and>
    (classify_outcome op = DispatchedNotCommitted \<longleftrightarrow> op = Some OPermitConsumed)"
    by (auto simp: classify_outcome_def split: option.splits op_state.splits)
  define act where "act = (state = ''active'')"
  note u = r_def on_mission_state_change_def act_def[symmetric] Let_def
  have "?thesis \<longleftrightarrow> (let b = \<not> act in
      (sc_triggered r \<longleftrightarrow> b \<or> stale) \<and> (StopDispatch \<in> set (sc_sequence r) \<longleftrightarrow> b \<or> stale) \<and>
      (PostCompletion \<in> set (sc_sequence r) \<longleftrightarrow> b) \<and>
      map (\<lambda>d. (sd_step d, sd_outcome d)) (sc_steps r) =
        (if b \<or> stale then map (\<lambda>s. (is_step s, is_outcome s)) steps else []) \<and>
      (\<forall>(s, d) \<in> set (zip steps (sc_steps r)).
         (sd_outcome d = UnknownOutcome \<longrightarrow> sd_decision d = Some DHumanReview) \<and>
         (sd_decision d = Some DCompensate \<longleftrightarrow>
            sd_outcome d = Committed \<and> b \<and> is_post_completion s = Some PostCompensate) \<and>
         (sd_decision d = None \<longleftrightarrow> sd_outcome d = Committed \<and> \<not> b) \<and>
         (sd_deferred d \<longleftrightarrow> sd_decision d = None) \<and>
         (sd_review d \<longleftrightarrow> sd_decision d = Some DHumanReview)))" (is "_ \<longleftrightarrow> ?reduced")
    unfolding Let_def r_def[symmetric] act_def[symmetric] using k by simp
  moreover consider (non) "\<not> act" | (stale) "act" "stale" | (none) "act" "\<not> stale" by blast
  then have ?reduced
  proof cases
    case non
    then have r: "sc_triggered r" "sc_sequence r = [StopDispatch, SuppressOrPauseQueued, EvaluateInFlight, PostCompletion, EmitEvidence]"
      "sc_steps r = map (\<lambda>s. classify_step s True) steps" unfolding u by simp_all
    show ?thesis unfolding Let_def r(2,3) z using non by (simp add: o c r(1))
  next
    case stale
    then have r: "sc_triggered r" "sc_sequence r = [StopDispatch, SuppressOrPauseQueued, EvaluateInFlight, EmitEvidence]"
      "sc_steps r = map (\<lambda>s. classify_step s False) steps" unfolding u by simp_all
    show ?thesis unfolding Let_def r(2,3) z using stale by (simp add: o c r(1))
  next
    case none
    then have r: "\<not> sc_triggered r" "sc_sequence r = []" "sc_steps r = []" unfolding u by simp_all
    show ?thesis unfolding Let_def using r none by simp
  qed
  ultimately show ?thesis by (rule iffD2)
qed

text \<open>A model's claim that an irreversible write is read-only, and a suspended Mission's
  step whose outcome nobody recorded.\<close>

theorem reversibility_never_below_witness:
  "\<exists>d. derive_reversibility ConsequentialWrite (Some [RIrreversibleAction]) (Some ReadOnly) ModelOutput = Some d \<and>
     dc_reversibility d \<in> {IrreversibleAction, ExternalCommitment, PrivilegedAdministration} \<and> \<not> dc_adopted d"
  using reversibility_never_below[of ConsequentialWrite "Some [RIrreversibleAction]" "Some ReadOnly" ModelOutput]
  by (auto simp: class_allows_def is_trusted_class_source_def)

theorem state_change_fail_closed_witness:
  "map sd_decision (sc_steps (on_mission_state_change ''suspended'' None False
     (Some [\<lparr>is_step = ''s1'', is_reversibility = ReversibleWrite, is_outcome = UnknownOutcome, is_pre_start = PSuppress,
        is_in_flight = CancelIfPossible, is_post_completion = Some PostCompensate\<rparr>]))) = [Some DHumanReview]"
  (is "map sd_decision (sc_steps (on_mission_state_change _ _ _ (Some [?s]))) = _")
proof -
  note t = state_change_fail_closed[of "''suspended''" None False "[?s]", unfolded Let_def]
  let ?ds = "sc_steps (on_mission_state_change ''suspended'' None False (Some [?s]))"
  have "length ?ds = 1" by (simp add: on_mission_state_change_def)
  then obtain d where d: "?ds = [d]" by (auto simp: length_Suc_conv)
  have o: "sd_outcome d = UnknownOutcome" using d by (auto simp: on_mission_state_change_def classify_step_def)
  have "(?s, d) \<in> set (zip [?s] ?ds)" unfolding d by simp
  note bspec[OF t[THEN conjunct2, THEN conjunct2, THEN conjunct2, THEN conjunct2, THEN conjunct1] this, unfolded case_prod_conv]
  then have "sd_decision d = Some DHumanReview" by (rule conjunct1[THEN mp]) (rule o)
  then show ?thesis by (simp only: d list.map)
qed

end
