(* ===== verification/Compensation.thy ===== *)
theory Compensation
  imports Orchestration
begin

text \<open>
  Compensation (\<^verbatim>\<open>packages/orchestration/src/compensation.ts\<close>): the authority a
  compensation proceeds under, the order compensations run in, and the terminal
  state of an unwinding.

  The order is a depth-first search over the steps' dependencies.  The recursion
  carries fuel; \<open>order_exact\<close> shows that one more than the number of steps is
  always enough, so running out is not an outcome.
\<close>

section \<open>Authority\<close>

datatype authority_basis = BResourcePolicy | BSeparateMission

record compensation_request =
  cr_reversed :: string
  cr_basis :: "authority_basis option"
  cr_presents_terminated :: "bool option"
  cr_mission_active :: "bool option"
  cr_mission_scoped :: "bool option"

datatype compensation_verdict = CPermit | CDeny | CHumanReview

record compensation_result =
  cv_decision :: compensation_verdict
  cv_basis :: "authority_basis option"
  cv_reverses :: "string option"
  cv_reason :: string

definition verdict :: "compensation_verdict \<Rightarrow> string \<Rightarrow> compensation_result" where
  "verdict d why = \<lparr>cv_decision = d, cv_basis = None, cv_reverses = None, cv_reason = why\<rparr>"

definition resolve_compensation_authority :: "compensation_request \<Rightarrow> compensation_result" where
  "resolve_compensation_authority r =
     (if cr_presents_terminated r = Some True then verdict CDeny ''terminated_mission_authority_refused''
      else if cr_basis r = Some BResourcePolicy
      then \<lparr>cv_decision = CPermit, cv_basis = Some BResourcePolicy, cv_reverses = Some (cr_reversed r),
            cv_reason = ''resource_policy''\<rparr>
      else if cr_basis r = Some BSeparateMission
      then if cr_mission_active r \<noteq> Some True then verdict CHumanReview ''separate_mission_not_active''
           else if cr_mission_scoped r = Some False then verdict CDeny ''separate_mission_out_of_scope''
           else \<lparr>cv_decision = CPermit, cv_basis = Some BSeparateMission, cv_reverses = Some (cr_reversed r),
                 cv_reason = ''separate_mission''\<rparr>
      else verdict CHumanReview ''no_authority_basis'')"

text \<open>
  The terminated Mission's authority never compensates, and a permit always names the
  evaluation it reverses and the basis it rests on.
\<close>

lemma compensation_permit_iff:
  "cv_decision (resolve_compensation_authority r) = CPermit \<longleftrightarrow>
      cr_presents_terminated r \<noteq> Some True \<and>
      (cr_basis r = Some BResourcePolicy \<or>
       cr_basis r = Some BSeparateMission \<and> cr_mission_active r = Some True \<and> cr_mission_scoped r \<noteq> Some False)"
  by (simp add: resolve_compensation_authority_def verdict_def)

lemma compensation_names_reversed:
  "cv_reverses (resolve_compensation_authority r) =
     (if cv_decision (resolve_compensation_authority r) = CPermit then Some (cr_reversed r) else None)"
  by (simp add: resolve_compensation_authority_def verdict_def)

section \<open>Order\<close>

record compensation_step =
  cs_id :: string
  cs_depends_on :: "string list option"

datatype order_error = Cyclic string | OutOfFuel

record walk =
  visited :: "string list"
  on_stack :: "string list"
  forward :: "string list"

text \<open>\<open>new Map(steps.map(...))\<close>: the last step of an identifier counts.\<close>

definition by_id :: "compensation_step list \<Rightarrow> string \<Rightarrow> compensation_step option" where
  "by_id steps i = select_first (\<lambda>s. cs_id s = i) (rev steps)"

fun each :: "('a \<Rightarrow> 's \<Rightarrow> 'e + 's) \<Rightarrow> 'a list \<Rightarrow> 's \<Rightarrow> 'e + 's" where
  "each f [] st = Inr st"
| "each f (x # xs) st = (case f x st of Inl e \<Rightarrow> Inl e | Inr st' \<Rightarrow> each f xs st')"

fun visit :: "nat \<Rightarrow> compensation_step list \<Rightarrow> string \<Rightarrow> walk \<Rightarrow> order_error + walk" where
  "visit 0 steps i w = Inl OutOfFuel"
| "visit (Suc n) steps i w =
     (if i \<in> set (visited w) then Inr w
      else if i \<in> set (on_stack w) then Inl (Cyclic i)
      else
        let deps = (case by_id steps i of None \<Rightarrow> [] | Some s \<Rightarrow> (case cs_depends_on s of None \<Rightarrow> [] | Some ds \<Rightarrow> ds))
        in case each (\<lambda>d w'. if by_id steps d \<noteq> None then visit n steps d w' else Inr w') deps
                  (w\<lparr>on_stack := i # on_stack w\<rparr>) of
             Inl e \<Rightarrow> Inl e
           | Inr w' \<Rightarrow> Inr (w'\<lparr>on_stack := remove1 i (on_stack w'), visited := i # visited w',
                              forward := forward w' @ [i]\<rparr>))"

definition reverse_dependency_order :: "compensation_step list \<Rightarrow> order_error + string list" where
  "reverse_dependency_order steps =
     map_sum (\<lambda>e. e) (\<lambda>w. rev (forward w))
       (each (visit (Suc (length steps)) steps) (map cs_id steps) \<lparr>visited = [], on_stack = [], forward = []\<rparr>)"

section \<open>Terminal state\<close>

datatype compensation_outcome = CCompleted | CFailed | CUnknown

definition unwind_terminal_state :: "(string \<times> compensation_outcome) list \<Rightarrow> bool \<times> string list" where
  "unwind_terminal_state results =
     (let incomplete = map fst (filter (\<lambda>r. snd r \<noteq> CCompleted) results)
      in (if incomplete = [] then (True, []) else (False, incomplete)))"

section \<open>The dependency relation\<close>

definition needs :: "compensation_step list \<Rightarrow> (string \<times> string) set" where
  "needs steps = {(i, d). \<exists>s ds. by_id steps i = Some s \<and> cs_depends_on s = Some ds \<and> d \<in> set ds \<and>
     by_id steps d \<noteq> None}"

lemma by_id_iff: "by_id steps i \<noteq> None \<longleftrightarrow> i \<in> set (map cs_id steps)"
  by (auto simp: by_id_def select_first_None image_iff)

lemma needs_planned: "(i, d) \<in> needs steps \<Longrightarrow> i \<in> set (map cs_id steps) \<and> d \<in> set (map cs_id steps)"
  unfolding by_id_iff[symmetric] by (auto simp: needs_def)

text \<open>The search keeps: the finished part is closed under dependencies and ordered.\<close>

definition placed :: "compensation_step list \<Rightarrow> string list \<Rightarrow> bool" where
  "placed steps l = (distinct l \<and> set l \<subseteq> set (map cs_id steps) \<and>
     (\<forall>xs i ys. l = xs @ i # ys \<longrightarrow> (\<forall>d. (i, d) \<in> needs steps \<longrightarrow> d \<in> set xs)))"

definition searching :: "compensation_step list \<Rightarrow> walk \<Rightarrow> bool" where
  "searching steps w = (placed steps (forward w) \<and> set (visited w) = set (forward w) \<and>
     distinct (on_stack w) \<and> set (on_stack w) \<subseteq> set (map cs_id steps) \<and> set (on_stack w) \<inter> set (visited w) = {})"

definition found :: "compensation_step list \<Rightarrow> string list \<Rightarrow> walk \<Rightarrow> order_error + walk \<Rightarrow> bool" where
  "found steps is w r =
     (case r of
        Inl (Cyclic x) \<Rightarrow> (x, x) \<in> (needs steps)\<^sup>+
      | Inl OutOfFuel \<Rightarrow> False
      | Inr w' \<Rightarrow> searching steps w' \<and> on_stack w' = on_stack w \<and> set (forward w) \<union> set is \<subseteq> set (forward w'))"

lemma placed_snoc:
  assumes "placed steps l" "i \<notin> set l" "i \<in> set (map cs_id steps)" "\<And>d. (i, d) \<in> needs steps \<Longrightarrow> d \<in> set l"
  shows "placed steps (l @ [i])"
  using assms unfolding placed_def
proof (intro conjI allI impI, goal_cases)
  case (3 xs j ys d)
  then show ?case by (cases ys rule: rev_cases) auto
qed auto

lemma placedD: "placed steps l \<Longrightarrow> l = xs @ i # ys \<Longrightarrow> (i, d) \<in> needs steps \<Longrightarrow> d \<in> set xs"
  unfolding placed_def by blast

lemma before_first: "i \<notin> set xs \<Longrightarrow> takeWhile (\<lambda>x. x \<noteq> i) (xs @ i # ys) = xs"
  by (induction xs) auto

lemma each_found:
  assumes "\<And>d w'. d \<in> set ds \<Longrightarrow> searching steps w' \<Longrightarrow> on_stack w' = on_stack w \<Longrightarrow> found steps (if P d then [d] else []) w' (f d w')"
    and "searching steps w"
  shows "found steps (filter P ds) w (each f ds w)"
  using assms
proof (induction ds arbitrary: w)
  case Nil
  then show ?case by (simp add: found_def)
next
  case (Cons d ds)
  have fd: "found steps (if P d then [d] else []) w (f d w)" using Cons.prems by simp
  show ?case
  proof (cases "f d w")
    case (Inl e)
    then show ?thesis using fd by (simp add: found_def)
  next
    case (Inr w')
    then have w': "searching steps w'" "on_stack w' = on_stack w"
      "set (forward w) \<union> set (if P d then [d] else []) \<subseteq> set (forward w')" using fd by (simp_all add: found_def)
    have "found steps (filter P ds) w' (each f ds w')"
      using Cons.prems(1) w' by (intro Cons.IH) auto
    then show ?thesis
      using Inr w' by (auto simp: found_def split: sum.splits order_error.splits)
  qed
qed

lemma visit_found:
  assumes "searching steps w" "i \<in> set (map cs_id steps)" "\<And>y. y \<in> set (on_stack w) \<Longrightarrow> (y, i) \<in> (needs steps)\<^sup>+"
    and "card (set (map cs_id steps)) < n + length (on_stack w)"
  shows "found steps [i] w (visit n steps i w)"
  using assms
proof (induction n arbitrary: i w)
  case 0
  have "length (on_stack w) = card (set (on_stack w))" using 0(1) by (simp add: searching_def distinct_card)
  also have "\<dots> \<le> card (set (map cs_id steps))" using 0(1) by (intro card_mono) (auto simp: searching_def)
  finally show ?case using 0(4) by simp
next
  case (Suc n)
  show ?case
  proof (cases "i \<in> set (visited w)")
    case True
    then show ?thesis using Suc.prems(1) by (auto simp: found_def searching_def)
  next
    case new: False
    show ?thesis
    proof (cases "i \<in> set (on_stack w)")
      case True
      then show ?thesis using new Suc.prems(3) by (simp add: found_def)
    next
      case False
      define deps where "deps = (case by_id steps i of None \<Rightarrow> [] | Some s \<Rightarrow> (case cs_depends_on s of None \<Rightarrow> [] | Some ds \<Rightarrow> ds))"
      define w1 where "w1 = w\<lparr>on_stack := i # on_stack w\<rparr>"
      define f where "f = (\<lambda>d w'. if by_id steps d \<noteq> None then visit n steps d w' else Inr w')"
      define P where "P = (\<lambda>d. by_id steps d \<noteq> None)"
      have w1: "searching steps w1"
        using Suc.prems(1,2) new False by (auto simp: searching_def w1_def)
      have dep: "d \<in> set deps \<and> P d \<longleftrightarrow> (i, d) \<in> needs steps" for d
        by (cases "by_id steps i"; cases "cs_depends_on (the (by_id steps i))") (auto simp: deps_def needs_def P_def)
      have "found steps (filter P deps) w1 (each f deps w1)"
      proof (rule each_found[OF _ w1])
        fix d w'
        assume d: "d \<in> set deps" "searching steps w'" "on_stack w' = on_stack w1"
        show "found steps (if P d then [d] else []) w' (f d w')"
        proof (cases "P d")
          case True
          then have nd: "(i, d) \<in> needs steps" using d(1) dep by blast
          have "(y, d) \<in> (needs steps)\<^sup>+" if "y \<in> set (on_stack w')" for y
            using that d(3) nd Suc.prems(3)[of y] by (auto simp: w1_def intro: trancl.trancl_into_trancl)
          then have "found steps [d] w' (visit n steps d w')"
            using d(2,3) needs_planned[OF nd] Suc.prems(4) by (intro Suc.IH) (simp_all add: w1_def)
          then show ?thesis using True by (simp add: f_def P_def)
        next
          case False
          then show ?thesis using d(2) by (simp add: f_def P_def found_def)
        qed
      qed
      then have r: "found steps (filter P deps) w1 (each f deps w1)" .
      have v: "visit (Suc n) steps i w = (case each f deps w1 of Inl e \<Rightarrow> Inl e
           | Inr w' \<Rightarrow> Inr (w'\<lparr>on_stack := remove1 i (on_stack w'), visited := i # visited w', forward := forward w' @ [i]\<rparr>))"
        using new False by (simp add: deps_def w1_def f_def Let_def)
      show ?thesis
      proof (cases "each f deps w1")
        case (Inl e)
        then show ?thesis using r v by (simp add: found_def)
      next
        case (Inr w')
        then have w': "searching steps w'" "on_stack w' = i # on_stack w" "set (forward w) \<subseteq> set (forward w')"
          "set (filter P deps) \<subseteq> set (forward w')" using r by (auto simp: found_def w1_def)
        have fresh: "i \<notin> set (forward w')" using w'(1,2) by (auto simp: searching_def)
        have "placed steps (forward w' @ [i])"
          using w' fresh Suc.prems(2) dep by (intro placed_snoc) (auto simp: searching_def)
        then show ?thesis
          using w' v Inr fresh by (auto simp: found_def searching_def)
      qed
    qed
  qed
qed

lemma placed_acyclic:
  assumes "placed steps l" "set (map cs_id steps) \<subseteq> set l"
  shows "acyclic (needs steps)"
proof -
  have reach: "i \<in> set l \<and> d \<in> set (takeWhile (\<lambda>x. x \<noteq> i) l)" if "(i, d) \<in> (needs steps)\<^sup>+" for i d
    using that
  proof (induction rule: trancl_induct)
    case (base d)
    then have "i \<in> set l" using assms(2) needs_planned by blast
    then obtain xs ys where l: "l = xs @ i # ys" "i \<notin> set xs" by (meson split_list_first)
    then have "d \<in> set xs" using placedD[OF assms(1)] base by blast
    then show ?case using l by (simp add: before_first)
  next
    case (step d e)
    then obtain xs ys where l: "l = xs @ i # ys" "i \<notin> set xs" by (meson split_list_first)
    then have "d \<in> set xs" using step(3) by (simp add: before_first)
    then obtain us vs where xs: "xs = us @ d # vs" by (meson split_list)
    then have "e \<in> set us" using placedD[OF assms(1), of us d "vs @ i # ys" e] step(2) l by simp
    then show ?case using l xs before_first[of i xs ys] by simp
  qed
  show ?thesis
    by (rule acyclicI) (use reach in \<open>force dest: set_takeWhileD\<close>)
qed

section \<open>Properties\<close>

text \<open>
  C28. Compensations run in an order that offsets every step before the steps it
  depends on.  The search always ends with an answer: an order that lists each
  planned step once, each before everything it depends on, or the name of a step
  that depends on itself; the second happens exactly when the dependencies are
  cyclic.
\<close>

theorem order_exact:
  "case reverse_dependency_order steps of
     Inr order \<Rightarrow> distinct order \<and> set order = set (map cs_id steps) \<and> acyclic (needs steps) \<and>
       (\<forall>i d. (i, d) \<in> needs steps \<longrightarrow> (\<exists>xs ys zs. order = xs @ i # ys @ d # zs))
   | Inl (Cyclic i) \<Rightarrow> (i, i) \<in> (needs steps)\<^sup>+ \<and> \<not> acyclic (needs steps)
   | Inl OutOfFuel \<Rightarrow> False"
proof -
  let ?w = "\<lparr>visited = [], on_stack = [], forward = []\<rparr> :: walk"
  have "found steps (filter (\<lambda>_. True) (map cs_id steps)) ?w (each (visit (Suc (length steps)) steps) (map cs_id steps) ?w)"
  proof (rule each_found)
    show "searching steps ?w" by (simp add: searching_def placed_def)
    fix i w'
    assume "i \<in> set (map cs_id steps)" "searching steps w'" "on_stack w' = on_stack ?w"
    then have "found steps [i] w' (visit (Suc (length steps)) steps i w')"
      using card_length[of "map cs_id steps"] by (intro visit_found) auto
    then show "found steps (if True then [i] else []) w' (visit (Suc (length steps)) steps i w')" by simp
  qed
  then have f: "found steps (map cs_id steps) ?w (each (visit (Suc (length steps)) steps) (map cs_id steps) ?w)" by simp
  show ?thesis
  proof (cases "each (visit (Suc (length steps)) steps) (map cs_id steps) ?w")
    case (Inl e)
    then show ?thesis
      using f by (auto simp: found_def reverse_dependency_order_def acyclic_def split: order_error.splits)
  next
    case (Inr w')
    have p: "placed steps (forward w')" "set (map cs_id steps) \<subseteq> set (forward w')"
      using f Inr by (simp_all add: found_def searching_def)
    have "\<exists>xs ys zs. rev (forward w') = xs @ i # ys @ d # zs" if "(i, d) \<in> needs steps" for i d
    proof -
      have "i \<in> set (forward w')" using that p(2) needs_planned by blast
      then obtain xs ys where l: "forward w' = xs @ i # ys" by (meson split_list)
      then have "d \<in> set xs" using placedD[OF p(1)] that by blast
      then obtain us vs where "xs = us @ d # vs" by (meson split_list)
      then show ?thesis using l by (intro exI[of _ "rev ys"] exI[of _ "rev vs"] exI[of _ "rev us"]) simp
    qed
    then show ?thesis
      using p placed_acyclic[OF p] Inr by (auto simp: reverse_dependency_order_def placed_def)
  qed
qed

theorem order_exact_witness:
  "reverse_dependency_order [\<lparr>cs_id = ''b'', cs_depends_on = None\<rparr>, \<lparr>cs_id = ''a'', cs_depends_on = Some [''b'']\<rparr>] = Inr [''a'', ''b''] \<and>
   acyclic (needs [\<lparr>cs_id = ''b'', cs_depends_on = None\<rparr>, \<lparr>cs_id = ''a'', cs_depends_on = Some [''b'']\<rparr>])"
proof -
  let ?steps = "[\<lparr>cs_id = ''b'', cs_depends_on = None\<rparr>, \<lparr>cs_id = ''a'', cs_depends_on = Some [''b'']\<rparr>]"
  have o: "reverse_dependency_order ?steps = Inr [''a'', ''b'']" by code_simp
  then show ?thesis using order_exact[of ?steps] unfolding o by simp
qed

end
