(* ===== verification/Write_Reservations.thy ===== *)
theory Write_Reservations
  imports Prelude Json
begin

text \<open>
  The reservation store of reversible writes
  (\<^verbatim>\<open>services/mcp-payments/src/write-reservations.ts\<close>): the retained
  (scope, key) reservations, the payment schedules the effects act on, the consumed
  single-use permits and the pre-effect attempt records, all in one file.

  \<open>reserve\<close> runs in one transaction: a throw anywhere in it (the effect, a constraint,
  the test failpoint) leaves the store as it was.  An effect is a function of the
  clock and the store; \<open>write_effect\<close> is the contract the two effects of the code
  satisfy.  A result is kept as the JSON value it is stringified from.  Each call
  gets the clock reading it takes; \<open>reserve\<close> takes a second one for the consumed
  record, which the code reads again.
\<close>

section \<open>The store\<close>

datatype reservation_state = WReserved | WCompleted

record reservation_row =
  wr_scope :: string
  wr_key :: string
  wr_action :: string
  wr_operation :: string
  wr_state :: reservation_state
  wr_result :: "json option"
  wr_evaluation :: string
  wr_execution :: string
  wr_completed_at :: "int option"
  wr_retain_until :: "int option"

definition wr_pair :: "reservation_row \<Rightarrow> string \<times> string" where
  "wr_pair r = (wr_scope r, wr_key r)"

datatype schedule_state = Scheduled | Cancelled

record payment_schedule =
  ps_id :: string
  ps_issuer :: string
  ps_mission :: string
  ps_subject :: string
  ps_invoice :: string
  ps_version :: int
  ps_vendor :: string
  ps_amount :: string
  ps_currency :: string
  ps_payee :: string
  ps_digest :: string
  ps_state :: schedule_state
  ps_created_by :: string
  ps_cancelled_by :: "string option"
  ps_created_at :: int
  ps_cancelled_at :: "int option"

definition ps_target :: "payment_schedule \<Rightarrow> string \<times> string \<times> string" where
  "ps_target p = (ps_issuer p, ps_mission p, ps_invoice p)"

record consumed_permit =
  cp_evaluation :: string
  cp_action :: string
  cp_execution :: string
  cp_consumed_at :: int
  cp_retain_until :: int

record attempt_row =
  at_execution :: string
  at_op_key :: string
  at_evaluation :: string
  at_mission :: string
  at_action :: string
  at_evidence :: "string \<times> string"
  at_attempted_at :: int

record write_store =
  reservations :: "reservation_row table"
  schedules :: "payment_schedule table"
  consumed_permits :: "consumed_permit table"
  attempts :: "attempt_row table"

definition new_write_store :: write_store where
  "new_write_store = \<lparr>reservations = [], schedules = [], consumed_permits = [], attempts = []\<rparr>"

section \<open>Reading\<close>

text \<open>A comparison with a NULL column is not true.\<close>

definition retained :: "int \<Rightarrow> reservation_row \<Rightarrow> bool" where
  "retained now r = (wr_state r = WReserved \<or> (case wr_retain_until r of None \<Rightarrow> False | Some t \<Rightarrow> now \<le> t))"

definition retained_row :: "string \<Rightarrow> string \<Rightarrow> int \<Rightarrow> write_store \<Rightarrow> reservation_row option" where
  "retained_row scope k now s = select_first (\<lambda>r. wr_pair r = (scope, k) \<and> retained now r) (reservations s)"

fun first_some :: "('a \<Rightarrow> 'b option) \<Rightarrow> 'a list \<Rightarrow> 'b option" where
  "first_some f [] = None"
| "first_some f (x # xs) = (case f x of Some r \<Rightarrow> Some r | None \<Rightarrow> first_some f xs)"

definition lookup_reservation :: "int \<Rightarrow> string \<Rightarrow> string \<Rightarrow> string list \<Rightarrow> write_store \<Rightarrow> reservation_row option" where
  "lookup_reservation now scope k lineage s = first_some (\<lambda>d. retained_row d k now s) (scope # lineage)"

definition permit_consumed :: "string \<Rightarrow> write_store \<Rightarrow> bool" where
  "permit_consumed e s = (select_first (\<lambda>r. cp_evaluation r = e) (consumed_permits s) \<noteq> None)"

definition active_schedule :: "string \<times> string \<times> string \<Rightarrow> write_store \<Rightarrow> payment_schedule option" where
  "active_schedule target s = select_first (\<lambda>p. ps_target p = target \<and> ps_state p = Scheduled) (schedules s)"

definition attempt_for :: "string \<Rightarrow> write_store \<Rightarrow> attempt_row option" where
  "attempt_for e s = select_first (\<lambda>a. at_evaluation a = e) (attempts s)"

section \<open>Permits and attempts\<close>

record permit_use =
  pu_evaluation :: string
  pu_action :: string
  pu_execution :: string
  pu_retain_until :: int

definition consume_permit :: "int \<Rightarrow> permit_use \<Rightarrow> write_store \<Rightarrow> write_store \<times> bool" where
  "consume_permit now u s =
     (let (t, took) = insert_or_ignore cp_evaluation
        \<lparr>cp_evaluation = pu_evaluation u, cp_action = pu_action u, cp_execution = pu_execution u, cp_consumed_at = now,
         cp_retain_until = pu_retain_until u\<rparr> (consumed_permits s)
      in (s\<lparr>consumed_permits := t\<rparr>, took))"

definition sweep_consumed_permits :: "int \<Rightarrow> write_store \<Rightarrow> write_store \<times> nat" where
  "sweep_consumed_permits now s =
     (s\<lparr>consumed_permits := delete_where (\<lambda>r. cp_retain_until r < now) (consumed_permits s)\<rparr>,
      affected (\<lambda>r. cp_retain_until r < now) (consumed_permits s))"

text \<open>\<open>False\<close> is the thrown constraint error of an attempt identity already recorded.\<close>

definition record_attempt :: "attempt_row \<Rightarrow> write_store \<Rightarrow> write_store \<times> bool" where
  "record_attempt a s = (let (t, new) = insert_or_ignore at_execution a (attempts s) in (s\<lparr>attempts := t\<rparr>, new))"

section \<open>Reservation\<close>

definition expired :: "int \<Rightarrow> reservation_row \<Rightarrow> bool" where
  "expired now r = (wr_state r = WCompleted \<and> (case wr_retain_until r of None \<Rightarrow> False | Some t \<Rightarrow> t < now))"

definition sweep :: "int \<Rightarrow> write_store \<Rightarrow> write_store \<times> nat" where
  "sweep now s = (s\<lparr>reservations := delete_where (expired now) (reservations s)\<rparr>, affected (expired now) (reservations s))"

datatype effect_result = EffectDone json | EffectRefused string | EffectThrows

type_synonym write_effect = "int \<Rightarrow> write_store \<Rightarrow> write_store \<times> effect_result"

record reserve_request =
  rq_scope :: string
  rq_lineage :: "string list option"
  rq_key :: string
  rq_action :: string
  rq_operation :: string
  rq_evaluation :: string
  rq_execution :: string
  rq_retention :: int
  rq_single_use :: "int option"

datatype reserve_outcome =
  Executed json | AlreadyHeld reservation_row | Refused string | PermitSpent | ReserveThrows

definition completed_row :: "int \<Rightarrow> reserve_request \<Rightarrow> json \<Rightarrow> reservation_row" where
  "completed_row now q res =
     \<lparr>wr_scope = rq_scope q, wr_key = rq_key q, wr_action = rq_action q, wr_operation = rq_operation q,
      wr_state = WCompleted, wr_result = Some res, wr_evaluation = rq_evaluation q, wr_execution = rq_execution q,
      wr_completed_at = Some now, wr_retain_until = Some (now + rq_retention q)\<rparr>"

text \<open>The pair's record past its retention gives way.\<close>

definition cleared :: "int \<Rightarrow> reserve_request \<Rightarrow> write_store \<Rightarrow> write_store" where
  "cleared now q s =
     s\<lparr>reservations := delete_where (\<lambda>r. wr_pair r = (rq_scope q, rq_key q) \<and> expired now r) (reservations s)\<rparr>"

definition reserve ::
    "int \<Rightarrow> int \<Rightarrow> bool \<Rightarrow> reserve_request \<Rightarrow> write_effect \<Rightarrow> write_store \<Rightarrow> write_store \<times> reserve_outcome" where
  "reserve now now2 inside_throws q effect s =
     (let pair = (rq_scope q, rq_key q);
          s1 = cleared now q s in
      case select_first (\<lambda>r. wr_pair r = pair) (reservations s1) of
        Some prior \<Rightarrow> (s1, AlreadyHeld prior)
      | None \<Rightarrow>
          (case first_some (\<lambda>d. retained_row d (rq_key q) now s1) (case rq_lineage q of None \<Rightarrow> [] | Some l \<Rightarrow> l) of
             Some held \<Rightarrow> (s1, AlreadyHeld held)
           | None \<Rightarrow>
               if rq_single_use q \<noteq> None \<and> permit_consumed (rq_evaluation q) s1 then (s1, PermitSpent)
               else
                 (case effect now s1 of
                    (s2, EffectThrows) \<Rightarrow> (s, ReserveThrows)
                  | (s2, EffectRefused why) \<Rightarrow> (s2, Refused why)
                  | (s2, EffectDone res) \<Rightarrow>
                      let (s3, taken) = (case rq_single_use q of
                            None \<Rightarrow> (s2, True)
                          | Some until \<Rightarrow> consume_permit now2
                              \<lparr>pu_evaluation = rq_evaluation q, pu_action = rq_action q, pu_execution = rq_execution q,
                               pu_retain_until = until\<rparr> s2)
                      in if \<not> taken then (s, ReserveThrows)
                         else if pair \<in> set (map wr_pair (reservations s3)) then (s, ReserveThrows)
                         else let s4 = s3\<lparr>reservations := reservations s3 @ [completed_row now q res]\<rparr>
                              in if inside_throws then (s, ReserveThrows) else (s4, Executed res))))"

section \<open>The effects\<close>

record insert_input =
  in_issuer :: string
  in_mission :: string
  in_subject :: string
  in_invoice :: string
  in_version :: int
  in_vendor :: string
  in_payee :: string
  in_amount :: string
  in_currency :: string
  in_digest :: string
  in_evaluation :: string

text \<open>The random identifier is an argument; a repeated one violates the primary key.\<close>

definition insert_schedule :: "string \<Rightarrow> insert_input \<Rightarrow> write_effect" where
  "insert_schedule sid i now s =
     (if active_schedule (in_issuer i, in_mission i, in_invoice i) s \<noteq> None then (s, EffectRefused ''schedule_exists'')
      else if sid \<in> set (map ps_id (schedules s)) then (s, EffectThrows)
      else (s\<lparr>schedules := schedules s @
              [\<lparr>ps_id = sid, ps_issuer = in_issuer i, ps_mission = in_mission i, ps_subject = in_subject i,
                ps_invoice = in_invoice i, ps_version = in_version i, ps_vendor = in_vendor i, ps_amount = in_amount i,
                ps_currency = in_currency i, ps_payee = in_payee i, ps_digest = in_digest i, ps_state = Scheduled,
                ps_created_by = in_evaluation i, ps_cancelled_by = None, ps_created_at = now, ps_cancelled_at = None\<rparr>]\<rparr>,
            EffectDone (JObj [(''scheduled'', JBool True), (''schedule_id'', JStr sid), (''invoice_id'', JStr (in_invoice i)),
              (''amount'', JObj [(''amount'', JStr (in_amount i)), (''currency'', JStr (in_currency i))])])))"

definition cancel_active_schedule :: "string \<times> string \<times> string \<Rightarrow> string \<Rightarrow> write_effect" where
  "cancel_active_schedule target evaluation now s =
     (case active_schedule target s of
        None \<Rightarrow> (s, EffectRefused ''schedule_not_found'')
      | Some p \<Rightarrow>
          (s\<lparr>schedules := update_where (\<lambda>r. ps_id r = ps_id p \<and> ps_state r = Scheduled)
               (\<lambda>r. r\<lparr>ps_state := Cancelled, ps_cancelled_by := Some evaluation, ps_cancelled_at := Some now\<rparr>) (schedules s)\<rparr>,
           EffectDone (JObj [(''cancelled'', JBool True), (''schedule_id'', JStr (ps_id p)),
             (''invoice_id'', JStr (snd (snd target)))])))"

section \<open>The contract of an effect\<close>

text \<open>
  An effect touches the schedules alone, changes nothing when it does not run to its
  end, and keeps the schedules' constraints: distinct identifiers and one scheduled
  row per Mission and invoice.
\<close>

definition schedules_ok :: "write_store \<Rightarrow> bool" where
  "schedules_ok s = (keyed ps_id (schedules s) \<and> keyed ps_target (filter (\<lambda>p. ps_state p = Scheduled) (schedules s)))"

locale write_effect =
  fixes e :: write_effect
  assumes effect_frame: "reservations (fst (e n s)) = reservations s \<and> consumed_permits (fst (e n s)) = consumed_permits s \<and>
      attempts (fst (e n s)) = attempts s"
    and effect_undone: "\<forall>x. snd (e n s) \<noteq> EffectDone x \<Longrightarrow> fst (e n s) = s"
    and effect_keeps: "schedules_ok s \<Longrightarrow> schedules_ok (fst (e n s))"
begin

text \<open>The effect and the reservation commit together or not at all.\<close>

lemma reserve_atomic:
  "case reserve n n2 f q e s of (s', r) \<Rightarrow>
     (case r of
        Executed res \<Rightarrow> snd (e n (cleared n q s)) = EffectDone res \<and> schedules s' = schedules (fst (e n (cleared n q s))) \<and>
          attempts s' = attempts s \<and>
          reservations s' = reservations (cleared n q s) @ [completed_row n q res] \<and>
          (rq_scope q, rq_key q) \<notin> set (map wr_pair (reservations (cleared n q s))) \<and>
          (rq_single_use q \<noteq> None \<longrightarrow> \<not> permit_consumed (rq_evaluation q) s) \<and>
          (case rq_single_use q of None \<Rightarrow> consumed_permits s' = consumed_permits s
           | Some u \<Rightarrow> consumed_permits s' = consumed_permits s @
               [\<lparr>cp_evaluation = rq_evaluation q, cp_action = rq_action q, cp_execution = rq_execution q, cp_consumed_at = n2,
                 cp_retain_until = u\<rparr>])
      | ReserveThrows \<Rightarrow> s' = s
      | _ \<Rightarrow> s' = cleared n q s)"
proof (cases "e n (cleared n q s)")
  case (Pair s2 x)
  have fr: "reservations s2 = reservations (cleared n q s)" "consumed_permits s2 = consumed_permits s" "attempts s2 = attempts s"
    using effect_frame[of n "cleared n q s"] unfolding Pair by (simp_all add: cleared_def)
  have un: "\<forall>r. x \<noteq> EffectDone r \<Longrightarrow> s2 = cleared n q s" using effect_undone[of n "cleared n q s"] Pair by simp
  have pc: "permit_consumed k (cleared n q s) = permit_consumed k s" for k by (simp add: permit_consumed_def cleared_def)
  have pk: "permit_consumed k s \<longleftrightarrow> k \<in> set (map cp_evaluation (consumed_permits s))" for k
    unfolding permit_consumed_def by (auto simp: select_first_None image_iff)
  show ?thesis
    using fr un pc pk
    by (auto simp: reserve_def Pair Let_def consume_permit_def insert_or_ignore_def
        split: option.splits effect_result.splits prod.splits)
qed

end

section \<open>The two effects meet it\<close>

lemma active_None:
  "active_schedule target s = None \<longleftrightarrow> target \<notin> set (map ps_target (filter (\<lambda>p. ps_state p = Scheduled) (schedules s)))"
  by (auto simp: active_schedule_def select_first_None)

lemma insert_keeps: "schedules_ok s \<Longrightarrow> schedules_ok (fst (insert_schedule sid i n s))"
  using active_None[of "(in_issuer i, in_mission i, in_invoice i)" s]
  by (auto simp: insert_schedule_def schedules_ok_def keyed_def ps_target_def)

lemma scheduled_update:
  "(\<And>r. ps_state (g r) \<noteq> Scheduled) \<Longrightarrow>
   filter (\<lambda>p. ps_state p = Scheduled) (update_where (\<lambda>r. q r \<and> ps_state r = Scheduled) g t) =
     delete_where q (filter (\<lambda>p. ps_state p = Scheduled) t)"
  by (induction t) (auto simp: update_where_def delete_where_def)

lemma cancel_keeps: "schedules_ok s \<Longrightarrow> schedules_ok (fst (cancel_active_schedule target ev n s))"
  by (auto simp: cancel_active_schedule_def schedules_ok_def scheduled_update keyed_update keyed_delete split: option.splits)

datatype effect_call = InsertSchedule string insert_input | CancelSchedule "string \<times> string \<times> string" string

fun run_effect :: "effect_call \<Rightarrow> write_effect" where
  "run_effect (InsertSchedule sid i) = insert_schedule sid i"
| "run_effect (CancelSchedule target ev) = cancel_active_schedule target ev"

interpretation effect: write_effect "run_effect c" for c
proof
  fix n s
  show "reservations (fst (run_effect c n s)) = reservations s \<and>
      consumed_permits (fst (run_effect c n s)) = consumed_permits s \<and> attempts (fst (run_effect c n s)) = attempts s"
    by (cases c) (auto simp: insert_schedule_def cancel_active_schedule_def split: option.splits)
  show "\<forall>x. snd (run_effect c n s) \<noteq> EffectDone x \<Longrightarrow> fst (run_effect c n s) = s"
    by (cases c) (auto simp: insert_schedule_def cancel_active_schedule_def split: option.splits if_splits)
  show "schedules_ok s \<Longrightarrow> schedules_ok (fst (run_effect c n s))"
    by (cases c) (simp_all add: insert_keeps cancel_keeps)
qed

interpretation permits: single_use "\<lambda>i. pu_evaluation (snd i)" "\<lambda>i. consume_permit (fst i) (snd i)"
    "\<lambda>s k. k \<in> set (map cp_evaluation (consumed_permits s))"
  by unfold_locales (auto simp: consume_permit_def insert_or_ignore_def split: if_splits)

section \<open>Histories\<close>

datatype write_call =
  Reserve int int bool reserve_request effect_call
  | Sweep int
  | Consume int permit_use
  | SweepConsumed int
  | Attempt attempt_row

fun run_call :: "write_call \<Rightarrow> write_store \<Rightarrow> write_store" where
  "run_call (Reserve n n2 f q c) s = fst (reserve n n2 f q (run_effect c) s)"
| "run_call (Sweep n) s = fst (sweep n s)"
| "run_call (Consume n u) s = fst (consume_permit n u s)"
| "run_call (SweepConsumed n) s = fst (sweep_consumed_permits n s)"
| "run_call (Attempt a) s = fst (record_attempt a s)"

text \<open>The clock of a call that can purge a record.\<close>

fun clock_by :: "int \<Rightarrow> write_call \<Rightarrow> bool" where
  "clock_by t (Reserve n n2 f q c) = (n \<le> t)"
| "clock_by t (Sweep n) = (n \<le> t)"
| "clock_by t (SweepConsumed n) = (n \<le> t)"
| "clock_by t _ = True"

text \<open>Whether this call used the single use of the permit.\<close>

fun uses_permit :: "string \<Rightarrow> write_call \<Rightarrow> write_store \<Rightarrow> bool" where
  "uses_permit e (Reserve n n2 f q c) s =
     (rq_evaluation q = e \<and> rq_single_use q \<noteq> None \<and>
      (case snd (reserve n n2 f q (run_effect c) s) of Executed _ \<Rightarrow> True | _ \<Rightarrow> False))"
| "uses_permit e (Consume n u) s = (pu_evaluation u = e \<and> snd (consume_permit n u s))"
| "uses_permit e _ s = False"

fun permit_uses :: "string \<Rightarrow> write_call list \<Rightarrow> write_store \<Rightarrow> nat" where
  "permit_uses e [] s = 0"
| "permit_uses e (c # cs) s = (if uses_permit e c s then 1 else 0) + permit_uses e cs (run_call c s)"

text \<open>Every presentation of the permit asks for its record to be kept to \<open>t\<close> at least.\<close>

fun retains_to :: "int \<Rightarrow> string \<Rightarrow> write_call \<Rightarrow> bool" where
  "retains_to t e (Reserve n n2 f q c) = (rq_evaluation q = e \<longrightarrow> (case rq_single_use q of None \<Rightarrow> True | Some u \<Rightarrow> t \<le> u))"
| "retains_to t e (Consume n u) = (pu_evaluation u = e \<longrightarrow> t \<le> pu_retain_until u)"
| "retains_to t e _ = True"

text \<open>The record of a pair stays, unchanged, up to its retention.\<close>

definition holds_pair :: "string \<times> string \<Rightarrow> reservation_row \<Rightarrow> write_store \<Rightarrow> bool" where
  "holds_pair pair row s = (select_first (\<lambda>r. wr_pair r = pair) (reservations s) = Some row)"

lemma retained_earlier: "retained t row \<Longrightarrow> n \<le> t \<Longrightarrow> retained n row"
  by (auto simp: retained_def split: option.splits)

lemma retained_not_expired: "retained n row \<Longrightarrow> \<not> expired n row"
  by (auto simp: retained_def expired_def split: option.splits)

lemma holds_pair_call:
  assumes "holds_pair pair row s" "retained t row" "clock_by t c"
  shows "holds_pair pair row (run_call c s)"
proof -
  have ne: "\<not> expired n row" if "n \<le> t" for n
    using retained_not_expired[OF retained_earlier[OF assms(2) that]] .
  show ?thesis
  proof (cases c)
    case (Reserve n n2 f q e)
    have cl: "holds_pair pair row (cleared n q s)"
      using assms(1,3) ne by (simp add: Reserve holds_pair_def cleared_def select_kept)
    show ?thesis
      using effect.reserve_atomic[where c = e and n = n and ?n2.0 = n2 and f = f and q = q and s = s] cl assms(1)
      by (auto simp: Reserve holds_pair_def select_extend split: prod.splits reserve_outcome.splits)
  qed (use assms ne in \<open>auto simp: holds_pair_def sweep_def consume_permit_def sweep_consumed_permits_def
      record_attempt_def select_kept split: prod.splits\<close>)
qed

lemma holds_pair_calls:
  "holds_pair pair row s \<Longrightarrow> retained t row \<Longrightarrow> \<forall>c \<in> set cs. clock_by t c \<Longrightarrow> holds_pair pair row (fold run_call cs s)"
  by (induction cs arbitrary: s) (auto intro: holds_pair_call)

lemma holds_pair_retained:
  "holds_pair (d, k) row s \<Longrightarrow> retained now row \<Longrightarrow> retained_row d k now s \<noteq> None"
  by (auto simp: holds_pair_def retained_row_def select_first_None dest: select_first_SomeD)

lemma first_some_found: "x \<in> set xs \<Longrightarrow> f x \<noteq> None \<Longrightarrow> first_some f xs \<noteq> None"
  by (induction xs) (auto split: option.splits)

text \<open>A held pair answers every reservation of it, directly or by lineage, with no effect.\<close>

lemma reserve_held:
  assumes "holds_pair (d, rq_key q) row s" "retained now row"
    "d = rq_scope q \<or> d \<in> set (case rq_lineage q of None \<Rightarrow> [] | Some l \<Rightarrow> l)"
  shows "\<exists>r s'. reserve now n2 f q e s = (s', AlreadyHeld r) \<and> (d = rq_scope q \<longrightarrow> r = row) \<and>
    schedules s' = schedules s \<and> consumed_permits s' = consumed_permits s"
proof -
  define s1 where "s1 = cleared now q s"
  have h: "holds_pair (d, rq_key q) row s1"
    using assms(1,2) by (simp add: s1_def cleared_def holds_pair_def retained_not_expired select_kept)
  show ?thesis
  proof (cases "select_first (\<lambda>r. wr_pair r = (rq_scope q, rq_key q)) (reservations s1)")
    case (Some prior)
    then show ?thesis
      using h by (auto simp: reserve_def s1_def[symmetric] holds_pair_def Let_def) (simp_all add: s1_def cleared_def)
  next
    case None
    then have "d \<noteq> rq_scope q" using h by (auto simp: holds_pair_def)
    then have "d \<in> set (case rq_lineage q of None \<Rightarrow> [] | Some l \<Rightarrow> l)" using assms(3) by simp
    then obtain held where
      "first_some (\<lambda>d. retained_row d (rq_key q) now s1) (case rq_lineage q of None \<Rightarrow> [] | Some l \<Rightarrow> l) = Some held"
      using first_some_found[of d _ "\<lambda>d. retained_row d (rq_key q) now s1"] holds_pair_retained[OF h assms(2)] by blast
    then show ?thesis
      using None \<open>d \<noteq> rq_scope q\<close> by (auto simp: reserve_def s1_def[symmetric] Let_def) (simp_all add: s1_def cleared_def)
  qed
qed

text \<open>Likewise the record of a consumed permit, and the schedules' constraints.\<close>

definition spent :: "int \<Rightarrow> string \<Rightarrow> write_store \<Rightarrow> bool" where
  "spent t e s = (\<exists>r \<in> set (consumed_permits s). cp_evaluation r = e \<and> t \<le> cp_retain_until r)"

lemma spent_consumed: "spent t e s \<Longrightarrow> permit_consumed e s"
  by (auto simp: spent_def permit_consumed_def select_first_None)

lemma consume_permit_cases:
  "consume_permit n u s =
     (if permit_consumed (pu_evaluation u) s then (s, False)
      else (s\<lparr>consumed_permits := consumed_permits s @ [\<lparr>cp_evaluation = pu_evaluation u, cp_action = pu_action u,
          cp_execution = pu_execution u, cp_consumed_at = n, cp_retain_until = pu_retain_until u\<rparr>]\<rparr>, True))"
  unfolding consume_permit_def insert_or_ignore_def permit_consumed_def by (auto simp: select_first_None image_iff)

lemma spent_call:
  assumes "spent t e s" "clock_by t c"
  shows "spent t e (run_call c s) \<and> \<not> uses_permit e c s"
proof (cases c)
  case (Reserve n n2 f q x)
  show ?thesis
    using effect.reserve_atomic[where c = x and n = n and ?n2.0 = n2 and f = f and q = q and s = s] assms(1) spent_consumed[OF assms(1)]
    by (auto simp: Reserve spent_def cleared_def split: prod.splits reserve_outcome.splits option.splits)
next
  case (Consume n u)
  then show ?thesis
    using assms(1) spent_consumed[OF assms(1)] by (auto simp: consume_permit_cases spent_def)
qed (use assms in \<open>auto simp: spent_def sweep_def sweep_consumed_permits_def record_attempt_def delete_where_def
    split: prod.splits\<close>)

lemma spent_uses: "spent t e s \<Longrightarrow> \<forall>c \<in> set cs. clock_by t c \<Longrightarrow> permit_uses e cs s = 0"
  by (induction cs arbitrary: s) (use spent_call in auto)

lemma use_spends: "uses_permit e c s \<Longrightarrow> retains_to t e c \<Longrightarrow> spent t e (run_call c s)"
proof (cases c)
  case (Reserve n n2 f q x)
  assume "uses_permit e c s" "retains_to t e c"
  then show ?thesis
    using effect.reserve_atomic[where c = x and n = n and ?n2.0 = n2 and f = f and q = q and s = s]
    by (auto simp: Reserve spent_def split: prod.splits reserve_outcome.splits option.splits)
next
  case (Consume n u)
  assume "uses_permit e c s" "retains_to t e c"
  then show ?thesis by (auto simp: Consume consume_permit_cases spent_def split: if_splits)
qed auto

definition store_ok :: "write_store \<Rightarrow> bool" where
  "store_ok s = (keyed wr_pair (reservations s) \<and> schedules_ok s \<and> keyed cp_evaluation (consumed_permits s) \<and>
     keyed at_execution (attempts s) \<and> (\<forall>r \<in> set (reservations s). wr_state r = WCompleted \<longrightarrow>
       wr_result r \<noteq> None \<and> wr_retain_until r \<noteq> None))"

lemma store_ok_cleared: "store_ok s \<Longrightarrow> store_ok (cleared n q s)"
  by (simp add: store_ok_def schedules_ok_def cleared_def keyed_delete in_delete_where)

lemma store_ok_reserve:
  assumes "store_ok s"
  shows "store_ok (fst (reserve n n2 f q (run_effect c) s))"
proof (cases "reserve n n2 f q (run_effect c) s")
  case (Pair s' r)
  have a: "case r of
        Executed res \<Rightarrow> schedules s' = schedules (fst (run_effect c n (cleared n q s))) \<and> attempts s' = attempts s \<and>
          reservations s' = reservations (cleared n q s) @ [completed_row n q res] \<and>
          (rq_scope q, rq_key q) \<notin> set (map wr_pair (reservations (cleared n q s))) \<and>
          (rq_single_use q \<noteq> None \<longrightarrow> \<not> permit_consumed (rq_evaluation q) s) \<and>
          (case rq_single_use q of None \<Rightarrow> consumed_permits s' = consumed_permits s
           | Some u \<Rightarrow> consumed_permits s' = consumed_permits s @
               [\<lparr>cp_evaluation = rq_evaluation q, cp_action = rq_action q, cp_execution = rq_execution q, cp_consumed_at = n2,
                 cp_retain_until = u\<rparr>])
      | ReserveThrows \<Rightarrow> s' = s
      | _ \<Rightarrow> s' = cleared n q s"
    using effect.reserve_atomic[where c = c and n = n and ?n2.0 = n2 and f = f and q = q and s = s]
    by (cases r) (simp_all add: Pair)
  note cl = store_ok_cleared[OF assms, of n q]
  have "store_ok s'"
  proof (cases r)
    case (Executed res)
    have "schedules_ok s'"
      using a effect.effect_keeps[of "cleared n q s" c n] cl by (simp add: Executed store_ok_def schedules_ok_def)
    moreover have "keyed wr_pair (reservations s')"
      using a cl by (simp add: Executed keyed_snoc store_ok_def completed_row_def wr_pair_def)
    moreover have "keyed cp_evaluation (consumed_permits s')"
      using a assms by (cases "rq_single_use q")
        (simp_all add: Executed keyed_snoc store_ok_def permit_consumed_def select_key_None)
    moreover have "\<forall>r \<in> set (reservations s'). wr_state r = WCompleted \<longrightarrow> wr_result r \<noteq> None \<and> wr_retain_until r \<noteq> None"
      using a cl by (auto simp: Executed store_ok_def completed_row_def)
    ultimately show ?thesis using a assms by (simp add: Executed store_ok_def)
  qed (use a assms cl in auto)
  then show ?thesis by (simp add: Pair)
qed

lemma store_ok_call: "store_ok s \<Longrightarrow> store_ok (run_call c s)"
proof (cases c)
  case (Reserve n n2 f q x)
  then show "store_ok s \<Longrightarrow> store_ok (run_call c s)" by (simp add: store_ok_reserve)
next
  case (Consume n u)
  then show "store_ok s \<Longrightarrow> store_ok (run_call c s)"
    by (simp add: store_ok_def schedules_ok_def consume_permit_cases keyed_snoc permit_consumed_def select_key_None)
next
  case (Attempt a)
  then show "store_ok s \<Longrightarrow> store_ok (run_call c s)"
    using keyed_insert[of at_execution "attempts s" a]
    by (auto simp: store_ok_def schedules_ok_def record_attempt_def split: prod.splits)
qed (simp_all add: store_ok_def schedules_ok_def sweep_def sweep_consumed_permits_def keyed_delete in_delete_where)

lemma store_ok_calls: "store_ok s \<Longrightarrow> store_ok (fold run_call cs s)"
  by (induction cs arbitrary: s) (auto intro: store_ok_call)

section \<open>Properties\<close>

text \<open>
  C11. A reversible write runs once per idempotency key while its record is retained.
  After an attempt executed, whatever reservations, sweeps, permits and attempts
  follow with clocks inside the retention, every further reservation of the same key
  in the same scope, or in a scope that names it as its lineage, runs no effect and
  takes no permit; in the same scope it is answered with the original record, result
  included; and retrieval finds a record.
\<close>

theorem reserved_write_runs_once:
  assumes "reserve n n2 f q (run_effect c) s = (s1, Executed res)"
    and "\<And>x. x \<in> set cs \<Longrightarrow> clock_by (n + rq_retention q) x"
    and "now \<le> n + rq_retention q" "rq_key q' = rq_key q"
    and "rq_scope q = rq_scope q' \<or> rq_scope q \<in> set (case rq_lineage q' of None \<Rightarrow> [] | Some l \<Rightarrow> l)"
  shows "(\<exists>r s'. reserve now m g q' (run_effect c') (fold run_call cs s1) = (s', AlreadyHeld r) \<and>
      (rq_scope q = rq_scope q' \<longrightarrow> r = completed_row n q res) \<and>
      schedules s' = schedules (fold run_call cs s1) \<and> consumed_permits s' = consumed_permits (fold run_call cs s1)) \<and>
    lookup_reservation now (rq_scope q') (rq_key q') (case rq_lineage q' of None \<Rightarrow> [] | Some l \<Rightarrow> l)
      (fold run_call cs s1) \<noteq> None"
proof -
  let ?row = "completed_row n q res" and ?s = "fold run_call cs s1"
  have "reservations s1 = reservations (cleared n q s) @ [?row]"
    "(rq_scope q, rq_key q) \<notin> set (map wr_pair (reservations (cleared n q s)))"
    using effect.reserve_atomic[where c = c and n = n and ?n2.0 = n2 and f = f and q = q and s = s] assms(1) by simp_all
  then have "holds_pair (rq_scope q, rq_key q) ?row s1"
    unfolding holds_pair_def select_key_None[of wr_pair, symmetric]
    by (simp add: select_first_append) (simp add: wr_pair_def completed_row_def)
  moreover have "retained (n + rq_retention q) ?row" by (simp add: retained_def completed_row_def)
  ultimately have h: "holds_pair (rq_scope q, rq_key q') ?row ?s"
    using holds_pair_calls[of "(rq_scope q, rq_key q)" ?row s1 "n + rq_retention q" cs] assms(2,4) by simp
  have r: "retained now ?row" using assms(3) by (simp add: retained_def completed_row_def)
  have "first_some (\<lambda>d. retained_row d (rq_key q') now ?s) (rq_scope q' # (case rq_lineage q' of None \<Rightarrow> [] | Some l \<Rightarrow> l)) \<noteq> None"
    by (rule first_some_found[of "rq_scope q"]) (use assms(5) holds_pair_retained[OF h r] in auto)
  then show ?thesis
    using reserve_held[OF h r assms(5)] by (simp add: lookup_reservation_def)
qed

text \<open>
  C21. A reservation and its effect commit together.  In any store a history of calls
  reaches, the tables satisfy their constraints (one active schedule per Mission and
  invoice, one record per pair, a result and a bound on every completed record); and
  the next reservation either executes, and then the schedules are exactly what the
  effect made them, its record is stored and the permit it metered was free, or it
  leaves schedules and permits as they were and adds no record.
\<close>

theorem reservation_atomic:
  "let s = fold run_call cs new_write_store; s0 = cleared n q s in
     store_ok s \<and>
     (case reserve n n2 f q (run_effect c) s of (s', r) \<Rightarrow>
        store_ok s' \<and>
        (case r of
           Executed res \<Rightarrow> snd (run_effect c n s0) = EffectDone res \<and> schedules s' = schedules (fst (run_effect c n s0)) \<and>
             completed_row n q res \<in> set (reservations s') \<and>
             (rq_single_use q \<noteq> None \<longrightarrow> \<not> permit_consumed (rq_evaluation q) s \<and> permit_consumed (rq_evaluation q) s')
         | _ \<Rightarrow> schedules s' = schedules s \<and> consumed_permits s' = consumed_permits s \<and>
             set (reservations s') \<subseteq> set (reservations s)))"
proof -
  define s where "s = fold run_call cs new_write_store"
  have ok: "store_ok s"
    unfolding s_def by (rule store_ok_calls) (simp add: store_ok_def schedules_ok_def new_write_store_def keyed_def)
  have rows: "set (reservations (cleared n q s)) \<subseteq> set (reservations s)" "schedules (cleared n q s) = schedules s"
    "consumed_permits (cleared n q s) = consumed_permits s"
    by (auto simp: cleared_def in_delete_where)
  show ?thesis
    unfolding s_def[symmetric] Let_def
    using effect.reserve_atomic[where c = c and n = n and ?n2.0 = n2 and f = f and q = q and s = s]
      store_ok_reserve[OF ok, of n n2 f q c] ok rows
    by (auto simp: permit_consumed_def select_key_None split: prod.splits reserve_outcome.splits option.splits)
qed

text \<open>
  C32. A single-use permit is used once.  Over any history from any store, in which every
  presentation of the permit asks for its record to be kept until \<open>t\<close> and no purge runs
  past \<open>t\<close>, at most one call uses it, be it an unkeyed consumption or the effect of a
  keyed reservation.
\<close>

theorem permit_used_once:
  assumes "\<And>c. c \<in> set cs \<Longrightarrow> clock_by t c \<and> retains_to t e c"
  shows "permit_uses e cs s \<le> 1"
  using assms
proof (induction cs arbitrary: s)
  case Nil
  then show ?case by simp
next
  case (Cons c cs)
  show ?case
  proof (cases "uses_permit e c s")
    case True
    then have "spent t e (run_call c s)" using use_spends Cons.prems[of c] by simp
    then show ?thesis using spent_uses[of t e "run_call c s" cs] Cons.prems by simp
  next
    case False
    then show ?thesis using Cons by simp
  qed
qed

text \<open>One reservation, a sweep at the end of its retention, and the retry.\<close>

definition sample_request :: reserve_request where
  "sample_request = \<lparr>rq_scope = ''s'', rq_lineage = None, rq_key = ''k'', rq_action = ''payments.schedule'', rq_operation = ''o'',
     rq_evaluation = ''e1'', rq_execution = ''x1'', rq_retention = 100, rq_single_use = Some 50\<rparr>"

definition sample_insert :: effect_call where
  "sample_insert = InsertSchedule ''sch_1'' \<lparr>in_issuer = ''i'', in_mission = ''m'', in_subject = ''u'', in_invoice = ''inv'',
     in_version = 1, in_vendor = ''v'', in_payee = ''p'', in_amount = ''10'', in_currency = ''EUR'', in_digest = ''d'',
     in_evaluation = ''e1''\<rparr>"

lemmas sample_write_defs = sample_request_def sample_insert_def reserve_def cleared_def new_write_store_def delete_where_def
  consume_permit_def insert_or_ignore_def insert_schedule_def active_schedule_def permit_consumed_def

lemma sample_executes: "\<exists>s1 res. reserve 0 0 False sample_request (run_effect sample_insert) new_write_store = (s1, Executed res)"
  by (simp add: sample_write_defs)

theorem reserved_write_runs_once_witness:
  "\<exists>s1 res r s'. reserve 0 0 False sample_request (run_effect sample_insert) new_write_store = (s1, Executed res) \<and>
     reserve 100 100 False sample_request (run_effect sample_insert) (fold run_call [Sweep 100] s1) = (s', AlreadyHeld r) \<and>
     wr_result r = Some res"
proof -
  obtain s1 res where e: "reserve 0 0 False sample_request (run_effect sample_insert) new_write_store = (s1, Executed res)"
    using sample_executes by blast
  from reserved_write_runs_once[OF e, of "[Sweep 100]" 100 sample_request 100 False sample_insert] e show ?thesis
    by (auto simp: sample_request_def completed_row_def)
qed

theorem permit_used_once_witness:
  "permit_uses ''e1'' [Consume 0 \<lparr>pu_evaluation = ''e1'', pu_action = ''a'', pu_execution = ''x'', pu_retain_until = 50\<rparr>,
     SweepConsumed 50, Reserve 1 1 False sample_request sample_insert] new_write_store \<le> 1"
  by (rule permit_used_once[of _ 50]) (auto simp: sample_request_def)

theorem reservation_atomic_witness:
  "\<exists>s' res. reserve 0 0 False sample_request (run_effect sample_insert) new_write_store = (s', Executed res) \<and>
     store_ok s' \<and> completed_row 0 sample_request res \<in> set (reservations s')"
proof -
  obtain s1 res where e: "reserve 0 0 False sample_request (run_effect sample_insert) new_write_store = (s1, Executed res)"
    using sample_executes by blast
  then show ?thesis
    using reservation_atomic[where cs = "[]" and n = 0 and q = sample_request and ?n2.0 = 0 and f = False and c = sample_insert] by (simp add: Let_def)
qed

end
