(* ===== verification/Operation_Contract.thy ===== *)
theory Operation_Contract
  imports Resource_Matching
begin

text \<open>
  The operation contracts of \<^verbatim>\<open>packages/mission-core/src/operation-target.ts\<close>:
  how an enforcement point establishes the one target of an operation from the
  contract its profile declares, and which targets a contract can establish at all.

  An argument's text is expanded octet by octet over its UTF-8 form.  The texts of
  the model hold code points below 256; \<open>expand_value\<close> and the decoder range over
  all code points, because a target may encode any of them.
\<close>

section \<open>Operation contracts\<close>

datatype target_refusal = No_contract | Unsupported_contract | Missing_argument | Ambiguous | Malformed

text \<open>Equality of \<open>includes\<close>: primitives by value; two parsed objects or arrays are never the same.\<close>

definition same_value :: "json \<Rightarrow> json \<Rightarrow> bool" where
  "same_value a b = (case a of JArr _ \<Rightarrow> False | JObj _ \<Rightarrow> False | _ \<Rightarrow> a = b)"

fun distinct_values :: "json list \<Rightarrow> json list \<Rightarrow> json list" where
  "distinct_values [] seen = seen"
| "distinct_values (c # cs) seen =
     (if list_ex (\<lambda>d. same_value d c) seen then distinct_values cs seen else distinct_values cs (seen @ [c]))"

definition resolve_operation_target :: "json list \<Rightarrow> target_refusal + string" where
  "resolve_operation_target candidates =
     (case distinct_values candidates [] of
        [] \<Rightarrow> Inl No_contract
      | [v] \<Rightarrow> (case opt_string (Some v) of
                 None \<Rightarrow> Inl Malformed
               | Some s \<Rightarrow> if is_absolute_uri s then Inr s else Inl Malformed)
      | _ \<Rightarrow> Inl Ambiguous)"

record parsed_template =
  before :: string
  varname :: string
  after :: string

definition template_head :: "string \<Rightarrow> bool" where
  "template_head s =
     (case after_first CHR '':'' s of
        None \<Rightarrow> False
      | Some r \<Rightarrow> scheme_ok (before_first CHR '':'' s) \<and> starts_with ''//'' r \<and>
          CHR ''/'' \<in> set (drop 2 r) \<and> list_all (\<lambda>c. c \<notin> set ''?#{}'') (drop 2 r))"

definition template_varname :: "string \<Rightarrow> bool" where
  "template_varname s = (s \<noteq> [] \<and> list_all (\<lambda>c. is_alpha c \<or> is_digit c \<or> c = CHR ''_'') s)"

definition parse_template :: "json \<Rightarrow> parsed_template option" where
  "parse_template v =
     (case opt_string (Some v) of
        None \<Rightarrow> None
      | Some s \<Rightarrow>
          (case after_first CHR ''{'' s of
             None \<Rightarrow> None
           | Some r \<Rightarrow>
               if CHR ''}'' \<in> set (before_first CHR ''{'' s) then None
               else (case after_first CHR ''}'' r of
                  None \<Rightarrow> None
                | Some t \<Rightarrow>
                    let b = before_first CHR ''{'' s; n = before_first CHR ''}'' r
                    in if \<not> template_head b \<or> \<not> template_varname n then None
                       else if CHR ''{'' \<in> set t \<or> CHR ''}'' \<in> set t then None
                       else Some \<lparr>before = b, varname = n, after = t\<rparr>)))"

subsection \<open>Expansion\<close>

definition upper_digit :: "nat \<Rightarrow> char" where
  "upper_digit d = (if d < 10 then char_of (48 + d) else char_of (55 + d))"

definition pct :: "nat \<Rightarrow> string" where
  "pct b = [CHR ''%'', upper_digit (b div 16), upper_digit (b mod 16)]"

definition utf8 :: "nat \<Rightarrow> nat list" where
  "utf8 u =
     (if u < 128 then [u]
      else if u < 2048 then [192 + u div 64, 128 + u mod 64]
      else if u < 65536 then [224 + u div 4096, 128 + u div 64 mod 64, 128 + u mod 64]
      else [240 + u div 262144, 128 + u div 4096 mod 64, 128 + u div 64 mod 64, 128 + u mod 64])"

text \<open>
  \<open>encodeURIComponent\<close> and the replacement that follows it, over code points: what
  the first leaves unescaped and the second does not escape is \<open>unreserved\<close>.
\<close>

definition uri_unescaped :: "char \<Rightarrow> bool" where
  "uri_unescaped c = (is_alpha c \<or> is_digit c \<or> c \<in> set ''-_.!~*()'' \<or> code_unit c = 39)"

definition encode_point :: "nat \<Rightarrow> string" where
  "encode_point u = (if u < 256 \<and> uri_unescaped (char_of u) then [char_of u] else concat (map pct (utf8 u)))"

definition encode_uri_component :: "nat list \<Rightarrow> string" where
  "encode_uri_component us = concat (map encode_point us)"

definition escape_rest :: "char \<Rightarrow> string" where
  "escape_rest c = (if c \<in> set ''!()*'' \<or> code_unit c = 39 then pct (code_unit c) else [c])"

definition expand_value :: "nat list \<Rightarrow> string" where
  "expand_value us = concat (map escape_rest (encode_uri_component us))"

definition is_dot_segment :: "nat list \<Rightarrow> bool" where
  "is_dot_segment us = (us = map code_unit ''.'' \<or> us = map code_unit ''..'')"

text \<open>\<open>args\<close> is an object; its own members are what \<open>Object.hasOwn\<close> sees.\<close>

definition derive_from_template :: "parsed_template \<Rightarrow> json \<Rightarrow> target_refusal + string" where
  "derive_from_template p args =
     (case jget (varname p) args of
        None \<Rightarrow> Inl Missing_argument
      | Some v \<Rightarrow>
          if v = JNull \<or> v = JStr [] then Inl Missing_argument
          else case v of
            JArr _ \<Rightarrow> Inl Ambiguous
          | JStr s \<Rightarrow>
              if is_dot_segment (map code_unit s) then Inl Malformed
              else let target = before p @ expand_value (map code_unit s) @ after p
                   in if is_absolute_uri target then Inr target else Inl Malformed
          | _ \<Rightarrow> Inl Malformed)"

text \<open>\<open>isSingleMember\<close>, with the member's value.\<close>

definition single_member :: "json \<Rightarrow> string \<Rightarrow> json option" where
  "single_member contract m = (if is_obj contract \<and> length (jkeys contract) = 1 then jget m contract else None)"

definition contract_template :: "json \<Rightarrow> parsed_template option" where
  "contract_template contract = Option.bind (single_member contract ''template'') parse_template"

fun contract_candidates :: "json list \<Rightarrow> json option \<Rightarrow> json list \<Rightarrow> target_refusal + json list" where
  "contract_candidates [] args acc = Inr acc"
| "contract_candidates (k # ks) args acc =
     (case single_member k ''service'' of
        Some v \<Rightarrow> contract_candidates ks args (acc @ [v])
      | None \<Rightarrow>
          (case (contract_template k, args) of
             (Some p, Some a) \<Rightarrow>
               (case derive_from_template p a of
                  Inl e \<Rightarrow> Inl e
                | Inr t \<Rightarrow> contract_candidates ks args (acc @ [JStr t]))
           | _ \<Rightarrow> Inl Unsupported_contract))"

definition establish_operation_target :: "json option \<Rightarrow> json option \<Rightarrow> target_refusal + string" where
  "establish_operation_target declared args =
     (if declared = None \<or> declared = Some JNull then Inl No_contract
      else let contracts = (case declared of Some (JArr ks) \<Rightarrow> ks | Some k \<Rightarrow> [k] | None \<Rightarrow> [])
           in case contract_candidates contracts args [] of
                Inl e \<Rightarrow> Inl e
              | Inr cs \<Rightarrow> resolve_operation_target cs)"

definition contract_argument :: "json \<Rightarrow> string option" where
  "contract_argument contract = map_option varname (contract_template contract)"

subsection \<open>Contract coverage\<close>

definition is_upper_hex :: "char \<Rightarrow> bool" where
  "is_upper_hex c = (is_digit c \<or> 65 \<le> code_unit c \<and> code_unit c \<le> 70)"

fun expanded_text :: "string \<Rightarrow> bool" where
  "expanded_text [] = True"
| "expanded_text (c # s) =
     (if c = CHR ''%'' then (case s of a # b # r \<Rightarrow> is_upper_hex a \<and> is_upper_hex b \<and> expanded_text r | _ \<Rightarrow> False)
      else unreserved c \<and> expanded_text s)"

definition expanded_value :: "string \<Rightarrow> bool" where
  "expanded_value s = (s \<noteq> [] \<and> expanded_text s)"

text \<open>The octets of a percent-encoded text, and \<open>decodeURIComponent\<close> as strict UTF-8 decoding of them.\<close>

fun octets :: "string \<Rightarrow> nat list" where
  "octets (c # a # b # s) =
     (if c = CHR ''%'' then (16 * hex_val a + hex_val b) # octets s else code_unit c # octets (a # b # s))"
| "octets s = map code_unit s"

definition tail_octet :: "nat \<Rightarrow> bool" where
  "tail_octet b = (128 \<le> b \<and> b < 192)"

fun utf8_decode :: "nat list \<Rightarrow> nat list option" where
  "utf8_decode [] = Some []"
| "utf8_decode (a # s) =
     (if a < 128 then map_option (\<lambda>r. a # r) (utf8_decode s)
      else if 194 \<le> a \<and> a < 224 then
        (case s of b # t \<Rightarrow>
           if tail_octet b then map_option (\<lambda>r. ((a - 192) * 64 + (b - 128)) # r) (utf8_decode t) else None
         | _ \<Rightarrow> None)
      else if 224 \<le> a \<and> a < 240 then
        (case s of b # c # t \<Rightarrow>
           let u = (a - 224) * 4096 + (b - 128) * 64 + (c - 128)
           in if tail_octet b \<and> tail_octet c \<and> 2048 \<le> u \<and> \<not> (55296 \<le> u \<and> u < 57344)
              then map_option (\<lambda>r. u # r) (utf8_decode t) else None
         | _ \<Rightarrow> None)
      else if 240 \<le> a \<and> a < 245 then
        (case s of b # c # d # t \<Rightarrow>
           let u = (a - 240) * 262144 + (b - 128) * 4096 + (c - 128) * 64 + (d - 128)
           in if tail_octet b \<and> tail_octet c \<and> tail_octet d \<and> 65536 \<le> u \<and> u < 1114112
              then map_option (\<lambda>r. u # r) (utf8_decode t) else None
         | _ \<Rightarrow> None)
      else None)"

definition contract_can_establish :: "json \<Rightarrow> json \<Rightarrow> bool" where
  "contract_can_establish contract target =
     (case opt_string (Some target) of
        None \<Rightarrow> False
      | Some t \<Rightarrow>
          if \<not> is_absolute_uri t then False
          else case single_member contract ''service'' of
            Some v \<Rightarrow> v = JStr t
          | None \<Rightarrow>
              (case contract_template contract of
                 None \<Rightarrow> False
               | Some p \<Rightarrow>
                   let b = before p; a = after p;
                       expanded = take (length t - length a - length b) (drop (length b) t)
                   in length t > length b + length a \<and> starts_with b t \<and> ends_with t a \<and>
                      expanded_value expanded \<and>
                      (case utf8_decode (octets expanded) of
                         None \<Rightarrow> False
                       | Some value \<Rightarrow> \<not> is_dot_segment value \<and> expand_value value = expanded)))"

section \<open>Expansion is invertible\<close>

lemma unreserved_not_pct: "unreserved c \<Longrightarrow> c \<noteq> CHR ''%''"
  by (auto simp: unreserved_def is_alpha_def is_upper_alpha_def is_digit_def code_unit_def)

definition special :: "char \<Rightarrow> bool" where
  "special c = (c \<in> set ''!()*'' \<or> code_unit c = 39)"

lemma special_escaped: "escape_rest c = (if special c then pct (code_unit c) else [c])"
  unfolding escape_rest_def special_def by (rule refl)

lemma unit_small: "u < 256 \<Longrightarrow> code_unit (char_of u) = u"
  by (simp add: code_unit_def)

lemma special_codes: "special c \<Longrightarrow> code_unit c \<in> {33, 39, 40, 41, 42}"
  by (auto simp: special_def code_unit_def)

lemma plain_codes: "unreserved c \<Longrightarrow> 45 \<le> code_unit c \<and> code_unit c < 128"
  by (auto simp: unreserved_def is_alpha_def is_upper_alpha_def is_digit_def code_unit_def)

lemma unescaped_split: "uri_unescaped c \<longleftrightarrow> unreserved c \<or> special c"
  by (auto simp: uri_unescaped_def unreserved_def special_def)

lemma unreserved_not_special: "unreserved c \<Longrightarrow> \<not> special c"
  using special_codes[of c] plain_codes[of c] by auto

lemma upper_digit_unit: "d < 16 \<Longrightarrow> code_unit (upper_digit d) = (if d < 10 then 48 + d else 55 + d)"
  by (simp add: upper_digit_def unit_small)

lemma upper_digit_hex: "d < 16 \<Longrightarrow> is_upper_hex (upper_digit d) \<and> hex_val (upper_digit d) = d \<and> \<not> special (upper_digit d)"
  using special_codes[of "upper_digit d"] upper_digit_unit[of d]
  by (auto simp: is_upper_hex_def hex_val_def is_digit_def digit_val_def split: if_splits)

lemma pct_stable: "b < 256 \<Longrightarrow> concat (map escape_rest (pct b)) = pct b"
  using upper_digit_hex[of "b div 16"] upper_digit_hex[of "b mod 16"]
  by (simp add: pct_def special_escaped) (simp add: special_def code_unit_def)

lemma pcts_stable: "\<forall>b \<in> set bs. b < 256 \<Longrightarrow> concat (map escape_rest (concat (map pct bs))) = concat (map pct bs)"
  by (induction bs) (simp_all add: pct_stable)

lemma utf8_octet: "u < 256 \<Longrightarrow> \<forall>b \<in> set (utf8 u). b < 256"
  by (auto simp: utf8_def)

definition expand_point :: "nat \<Rightarrow> string" where
  "expand_point u = concat (map escape_rest (encode_point u))"

lemma expand_value_points: "expand_value us = concat (map expand_point us)"
  by (induction us) (simp_all add: expand_value_def encode_uri_component_def expand_point_def)

lemma expand_point_cases:
  assumes "u < 256"
  shows "expand_point u = (if unreserved (char_of u) then [char_of u] else concat (map pct (utf8 u)))"
proof -
  let ?c = "char_of u :: char"
  have c: "code_unit ?c = u" using assms by (rule unit_small)
  consider "unreserved ?c" | "special ?c" "\<not> unreserved ?c" | "\<not> uri_unescaped ?c" "\<not> unreserved ?c"
    using unescaped_split[of ?c] by blast
  then show ?thesis
  proof cases
    case 1
    then show ?thesis
      using assms unreserved_not_special[OF 1] unescaped_split[of ?c]
      by (simp add: expand_point_def encode_point_def special_escaped)
  next
    case 2
    then have "u < 128" using special_codes[of ?c] c by auto
    then show ?thesis
      using assms 2 unescaped_split[of ?c] by (simp add: expand_point_def encode_point_def special_escaped c utf8_def)
  next
    case 3
    then show ?thesis
      using assms pcts_stable[OF utf8_octet[OF assms]] by (simp add: expand_point_def encode_point_def)
  qed
qed

lemma pct_cases:
  assumes "b < 256"
  obtains y z where "pct b = [CHR ''%'', y, z]" "is_upper_hex y" "is_upper_hex z" "16 * hex_val y + hex_val z = b"
proof -
  have "b div 16 < 16" "b mod 16 < 16" using assms by simp_all
  then show thesis
    using that[of "upper_digit (b div 16)" "upper_digit (b mod 16)"] upper_digit_hex by (simp add: pct_def)
qed

lemma octets_plain: "c \<noteq> CHR ''%'' \<Longrightarrow> octets (c # s) = code_unit c # octets s"
  by (cases s; cases "tl s") auto

lemma octets_pct: "b < 256 \<Longrightarrow> octets (pct b @ s) = b # octets s"
  by (erule pct_cases) simp

lemma expanded_plain: "unreserved c \<Longrightarrow> expanded_text (c # s) = expanded_text s"
  using unreserved_not_pct by auto

lemma expanded_pct: "b < 256 \<Longrightarrow> expanded_text (pct b @ s) = expanded_text s"
  by (erule pct_cases) simp

lemma octets_pcts: "\<forall>b \<in> set bs. b < 256 \<Longrightarrow> octets (concat (map pct bs) @ s) = bs @ octets s"
  by (induction bs) (simp_all add: octets_pct)

lemma expanded_pcts: "\<forall>b \<in> set bs. b < 256 \<Longrightarrow> expanded_text (concat (map pct bs) @ s) = expanded_text s"
  by (induction bs) (simp_all add: expanded_pct)

lemma octets_expand_point: "u < 256 \<Longrightarrow> octets (expand_point u @ s) = utf8 u @ octets s"
proof (cases "unreserved (char_of u)")
  case True
  moreover assume u: "u < 256"
  ultimately have "u < 128" using plain_codes[OF True] by (simp add: unit_small)
  then show ?thesis using True u octets_plain[OF unreserved_not_pct[OF True]] by (simp add: expand_point_cases utf8_def unit_small)
next
  case False
  then show "u < 256 \<Longrightarrow> ?thesis" by (simp add: expand_point_cases octets_pcts utf8_octet)
qed

lemma expanded_expand_point: "u < 256 \<Longrightarrow> expanded_text (expand_point u @ s) = expanded_text s"
  by (simp add: expand_point_cases expanded_plain expanded_pcts utf8_octet del: expanded_text.simps)

lemma octets_expand: "\<forall>u \<in> set us. u < 256 \<Longrightarrow> octets (expand_value us) = concat (map utf8 us)"
proof (induction us)
  case Nil
  then show ?case by (simp add: expand_value_points)
next
  case (Cons u us)
  then show ?case by (simp add: expand_value_points octets_expand_point)
qed

lemma expanded_expand: "\<forall>u \<in> set us. u < 256 \<Longrightarrow> expanded_text (expand_value us)"
  by (induction us) (simp_all add: expand_value_points expanded_expand_point)

lemma decode_point: "u < 256 \<Longrightarrow> utf8_decode (utf8 u @ s) = map_option (\<lambda>r. u # r) (utf8_decode s)"
  by (auto simp: utf8_def tail_octet_def)

lemma decode_points: "\<forall>u \<in> set us. u < 256 \<Longrightarrow> utf8_decode (concat (map utf8 us)) = Some us"
  by (induction us) (simp_all add: decode_point)

lemma code_units_small: "\<forall>u \<in> set (map code_unit s). u < 256"
  by (simp add: code_unit_def)

lemma decode_expand: "utf8_decode (octets (expand_value (map code_unit s))) = Some (map code_unit s)"
  using octets_expand[OF code_units_small] decode_points[OF code_units_small] by simp

lemma code_units_inject: "map code_unit a = map code_unit b \<Longrightarrow> a = b"
  by (rule map_injective[of code_unit]) (auto simp: inj_on_def code_unit_def)

lemma expand_injective: "expand_value (map code_unit a) = expand_value (map code_unit b) \<Longrightarrow> a = b"
  by (metis decode_expand code_units_inject option.inject)

lemma expanded_no_delimiter: "expanded_text s \<Longrightarrow> c \<in> set ''/?#'' \<Longrightarrow> c \<notin> set s"
proof (induction s rule: expanded_text.induct)
  case 1
  then show ?case by simp
next
  case (2 d s)
  show ?case
  proof (cases "d = CHR ''%''")
    case True
    then obtain a b r where s: "s = a # b # r" "is_upper_hex a" "is_upper_hex b" "expanded_text r"
      using 2(3) by (auto split: list.splits)
    then have "c \<notin> set r" using 2(1)[OF True s(1)] 2(4) by simp
    moreover have "c \<noteq> a" "c \<noteq> b" using s(2,3) 2(4) by (auto simp: is_upper_hex_def is_digit_def code_unit_def)
    ultimately show ?thesis using s(1) True 2(4) by auto
  next
    case False
    then have "unreserved d" "c \<notin> set s" using 2 by simp_all
    moreover have "\<not> unreserved c"
      using 2(4) by (auto simp: unreserved_def is_alpha_def is_upper_alpha_def is_digit_def code_unit_def)
    ultimately show ?thesis by auto
  qed
qed

section \<open>One target\<close>

lemma same_value_eq: "same_value a b \<Longrightarrow> a = b"
  by (cases a) (simp_all add: same_value_def)

lemma distinct_values_cover: "set seen \<union> set cs = set (distinct_values cs seen)"
proof (induction cs arbitrary: seen)
  case Nil
  then show ?case by simp
next
  case (Cons c cs)
  show ?case
  proof (cases "list_ex (\<lambda>d. same_value d c) seen")
    case True
    then have "c \<in> set seen" using same_value_eq by (auto simp: list_ex_iff)
    then show ?thesis using Cons.IH[of seen] True by auto
  next
    case False
    then show ?thesis using Cons.IH[of "seen @ [c]"] by auto
  qed
qed

lemma distinct_values_same: "\<forall>c \<in> set cs. c = JStr t \<Longrightarrow> distinct_values cs [JStr t] = [JStr t]"
  by (induction cs) (simp_all add: same_value_def)

lemma resolve_iff:
  "resolve_operation_target cs = Inr t \<longleftrightarrow> cs \<noteq> [] \<and> (\<forall>c \<in> set cs. c = JStr t) \<and> is_absolute_uri t"
proof
  assume r: "resolve_operation_target cs = Inr t"
  have u: "distinct_values cs [] = [JStr t] \<and> is_absolute_uri t"
  proof (cases "distinct_values cs []")
    case Nil
    then show ?thesis using r by (simp add: resolve_operation_target_def)
  next
    case (Cons v vs)
    then have vs: "vs = []" using r by (cases vs) (simp_all add: resolve_operation_target_def)
    have e: "resolve_operation_target cs =
        (case opt_string (Some v) of None \<Rightarrow> Inl Malformed | Some s \<Rightarrow> if is_absolute_uri s then Inr s else Inl Malformed)"
      unfolding resolve_operation_target_def Cons vs by simp
    show ?thesis
    proof (cases "opt_string (Some v)")
      case None
      then show ?thesis using r unfolding e by simp
    next
      case (Some s)
      then have "(if is_absolute_uri s then Inr s else Inl Malformed) = (Inr t :: target_refusal + string)"
        using r unfolding e by (simp only: option.case)
      then have "is_absolute_uri s" "s = t" by (simp_all split: if_split_asm)
      moreover have "v = JStr s" using Some opt_string_Some by blast
      ultimately show ?thesis using Cons vs by simp
    qed
  qed
  then have c: "set cs = {JStr t}" using distinct_values_cover[of "[]" cs] by (simp only: set_simps Un_empty_left)
  then have "cs \<noteq> []" by (metis empty_set insert_not_empty)
  then show "cs \<noteq> [] \<and> (\<forall>c \<in> set cs. c = JStr t) \<and> is_absolute_uri t" using u unfolding c by blast
next
  assume a: "cs \<noteq> [] \<and> (\<forall>c \<in> set cs. c = JStr t) \<and> is_absolute_uri t"
  then obtain c ds where "cs = c # ds" by (cases cs) simp_all
  then have "distinct_values cs [] = [JStr t]" using a distinct_values_same[of ds t] by simp
  then show "resolve_operation_target cs = Inr t" using a by (simp add: resolve_operation_target_def)
qed

text \<open>One contract's candidate; the loop collects them in order and stops at the first that has none.\<close>

definition candidate_of :: "json option \<Rightarrow> json \<Rightarrow> target_refusal + json" where
  "candidate_of args k =
     (case single_member k ''service'' of
        Some v \<Rightarrow> Inr v
      | None \<Rightarrow>
          (case (contract_template k, args) of
             (Some p, Some a) \<Rightarrow> (case derive_from_template p a of Inl e \<Rightarrow> Inl e | Inr t \<Rightarrow> Inr (JStr t))
           | _ \<Rightarrow> Inl Unsupported_contract))"

lemma candidates_step:
  "contract_candidates (k # ks) args acc =
     (case candidate_of args k of Inl e \<Rightarrow> Inl e | Inr d \<Rightarrow> contract_candidates ks args (acc @ [d]))"
  by (simp add: candidate_of_def split: option.splits sum.splits)

lemmas candidates_simps = contract_candidates.simps(1) candidates_step

lemma candidates_all:
  "contract_candidates ks args acc = Inr cs \<longleftrightarrow>
     (\<exists>ds. cs = acc @ ds \<and> list_all2 (\<lambda>k d. candidate_of args k = Inr d) ks ds)"
proof (induction ks arbitrary: acc)
  case Nil
  show ?case by auto
next
  case (Cons k ks)
  show ?case
  proof (cases "candidate_of args k")
    case (Inl e)
    then show ?thesis by (simp add: candidates_step list_all2_Cons1 del: contract_candidates.simps)
  next
    case (Inr d)
    then show ?thesis by (auto simp: candidates_step list_all2_Cons1 Cons.IH simp del: contract_candidates.simps)
  qed
qed

lemma single_contract:
  "establish_operation_target (Some k) args = Inr t \<and> (\<forall>ks. k \<noteq> JArr ks) \<longleftrightarrow>
     candidate_of args k = Inr (JStr t) \<and> is_absolute_uri t"
proof (cases "k = JNull \<or> (\<exists>ks. k = JArr ks)")
  case True
  then have "candidate_of args k = Inl Unsupported_contract"
    by (auto simp: candidate_of_def single_member_def contract_template_def)
  then show ?thesis using True by (auto simp: establish_operation_target_def)
next
  case False
  then have "establish_operation_target (Some k) args =
      (case contract_candidates [k] args [] of Inl e \<Rightarrow> Inl e | Inr cs \<Rightarrow> resolve_operation_target cs)"
    by (cases k) (simp_all add: establish_operation_target_def del: contract_candidates.simps)
  then have e: "establish_operation_target (Some k) args =
      (case candidate_of args k of Inl e \<Rightarrow> Inl e | Inr d \<Rightarrow> resolve_operation_target [d])"
    unfolding candidates_simps by (simp split: sum.splits)
  show ?thesis
    using False by (cases "candidate_of args k") (auto simp: e resolve_iff)
qed

lemma contract_list:
  "establish_operation_target (Some (JArr ks)) args = Inr t \<longleftrightarrow>
     ks \<noteq> [] \<and> (\<forall>k \<in> set ks. establish_operation_target (Some k) args = Inr t \<and> (\<forall>ls. k \<noteq> JArr ls))"
proof -
  have "establish_operation_target (Some (JArr ks)) args = Inr t \<longleftrightarrow>
      (\<exists>cs. contract_candidates ks args [] = Inr cs \<and> resolve_operation_target cs = Inr t)"
    by (auto simp: establish_operation_target_def simp del: contract_candidates.simps split: sum.splits)
  then have "establish_operation_target (Some (JArr ks)) args = Inr t \<longleftrightarrow>
      (\<exists>ds. list_all2 (\<lambda>k d. candidate_of args k = Inr d) ks ds \<and> resolve_operation_target ds = Inr t)"
    unfolding candidates_all by simp
  also have "\<dots> \<longleftrightarrow> ks \<noteq> [] \<and> (\<forall>k \<in> set ks. candidate_of args k = Inr (JStr t) \<and> is_absolute_uri t)"
  proof (intro iffI conjI)
    assume "\<exists>ds. list_all2 (\<lambda>k d. candidate_of args k = Inr d) ks ds \<and> resolve_operation_target ds = Inr t"
    then obtain ds where l: "list_all2 (\<lambda>k d. candidate_of args k = Inr d) ks ds"
      and r: "ds \<noteq> []" "\<forall>c \<in> set ds. c = JStr t" "is_absolute_uri t"
      unfolding resolve_iff by blast
    show "ks \<noteq> []" using l r(1) by auto
    show "\<forall>k \<in> set ks. candidate_of args k = Inr (JStr t) \<and> is_absolute_uri t"
      using l r(2,3) by (auto simp: list_all2_conv_all_nth all_set_conv_all_nth)
  next
    assume a: "ks \<noteq> [] \<and> (\<forall>k \<in> set ks. candidate_of args k = Inr (JStr t) \<and> is_absolute_uri t)"
    then have "is_absolute_uri t" by (cases ks) simp_all
    then show "\<exists>ds. list_all2 (\<lambda>k d. candidate_of args k = Inr d) ks ds \<and> resolve_operation_target ds = Inr t"
      by (intro exI[of _ "map (\<lambda>_. JStr t) ks"]) (use a in \<open>auto simp: list_all2_conv_all_nth resolve_iff\<close>)
  qed
  finally show ?thesis unfolding single_contract .
qed

section \<open>Coverage\<close>

lemma template_not_service: "contract_template k = Some p \<Longrightarrow> single_member k ''service'' = None"
  by (cases k) (auto simp: contract_template_def single_member_def jget_def jkeys_def length_Suc_conv split: if_splits)

lemma around: "length t > length b + length a \<and> starts_with b t \<and> ends_with t a \<longleftrightarrow>
    (\<exists>e. t = b @ e @ a \<and> e \<noteq> [] \<and> take (length t - length a - length b) (drop (length b) t) = e)"
proof
  assume h: "length t > length b + length a \<and> starts_with b t \<and> ends_with t a"
  obtain r where r: "t = b @ r" using h unfolding starts_with_iff by blast
  obtain q where q: "t = q @ a" using h unfolding ends_with_iff by blast
  have "length b \<le> length q" using h q by simp
  then have "drop (length b) t = drop (length b) q @ a" using q by simp
  then have "r = drop (length b) q @ a" using r by simp
  then obtain e where "r = e @ a" by blast
  then show "\<exists>e. t = b @ e @ a \<and> e \<noteq> [] \<and> take (length t - length a - length b) (drop (length b) t) = e"
    using r h by (intro exI[of _ e]) auto
next
  assume "\<exists>e. t = b @ e @ a \<and> e \<noteq> [] \<and> take (length t - length a - length b) (drop (length b) t) = e"
  then obtain e where "t = b @ e @ a" "e \<noteq> []" by blast
  then show "length t > length b + length a \<and> starts_with b t \<and> ends_with t a"
    by (auto simp: starts_with_iff ends_with_iff intro: exI[of _ "b @ e"])
qed

lemma coverage_iff:
  assumes "contract_template k = Some p"
  shows "contract_can_establish k (JStr t) \<longleftrightarrow>
     is_absolute_uri t \<and>
     (\<exists>e us. t = before p @ e @ after p \<and> e \<noteq> [] \<and> expanded_text e \<and> utf8_decode (octets e) = Some us \<and>
        \<not> is_dot_segment us \<and> expand_value us = e)"
proof -
  have "contract_can_establish k (JStr t) \<longleftrightarrow> is_absolute_uri t \<and>
     (\<exists>e. t = before p @ e @ after p \<and> e \<noteq> [] \<and>
        take (length t - length (after p) - length (before p)) (drop (length (before p)) t) = e) \<and>
     (let e = take (length t - length (after p) - length (before p)) (drop (length (before p)) t) in
        expanded_text e \<and> (\<exists>us. utf8_decode (octets e) = Some us \<and> \<not> is_dot_segment us \<and> expand_value us = e))"
    unfolding around[symmetric] contract_can_establish_def template_not_service[OF assms] assms
    by (auto simp: Let_def expanded_value_def split: option.splits)
  also have "\<dots> \<longleftrightarrow> is_absolute_uri t \<and>
     (\<exists>e us. t = before p @ e @ after p \<and> e \<noteq> [] \<and> expanded_text e \<and> utf8_decode (octets e) = Some us \<and>
        \<not> is_dot_segment us \<and> expand_value us = e)"
    unfolding Let_def by auto
  finally show ?thesis .
qed

lemma derive_cases:
  assumes "derive_from_template p args = Inr t"
  shows "\<exists>s. jget (varname p) args = Some (JStr s) \<and> s \<noteq> [] \<and> \<not> is_dot_segment (map code_unit s) \<and>
    t = before p @ expand_value (map code_unit s) @ after p \<and> is_absolute_uri t"
proof (cases "jget (varname p) args")
  case None
  then show ?thesis using assms by (simp add: derive_from_template_def)
next
  case (Some v)
  then show ?thesis using assms by (cases v) (auto simp: derive_from_template_def Let_def split: if_splits)
qed

lemma template_target:
  assumes "contract_template k = Some p" "establish_operation_target (Some k) (Some args) = Inr t"
  shows "\<exists>s. jget (varname p) args = Some (JStr s) \<and> s \<noteq> [] \<and> \<not> is_dot_segment (map code_unit s) \<and>
    t = before p @ expand_value (map code_unit s) @ after p \<and> is_absolute_uri t"
proof -
  have "\<forall>ks. k \<noteq> JArr ks" using assms(1) by (auto simp: contract_template_def single_member_def)
  then have "candidate_of (Some args) k = Inr (JStr t)" using single_contract[of k "Some args" t] assms(2) by blast
  then have "derive_from_template p args = Inr t"
    unfolding candidate_of_def template_not_service[OF assms(1)] assms(1) by (simp split: sum.splits)
  then show ?thesis by (rule derive_cases)
qed

lemma expand_nonempty: "s \<noteq> [] \<Longrightarrow> expand_value (map code_unit s) \<noteq> []"
  using expand_injective[of s "[]"] by (auto simp: expand_value_points)

lemma template_target_covered:
  assumes "contract_template k = Some p" "establish_operation_target (Some k) (Some args) = Inr t"
  shows "contract_can_establish k (JStr t)"
proof -
  obtain s where s: "s \<noteq> []" "\<not> is_dot_segment (map code_unit s)"
    "t = before p @ expand_value (map code_unit s) @ after p" "is_absolute_uri t"
    using template_target[OF assms] by blast
  show ?thesis
    unfolding coverage_iff[OF assms(1)]
    using s expand_nonempty[OF s(1)] expanded_expand[OF code_units_small] decode_expand[of s] by blast
qed

lemma established_absolute: "establish_operation_target declared args = Inr t \<Longrightarrow> is_absolute_uri t"
  by (auto simp: establish_operation_target_def resolve_iff split: if_splits sum.splits)

lemma covered_target:
  assumes "contract_template k = Some p" "contract_can_establish k (JStr t)"
  shows "\<exists>us. t = before p @ expand_value us @ after p \<and> us \<noteq> [] \<and> \<not> is_dot_segment us \<and>
    (\<forall>c \<in> set ''/?#''. c \<notin> set (expand_value us))"
proof -
  obtain us where us: "t = before p @ expand_value us @ after p" "expand_value us \<noteq> []"
    "expanded_text (expand_value us)" "\<not> is_dot_segment us"
    using assms(2) unfolding coverage_iff[OF assms(1)] by blast
  have "us \<noteq> []" using us(2) by (auto simp: expand_value_points)
  moreover have "\<forall>c \<in> set ''/?#''. c \<notin> set (expand_value us)"
    using expanded_no_delimiter[OF us(3)] by blast
  ultimately show ?thesis using us(1,4) by blast
qed

text \<open>
  C37. A declared contract establishes one target.  A list of contracts establishes a
  target exactly when it is non-empty and every contract in it establishes that same
  one; whatever is established is an absolute URI.  A template establishes its text
  with the escaped text of the one argument it names, which is a non-empty string:
  different arguments give different targets, the escaped text holds no path, query or
  fragment delimiter, and a target is covered by the contract
  (\<open>contractCanEstablish\<close>) whenever the contract establishes it, and only when it is
  the template's text around the escape of some value that is no dot segment.
\<close>

theorem contract_coverage:
  "(establish_operation_target (Some (JArr ks)) args = Inr t \<longleftrightarrow>
      ks \<noteq> [] \<and> (\<forall>k \<in> set ks. establish_operation_target (Some k) args = Inr t \<and> (\<forall>ls. k \<noteq> JArr ls))) \<and>
   (establish_operation_target declared args = Inr t \<longrightarrow> is_absolute_uri t) \<and>
   (contract_template k = Some p \<and> establish_operation_target (Some k) (Some a) = Inr t \<longrightarrow>
      contract_argument k = Some (varname p) \<and> contract_can_establish k (JStr t) \<and>
      (\<exists>s. jget (varname p) a = Some (JStr s) \<and> s \<noteq> [] \<and>
         t = before p @ expand_value (map code_unit s) @ after p)) \<and>
   (contract_template k = Some p \<and> establish_operation_target (Some k) (Some a) = Inr t \<and>
      establish_operation_target (Some k) (Some b) = Inr t \<longrightarrow> jget (varname p) a = jget (varname p) b) \<and>
   (contract_template k = Some p \<and> contract_can_establish k (JStr t) \<longrightarrow>
      (\<exists>us. t = before p @ expand_value us @ after p \<and> us \<noteq> [] \<and> \<not> is_dot_segment us \<and>
         (\<forall>c \<in> set ''/?#''. c \<notin> set (expand_value us))))"
proof (intro conjI impI)
  show "establish_operation_target (Some (JArr ks)) args = Inr t \<longleftrightarrow>
      ks \<noteq> [] \<and> (\<forall>k \<in> set ks. establish_operation_target (Some k) args = Inr t \<and> (\<forall>ls. k \<noteq> JArr ls))"
    by (rule contract_list)
next
  assume "establish_operation_target declared args = Inr t"
  then show "is_absolute_uri t" by (rule established_absolute)
next
  assume h: "contract_template k = Some p \<and> establish_operation_target (Some k) (Some a) = Inr t"
  show "contract_argument k = Some (varname p)" using h by (simp add: contract_argument_def)
  show "contract_can_establish k (JStr t)" using h template_target_covered by blast
  show "\<exists>s. jget (varname p) a = Some (JStr s) \<and> s \<noteq> [] \<and> t = before p @ expand_value (map code_unit s) @ after p"
    using template_target[of k p a t] h by blast
next
  assume h: "contract_template k = Some p \<and> establish_operation_target (Some k) (Some a) = Inr t \<and>
      establish_operation_target (Some k) (Some b) = Inr t"
  obtain s s' where "jget (varname p) a = Some (JStr s)" "jget (varname p) b = Some (JStr s')"
    "t = before p @ expand_value (map code_unit s) @ after p" "t = before p @ expand_value (map code_unit s') @ after p"
    using template_target[of k p a t] template_target[of k p b t] h by blast
  then show "jget (varname p) a = jget (varname p) b" using expand_injective[of s s'] by simp
next
  assume h: "contract_template k = Some p \<and> contract_can_establish k (JStr t)"
  show "\<exists>us. t = before p @ expand_value us @ after p \<and> us \<noteq> [] \<and> \<not> is_dot_segment us \<and>
      (\<forall>c \<in> set ''/?#''. c \<notin> set (expand_value us))"
    by (rule covered_target) (use h in blast)+
qed

theorem contract_coverage_witness:
  "let k = JObj [(''template'', JStr ''https://a/o/{id}/x'')];
       a = JObj [(''id'', JStr ''b c/d'')];
       t = ''https://a/o/b%20c%2Fd/x''
   in establish_operation_target (Some k) (Some a) = Inr t \<and> contract_can_establish k (JStr t) \<and>
      establish_operation_target (Some (JArr [k, k])) (Some a) = Inr t \<and>
      establish_operation_target (Some k) (Some (JObj [(''id'', JStr ''..'')])) = Inl Malformed"
proof -
  let ?k = "JObj [(''template'', JStr ''https://a/o/{id}/x'')]"
  let ?a = "JObj [(''id'', JStr ''b c/d'')]"
  let ?t = "''https://a/o/b%20c%2Fd/x''"
  let ?p = "\<lparr>before = ''https://a/o/'', varname = ''id'', after = ''/x''\<rparr>"
  have 1: "establish_operation_target (Some ?k) (Some ?a) = Inr ?t"
    and 2: "contract_template ?k = Some ?p"
    and 3: "establish_operation_target (Some ?k) (Some (JObj [(''id'', JStr ''..'')])) = Inl Malformed"
    by code_simp+
  show ?thesis
    unfolding Let_def using contract_coverage[of "[?k, ?k]" "Some ?a" ?t "Some ?k" ?k ?p ?a ?a] 1 2 3 by simp
qed

end
