(* ===== verification/Containment_Children.thy ===== *)
theory Containment_Children
  imports Containment_Laws
begin

text \<open>
  The removals a child receives: merging and widening keep selectors admissible, and a
  widened list takes from an entry what was named there and what was taken from an
  entry of the parent that shares its resources.
\<close>

section \<open>Selectors that reach a child are valid\<close>

lemma selector_json_keys: "set (jkeys (selector_json s)) \<subseteq> set CONTAINMENT_SELECTOR_MEMBERS"
  by (auto simp: selector_json_def jkeys_def CONTAINMENT_SELECTOR_MEMBERS_def split: option.splits)

lemma selector_json_actions: "jget ''actions'' (selector_json s) = map_option jstrs (sel_actions s)"
  by (auto simp: selector_json_def jget_def split: option.splits)

lemma valid_selector_iff:
  "containment_selector_violation (selector_json s) = None \<longleftrightarrow>
     is_absolute_uri (sel_resource s) \<and>
     (sel_match s = Prefix \<longrightarrow> is_enforceable_prefix_base (Some (JStr (sel_resource s)))) \<and> sel_actions s \<noteq> Some []"
proof -
  have k: "key_outside CONTAINMENT_SELECTOR_MEMBERS (selector_json s) = None"
    unfolding key_outside_None by (rule selector_json_keys)
  have o: "is_obj (selector_json s)" by (simp add: selector_json_def)
  have m: "is_absolute_uri (sel_resource s) \<Longrightarrow> resource_match_violation (selector_json s) = None \<longleftrightarrow>
      (sel_match s = Prefix \<longrightarrow> is_enforceable_prefix_base (Some (JStr (sel_resource s))))"
    by (simp add: resource_match_violation_def selector_json_get is_enforceable_prefix_base_def split: option.splits)
  have u: "json_absolute_uri (jget ''resource'' (selector_json s)) = is_absolute_uri (sel_resource s)"
    by (simp add: json_absolute_uri_def selector_json_get)
  have a: "(case jget ''actions'' (selector_json s) of None \<Rightarrow> None
      | Some a \<Rightarrow> if \<not> is_array a \<or> elements a = [] \<or> list_ex (\<lambda>x. opt_string (Some x) = None) (elements a)
          then Some Selector_actions else None) = None \<longleftrightarrow> sel_actions s \<noteq> Some []"
    by (cases "sel_actions s") (auto simp: selector_json_actions jstrs_def list_ex_iff)
  show ?thesis
  proof (cases "is_absolute_uri (sel_resource s)")
    case True
    show ?thesis unfolding containment_selector_violation_def k using o u m[OF True] a True
      by (cases "resource_match_violation (selector_json s)") simp_all
  next
    case False
    then show ?thesis unfolding containment_selector_violation_def k using o u by simp
  qed
qed

definition valid_selectors :: "containment_selector list \<Rightarrow> bool" where
  "valid_selectors ss = list_all (\<lambda>s. containment_selector_violation (selector_json s) = None) ss"

lemma valid_selectors_iff:
  "valid_selectors ss \<longleftrightarrow> (\<forall>s \<in> set ss. is_absolute_uri (sel_resource s) \<and>
     (sel_match s = Prefix \<longrightarrow> is_enforceable_prefix_base (Some (JStr (sel_resource s)))) \<and> sel_actions s \<noteq> Some [])"
  by (simp add: valid_selectors_def list_all_iff valid_selector_iff)

lemma merge_one_valid: "valid_selectors (s # cs) \<Longrightarrow> valid_selectors (merge_one cs s)"
proof (induction cs)
  case Nil
  then show ?case by (cases "sel_actions s") (auto simp: valid_selectors_iff uniq_eq_Nil)
next
  case (Cons c cs)
  show ?case
  proof (cases "selector_key c = selector_key s")
    case True
    have "valid_selectors [merge_into s c]"
      using Cons.prems by (cases "sel_actions c"; cases "sel_actions s") (simp_all add: valid_selectors_iff merge_into_def uniq_eq_Nil)
    then show ?thesis using Cons.prems True by (simp add: valid_selectors_def)
  next
    case False
    have "valid_selectors (merge_one cs s)" by (rule Cons.IH) (use Cons.prems in \<open>simp add: valid_selectors_def\<close>)
    then show ?thesis using Cons.prems False by (simp add: valid_selectors_def)
  qed
qed

lemma merge_valid: "\<forall>l \<in> set ls. valid_selectors l \<Longrightarrow> valid_selectors (merge_containment_selectors ls)"
proof -
  have "valid_selectors acc \<Longrightarrow> valid_selectors ss \<Longrightarrow> valid_selectors (foldl merge_one acc ss)" for acc ss
  proof (induction ss arbitrary: acc)
    case (Cons s ss)
    then have "valid_selectors (merge_one acc s)" "valid_selectors ss"
      using merge_one_valid[of s acc] by (auto simp: valid_selectors_def)
    then show ?case using Cons.IH by simp
  qed simp
  from this[of "[]" "concat ls"] show "\<forall>l \<in> set ls. valid_selectors l \<Longrightarrow> valid_selectors (merge_containment_selectors ls)"
    by (simp add: merge_containment_selectors_def) (auto simp: valid_selectors_def list_all_iff)
qed

lemma removal_nonempty:
  "removal_loop e ss acc = Some (Removed as) \<Longrightarrow> valid_selectors ss \<Longrightarrow> acc \<noteq> Some [] \<Longrightarrow> as \<noteq> []"
  by (induction e ss acc rule: removal_loop.induct) (auto simp: valid_selectors_iff split: if_splits option.splits)

lemma entry_target:
  assumes "is_authority_entry uc e"
  obtains r where "jget ''resource'' e = Some (JStr r)" "is_absolute_uri r"
proof -
  obtain r where r: "jget ''resource'' e = Some (JStr r)"
    using entry_members(3)[OF assms] by (cases "jget ''resource'' e" rule: nonempty_string.cases) simp_all
  note a = assms[unfolded is_authority_entry_def Let_def]
  have "is_absolute_uri (the (opt_string (jget ''resource'' e)))" using a by (simp split: if_split_asm)
  then show thesis using that r by simp
qed

lemma entry_selector_fields:
  assumes "is_authority_entry uc e" "jget ''resource'' e = Some (JStr r)"
  shows "sel_resource (entry_selector e rem) = r"
    "sel_match (entry_selector e rem) = Prefix \<longleftrightarrow> jget ''resource_match'' e = Some (JStr ''prefix'')"
    "match_form (selector_json (entry_selector e rem)) = match_form e"
    "decidable (selector_json (entry_selector e rem)) = decidable e"
proof -
  show res: "sel_resource (entry_selector e rem) = r" by (simp add: entry_selector_def assms(2))
  show m: "sel_match (entry_selector e rem) = Prefix \<longleftrightarrow> jget ''resource_match'' e = Some (JStr ''prefix'')"
    by (simp add: entry_selector_def)
  consider "jget ''resource_match'' e = None" | "jget ''resource_match'' e = Some (JStr ''exact'')"
    | "jget ''resource_match'' e = Some (JStr ''prefix'')"
    using entry_members(4)[OF assms(1)] unfolding insert_iff empty_iff by (elim disjE FalseE) simp_all
  then show f: "match_form (selector_json (entry_selector e rem)) = match_form e"
    by cases (simp_all add: match_form_def selector_json_get m)
  have d: "decidable e" by (rule entry_decidable[OF assms(1)])
  have "decidable (selector_json (entry_selector e rem))"
    using entry_members(5)[OF assms(1)] by (cases "sel_match (entry_selector e rem) = Prefix")
      (simp_all add: decidable_def selector_json_get res m assms(2))
  then show "decidable (selector_json (entry_selector e rem)) = decidable e" using d by simp
qed

lemma entry_selector_overlaps:
  assumes "is_authority_entry uc e"
  shows "selector_overlaps_entry (entry_selector e rem) x = overlaps e x"
proof -
  obtain r where r: "jget ''resource'' e = Some (JStr r)" using assms by (rule entry_target)
  show ?thesis
    unfolding selector_overlaps_entry_def overlaps_def resource_within_def Let_def
      entry_selector_fields(3,4)[OF assms r] selector_json_get(1) entry_selector_fields(1)[OF assms r] r by (rule refl)
qed

lemma at_entries_valid:
  assumes "list_all (is_authority_entry uc) es" "valid_selectors ss"
  shows "valid_selectors (containment_at_entries es ss)"
proof -
  have "valid_selectors [entry_selector e rem]" if e: "e \<in> set es" "containment_removal_for e ss = Some rem" for e rem
  proof -
    have g: "is_authority_entry uc e" using assms(1) e(1) by (simp add: list_all_iff)
    obtain r where r: "jget ''resource'' e = Some (JStr r)" "is_absolute_uri r" using g by (rule entry_target)
    have "sel_actions (entry_selector e rem) \<noteq> Some []"
    proof (cases rem)
      case (Removed as)
      have "as \<noteq> []" by (rule removal_nonempty[OF e(2)[unfolded containment_removal_for_def Removed] assms(2)]) simp
      then show ?thesis by (simp add: entry_selector_def Removed uniq_eq_Nil)
    qed (simp add: entry_selector_def)
    then show ?thesis
      using entry_selector_fields(1,2)[OF g r(1), of rem] r entry_members(5)[OF g] by (simp add: valid_selectors_iff)
  qed
  then have "valid_selectors (List.map_filter (\<lambda>e. map_option (entry_selector e) (containment_removal_for e ss)) es)"
    by (fastforce simp: valid_selectors_def list_all_iff dest!: map_filter_source)
  then show ?thesis unfolding containment_at_entries_def by (intro merge_valid) simp
qed

lemma widened_valid:
  "list_all (is_authority_entry uc) (m_authority_set p) \<Longrightarrow> valid_selectors ss \<Longrightarrow> valid_selectors (widened_removal p ss)"
  unfolding widened_removal_def by (rule merge_valid) (simp add: at_entries_valid)

text \<open>The widened removal takes from an entry what it names there, and what it takes
  from an entry of the parent that shares the resources.\<close>

lemma widened_removes:
  assumes "list_all (is_authority_entry uc) (m_authority_set p)"
  shows "removes (widened_removal p ss) e a \<longleftrightarrow>
    removes ss e a \<or> (\<exists>pe \<in> set (m_authority_set p). overlaps pe e \<and> removes ss pe a)"
proof -
  have takes: "(case sel_actions (entry_selector pe rem) of None \<Rightarrow> True | Some as \<Rightarrow> a \<in> JStr ` set as) = removal_takes (Some rem) a"
    for pe rem by (cases rem) (simp_all add: entry_selector_def removal_takes_def)
  have one: "(\<exists>rem. containment_removal_for pe ss = Some rem \<and> removal_takes (Some rem) a) \<longleftrightarrow> removes ss pe a" for pe
    by (subst removal_takes_iff[symmetric]) (auto simp: removal_takes_def split: option.splits)
  let ?l = "List.map_filter (\<lambda>e. map_option (entry_selector e) (containment_removal_for e ss)) (m_authority_set p)"
  have "removes ?l e a \<longleftrightarrow> (\<exists>pe \<in> set (m_authority_set p). \<exists>rem. containment_removal_for pe ss = Some rem \<and>
      selector_overlaps_entry (entry_selector pe rem) e \<and> removal_takes (Some rem) a)" (is "_ \<longleftrightarrow> ?r")
  proof
    assume "removes ?l e a"
    then obtain s where s: "s \<in> set ?l" "selector_overlaps_entry s e"
      "case sel_actions s of None \<Rightarrow> True | Some as \<Rightarrow> a \<in> JStr ` set as"
      unfolding removes_def by blast
    obtain pe where "pe \<in> set (m_authority_set p)" "map_option (entry_selector pe) (containment_removal_for pe ss) = Some s"
      using s(1) by (rule map_filter_source[THEN bexE])
    then show ?r using s(2,3) takes by (auto simp: map_option_eq_Some)
  next
    assume ?r
    then obtain pe rem where r: "pe \<in> set (m_authority_set p)" "containment_removal_for pe ss = Some rem"
      "selector_overlaps_entry (entry_selector pe rem) e" "removal_takes (Some rem) a" by blast
    have "entry_selector pe rem \<in> set ?l" by (rule find_after[OF r(1)]) (simp add: r(2))
    moreover have "case sel_actions (entry_selector pe rem) of None \<Rightarrow> True | Some as \<Rightarrow> a \<in> JStr ` set as"
      using r(4) unfolding takes .
    ultimately show "removes ?l e a" unfolding removes_def using r(3) by (intro bexI[of _ "entry_selector pe rem"] conjI)
  qed
  also have "\<dots> \<longleftrightarrow> (\<exists>pe \<in> set (m_authority_set p). overlaps pe e \<and> removes ss pe a)"
    using assms entry_selector_overlaps unfolding one[symmetric] list_all_iff by blast
  finally show ?thesis
    by (simp add: widened_removal_def merge_removes containment_at_entries_def)
qed

end
