(* ===== verification/Containment_Theorems.thy ===== *)
theory Containment_Theorems
  imports Lifecycle_Theorems Containment_Children
begin

text \<open>
  What a containment answers and what it leaves behind.  On a well-formed kernel whose
  approved entries have the guarded shape, \<open>contain\<close> fails only for a reason of the
  request, and a success narrows the Mission and every live child its removals reach.
\<close>

section \<open>The expiry clock runs once\<close>

lemma ancestry_head: "ancestry n k p = p # tl (ancestry n k p)"
  by (cases n) simp_all

lemma ancestry_frame:
  assumes "ready h sh k" "ready h sh k'" "only_below sh {i} k k'"
  shows "(m_id p, m_parent p) \<in> set sh \<Longrightarrow> h i \<le> h (m_id p) \<Longrightarrow> tl (ancestry n k' p) = tl (ancestry n k p)"
proof (induction n arbitrary: p)
  case (Suc n)
  show ?case
  proof (cases "non_empty (m_parent p)")
    case (Some g)
    then have mp: "m_parent p = Some g" by (cases "m_parent p") (simp_all split: if_splits)
    have "map m_id (missions x) = map fst (shape_of x)" for x by (simp add: shape_of_def comp_def)
    then have ids: "map m_id (missions k') = map m_id (missions k)"
      using assms(1,2) by (simp add: ready_def)
    then have idset: "m_id ` set (missions k') = m_id ` set (missions k)" by (metis set_map)
    show ?thesis
    proof (cases "get_mission g k")
      case None
      then have "g \<notin> m_id ` set (missions k)" by (auto simp: get_mission_def select_first_None)
      then have "get_mission g k' = None" unfolding idset[symmetric] by (auto simp: get_mission_def select_first_None)
      then show ?thesis using None by (simp add: Some)
    next
      case gp: (Some gp)
      then have g: "gp \<in> set (missions k)" "m_id gp = g" using get_in by blast+
      have up: "h (m_id p) < h g" using falls_child Suc.prems(1) mp assms(1) by (auto simp: ready_def)
      have "\<not> below sh i g" using below_height[of sh i g h] assms(1) up Suc.prems(2) by (auto simp: ready_def)
      then have g': "gp \<in> set (missions k')" using assms(3) g by (auto simp: only_below_def)
      have "get_mission g k' = Some gp" using ready_get[OF assms(2) g'] g(2) by simp
      moreover have "tl (ancestry n k' gp) = tl (ancestry n k gp)"
        by (rule Suc.IH) (use ready_shape_mem[OF assms(1) g(1)] g(2) up Suc.prems(2) in simp_all)
      then have "ancestry n k' gp = ancestry n k gp" by (metis ancestry_head)
      ultimately show ?thesis using gp by (simp add: Some)
    qed
  qed simp
qed simp

lemma expiry_facts:
  assumes "kernel_ok k" "r \<in> set (missions k)"
  shows "\<exists>k' m. apply_expiry r k = (k', Inr m) \<and> kernel_ok k' \<and> closes k k' \<and> m \<in> set (missions k') \<and> m_id m = m_id r \<and>
    m_containment m = m_containment r \<and> content m = content r \<and> m_discharged m = m_discharged r \<and>
    only_below (shape_of k) {m_id r} k k' \<and> shape_of k' = shape_of k"
proof -
  obtain k' m where ae: "apply_expiry r k = (k', Inr m)" using apply_expiry_succeeds[OF assms] by blast
  have c: "closes k k'" by (rule apply_expiry_closes[OF ae])
  have s: "shape_of k' = shape_of k" by (rule closes_shape[OF c])
  have "only_below (shape_of k) {m_id r} k k' \<and> m_containment m = m_containment r \<and> content m = content r \<and>
      m_discharged m = m_discharged r"
  proof (cases "m_state r = Terminated")
    case True
    then have "observe k r = r" by (simp add: observe_def observe_at_terminated)
    then have "m = r \<and> k' = k" using ae True by (simp add: apply_expiry_def EXPIRY_RETRIES_def numeral_2_eq_2)
    then show ?thesis by simp
  next
    case False
    have "only_below (shape_of k) {m_id r} k k'"
      using total.apply_expiry_total[OF height_fuel sound_ready[OF ok_sound[OF assms(1)]] assms(2) False] ae
      by (auto simp: apply_expiry_def)
    moreover have "m = r \<or> (\<exists>to os. m = written_row r to os (iso_text (clock k)) r)"
    proof (cases "m_state (observe k r) = Terminated")
      case True
      then show ?thesis using apply_expiry_exact(1)[OF assms False] ae by auto
    next
      case live: False
      then show ?thesis
        using apply_expiry_exact(2,3)[OF assms False live] ae
        by (cases "due_schedule_transition r (Some (clock k))") fastforce+
    qed
    ultimately show ?thesis by (auto simp: written_row_def)
  qed
  then show ?thesis using ae c s closes_ok[OF c assms(1)] apply_expiry_current[OF assms ae] by blast
qed

lemma expiry_stable:
  assumes "kernel_ok k" "r \<in> set (missions k)" "apply_expiry r k = (k', Inr m)" "m_state m \<noteq> Terminated"
  shows "apply_expiry m k' = (k', Inr m)"
proof -
  have f: "kernel_ok k'" "m \<in> set (missions k')" "m_id m = m_id r" "only_below (shape_of k) {m_id r} k k'" "shape_of k' = shape_of k"
    "closes k k'"
    using expiry_facts[OF assms(1,2)] assms(3) by auto
  have live: "m_state r \<noteq> Terminated"
  proof
    assume t: "m_state r = Terminated"
    then have "observe k r = r" by (simp add: observe_def observe_at_terminated)
    then have "m = r" using assms(3) t by (simp add: apply_expiry_def EXPIRY_RETRIES_def numeral_2_eq_2)
    then show False using t assms(4) by simp
  qed
  have ob: "m_state (observe k r) \<noteq> Terminated"
    using apply_expiry_exact(1)[OF assms(1,2) live] assms(3,4) by (auto simp: written_row_def)
  show ?thesis
  proof (cases "due_schedule_transition r (Some (clock k))")
    case None
    then have "m = r \<and> k' = k" using apply_expiry_exact(2)[OF assms(1,2) live ob] assms(3) by simp
    then show ?thesis using assms(3) by simp
  next
    case (Some d)
    obtain to tm where d: "d = (to, tm)" by fastforce
    have m: "m = written_row r to (no_opts\<lparr>o_termination := tm, o_applied := m_schedule r\<rparr>) (iso_text (clock k)) r"
      using apply_expiry_exact(3)[OF assms(1,2) live ob Some[unfolded d]] assms(3) by auto
    have "to = Active" using due_reason[OF Some[unfolded d]] m assms(4) by (auto simp: written_row_def)
    then have act: "m_state m = Active" "m_expires_at m = m_expires_at r" "m_parent m = m_parent r"
      using m by (simp_all add: written_row_def)
    have ck: "clock k' = clock k" using f(6) by (simp add: closes_def evolves_def)
    have rd: "ready (height (shape_of k)) (shape_of k) k" "ready (height (shape_of k)) (shape_of k) k'"
      using sound_ready[OF ok_sound[OF assms(1)]] sound_ready[OF ok_sound[OF f(1)]] f(5) by simp_all
    have all: "list_all (live_now (clock k) False) (ancestry 65 k r)"
      using ob observe_at_live_iff[of 65 k "clock k" False r] by (simp add: observe_def)
    have "(m_id m, m_parent m) \<in> set (shape_of k')" using f(2) by (auto simp: shape_of_def)
    then have mem: "(m_id m, m_parent m) \<in> set (shape_of k)" unfolding f(5) .
    have "tl (ancestry 65 k' m) = tl (ancestry 65 k m)"
      by (rule ancestry_frame[OF rd f(4) mem]) (simp add: f(3))
    also have "\<dots> = tl (ancestry 65 k r)" using act(3) by (simp add: numeral_eq_Suc)
    finally have "ancestry 65 k' m = m # tl (ancestry 65 k r)" by (metis ancestry_head)
    moreover have "ancestry 65 k r = r # tl (ancestry 65 k r)" by (rule ancestry_head)
    moreover have "live_now (clock k) False m" using ancestry_self[OF all] act by (simp add: live_now_def)
    ultimately have "list_all (live_now (clock k) False) (ancestry 65 k' m)"
      using all by (metis list.pred_inject(2))
    then have o: "m_state (observe k' m) \<noteq> Terminated"
      using observe_at_live_iff[of 65 k' "clock k" False m] act(1) by (simp add: observe_def ck)
    have due: "due_schedule_transition m (Some (clock k')) = None"
      using act(1) by (simp add: due_schedule_transition_def split: option.splits)
    show ?thesis by (rule apply_expiry_exact(2)[OF f(1,2) _ o due]) (use act(1) in simp)
  qed
qed

section \<open>The commit succeeds\<close>

definition guarded :: "unicode \<Rightarrow> kernel \<Rightarrow> bool" where
  "guarded uc k = list_all (\<lambda>m. list_all (is_authority_entry uc) (m_authority_set m)) (missions k)"

lemma guarded_row: "guarded uc k \<Longrightarrow> m \<in> set (missions k) \<Longrightarrow> list_all (is_authority_entry uc) (m_authority_set m)"
  by (simp add: guarded_def list_all_iff)

lemma row_authority: "row_evolves m m' \<Longrightarrow> m_authority_set m' = m_authority_set m"
  by (auto simp: row_evolves_def dest: content_fields)

lemma guarded_closes:
  assumes "closes k k'" "guarded uc k"
  shows "guarded uc k'"
proof -
  have "list_all (is_authority_entry uc) (m_authority_set m')" if mem: "m' \<in> set (missions k')" for m'
  proof -
    obtain m where "m \<in> set (missions k)" "row_evolves m m'" using evolves_back[of k k' m'] assms(1) mem by (auto simp: closes_def)
    then show ?thesis using guarded_row[OF assms(2)] row_authority by fastforce
  qed
  then show ?thesis by (simp add: guarded_def list_all_iff)
qed

definition call_ok :: "contain_request \<Rightarrow> bool" where
  "call_ok q = (cr_remove q \<noteq> [] \<and> valid_selectors (cr_remove q))"

definition after_containment :: "mission \<Rightarrow> contain_request \<Rightarrow> mission" where
  "after_containment r q = r\<lparr>m_containment := Some (next_containment r q), m_version := m_version r + 1\<rparr>"

lemma after_containment_simps [simp]:
  "m_id (after_containment r q) = m_id r" "m_version (after_containment r q) = m_version r + 1"
  "m_authority_set (after_containment r q) = m_authority_set r" "m_state (after_containment r q) = m_state r"
  "m_issuer (after_containment r q) = m_issuer r"
  by (simp_all add: after_containment_def)

lemma after_containment_removes:
  "removes (prior_contained (after_containment r q)) e a \<longleftrightarrow> removes (prior_contained r) e a \<or> removes (cr_remove q) e a"
  using next_removes[of r q] by (simp add: after_containment_def prior_contained_def)

lemma commit_succeeds:
  assumes "kernel_ok k" "r \<in> set (missions k)" "m_state r \<noteq> Terminated" "list_all (is_authority_entry uc) (m_authority_set r)"
  shows "\<exists>k'. commit_containment uc digest r q k = Inr (k', after_containment r q) \<and> kernel_ok k' \<and> closes k k' \<and>
    only_below (shape_of k) {m_id r} k k' \<and> shape_of k' = shape_of k \<and> after_containment r q \<in> set (missions k') \<and>
    get_mission (m_id r) k' = Some (after_containment r q)"
proof -
  let ?f = "\<lambda>m :: mission. m\<lparr>m_containment := Some (next_containment r q), m_version := m_version m + 1\<rparr>"
  let ?k1 = "update_missions (\<lambda>m. m_id m = m_id r) ?f k"
  have key: "mission_keyed k" by (rule sound_keyed[OF ok_sound[OF assms(1)]])
  have sub: "is_subset_set uc (effective_authority_set digest (r\<lparr>m_containment := Some (next_containment r q)\<rparr>)) (effective_authority_set digest r)"
    by (rule effective_narrows[OF contained_more assms(4)])
  have "get_mission (m_id r) k = Some r" by (rule get_current[OF ok_sound[OF assms(1)] assms(2)])
  then have g: "get_mission (m_id r) ?k1 = Some (?f r)"
    by (simp add: get_mission_def update_missions_def select_update_where)
  have "outbox_fresh (k_outbox ?k1)" using ok_sound[OF assms(1)] by (simp add: sound_def update_missions_def)
  then obtain k' where "emit_commit (?f r) (Some (m_state (?f r)))
      (\<not> is_subset_set uc (effective_authority_set digest r) (effective_authority_set digest (r\<lparr>m_containment := Some (next_containment r q)\<rparr>)))
      (iso_text (clock k)) no_extra ?k1 = Inr k'"
    using emit_commit_ok[of ?k1 "Some (m_state (?f r))"] by blast
  then have c: "commit_containment uc digest r q k = Inr (k', ?f r)"
    by (simp add: commit_containment_def Let_def sub g)
  note d = commit_containment_InrD[OF c]
  have cl: "closes k k'" by (rule commit_containment_closes(1)[OF c key assms(2,3)])
  have "only_below (shape_of k) {m_id r} k k'"
    unfolding only_below_def
  proof (intro ballI impI)
    fix m
    assume m: "m \<in> set (missions k)" "\<forall>a \<in> {m_id r}. \<not> below (shape_of k) a (m_id m)"
    then have "m_id m \<noteq> m_id r" using below.self by force
    then show "m \<in> set (missions k')" using m(1) unfolding d(3) by (force simp: update_where_def)
  qed
  moreover have "shape_of k' = shape_of k" by (rule closes_shape[OF cl])
  ultimately show ?thesis
    using c cl closes_ok[OF cl assms(1)] d(5) get_in[OF d(5)] by (auto simp: after_containment_def)
qed

section \<open>The answer\<close>

text \<open>What a containment of \<open>p\<close> must take from the entries of a child.\<close>

definition covered :: "containment_selector list \<Rightarrow> mission \<Rightarrow> mission \<Rightarrow> bool" where
  "covered removed p c = (\<forall>e \<in> set (m_authority_set c). \<forall>a.
     removes removed e a \<or> (\<exists>pe \<in> set (m_authority_set p). overlaps pe e \<and> removes removed pe a) \<longrightarrow>
     removes (prior_contained c) e a)"

definition narrowed :: "string \<Rightarrow> contain_request \<Rightarrow> mission \<Rightarrow> kernel \<Rightarrow> kernel \<times> (kernel_error + mission \<times> containment_evidence) \<Rightarrow> bool" where
  "narrowed mid q r k1 res \<longleftrightarrow>
     (\<exists>k' ev. res = (k', Inr (after_containment r q, ev)) \<and>
        ce_versions ev = (m_version r, m_version r + 1) \<and> ce_removed ev = merge_containment_selectors [cr_remove q] \<and>
        (\<exists>m. get_mission mid k' = Some m \<and> row_evolves (after_containment r q) m) \<and>
        (\<forall>c0 \<in> set (find_children mid k1). applied_event c0 (pe_event_id (cr_event q)) = None \<longrightarrow>
           (\<exists>c. get_mission (m_id c0) k' = Some c \<and> (m_state c = Terminated \<or> covered (cr_remove q) r c))))"

definition contain_answer :: "string \<Rightarrow> contain_request \<Rightarrow> kernel \<Rightarrow> kernel \<times> (kernel_error + mission \<times> containment_evidence) \<Rightarrow> bool" where
  "contain_answer mid q k res \<longleftrightarrow>
     (case get_mission mid k of
        None \<Rightarrow> res = (k, Inl (NotFound mid))
      | Some stored \<Rightarrow>
          (case apply_expiry stored k of
             (k1, Inl e) \<Rightarrow> False
           | (k1, Inr r) \<Rightarrow>
               if cr_expected q \<noteq> None \<and> cr_expected q \<noteq> Some (m_version r) then res = (k1, Inl StaleVersion)
               else if m_state r = Terminated then res = (k1, Inl (Conflict mid))
               else if \<not> call_ok q then res = (k1, Inl (InvalidCall mid))
               else case applied_event r (pe_event_id (cr_event q)) of
                 Some ap \<Rightarrow> (\<exists>ev. res = (k1, Inr (r, ev)) \<and> ce_versions ev = (m_version r, m_version r) \<and> ce_removed ev = ev_removed ap)
               | None \<Rightarrow> narrowed mid q r k1 res))"

lemma narrowed_row:
  assumes "row_evolves (after_containment r q) m"
  shows "m_authority_set m = m_authority_set r" "removes (cr_remove q) e a \<Longrightarrow> removes (prior_contained m) e a"
    "removes (prior_contained r) e a \<Longrightarrow> removes (prior_contained m) e a"
  using row_authority[OF assms] assms after_containment_removes[of r q e a] by (auto simp: row_evolves_def overlay_kept_def)

lemma children_answer:
  assumes IH: "\<And>cid q k. kernel_ok k \<Longrightarrow> guarded uc k \<Longrightarrow> height (shape_of k) cid < n \<Longrightarrow>
      contain_answer cid q k (contain_n n uc digest cid q k) \<and> only_below (shape_of k) {cid} k (fst (contain_n n uc digest cid q k))"
    and "valid_selectors widened"
  shows "kernel_ok k \<Longrightarrow> guarded uc k \<Longrightarrow> distinct (map m_id cs) \<Longrightarrow> set cs \<subseteq> set (missions k) \<Longrightarrow>
    \<forall>c \<in> set cs. m_parent c = Some p \<and> height (shape_of k) (m_id c) < n \<Longrightarrow>
    \<exists>k'. contain_children (\<lambda>cid ap. contain_n n uc digest cid \<lparr>cr_event = ev, cr_remove = ap, cr_policy = pol, cr_expected = None\<rparr>)
        widened cs k = (k', Inr ()) \<and> kernel_ok k' \<and> closes k k' \<and> only_below (shape_of k) (m_id ` set cs) k k' \<and>
      (\<forall>c0 \<in> set cs. applied_event c0 (pe_event_id ev) = None \<longrightarrow>
         (\<exists>c \<in> set (missions k'). m_id c = m_id c0 \<and>
            (m_state c = Terminated \<or> (\<forall>e \<in> set (m_authority_set c). \<forall>a. removes widened e a \<longrightarrow> removes (prior_contained c) e a))))"
    (is "_ \<Longrightarrow> _ \<Longrightarrow> _ \<Longrightarrow> _ \<Longrightarrow> _ \<Longrightarrow> \<exists>k'. contain_children ?rec widened cs k = (k', Inr ()) \<and> _")
proof (induction cs arbitrary: k)
  case Nil
  then show ?case by simp
next
  case (Cons c cs)
  define done_for where "done_for c0 k' \<longleftrightarrow> (\<exists>c \<in> set (missions k'). m_id c = m_id c0 \<and>
      (m_state c = Terminated \<or> (\<forall>e \<in> set (m_authority_set c). \<forall>a. removes widened e a \<longrightarrow> removes (prior_contained c) e a)))"
    for c0 :: mission and k' :: kernel
  have keep: "done_for c0 k''" if dn: "done_for c0 k'" and cl: "closes k' k''" for c0 and k' k'' :: kernel
  proof -
    obtain x where x: "x \<in> set (missions k')" "m_id x = m_id c0"
      "m_state x = Terminated \<or> (\<forall>e \<in> set (m_authority_set x). \<forall>a. removes widened e a \<longrightarrow> removes (prior_contained x) e a)"
      using dn unfolding done_for_def by blast
    obtain y where y: "y \<in> set (missions k'')" "row_evolves x y"
      using evolves_forward[of k' k'' x] cl x(1) by (auto simp: closes_def)
    have "m_id y = m_id x" "m_authority_set y = m_authority_set x" "overlay_kept x y"
      using row_evolves_ids[OF y(2)] row_authority[OF y(2)] y(2) by (simp_all add: row_evolves_def)
    then show ?thesis
      using x(2,3) y(1) row_evolves_terminated[OF y(2)] unfolding done_for_def overlay_kept_def by (metis (no_types, lifting))
  qed
  have c: "c \<in> set (missions k)" "height (shape_of k) (m_id c) < n" using Cons.prems(4,5) by simp_all
  obtain k1 fresh where e: "apply_expiry c k = (k1, Inr fresh)" "kernel_ok k1" "closes k k1" "fresh \<in> set (missions k1)"
    "m_id fresh = m_id c" "m_containment fresh = m_containment c" "content fresh = content c"
    "only_below (shape_of k) {m_id c} k k1" "shape_of k1 = shape_of k"
    using expiry_facts[OF Cons.prems(1) c(1)] by blast
  have g1: "guarded uc k1" by (rule guarded_closes[OF e(3) Cons.prems(2)])
  let ?ap = "filter (\<lambda>s. list_ex (selector_overlaps_entry s) (m_authority_set fresh)) widened"
  have hit: "removes ?ap x a" if "x \<in> set (m_authority_set fresh)" "removes widened x a" for x a
    using that by (auto simp: removes_def list_ex_iff)
  have "\<exists>k2. contain_children ?rec widened (c # cs) k = contain_children ?rec widened cs k2 \<and> kernel_ok k2 \<and> closes k1 k2 \<and>
      only_below (shape_of k) {m_id c} k1 k2 \<and> (applied_event c (pe_event_id ev) = None \<longrightarrow> done_for c k2)"
  proof (cases "m_state fresh = Terminated")
    case True
    then have "done_for c k1" using e(4,5) unfolding done_for_def by blast
    then show ?thesis using True e(1,2) by (intro exI[of _ k1]) simp
  next
    case live: False
    show ?thesis
    proof (cases "?ap = []")
      case True
      then have "\<not> removes ?ap x a" for x a by (simp add: removes_def)
      then have "done_for c k1" using e(4,5) hit unfolding done_for_def by blast
      then show ?thesis using True live e(1,2) by (intro exI[of _ k1]) (simp add: Let_def)
    next
      case False
      let ?q = "\<lparr>cr_event = ev, cr_remove = ?ap, cr_policy = pol, cr_expected = None\<rparr> :: contain_request"
      let ?res = "contain_n n uc digest (m_id fresh) ?q k1"
      have get: "get_mission (m_id fresh) k1 = Some fresh" by (rule get_current[OF ok_sound[OF e(2)] e(4)])
      have st: "apply_expiry fresh k1 = (k1, Inr fresh)" by (rule expiry_stable[OF Cons.prems(1) c(1) e(1) live])
      have ok: "call_ok ?q" using False assms(2) by (auto simp: call_ok_def valid_selectors_def list_all_iff)
      have ans: "contain_answer (m_id fresh) ?q k1 ?res" "only_below (shape_of k1) {m_id fresh} k1 (fst ?res)"
        using IH[OF e(2) g1, of "m_id fresh" ?q] c(2) e(5,9) by simp_all
      obtain k2 x where r: "?res = (k2, Inr x)" and d: "applied_event fresh (pe_event_id ev) = None \<Longrightarrow> narrowed (m_id fresh) ?q fresh k1 ?res"
        using ans(1) ok live
        by (cases "applied_event fresh (pe_event_id ev)") (auto simp: contain_answer_def get st narrowed_def)
      have cl: "closes k1 k2" by (rule contain_n_closes[OF r e(2)])
      have "done_for c k2" if na: "applied_event c (pe_event_id ev) = None"
      proof -
        have "applied_event fresh (pe_event_id ev) = None" using na e(6) by (simp add: applied_event_def)
        then obtain m where m: "get_mission (m_id fresh) k2 = Some m" "row_evolves (after_containment fresh ?q) m"
          using d r unfolding narrowed_def by auto
        have "m \<in> set (missions k2)" "m_id m = m_id c" using get_in[OF m(1)] e(5) by simp_all
        then show ?thesis
          using narrowed_row[OF m(2)] hit unfolding done_for_def by (auto intro!: bexI[of _ m])
      qed
      moreover have "contain_children ?rec widened (c # cs) k = contain_children ?rec widened cs k2"
        using live False r by (simp add: e(1) Let_def)
      ultimately show ?thesis
        using closes_ok[OF cl e(2)] cl ans(2) r e(5,9) by (intro exI[of _ k2]) simp
    qed
  qed
  then obtain k2 where k2: "contain_children ?rec widened (c # cs) k = contain_children ?rec widened cs k2" "kernel_ok k2" "closes k1 k2"
    "only_below (shape_of k) {m_id c} k1 k2" "applied_event c (pe_event_id ev) = None \<longrightarrow> done_for c k2"
    by (elim exE conjE) (rule that; assumption)
  have sh: "shape_of k2 = shape_of k" using closes_shape[OF k2(3)] e(9) by simp
  have c02: "closes k k2" by (rule closes_trans[OF e(3) k2(3)])
  have rest: "set cs \<subseteq> set (missions k2)"
  proof
    fix d
    assume d: "d \<in> set cs"
    have s: "(m_id d, Some p) \<in> set (shape_of k)" "(m_id c, Some p) \<in> set (shape_of k)"
      using d Cons.prems(4,5) by (force simp: shape_of_def)+
    have "m_id c \<noteq> m_id d" using Cons.prems(3) d by auto
    moreover have "distinct (map fst (shape_of k))" "falls (height (shape_of k)) (shape_of k)"
      using sound_ready[OF ok_sound[OF Cons.prems(1)]] by (simp_all add: ready_def)
    ultimately have "\<not> below (shape_of k) (m_id c) (m_id d)" using siblings_apart[OF _ _ s(2,1)] by blast
    then have "d \<in> set (missions k1)" using e(8) Cons.prems(4) d by (auto simp: only_below_def)
    then show "d \<in> set (missions k2)"
      using k2(4) \<open>\<not> below (shape_of k) (m_id c) (m_id d)\<close> by (auto simp: only_below_def)
  qed
  obtain k' where k': "contain_children ?rec widened cs k2 = (k', Inr ())" "kernel_ok k'" "closes k2 k'"
    "only_below (shape_of k) (m_id ` set cs) k2 k'" "\<forall>c0 \<in> set cs. applied_event c0 (pe_event_id ev) = None \<longrightarrow> done_for c0 k'"
    using Cons.IH[OF k2(2) guarded_closes[OF c02 Cons.prems(2)] _ rest] Cons.prems(3,5) unfolding sh done_for_def by auto
  have "only_below (shape_of k) (m_id ` set (c # cs)) k k'"
    using e(8) k2(4) k'(4) by (auto simp: only_below_def)
  moreover have "\<forall>c0 \<in> set (c # cs). applied_event c0 (pe_event_id ev) = None \<longrightarrow> done_for c0 k'"
    using k'(5) keep[OF k2(5)[THEN mp] k'(3)] by simp
  ultimately show ?case
    using k'(1,2) closes_trans[OF c02 k'(3)] unfolding done_for_def k2(1) by blast
qed

lemma contain_n_answer:
  "kernel_ok k \<Longrightarrow> guarded uc k \<Longrightarrow> height (shape_of k) mid < n \<Longrightarrow>
   contain_answer mid q k (contain_n n uc digest mid q k) \<and> only_below (shape_of k) {mid} k (fst (contain_n n uc digest mid q k))"
proof (induction n arbitrary: mid q k)
  case 0
  then show ?case by simp
next
  case (Suc n)
  show ?case
  proof (cases "get_mission mid k")
    case None
    then show ?thesis by (simp add: contain_answer_def must_get_def)
  next
    case (Some stored)
    have st: "stored \<in> set (missions k)" "m_id stored = mid" using get_in[OF Some] by simp_all
    obtain k1 r where e: "apply_expiry stored k = (k1, Inr r)" "kernel_ok k1" "closes k k1" "r \<in> set (missions k1)" "m_id r = mid"
      "only_below (shape_of k) {mid} k k1" "shape_of k1 = shape_of k"
      using expiry_facts[OF Suc.prems(1) st(1)] unfolding st(2) by blast
    note run = must_get_def Some e(1) contain_answer_def
    show ?thesis
    proof (cases "(cr_expected q \<noteq> None \<and> cr_expected q \<noteq> Some (m_version r)) \<or> m_state r = Terminated \<or> \<not> call_ok q \<or>
        applied_event r (pe_event_id (cr_event q)) \<noteq> None")
      case True
      have bad: "\<not> call_ok q \<longleftrightarrow> cr_remove q = [] \<or> list_ex (\<lambda>s. containment_selector_violation (selector_json s) \<noteq> None) (cr_remove q)"
        by (auto simp: call_ok_def valid_selectors_def list_all_iff list_ex_iff)
      show ?thesis
        using True bad e(6) by (auto simp: run evidence_of_def split: option.splits)
    next
      case False
      then have live: "m_state r \<noteq> Terminated" and ok: "call_ok q" and new: "applied_event r (pe_event_id (cr_event q)) = None"
        and ver: "\<not> (cr_expected q \<noteq> None \<and> cr_expected q \<noteq> Some (m_version r))" by simp_all
      have okl: "cr_remove q \<noteq> []" "\<not> list_ex (\<lambda>s. containment_selector_violation (selector_json s) \<noteq> None) (cr_remove q)"
        using ok by (auto simp: call_ok_def valid_selectors_def list_all_iff list_ex_iff)
      have g1: "guarded uc k1" by (rule guarded_closes[OF e(3) Suc.prems(2)])
      let ?f = "after_containment r q"
      let ?rm = "merge_containment_selectors [cr_remove q]"
      let ?w = "widened_removal ?f ?rm"
      obtain k2 where k2: "commit_containment uc digest r q k1 = Inr (k2, ?f)" "kernel_ok k2" "closes k1 k2"
        "only_below (shape_of k) {mid} k1 k2" "shape_of k2 = shape_of k" "?f \<in> set (missions k2)" "get_mission mid k2 = Some ?f"
        using commit_succeeds[OF e(2,4) live guarded_row[OF g1 e(4)], of digest q] unfolding e(5,7) by blast
      have ge: "list_all (is_authority_entry uc) (m_authority_set ?f)" using guarded_row[OF g1 e(4)] by simp
      have rm: "valid_selectors ?rm" using ok by (intro merge_valid) (simp add: call_ok_def)
      have w: "valid_selectors ?w" by (rule widened_valid[OF ge rm])
      define cs where "cs = find_children mid k2"
      have key: "mission_keyed k2" by (rule sound_keyed[OF ok_sound[OF k2(2)]])
      have cs: "set cs \<subseteq> set (missions k2)" "\<forall>c \<in> set cs. m_parent c = Some mid" "distinct (map m_id cs)"
        using key by (auto simp: cs_def find_children_def select_all_def keyed_def intro: distinct_map_filter)
      have rd: "falls (height (shape_of k)) (shape_of k)" "distinct (map fst (shape_of k))"
        using sound_ready[OF ok_sound[OF Suc.prems(1)]] by (simp_all add: ready_def)
      have mem: "(m_id c, Some mid) \<in> set (shape_of k)" if "c \<in> set cs" for c
      proof -
        have "(m_id c, m_parent c) \<in> set (shape_of k2)" using cs(1) that by (auto simp: shape_of_def)
        then show ?thesis using cs(2) that k2(5) by simp
      qed
      have low: "\<forall>c \<in> set cs. m_parent c = Some mid \<and> height (shape_of k2) (m_id c) < n"
        using falls_child[OF rd(1) mem] cs(2) Suc.prems(3) k2(5) by fastforce
      obtain k3 where k3: "contain_children (\<lambda>cid ap. contain_n n uc digest cid
            \<lparr>cr_event = cr_event q, cr_remove = ap, cr_policy = cr_policy q, cr_expected = None\<rparr>) ?w cs k2 = (k3, Inr ())"
        "kernel_ok k3" "closes k2 k3" "only_below (shape_of k2) (m_id ` set cs) k2 k3"
        "\<forall>c0 \<in> set cs. applied_event c0 (pe_event_id (cr_event q)) = None \<longrightarrow>
           (\<exists>c \<in> set (missions k3). m_id c = m_id c0 \<and>
              (m_state c = Terminated \<or> (\<forall>e \<in> set (m_authority_set c). \<forall>a. removes ?w e a \<longrightarrow> removes (prior_contained c) e a)))"
        using children_answer[OF Suc.IH w k2(2) guarded_closes[OF k2(3) g1] cs(3,1) low] by blast
      let ?ev = "evidence_of r q (m_version ?f) (prior_version r) (prior_version r + 1) ?rm (iso_text (clock k))"
      have res: "contain_n (Suc n) uc digest mid q k = (k3, Inr (?f, ?ev))"
        using ver live okl new k2(1) k3(1) e(5)
        by (simp add: must_get_def Some e(1) Let_def cs_def)
      have m: "\<exists>m. get_mission mid k3 = Some m \<and> row_evolves ?f m"
        using evolves_get[OF _ k2(7)] k3(3) by (simp add: closes_def)
      have kids: "\<exists>c. get_mission (m_id c0) k3 = Some c \<and> (m_state c = Terminated \<or> covered (cr_remove q) r c)"
        if c0: "c0 \<in> set (find_children mid k1)" "applied_event c0 (pe_event_id (cr_event q)) = None" for c0
      proof -
        have c1: "c0 \<in> set (missions k1)" "m_parent c0 = Some mid" using c0(1) by (auto simp: find_children_def select_all_def)
        have "(m_id c0, Some mid) \<in> set (shape_of k1)" using c1 by (force simp: shape_of_def)
        then have "height (shape_of k) (m_id c0) < height (shape_of k) mid" using falls_child[OF rd(1)] e(7) by simp
        then have "\<not> below (shape_of k) (m_id c0) mid \<and> m_id c0 \<noteq> mid" using below_height[OF _ rd(1), of "m_id c0" mid] by fastforce
        then have "c0 \<in> set (missions k2)"
          using c1(1) unfolding commit_containment_InrD(3)[OF k2(1)] e(5) by (force simp: update_where_def)
        then have "c0 \<in> set cs" using c1(2) by (simp add: cs_def find_children_def select_all_def)
        then obtain c where c: "c \<in> set (missions k3)" "m_id c = m_id c0"
          "m_state c = Terminated \<or> (\<forall>e \<in> set (m_authority_set c). \<forall>a. removes ?w e a \<longrightarrow> removes (prior_contained c) e a)"
          using k3(5) c0(2) by blast
        have "removes ?w e a \<longleftrightarrow> removes (cr_remove q) e a \<or> (\<exists>pe \<in> set (m_authority_set r). overlaps pe e \<and> removes (cr_remove q) pe a)" for e a
          unfolding widened_removes[OF ge] by (simp add: merge_removes)
        then have "m_state c = Terminated \<or> covered (cr_remove q) r c" using c(3) by (simp add: covered_def)
        then show ?thesis using get_current[OF ok_sound[OF k3(2)] c(1)] c(2) by auto
      qed
      have "contain_answer mid q k (contain_n (Suc n) uc digest mid q k)"
        using ver live ok new m kids unfolding res
        by (simp add: contain_answer_def Some e(1) narrowed_def evidence_of_def)
      moreover have "only_below (shape_of k) {mid} k k3"
      proof -
        have "only_below (shape_of k) {mid} k2 k3"
          using k3(4) unfolding k2(5) by (rule only_below_mono) (auto intro: below.child[OF mem] below.self)
        then show ?thesis using e(6) k2(4) only_below_trans by blast
      qed
      ultimately show ?thesis unfolding res by simp
    qed
  qed
qed

lemma contain_answered:
  "kernel_ok k \<Longrightarrow> guarded uc k \<Longrightarrow> contain_answer mid q k (contain uc digest mid q k)"
  unfolding contain_def using contain_n_answer[OF _ _ height_fuel] by blast

section \<open>Properties\<close>

text \<open>
  C8. A containment is answered exactly.  On a well-formed kernel whose approved
  entries have the guarded shape, an unknown Mission, a stale expected version, a
  terminated Mission and a removal list that is empty or holds a selector the matcher
  cannot decide are refused with nothing written beyond the Mission's own clock, and
  there is no other failure: neither the code's monotonicity check nor a child can make
  it fail.  A repeated event answers the record unchanged.  A new event leaves the
  record one version later with its containment extended, and every child that had not
  applied the event is terminated or loses what the selectors name on its entries and
  what they took from the parent entries it shares resources with.
\<close>

theorem contain_exact:
  assumes "kernel_ok k" "guarded uc k"
  shows "kernel_ok (fst (contain uc digest mid q k)) \<and>
    (case get_mission mid k of
       None \<Rightarrow> contain uc digest mid q k = (k, Inl (NotFound mid))
     | Some stored \<Rightarrow>
         (case apply_expiry stored k of
            (k1, Inl e) \<Rightarrow> False
          | (k1, Inr r) \<Rightarrow>
              if cr_expected q \<noteq> None \<and> cr_expected q \<noteq> Some (m_version r) then contain uc digest mid q k = (k1, Inl StaleVersion)
              else if m_state r = Terminated then contain uc digest mid q k = (k1, Inl (Conflict mid))
              else if \<not> call_ok q then contain uc digest mid q k = (k1, Inl (InvalidCall mid))
              else case applied_event r (pe_event_id (cr_event q)) of
                Some ap \<Rightarrow> \<exists>ev. contain uc digest mid q k = (k1, Inr (r, ev)) \<and>
                  ce_versions ev = (m_version r, m_version r) \<and> ce_removed ev = ev_removed ap
              | None \<Rightarrow> narrowed mid q r k1 (contain uc digest mid q k)))"
proof -
  have "kernel_ok (fst (contain uc digest mid q k))"
    using closes_ok[OF contain_closes[OF _ assms(1)] assms(1)] by (cases "contain uc digest mid q k") auto
  then show ?thesis using contain_answered[OF assms, of mid q digest] unfolding contain_answer_def by (rule conjI)
qed

text \<open>
  C3. Authority only narrows.  Along any sequence of kernel operations from a
  well-formed kernel (approvals, child creations, transitions, timers, supersessions,
  carryovers, containments and discharges in any order) the effective authority of a record whose
  approved entries have the guarded shape stays within what it was: it is a subset
  under the code's own rule, and it admits no operation it did not admit before.
\<close>

theorem authority_only_narrows:
  assumes "kernel_step\<^sup>*\<^sup>* k k'" "kernel_ok k" "get_mission mid k = Some m"
    and "list_all (is_authority_entry uc) (m_authority_set m)"
  shows "\<exists>m'. get_mission mid k' = Some m' \<and>
    is_subset_set uc (effective_authority_set digest m') (effective_authority_set digest m) \<and>
    ((\<exists>x \<in> set (effective_authority_set digest m'). admits uc x q) \<longrightarrow>
     (\<exists>x \<in> set (effective_authority_set digest m). admits uc x q))"
proof -
  have m: "m \<in> set (missions k)" "m_id m = mid" using get_in[OF assms(3)] by simp_all
  have "list_ex (row_evolves m) (missions k')"
    using steps_grow[OF assms(1,2)] m(1) by (simp add: grows_def list_all_iff)
  then obtain m' where m': "m' \<in> set (missions k')" "row_evolves m m'" by (auto simp: list_ex_iff)
  have "content m' = content m" "overlay_kept m m'" using m'(2) by (simp_all add: row_evolves_def)
  then have mc: "more_contained m m'" using content_fields[of m' m] by (simp add: more_contained_def overlay_kept_def)
  have sub: "is_subset_set uc (effective_authority_set digest m') (effective_authority_set digest m)"
    by (rule effective_narrows[OF mc assms(4)])
  have sup: "unsupported_entry_member x = None" if x: "x \<in> set (effective_authority_set digest n)" "m_authority_set n = m_authority_set m" for x n
  proof -
    obtain e where e: "e \<in> set (m_authority_set n)" "lesser e x" using x(1) by (rule effective_source)
    then show ?thesis using lesser_supported(1) assms(4) x(2) by (auto simp: list_all_iff)
  qed
  have "\<exists>y \<in> set (effective_authority_set digest m). admits uc y q"
    if x: "x \<in> set (effective_authority_set digest m')" "admits uc x q" for x
  proof -
    obtain y where "y \<in> set (effective_authority_set digest m)" "is_subset_entry uc x y"
      using sub x(1) by (auto simp: is_subset_set_def list_all_iff list_ex_iff)
    then show ?thesis
      using admits_sound[of uc x y q] sup[OF x(1)] sup[of y m] x(2) mc by (auto simp: more_contained_def)
  qed
  moreover have "get_mission mid k' = Some m'"
    using get_current[OF ok_sound[OF steps_ok[OF assms(1,2)]] m'(1)] row_evolves_ids[OF m'(2)] m(2) by simp
  ultimately show ?thesis using sub by blast
qed

text \<open>A parent and a child with authority, and a protected event that takes reading from
  the resource both hold.\<close>

definition holder :: "string \<Rightarrow> string option \<Rightarrow> json \<Rightarrow> mission" where
  "holder mid p e = (sample_mission mid p)\<lparr>m_authority_set := [e]\<rparr>"

definition holding_family :: kernel where
  "holding_family = sample_start\<lparr>missions := [holder ''m1'' None root_entry, holder ''m2'' (Some ''m1'') child_entry]\<rparr>"

definition compromise :: contain_request where
  "compromise =
     \<lparr>cr_event = \<lparr>pe_type = ''compromise'', pe_source = ''soc'', pe_observed_at = ''1970-01-01T00:00:01.000Z'', pe_event_id = ''e1''\<rparr>,
      cr_remove = [\<lparr>sel_resource = ''https://a/x'', sel_match = Exact, sel_actions = Some [''read'']\<rparr>],
      cr_policy = None, cr_expected = Some 1\<rparr>"

lemma holding_family_ok: "kernel_ok holding_family"
  by (simp add: kernel_ok_defs sample_defs sample_dates holding_family_def holder_def)

lemma holding_family_get:
  "get_mission ''m1'' holding_family = Some (holder ''m1'' None root_entry)"
  "find_children ''m1'' holding_family = [holder ''m2'' (Some ''m1'') child_entry]"
  by (simp_all add: get_mission_def find_children_def select_all_def holding_family_def holder_def sample_mission_def)

lemma holding_family_guarded: "guarded plain_unicode holding_family"
  using sample_entries(1,2) by (simp add: guarded_def holding_family_def holder_def)

lemma holding_family_clock: "apply_expiry (holder ''m1'' None root_entry) holding_family = (holding_family, Inr (holder ''m1'' None root_entry))"
proof -
  let ?m = "holder ''m1'' None root_entry"
  have m: "?m \<in> set (missions holding_family)" "m_state ?m \<noteq> Terminated" by (simp_all add: holding_family_def holder_def sample_mission_def)
  have o: "observe_at n holding_family 1000 False ?m = ?m" for n
    by (subst observe_at.simps)
      (simp add: Let_def observe_expiry_def due_by_def sample_dates sample_mission_def holder_def split: nat.split)
  have "m_state (observe holding_family ?m) \<noteq> Terminated"
    unfolding observe_def using o m(2) by (simp add: holding_family_def sample_start_def new_kernel_def)
  from apply_expiry_exact(2)[OF holding_family_ok m this] show ?thesis
    by (simp add: due_schedule_transition_def holder_def sample_mission_def)
qed

lemma compromise_ok: "call_ok compromise"
proof -
  have "containment_selector_violation (selector_json \<lparr>sel_resource = ''https://a/x'', sel_match = Exact, sel_actions = Some [''read'']\<rparr>) = None"
    by code_simp
  then show ?thesis by (simp add: call_ok_def valid_selectors_def compromise_def)
qed

lemma compromise_hits: "removes (cr_remove compromise) child_entry (JStr ''read'')"
proof -
  have "selector_overlaps_entry \<lparr>sel_resource = ''https://a/x'', sel_match = Exact, sel_actions = Some [''read'']\<rparr> child_entry" by code_simp
  then show ?thesis by (simp add: removes_def compromise_def)
qed

theorem contain_exact_witness:
  "\<exists>k' ev c. contain plain_unicode (\<lambda>s. s) ''m1'' compromise holding_family =
       (k', Inr (after_containment (holder ''m1'' None root_entry) compromise, ev)) \<and>
     kernel_ok k' \<and> ce_versions ev = (1, 2) \<and> get_mission ''m2'' k' = Some c \<and>
     (m_state c = Terminated \<or> covered (cr_remove compromise) (holder ''m1'' None root_entry) c)"
proof -
  have a: "applied_event (holder m p e) i = None" for m p e i by (simp add: applied_event_def holder_def sample_mission_def)
  have v: "m_version (holder ''m1'' None root_entry) = 1" "m_state (holder ''m1'' None root_entry) = Active"
    "m_id (holder ''m2'' (Some ''m1'') child_entry) = ''m2''" "cr_expected compromise = Some 1"
    by (simp_all add: holder_def sample_mission_def compromise_def)
  show ?thesis
    using contain_exact[OF holding_family_ok holding_family_guarded, of "\<lambda>s. s" "''m1''" compromise]
    by (auto simp: holding_family_get holding_family_clock compromise_ok a v narrowed_def)
qed

theorem authority_only_narrows_witness:
  "\<exists>k' m'. kernel_step\<^sup>*\<^sup>* holding_family k' \<and> get_mission ''m1'' k' = Some m' \<and>
     is_subset_set plain_unicode (effective_authority_set (\<lambda>s. s) m') [root_entry]"
proof -
  obtain k' a where "contain plain_unicode (\<lambda>s. s) ''m1'' compromise holding_family = (k', a)" by fastforce
  then have s: "kernel_step\<^sup>*\<^sup>* holding_family k'" by (intro r_into_rtranclp kernel_step.narrowing)
  have e: "effective_authority_set (\<lambda>s. s) (holder ''m1'' None root_entry) = [root_entry]"
    by (simp add: effective_authority_set_def holder_def sample_mission_def)
  have "list_all (is_authority_entry plain_unicode) (m_authority_set (holder ''m1'' None root_entry))"
    using sample_entries(1) by (simp add: holder_def)
  from authority_only_narrows[OF s holding_family_ok holding_family_get(1) this, of "\<lambda>s. s" sample_operation] s e
  show ?thesis by auto
qed

end
