(* ===== verification/Narrowing_Declaration.thy ===== *)
theory Narrowing_Declaration
  imports Subset_Theorems
begin

text \<open>
  The \<open>narrowing\<close> capability an authorization server declares,
  \<^verbatim>\<open>packages/mission-core/src/narrowing-declaration.ts\<close>: the domain document, how a
  carrier's value resolves to a declaration, and the subset relation under one.

  \<open>digest\<close> is the hash of a canonical text, a library function; \<open>documents\<close> yields the
  document a reader holds for an identifier.
\<close>

section \<open>The domain document\<close>

definition MATCHING_MODES :: "string list" where
  "MATCHING_MODES = [''exact'', ''prefix'']"

definition NARROWING_LIMITATIONS :: "string list" where
  "NARROWING_LIMITATIONS = [''delegate-matcher-identity'']"

definition DOMAIN_MEMBERS :: "string list" where
  "DOMAIN_MEMBERS = [''id'', ''type'', ''capability'', ''resource_match'', ''members'', ''constraints'', ''limitations'']"

definition REQUIRED_COVERED_MEMBERS :: "string list" where
  "REQUIRED_COVERED_MEMBERS = [''type'', ''resource'', ''actions'']"

record narrowing_domain =
  nd_id :: string
  nd_resource_match :: "string list"
  nd_members :: "string list"
  nd_constraints :: "string list"
  nd_limitations :: "string list"

datatype narrowing_declaration = Full | Undeclared | Domain narrowing_domain string

text \<open>The strings of an array of strings.\<close>

fun string_array :: "json option \<Rightarrow> string list option" where
  "string_array (Some (JArr vs)) = those (map (\<lambda>v. opt_string (Some v)) vs)"
| "string_array _ = None"

datatype domain_violation =
    Domain_not_object | Domain_member string | Domain_id | Domain_type | Domain_capability
  | Domain_match | Domain_members | Domain_constraints | Domain_limitations

definition narrowing_domain_violation :: "json \<Rightarrow> domain_violation option" where
  "narrowing_domain_violation d =
     (if \<not> is_obj d then Some Domain_not_object
      else case key_outside DOMAIN_MEMBERS d of
        Some m \<Rightarrow> Some (Domain_member m)
      | None \<Rightarrow>
          if \<not> json_absolute_uri (jget ''id'' d) then Some Domain_id
          else if jget ''type'' d \<noteq> Some (JStr ''mission_resource_access'') then Some Domain_type
          else if jget ''capability'' d \<noteq> Some (JStr ''narrowing'') then Some Domain_capability
          else if (case string_array (jget ''resource_match'' d) of
              None \<Rightarrow> True
            | Some ms \<Rightarrow> ms = [] \<or> \<not> list_all (\<lambda>m. m \<in> set MATCHING_MODES) ms \<or> \<not> distinct ms) then Some Domain_match
          else if (case string_array (jget ''members'' d) of
              None \<Rightarrow> True | Some ms \<Rightarrow> \<not> list_all (\<lambda>m. m \<in> set ms) REQUIRED_COVERED_MEMBERS) then Some Domain_members
          else if string_array (jget ''constraints'' d) = None then Some Domain_constraints
          else if jget ''limitations'' d \<noteq> None \<and> (case string_array (jget ''limitations'' d) of
              None \<Rightarrow> True | Some ls \<Rightarrow> \<not> list_all (\<lambda>l. l \<in> set NARROWING_LIMITATIONS) ls) then Some Domain_limitations
          else None)"

definition narrowing_domain_digest :: "(string \<Rightarrow> string) \<Rightarrow> json \<Rightarrow> string" where
  "narrowing_domain_digest digest d = ''sha-256:'' @ digest (canonicalize d)"

definition read_domain :: "json \<Rightarrow> narrowing_domain" where
  "read_domain d =
     (let strs = (\<lambda>k. case string_array (jget k d) of None \<Rightarrow> [] | Some ss \<Rightarrow> ss)
      in \<lparr>nd_id = the (opt_string (jget ''id'' d)), nd_resource_match = strs ''resource_match'', nd_members = strs ''members'',
          nd_constraints = strs ''constraints'', nd_limitations = strs ''limitations''\<rparr>)"

section \<open>Resolution\<close>

datatype qualified_violation =
    Qualified_not_object | Qualified_member string | Reference_not_object | Reference_member string
  | Reference_id | Reference_digest

definition qualified_narrowing_violation :: "json \<Rightarrow> qualified_violation option" where
  "qualified_narrowing_violation v =
     (if \<not> is_obj v then Some Qualified_not_object
      else case key_outside [''domain''] v of
        Some m \<Rightarrow> Some (Qualified_member m)
      | None \<Rightarrow>
          (case as_object (jget ''domain'' v) of
             None \<Rightarrow> Some Reference_not_object
           | Some d \<Rightarrow>
               (case key_outside [''id'', ''digest''] d of
                  Some m \<Rightarrow> Some (Reference_member m)
                | None \<Rightarrow>
                    if \<not> json_absolute_uri (jget ''id'' d) then Some Reference_id
                    else if \<not> anchor_form (jget ''digest'' d) then Some Reference_digest
                    else None)))"

datatype narrowing_fault =
    Qualified_fault qualified_violation | No_document string | Document_fault domain_violation
  | Names_other string string | Digest_differs string string string

definition resolve_narrowing ::
    "(string \<Rightarrow> string) \<Rightarrow> json option \<Rightarrow> (string \<Rightarrow> json option) \<Rightarrow> (narrowing_declaration \<times> narrowing_fault option) option" where
  "resolve_narrowing digest v documents =
     (case v of
        None \<Rightarrow> None
      | Some (JBool True) \<Rightarrow> Some (Full, None)
      | Some (JBool False) \<Rightarrow> Some (Undeclared, None)
      | Some j \<Rightarrow>
          (case qualified_narrowing_violation j of
             Some q \<Rightarrow> Some (Undeclared, Some (Qualified_fault q))
           | None \<Rightarrow>
               let ref = the (jget ''domain'' j); i = the (opt_string (jget ''id'' ref)); dg = the (opt_string (jget ''digest'' ref))
               in case documents i of
                    None \<Rightarrow> Some (Undeclared, Some (No_document i))
                  | Some d \<Rightarrow>
                      (case narrowing_domain_violation d of
                         Some f \<Rightarrow> Some (Undeclared, Some (Document_fault f))
                       | None \<Rightarrow>
                           if opt_string (jget ''id'' d) \<noteq> Some i
                           then Some (Undeclared, Some (Names_other i (the (opt_string (jget ''id'' d)))))
                           else if narrowing_domain_digest digest d \<noteq> dg
                           then Some (Undeclared, Some (Digest_differs i (narrowing_domain_digest digest d) dg))
                           else Some (Domain (read_domain d) dg, None))))"

datatype domain_claim = Claims_constraint string | Claims_member string

definition unimplemented_domain_claim :: "unicode \<Rightarrow> narrowing_domain \<Rightarrow> domain_claim option" where
  "unimplemented_domain_claim uc d =
     (case List.find (\<lambda>k. k \<notin> set (SUPPORTED_CONSTRAINT_KEYS uc)) (nd_constraints d) of
        Some k \<Rightarrow> Some (Claims_constraint k)
      | None \<Rightarrow> map_option Claims_member (List.find (\<lambda>m. m \<notin> set SUPPORTED_ENTRY_MEMBERS) (nd_members d)))"

section \<open>The relation under a declaration\<close>

definition entry_within_domain :: "json \<Rightarrow> narrowing_domain \<Rightarrow> bool" where
  "entry_within_domain e d =
     (case opt_string (Some (match_form e)) of
        None \<Rightarrow> False
      | Some m \<Rightarrow>
          m \<in> set (nd_resource_match d) \<and> list_all (\<lambda>k. k \<in> set (nd_members d)) (jkeys e) \<and>
          (case jget ''constraints'' e of
             None \<Rightarrow> True
           | Some c \<Rightarrow> is_obj c \<and> list_all (\<lambda>k. k \<in> set (nd_constraints d)) (jkeys c)) \<and>
          unsupported_action_family e = None)"

definition narrowing_permits :: "narrowing_declaration \<Rightarrow> json \<Rightarrow> json \<Rightarrow> bool" where
  "narrowing_permits decl c r =
     (case decl of
        Full \<Rightarrow> True
      | Undeclared \<Rightarrow> False
      | Domain d dg \<Rightarrow> entry_within_domain c d \<and> entry_within_domain r d)"

definition entries_equal :: "json \<Rightarrow> json \<Rightarrow> bool" where
  "entries_equal a b = (canonicalize a = canonicalize b)"

definition is_subset_entry_under :: "unicode \<Rightarrow> narrowing_declaration \<Rightarrow> json \<Rightarrow> json \<Rightarrow> bool" where
  "is_subset_entry_under uc decl c r =
     (if narrowing_permits decl c r then is_subset_entry uc c r else entries_equal c r)"

definition is_subset_set_under :: "unicode \<Rightarrow> narrowing_declaration \<Rightarrow> json list \<Rightarrow> json list \<Rightarrow> bool" where
  "is_subset_set_under uc decl cs gs = list_all (\<lambda>c. list_ex (is_subset_entry_under uc decl c) gs) cs"

definition is_subset_set_under_ignoring_capability_sources ::
    "unicode \<Rightarrow> narrowing_declaration \<Rightarrow> json list \<Rightarrow> json list \<Rightarrow> bool" where
  "is_subset_set_under_ignoring_capability_sources uc decl cs gs =
     is_subset_set_under uc decl (without_capability_sources cs) (without_capability_sources gs)"

definition carried_under :: "unicode \<Rightarrow> narrowing_declaration \<Rightarrow> json list \<Rightarrow> json list \<Rightarrow> json list" where
  "carried_under uc decl produced presented =
     filter (\<lambda>e. list_ex (is_subset_entry_under uc decl e) presented) produced"

section \<open>Properties\<close>

lemma qualified_members:
  assumes "qualified_narrowing_violation j = None"
  obtains rf i dg where "jget ''domain'' j = Some rf" "jget ''id'' rf = Some (JStr i)" "jget ''digest'' rf = Some (JStr dg)"
proof -
  note a = assms[unfolded qualified_narrowing_violation_def]
  obtain rf where rf: "as_object (jget ''domain'' j) = Some rf"
    using a by (cases "as_object (jget ''domain'' j)") (simp_all split: if_split_asm option.split_asm)
  then have d: "jget ''domain'' j = Some rf" by (auto simp: as_object_def split: option.splits json.splits)
  have u: "json_absolute_uri (jget ''id'' rf)" "anchor_form (jget ''digest'' rf)"
    using a rf by (simp_all split: if_split_asm option.split_asm)
  obtain i where "opt_string (jget ''id'' rf) = Some i" using u(1) by (auto simp: json_absolute_uri_def split: option.splits)
  moreover obtain dg where "opt_string (jget ''digest'' rf) = Some dg" using u(2) by (auto simp: anchor_form_def split: option.splits)
  ultimately show thesis using that[OF d] by (simp only: opt_string_Some)
qed

definition resolve_document :: "(string \<Rightarrow> string) \<Rightarrow> string \<Rightarrow> string \<Rightarrow> json option \<Rightarrow> narrowing_declaration \<times> narrowing_fault option" where
  "resolve_document digest i dg doc =
     (case doc of
        None \<Rightarrow> (Undeclared, Some (No_document i))
      | Some d \<Rightarrow>
          (case narrowing_domain_violation d of
             Some f \<Rightarrow> (Undeclared, Some (Document_fault f))
           | None \<Rightarrow>
               if opt_string (jget ''id'' d) \<noteq> Some i then (Undeclared, Some (Names_other i (the (opt_string (jget ''id'' d)))))
               else if narrowing_domain_digest digest d \<noteq> dg
               then (Undeclared, Some (Digest_differs i (narrowing_domain_digest digest d) dg))
               else (Domain (read_domain d) dg, None)))"

lemma resolve_cases:
  "resolve_narrowing digest None documents = None"
  "resolve_narrowing digest (Some (JBool b)) documents = Some (if b then Full else Undeclared, None)"
  "qualified_narrowing_violation j = Some q \<Longrightarrow> \<forall>b. j \<noteq> JBool b \<Longrightarrow>
     resolve_narrowing digest (Some j) documents = Some (Undeclared, Some (Qualified_fault q))"
  "qualified_narrowing_violation j = None \<Longrightarrow> jget ''domain'' j = Some rf \<Longrightarrow> jget ''id'' rf = Some (JStr i) \<Longrightarrow>
     jget ''digest'' rf = Some (JStr dg) \<Longrightarrow> resolve_narrowing digest (Some j) documents = Some (resolve_document digest i dg (documents i))"
proof -
  show "resolve_narrowing digest None documents = None" by (simp add: resolve_narrowing_def)
  show "resolve_narrowing digest (Some (JBool b)) documents = Some (if b then Full else Undeclared, None)"
    by (cases b) (simp_all add: resolve_narrowing_def)
  have o: "resolve_narrowing digest (Some j) documents =
      (case qualified_narrowing_violation j of
         Some q \<Rightarrow> Some (Undeclared, Some (Qualified_fault q))
       | None \<Rightarrow> let ref = the (jget ''domain'' j); i = the (opt_string (jget ''id'' ref)); dg = the (opt_string (jget ''digest'' ref))
           in Some (resolve_document digest i dg (documents i)))" if "\<forall>b. j \<noteq> JBool b" for j
  proof (cases j)
    case (JBool b)
    then show ?thesis using that by blast
  qed (simp_all add: resolve_narrowing_def resolve_document_def Let_def split: option.split)
  show "qualified_narrowing_violation j = Some q \<Longrightarrow> \<forall>b. j \<noteq> JBool b \<Longrightarrow>
     resolve_narrowing digest (Some j) documents = Some (Undeclared, Some (Qualified_fault q))"
    by (simp add: o)
  have nb: "\<forall>b. j \<noteq> JBool b" if "qualified_narrowing_violation j = None"
    using that by (auto simp: qualified_narrowing_violation_def)
  show "qualified_narrowing_violation j = None \<Longrightarrow> jget ''domain'' j = Some rf \<Longrightarrow> jget ''id'' rf = Some (JStr i) \<Longrightarrow>
     jget ''digest'' rf = Some (JStr dg) \<Longrightarrow> resolve_narrowing digest (Some j) documents = Some (resolve_document digest i dg (documents i))"
    using o[OF nb] by simp
qed

lemma resolve_document_domain:
  "(\<exists>f. resolve_document digest i dg doc = (Domain d dg', f)) \<longleftrightarrow>
     dg' = dg \<and> (\<exists>x. doc = Some x \<and> narrowing_domain_violation x = None \<and> jget ''id'' x = Some (JStr i) \<and>
       narrowing_domain_digest digest x = dg \<and> d = read_domain x)"
  unfolding opt_string_Some[symmetric] resolve_document_def by (auto split: option.splits if_splits)

lemma domain_covers:
  assumes "unimplemented_domain_claim uc d = None" "entry_within_domain e d"
  shows "unsupported_entry_member e = None"
    "jget ''constraints'' e = Some c \<Longrightarrow> set (jkeys c) \<subseteq> set (SUPPORTED_CONSTRAINT_KEYS uc)"
proof -
  have d: "set (nd_members d) \<subseteq> set SUPPORTED_ENTRY_MEMBERS" "set (nd_constraints d) \<subseteq> set (SUPPORTED_CONSTRAINT_KEYS uc)"
    using assms(1) by (auto simp: unimplemented_domain_claim_def find_None_iff split: option.splits)
  have e: "set (jkeys e) \<subseteq> set (nd_members d)"
    using assms(2) by (auto simp: entry_within_domain_def list_all_iff split: option.splits)
  show "unsupported_entry_member e = None" unfolding unsupported_entry_member_def key_outside_None using d(1) e by blast
  show "set (jkeys c) \<subseteq> set (SUPPORTED_CONSTRAINT_KEYS uc)" if "jget ''constraints'' e = Some c"
  proof -
    have "set (jkeys c) \<subseteq> set (nd_constraints d)"
      using assms(2) that by (auto simp: entry_within_domain_def list_all_iff split: option.splits)
    then show ?thesis using d(2) by blast
  qed
qed

text \<open>
  What it means for an entry to lie in the domain a declaration covers: its match form is a
  mode of the domain, its members and the keys of its constraints are ones the domain
  compares, and its actions name no family.
\<close>

definition covered_by :: "narrowing_domain \<Rightarrow> json \<Rightarrow> bool" where
  "covered_by d e \<longleftrightarrow>
     (\<exists>m \<in> set (nd_resource_match d). match_form e = JStr m) \<and> set (jkeys e) \<subseteq> set (nd_members d) \<and>
     (\<forall>c. jget ''constraints'' e = Some c \<longrightarrow> is_obj c \<and> set (jkeys c) \<subseteq> set (nd_constraints d)) \<and>
     unsupported_action_family e = None"

lemma within_covered: "entry_within_domain e d \<longleftrightarrow> covered_by d e"
proof -
  have "(case opt_string (Some v) of None \<Rightarrow> False | Some m \<Rightarrow> m \<in> set ms \<and> b) \<longleftrightarrow> (\<exists>m \<in> set ms. v = JStr m) \<and> b" for v ms b
    by (cases v) auto
  then show ?thesis
    unfolding entry_within_domain_def covered_by_def by (simp add: list_all_iff subset_eq split: option.split)
qed

lemma carried_under_iff:
  "x \<in> set (carried_under uc decl produced presented) \<longleftrightarrow> x \<in> set produced \<and>
     (\<exists>p \<in> set presented. is_subset_entry_under uc decl x p)"
  by (simp add: carried_under_def list_ex_iff)

text \<open>
  C24. A declaration is resolved fail-closed, and it decides what may be narrowed.  A
  carrier resolves to a domain exactly when its value names an identifier and a digest
  of the given form, the reader holds a well-formed document under that identifier,
  the document carries the same identifier, and its digest is the one named; to the
  full capability exactly on \<open>true\<close>; any other declared value leaves the capability
  undeclared.  Undeclared, an entry is carried exactly with the canonical text of an entry
  presented.  Under a domain it is carried exactly when some presented entry justifies it:
  by the subset rule when both lie in the domain, and otherwise only by having the same
  canonical text, so nothing outside the domain is narrowed.  Where the rules implement
  the domain, an entry that differs from what was presented lies in the domain with the
  entry it came from, and admits nothing that one refuses.
\<close>

theorem narrowing_fail_closed:
  "((\<exists>f. resolve_narrowing digest v documents = Some (Domain d dg, f)) \<longleftrightarrow>
     (\<exists>j rf i doc. v = Some j \<and> qualified_narrowing_violation j = None \<and> jget ''domain'' j = Some rf \<and>
        jget ''id'' rf = Some (JStr i) \<and> jget ''digest'' rf = Some (JStr dg) \<and>
        documents i = Some doc \<and> narrowing_domain_violation doc = None \<and> jget ''id'' doc = Some (JStr i) \<and>
        narrowing_domain_digest digest doc = dg \<and> d = read_domain doc)) \<and>
   ((\<exists>f. resolve_narrowing digest v documents = Some (Full, f)) \<longleftrightarrow> v = Some (JBool True)) \<and>
   (resolve_narrowing digest v documents = None \<longleftrightarrow> v = None) \<and>
   (x \<in> set (carried_under uc Undeclared produced presented) \<longleftrightarrow>
      x \<in> set produced \<and> (\<exists>p \<in> set presented. canonicalize x = canonicalize p)) \<and>
   (x \<in> set (carried_under uc (Domain d dg) produced presented) \<longleftrightarrow>
      x \<in> set produced \<and> (\<exists>p \<in> set presented.
        if covered_by d x \<and> covered_by d p then is_subset_entry uc x p else canonicalize x = canonicalize p)) \<and>
   (unimplemented_domain_claim uc d = None \<and> x \<in> set (carried_under uc (Domain d dg) produced presented) \<longrightarrow>
      (\<exists>p \<in> set presented. canonicalize x = canonicalize p \<or>
         covered_by d x \<and> covered_by d p \<and> (admits uc x q \<longrightarrow> admits uc p q)))"
proof (intro conjI impI)
  have nb: "qualified_narrowing_violation (JBool b) \<noteq> None" for b by (simp add: qualified_narrowing_violation_def)
  show "(\<exists>f. resolve_narrowing digest v documents = Some (Domain d dg, f)) \<longleftrightarrow>
     (\<exists>j rf i doc. v = Some j \<and> qualified_narrowing_violation j = None \<and> jget ''domain'' j = Some rf \<and>
        jget ''id'' rf = Some (JStr i) \<and> jget ''digest'' rf = Some (JStr dg) \<and>
        documents i = Some doc \<and> narrowing_domain_violation doc = None \<and> jget ''id'' doc = Some (JStr i) \<and>
        narrowing_domain_digest digest doc = dg \<and> d = read_domain doc)"
    (is "?l \<longleftrightarrow> ?r")
  proof
    assume ?l
    then obtain f where f: "resolve_narrowing digest v documents = Some (Domain d dg, f)" by blast
    obtain j where j: "v = Some j" using f resolve_cases(1) by (cases v) auto
    have "\<forall>b. j \<noteq> JBool b" using f unfolding j by (auto simp: resolve_cases(2) split: if_splits)
    then have q: "qualified_narrowing_violation j = None"
      using f resolve_cases(3)[of j] unfolding j by (cases "qualified_narrowing_violation j") auto
    obtain rf i dg' where m: "jget ''domain'' j = Some rf" "jget ''id'' rf = Some (JStr i)" "jget ''digest'' rf = Some (JStr dg')"
      using q by (rule qualified_members)
    have "\<exists>f. resolve_document digest i dg' (documents i) = (Domain d dg, f)"
      using f resolve_cases(4)[OF q m] unfolding j by auto
    then obtain doc where "dg = dg'" "documents i = Some doc" "narrowing_domain_violation doc = None" "jget ''id'' doc = Some (JStr i)"
      "narrowing_domain_digest digest doc = dg'" "d = read_domain doc"
      unfolding resolve_document_domain by blast
    then show ?r using j q m by (intro exI[of _ j] exI[of _ rf] exI[of _ i] exI[of _ doc] conjI) simp_all
  next
    assume ?r
    then obtain j rf i doc where r: "v = Some j" "qualified_narrowing_violation j = None" "jget ''domain'' j = Some rf"
      "jget ''id'' rf = Some (JStr i)" "jget ''digest'' rf = Some (JStr dg)" "documents i = Some doc"
      "narrowing_domain_violation doc = None" "jget ''id'' doc = Some (JStr i)"
      "narrowing_domain_digest digest doc = dg" "d = read_domain doc" by (elim exE conjE)
    have "\<exists>f. resolve_document digest i dg (documents i) = (Domain d dg, f)"
      unfolding resolve_document_domain using r(6-10) by (intro conjI exI[of _ doc]) simp_all
    then show ?l unfolding r(1) resolve_cases(4)[OF r(2-5)] by simp
  qed
  have full: "(\<nexists>f. resolve_document digest i dg' doc = (Full, f))" for i dg' doc
    by (auto simp: resolve_document_def split: option.splits if_splits)
  show "(\<exists>f. resolve_narrowing digest v documents = Some (Full, f)) \<longleftrightarrow> v = Some (JBool True)"
    and "resolve_narrowing digest v documents = None \<longleftrightarrow> v = None"
  proof -
    consider "v = None" | b where "v = Some (JBool b)" | j q where "v = Some j" "\<forall>b. j \<noteq> JBool b" "qualified_narrowing_violation j = Some q"
      | j where "v = Some j" "qualified_narrowing_violation j = None"
      by (cases v) (use nb in \<open>fastforce+\<close>)
    then have "((\<exists>f. resolve_narrowing digest v documents = Some (Full, f)) \<longleftrightarrow> v = Some (JBool True)) \<and>
      (resolve_narrowing digest v documents = None \<longleftrightarrow> v = None)"
    proof cases
      case (4 j)
      obtain rf i dg' where m: "jget ''domain'' j = Some rf" "jget ''id'' rf = Some (JStr i)" "jget ''digest'' rf = Some (JStr dg')"
        using 4(2) by (rule qualified_members)
      have "j \<noteq> JBool True" using 4(2) nb[of True] by blast
      then show ?thesis using full unfolding 4(1) resolve_cases(4)[OF 4(2) m] by auto
    qed (auto simp: resolve_cases(1-3))
    then show "(\<exists>f. resolve_narrowing digest v documents = Some (Full, f)) \<longleftrightarrow> v = Some (JBool True)"
      "resolve_narrowing digest v documents = None \<longleftrightarrow> v = None" by (rule conjunct1, rule conjunct2)
  qed
  show "x \<in> set (carried_under uc Undeclared produced presented) \<longleftrightarrow>
      x \<in> set produced \<and> (\<exists>p \<in> set presented. canonicalize x = canonicalize p)"
    by (simp add: carried_under_iff is_subset_entry_under_def narrowing_permits_def entries_equal_def)
  show carried: "x \<in> set (carried_under uc (Domain d dg) produced presented) \<longleftrightarrow>
      x \<in> set produced \<and> (\<exists>p \<in> set presented.
        if covered_by d x \<and> covered_by d p then is_subset_entry uc x p else canonicalize x = canonicalize p)"
    by (simp add: carried_under_iff is_subset_entry_under_def narrowing_permits_def entries_equal_def within_covered)
  assume h: "unimplemented_domain_claim uc d = None \<and> x \<in> set (carried_under uc (Domain d dg) produced presented)"
  then obtain p where p: "p \<in> set presented"
    "if covered_by d x \<and> covered_by d p then is_subset_entry uc x p else canonicalize x = canonicalize p"
    unfolding carried by blast
  show "\<exists>p \<in> set presented. canonicalize x = canonicalize p \<or>
      covered_by d x \<and> covered_by d p \<and> (admits uc x q \<longrightarrow> admits uc p q)"
  proof (cases "covered_by d x \<and> covered_by d p")
    case True
    then have "unsupported_entry_member x = None" "unsupported_entry_member p = None"
      using domain_covers(1) h within_covered by blast+
    then show ?thesis using admits_sound[of uc x p q] p True by auto
  qed (use p in auto)
qed

text \<open>A domain that compares what the child narrows, and one that does not compare its
  constraints.\<close>

definition sample_domain :: "string list \<Rightarrow> narrowing_domain" where
  "sample_domain cs = \<lparr>nd_id = ''https://d/'', nd_resource_match = [''exact'', ''prefix''],
     nd_members = [''type'', ''resource'', ''resource_match'', ''actions'', ''constraints'', ''delegation''],
     nd_constraints = cs, nd_limitations = []\<rparr>"

theorem narrowing_fail_closed_witness:
  "root_entry \<in> set (carried_under plain_unicode Undeclared [root_entry, child_entry] [root_entry]) \<and>
   child_entry \<in> set (carried_under plain_unicode (Domain (sample_domain [''max_amount'', ''tenant'', ''vendors'']) [])
     [child_entry] [root_entry]) \<and>
   child_entry \<notin> set (carried_under plain_unicode (Domain (sample_domain [''max_amount'', ''tenant'']) [])
     [child_entry] [root_entry]) \<and>
   (\<exists>p \<in> set [root_entry]. canonicalize child_entry = canonicalize p \<or>
      admits plain_unicode p sample_operation)"
proof -
  let ?d = "sample_domain [''max_amount'', ''tenant'', ''vendors'']"
  have c: "root_entry \<in> set (carried_under plain_unicode Undeclared [root_entry, child_entry] [root_entry])"
    "child_entry \<in> set (carried_under plain_unicode (Domain ?d []) [child_entry] [root_entry])"
    "child_entry \<notin> set (carried_under plain_unicode (Domain (sample_domain [''max_amount'', ''tenant'']) []) [child_entry] [root_entry])"
    "unimplemented_domain_claim plain_unicode ?d = None" "admits plain_unicode child_entry sample_operation"
        apply code_simp
       apply code_simp
      apply code_simp
     apply code_simp
    apply code_simp
    done
  have "\<exists>p \<in> set [root_entry]. canonicalize child_entry = canonicalize p \<or>
      covered_by ?d child_entry \<and> covered_by ?d p \<and> (admits plain_unicode child_entry sample_operation \<longrightarrow> admits plain_unicode p sample_operation)"
    by (rule narrowing_fail_closed[of "\<lambda>t. t" None "\<lambda>i. None" ?d "[]" child_entry plain_unicode "[child_entry]" "[root_entry]" sample_operation,
        THEN conjunct2, THEN conjunct2, THEN conjunct2, THEN conjunct2, THEN conjunct2, THEN mp]) (rule conjI[OF c(4,2)])
  then show ?thesis using c(1-3,5) by blast
qed

end
