(* ===== verification/Derivation.thy ===== *)
theory Derivation
  imports Containment_Theorems Narrowing_Declaration
begin

text \<open>
  Derivation: the gates of \<^verbatim>\<open>kernel.ts\<close> a token issuance passes
  (\<open>gateActiveLineage\<close>, \<open>gateDerivable\<close>, \<open>checkDerivation\<close>, \<open>gateDerivation\<close>,
  \<open>reserveDerivation\<close>, \<open>refundDerivation\<close>) and the ledger of
  \<^verbatim>\<open>kernel/derivation-reservations.ts\<close> that ties a counted derivation to its operation.

  The declared authority dependency is the parameter \<open>ge_dependency\<close>: whether the gate
  reports it missing for a record's identity and client (the subject and the authority
  source it also receives are fixed with the identity).  The clock is read once per operation and the random
  reservation identifier is drawn from a counter.  \<open>exclusiveDerivation\<close>, which shares
  one in-process promise between callers, is not modelled.
\<close>

section \<open>What issuance may carry\<close>

definition issuable :: "unicode \<Rightarrow> narrowing_declaration \<Rightarrow> json \<times> json \<Rightarrow> bool" where
  "issuable uc decl oe = (snd oe = fst oe \<or> is_subset_entry_under uc decl (snd oe) (fst oe))"

definition issuable_entries_with_origin ::
    "unicode \<Rightarrow> (string \<Rightarrow> string) \<Rightarrow> narrowing_declaration \<Rightarrow> mission \<Rightarrow> (json \<times> json) list" where
  "issuable_entries_with_origin uc digest decl r = filter (issuable uc decl) (effective_entries_with_origin digest r)"

definition issuable_authority_set ::
    "unicode \<Rightarrow> (string \<Rightarrow> string) \<Rightarrow> narrowing_declaration \<Rightarrow> mission \<Rightarrow> json list" where
  "issuable_authority_set uc digest decl r =
     (if m_containment r = None \<and> m_discharged r = [] then m_authority_set r
      else map snd (issuable_entries_with_origin uc digest decl r))"

section \<open>The state half of the gate\<close>

record gate_env =
  ge_unicode :: unicode
  ge_digest :: "string \<Rightarrow> string"
  ge_narrowing :: narrowing_declaration
  ge_dependency :: "string \<Rightarrow> string \<Rightarrow> string \<Rightarrow> bool"

fun active_ancestors :: "nat \<Rightarrow> string option \<Rightarrow> kernel \<Rightarrow> kernel \<times> (kernel_error + unit)" where
  "active_ancestors 0 p k = (k, Inl OutOfFuel)"
| "active_ancestors (Suc n) p k =
     (case non_empty p of
        None \<Rightarrow> (k, Inr ())
      | Some a \<Rightarrow>
          (case get_mission a k of
             None \<Rightarrow> (k, Inr ())
           | Some parent \<Rightarrow>
               (case apply_expiry parent k of
                  (k1, Inl e) \<Rightarrow> (k1, Inl e)
                | (k1, Inr fresh) \<Rightarrow>
                    if m_state fresh \<noteq> Active then (k1, Inl (GateError ''mission_not_active''))
                    else active_ancestors n (m_parent fresh) k1)))"

definition gate_active_lineage :: "gate_env \<Rightarrow> string \<Rightarrow> kernel \<Rightarrow> kernel \<times> (kernel_error + mission)" where
  "gate_active_lineage env mid k =
     (case must_get mid k of
        Inl e \<Rightarrow> (k, Inl e)
      | Inr stored \<Rightarrow>
          (case apply_expiry stored k of
             (k1, Inl e) \<Rightarrow> (k1, Inl e)
           | (k1, Inr r) \<Rightarrow>
               if m_state r = Terminated \<and> map_option t_reason (m_termination r) = Some ''expired''
               then (k1, Inl (GateError ''mission_expired''))
               else if m_state r \<noteq> Active then (k1, Inl (GateError ''mission_not_active''))
               else (case active_ancestors (fuel_for k1) (m_parent r) k1 of
                       (k2, Inl e) \<Rightarrow> (k2, Inl e)
                     | (k2, Inr u) \<Rightarrow>
                         if ge_dependency env (m_id r) (m_issuer r) (m_client_id r) then (k2, Inl (GateError ''authority_dependency''))
                         else (k2, Inr r))))"

definition gate_active :: "gate_env \<Rightarrow> string \<Rightarrow> kernel \<Rightarrow> kernel \<times> (kernel_error + mission)" where
  "gate_active env mid k = gate_active_lineage env mid k"

definition issuable_set :: "gate_env \<Rightarrow> mission \<Rightarrow> json list" where
  "issuable_set env r = issuable_authority_set (ge_unicode env) (ge_digest env) (ge_narrowing env) r"

definition gate_derivable :: "gate_env \<Rightarrow> string \<Rightarrow> kernel \<Rightarrow> kernel \<times> (kernel_error + mission)" where
  "gate_derivable env mid k =
     (case gate_active_lineage env mid k of
        (k1, Inl e) \<Rightarrow> (k1, Inl e)
      | (k1, Inr r) \<Rightarrow>
          if issuable_set env r = [] then
            if issuable_set env (r\<lparr>m_containment := None\<rparr>) = [] then (k1, Inl (GateError ''authority_exhausted''))
            else (k1, Inl (GateError ''authority_contained''))
          else (k1, Inr r))"

section \<open>The count\<close>

definition within_derivation_cap :: "mission \<Rightarrow> bool" where
  "within_derivation_cap m = (case m_derivation_limit m of None \<Rightarrow> True | Some l \<Rightarrow> m_derivation_count m < l)"

definition derivation_cap_exhausted :: kernel_error where
  "derivation_cap_exhausted = GateError ''derivation_cap_exhausted''"

definition check_derivation :: "gate_env \<Rightarrow> string \<Rightarrow> kernel \<Rightarrow> kernel \<times> (kernel_error + mission)" where
  "check_derivation env mid k =
     (case gate_derivable env mid k of
        (k1, Inl e) \<Rightarrow> (k1, Inl e)
      | (k1, Inr r) \<Rightarrow> if within_derivation_cap r then (k1, Inr r) else (k1, Inl derivation_cap_exhausted))"

definition count_derivation_in_caller_tx :: "string \<Rightarrow> kernel \<Rightarrow> kernel_error + kernel \<times> mission" where
  "count_derivation_in_caller_tx mid k =
     (let here = (\<lambda>m. m_id m = mid \<and> within_derivation_cap m)
      in if affected here (missions k) \<noteq> 1 then Inl derivation_cap_exhausted
         else let k1 = update_missions here (\<lambda>m. m\<lparr>m_derivation_count := m_derivation_count m + 1\<rparr>) k
              in case must_get mid k1 of Inl e \<Rightarrow> Inl e | Inr m \<Rightarrow> Inr (k1, m))"

definition gate_derivation :: "gate_env \<Rightarrow> string \<Rightarrow> kernel \<Rightarrow> kernel \<times> (kernel_error + mission)" where
  "gate_derivation env mid k =
     (case gate_derivable env mid k of
        (k1, Inl e) \<Rightarrow> (k1, Inl e)
      | (k1, Inr r) \<Rightarrow> commit_or k1 (count_derivation_in_caller_tx mid k1))"

definition refund_derivation :: "string \<Rightarrow> kernel \<Rightarrow> kernel" where
  "refund_derivation mid k =
     update_missions (\<lambda>m. m_id m = mid \<and> m_derivation_count m > 0)
       (\<lambda>m. m\<lparr>m_derivation_count := m_derivation_count m - 1\<rparr>) k"

section \<open>The ledger\<close>

definition DEFAULT_DERIVATION_RESERVATION_TTL_S :: int where
  "DEFAULT_DERIVATION_RESERVATION_TTL_S = 86400"

datatype derivation_state = DReserved | DReleased | DUnacknowledged | DRefunded

record derivation_reservation =
  dv_id :: string
  dv_issuer :: string
  dv_mission :: string
  dv_operation :: string
  dv_state :: derivation_state
  dv_artifact :: "string option"
  dv_completion :: "string option"
  dv_settled_by :: "string option"

record derivation_row = derivation_reservation +
  dv_reserved_at :: int
  dv_settled_at :: "int option"
  dv_recovered_at :: "int option"
  dv_expires_at :: int

datatype reservation_result = Reserved derivation_reservation | Replay derivation_reservation

record derivation_store =
  ds_kernel :: kernel
  ds_rows :: "derivation_row table"
  ds_fresh :: nat
  ds_retention_ms :: int

definition new_derivation_store :: "kernel \<Rightarrow> int option \<Rightarrow> derivation_store" where
  "new_derivation_store k retention =
     \<lparr>ds_kernel = k, ds_rows = [], ds_fresh = 0,
      ds_retention_ms = (case retention of None \<Rightarrow> DEFAULT_DERIVATION_RESERVATION_TTL_S | Some s \<Rightarrow> s) * 1000\<rparr>"

abbreviation ds_now :: "derivation_store \<Rightarrow> int" where
  "ds_now s \<equiv> clock (ds_kernel s)"

definition to_reservation :: "derivation_row \<Rightarrow> derivation_reservation" where
  "to_reservation r =
     \<lparr>dv_id = dv_id r, dv_issuer = dv_issuer r, dv_mission = dv_mission r, dv_operation = dv_operation r, dv_state = dv_state r,
      dv_artifact = non_empty (dv_artifact r), dv_completion = non_empty (dv_completion r),
      dv_settled_by = non_empty (dv_settled_by r)\<rparr>"

definition reservation_key :: "derivation_row \<Rightarrow> string \<times> string \<times> string" where
  "reservation_key r = (dv_issuer r, dv_mission r, dv_operation r)"

definition find_reservation :: "string \<Rightarrow> string \<Rightarrow> string \<Rightarrow> derivation_store \<Rightarrow> derivation_reservation option" where
  "find_reservation iss mid op s =
     (case select_first (\<lambda>r. reservation_key r = (iss, mid, op)) (ds_rows s) of
        None \<Rightarrow> None
      | Some r \<Rightarrow> if ds_now s > dv_expires_at r then None else Some (to_reservation r))"

definition get_reservation :: "string \<Rightarrow> derivation_store \<Rightarrow> derivation_reservation option" where
  "get_reservation rid s = map_option to_reservation (select_first (\<lambda>r. dv_id r = rid) (ds_rows s))"

definition unacknowledged :: "derivation_store \<Rightarrow> derivation_reservation list" where
  "unacknowledged s =
     map to_reservation (sort_key dv_reserved_at (select_all (\<lambda>r. dv_state r = DUnacknowledged) (ds_rows s)))"

definition new_row :: "string \<Rightarrow> string \<Rightarrow> string \<Rightarrow> string option \<Rightarrow> derivation_store \<Rightarrow> derivation_row" where
  "new_row iss mid op artifact s =
     \<lparr>dv_id = ''drv_'' @ nat_text (ds_fresh s), dv_issuer = iss, dv_mission = mid, dv_operation = op, dv_state = DReserved,
      dv_artifact = artifact, dv_completion = None, dv_settled_by = None, dv_reserved_at = ds_now s, dv_settled_at = None,
      dv_recovered_at = None, dv_expires_at = ds_now s + ds_retention_ms s\<rparr>"

text \<open>The insert fails on a row of the same identifier or the same operation; the winner
  is read back, and where none is retained the constraint error is thrown.\<close>

definition reserve_in_caller_tx ::
    "string \<Rightarrow> string \<Rightarrow> string \<Rightarrow> string option \<Rightarrow> derivation_store \<Rightarrow> kernel_error + derivation_store \<times> reservation_result" where
  "reserve_in_caller_tx iss mid op artifact s =
     (case find_reservation iss mid op s of
        Some existing \<Rightarrow> Inr (s, Replay existing)
      | None \<Rightarrow>
          let row = new_row iss mid op artifact s
          in if dv_id row \<in> set (map dv_id (ds_rows s)) \<or> reservation_key row \<in> set (map reservation_key (ds_rows s))
             then (case find_reservation iss mid op s of
                     Some winner \<Rightarrow> Inr (s, Replay winner)
                   | None \<Rightarrow> Inl SqlConstraint)
             else Inr (s\<lparr>ds_rows := ds_rows s @ [row], ds_fresh := Suc (ds_fresh s)\<rparr>,
                       Reserved \<lparr>dv_id = dv_id row, dv_issuer = iss, dv_mission = mid, dv_operation = op, dv_state = DReserved,
                              dv_artifact = non_empty artifact, dv_completion = None, dv_settled_by = None\<rparr>))"

definition open_row :: "string \<Rightarrow> derivation_row \<Rightarrow> bool" where
  "open_row rid r = (dv_id r = rid \<and> (dv_state r = DReserved \<or> dv_state r = DUnacknowledged))"

definition release_derivation :: "string \<Rightarrow> string \<Rightarrow> string option \<Rightarrow> derivation_store \<Rightarrow> derivation_store" where
  "release_derivation rid artifact completion s =
     s\<lparr>ds_rows := update_where (open_row rid)
         (\<lambda>r. r\<lparr>dv_state := DReleased, dv_artifact := Some artifact, dv_completion := completion, dv_settled_at := Some (ds_now s)\<rparr>)
         (ds_rows s)\<rparr>"

definition recover_at_boot :: "derivation_store \<Rightarrow> derivation_store \<times> derivation_reservation list" where
  "recover_at_boot s =
     (let pending = select_all (\<lambda>r. dv_state r = DReserved) (ds_rows s)
      in (s\<lparr>ds_rows := update_where (\<lambda>r. dv_state r = DReserved)
              (\<lambda>r. r\<lparr>dv_state := DUnacknowledged, dv_recovered_at := Some (ds_now s)\<rparr>) (ds_rows s)\<rparr>,
          map (\<lambda>r. (to_reservation r)\<lparr>dv_state := DUnacknowledged\<rparr>) pending))"

record issuance_observation =
  io_accepted :: bool
  io_authority :: string
  io_artifact :: "string option"
  io_completion :: "string option"

definition coalesce :: "'a option \<Rightarrow> 'a option \<Rightarrow> 'a option" where
  "coalesce a b = (case a of None \<Rightarrow> b | Some x \<Rightarrow> Some x)"

definition reconcile_derivation :: "string \<Rightarrow> issuance_observation \<Rightarrow> derivation_store \<Rightarrow> derivation_store \<times> bool" where
  "reconcile_derivation rid ob s =
     (case select_first (\<lambda>r. dv_id r = rid) (ds_rows s) of
        None \<Rightarrow> (s, False)
      | Some row \<Rightarrow>
          if dv_state row \<noteq> DReserved \<and> dv_state row \<noteq> DUnacknowledged then (s, False)
          else if io_accepted ob then
            (s\<lparr>ds_rows := update_where (open_row rid)
                 (\<lambda>r. r\<lparr>dv_state := DReleased, dv_artifact := coalesce (io_artifact ob) (dv_artifact r),
                      dv_completion := coalesce (io_completion ob) (dv_completion r), dv_settled_by := Some (io_authority ob),
                      dv_settled_at := Some (ds_now s)\<rparr>) (ds_rows s)\<rparr>, True)
          else if affected (open_row rid) (ds_rows s) \<noteq> 1 then (s, False)
          else (s\<lparr>ds_rows := update_where (open_row rid)
                    (\<lambda>r. r\<lparr>dv_state := DRefunded, dv_settled_by := Some (io_authority ob), dv_settled_at := Some (ds_now s)\<rparr>)
                    (ds_rows s),
                  ds_kernel := refund_derivation (dv_mission row) (ds_kernel s)\<rparr>, True))"

section \<open>A counted operation\<close>

definition count_and_reserve ::
    "string \<Rightarrow> string \<Rightarrow> string option \<Rightarrow> derivation_store \<Rightarrow> kernel_error + derivation_store \<times> mission \<times> reservation_result" where
  "count_and_reserve mid op artifact s =
     (case count_derivation_in_caller_tx mid (ds_kernel s) of
        Inl e \<Rightarrow> Inl e
      | Inr (k2, m) \<Rightarrow>
          (case reserve_in_caller_tx (m_issuer m) (m_id m) op (non_empty artifact) (s\<lparr>ds_kernel := k2\<rparr>) of
             Inl e \<Rightarrow> Inl e
           | Inr (s2, rsv) \<Rightarrow> Inr (s2, m, rsv)))"

definition reserve_derivation ::
    "gate_env \<Rightarrow> string \<Rightarrow> string \<Rightarrow> string option \<Rightarrow> derivation_store \<Rightarrow>
     derivation_store \<times> (kernel_error + mission \<times> reservation_result)" where
  "reserve_derivation env mid op artifact s =
     (case must_get mid (ds_kernel s) of
        Inl e \<Rightarrow> (s, Inl e)
      | Inr current \<Rightarrow>
          let recorded = find_reservation (m_issuer current) mid op s
          in if map_option dv_state recorded = Some DRefunded then (s, Inl (GateError ''operation_refunded''))
             else if Option.bind recorded dv_completion \<noteq> None then (s, Inr (current, Replay (the recorded)))
             else (case gate_derivable env mid (ds_kernel s) of
                     (k1, Inl e) \<Rightarrow> (s\<lparr>ds_kernel := k1\<rparr>, Inl e)
                   | (k1, Inr gated) \<Rightarrow>
                       (case recorded of
                          Some rsv \<Rightarrow> (s\<lparr>ds_kernel := k1\<rparr>, Inr (gated, Replay rsv))
                        | None \<Rightarrow>
                            (case count_and_reserve mid op artifact (s\<lparr>ds_kernel := k1\<rparr>) of
                               Inl e \<Rightarrow> (s\<lparr>ds_kernel := k1\<rparr>, Inl e)
                             | Inr (s2, answer) \<Rightarrow> (s2, Inr answer)))))"

end
