(* ===== verification/Derivation_Gate.thy ===== *)
theory Derivation_Gate
  imports Derivation
begin

text \<open>
  When the gate admits: a record and every ancestor stand, at the clock of the call, and
  something issuable is left.  The walk up the lineage materializes a due transition of
  each ancestor it visits; it changes only rows below the ancestor, so what it decides on
  is the lineage the call found.
\<close>

section \<open>Standing\<close>

definition standing :: "kernel \<Rightarrow> mission \<Rightarrow> bool" where
  "standing k r = (m_state (observe k r) \<noteq> Terminated \<and>
     (case due_schedule_transition r (Some (clock k)) of None \<Rightarrow> m_state r = Active | Some (to, tm) \<Rightarrow> to = Active))"

lemma expiry_standing:
  assumes "kernel_ok k" "r \<in> set (missions k)" "apply_expiry r k = (k', Inr m)"
  shows "m_state m = Active \<longleftrightarrow> standing k r"
proof (cases "m_state r = Terminated")
  case True
  then have "observe k r = r" by (simp add: observe_def observe_at_terminated)
  then show ?thesis using assms(3) True by (simp add: apply_expiry_def EXPIRY_RETRIES_def numeral_2_eq_2 standing_def)
next
  case live: False
  note exact = apply_expiry_exact[OF assms(1,2) live]
  show ?thesis
  proof (cases "m_state (observe k r) = Terminated")
    case True
    then show ?thesis using exact(1) assms(3) by (auto simp: written_row_def standing_def)
  next
    case ob: False
    show ?thesis
    proof (cases "due_schedule_transition r (Some (clock k))")
      case None
      then show ?thesis using exact(2)[OF ob] assms(3) ob by (simp add: standing_def)
    next
      case (Some d)
      obtain to tm where d: "d = (to, tm)" by fastforce
      have m: "m = written_row r to (no_opts\<lparr>o_termination := tm, o_applied := m_schedule r\<rparr>) (iso_text (clock k)) r"
        using exact(3)[OF ob Some[unfolded d]] assms(3) by auto
      have "to = Active \<or> to = Terminated" using due_reason[OF Some[unfolded d]] by blast
      then show ?thesis using ob by (auto simp: m written_row_def standing_def Some d)
    qed
  qed
qed

section \<open>Rows above a height are left alone\<close>

definition agree :: "nat \<Rightarrow> kernel \<Rightarrow> kernel \<Rightarrow> bool" where
  "agree b k k1 = (kernel_ok k1 \<and> shape_of k1 = shape_of k \<and> clock k1 = clock k \<and>
     (\<forall>x \<in> set (missions k). b \<le> height (shape_of k) (m_id x) \<longrightarrow> x \<in> set (missions k1)))"

lemma agree_refl: "kernel_ok k \<Longrightarrow> agree b k k"
  by (simp add: agree_def)

lemma agree_mono: "agree b k k1 \<Longrightarrow> b \<le> b' \<Longrightarrow> agree b' k k1"
  by (auto simp: agree_def)

lemma parent_height:
  assumes "kernel_ok k" "x \<in> set (missions k)" "m_parent x = Some g"
  shows "height (shape_of k) (m_id x) < height (shape_of k) g"
proof -
  have "falls (height (shape_of k)) (shape_of k)" using assms(1) parents_first_falls by (simp add: kernel_ok_def sound_def)
  moreover have "(m_id x, Some g) \<in> set (shape_of k)" using assms(2,3) by (force simp: shape_of_def)
  ultimately show ?thesis using falls_child by blast
qed

lemma non_empty_SomeD: "non_empty p = Some g \<Longrightarrow> p = Some g"
  by (cases p) (simp_all split: if_splits)

lemma shape_ids: "shape_of k1 = shape_of k \<Longrightarrow> m_id ` set (missions k1) = m_id ` set (missions k)"
proof -
  have e: "m_id ` set (missions x) = fst ` set (shape_of x)" for x by (simp add: shape_of_def image_image)
  show "m_id ` set (missions k1) = m_id ` set (missions k)" if "shape_of k1 = shape_of k" unfolding e that ..
qed

lemma agree_get:
  assumes "kernel_ok k" "agree b k k1" "b \<le> height (shape_of k) g"
  shows "get_mission g k1 = get_mission g k"
proof (cases "get_mission g k")
  case None
  then have "g \<notin> m_id ` set (missions k)" by (auto simp: get_mission_def select_first_None)
  moreover have "m_id ` set (missions k1) = m_id ` set (missions k)" using assms(2) shape_ids[of k1 k] by (simp add: agree_def)
  ultimately have "g \<notin> m_id ` set (missions k1)" by simp
  then have "get_mission g k1 = None" by (auto simp: get_mission_def select_first_None)
  then show ?thesis using None by simp
next
  case (Some x)
  then have x: "x \<in> set (missions k)" "m_id x = g" using get_in by blast+
  then have "x \<in> set (missions k1)" "sound k1" using assms by (auto simp: agree_def kernel_ok_def)
  then show ?thesis using get_current[of k1 x] x(2) Some by simp
qed

lemma agree_ancestry:
  assumes "kernel_ok k" "agree b k k1"
  shows "x \<in> set (missions k) \<Longrightarrow> b \<le> height (shape_of k) (m_id x) \<Longrightarrow> ancestry n k1 x = ancestry n k x"
proof (induction n arbitrary: x)
  case (Suc n)
  show ?case
  proof (cases "non_empty (m_parent x)")
    case (Some g)
    have up: "b \<le> height (shape_of k) g"
      using parent_height[OF assms(1) Suc.prems(1) non_empty_SomeD[OF Some]] Suc.prems(2) by simp
    note same = agree_get[OF assms up]
    show ?thesis
    proof (cases "get_mission g k")
      case None
      then show ?thesis using same by (simp add: Some)
    next
      case gp: (Some y)
      then have y: "y \<in> set (missions k)" "m_id y = g" using get_in by blast+
      then have "ancestry n k1 y = ancestry n k y" using Suc.IH[of y] up by simp
      then show ?thesis using same gp by (simp add: Some)
    qed
  qed simp
qed simp

lemma agree_standing:
  assumes "kernel_ok k" "agree b k k1" "x \<in> set (missions k)" "b \<le> height (shape_of k) (m_id x)"
  shows "standing k1 x = standing k x"
proof -
  have c: "clock k1 = clock k" using assms(2) by (simp add: agree_def)
  have "m_state (observe k1 x) \<noteq> Terminated \<longleftrightarrow> m_state (observe k x) \<noteq> Terminated"
    using observe_at_live_iff[of 65 k1 "clock k" False x] observe_at_live_iff[of 65 k "clock k" False x]
      agree_ancestry[OF assms(1,2,3,4), of 65] by (simp add: observe_def c)
  then show ?thesis by (simp add: standing_def c)
qed

lemma agree_expiry:
  assumes "kernel_ok k" "agree b k k1" "x \<in> set (missions k1)" "b \<le> Suc (height (shape_of k) (m_id x))"
    and "apply_expiry x k1 = (k2, Inr m)"
  shows "agree (Suc (height (shape_of k) (m_id x))) k k2"
proof -
  have a: "kernel_ok k1" "shape_of k1 = shape_of k" "clock k1 = clock k" using assms(2) by (simp_all add: agree_def)
  have f: "kernel_ok k2" "closes k1 k2" "only_below (shape_of k1) {m_id x} k1 k2" "shape_of k2 = shape_of k1"
    using expiry_facts[OF a(1) assms(3)] assms(5) by auto
  have fl: "falls (height (shape_of k)) (shape_of k)" using assms(1) parents_first_falls by (simp add: kernel_ok_def sound_def)
  have "y \<in> set (missions k2)" if y: "y \<in> set (missions k)" "Suc (height (shape_of k) (m_id x)) \<le> height (shape_of k) (m_id y)" for y
  proof -
    have "y \<in> set (missions k1)" using assms(2,4) y by (auto simp: agree_def)
    moreover have "\<not> below (shape_of k) (m_id x) (m_id y)" using below_height[OF _ fl] y(2) by fastforce
    ultimately show ?thesis using f(3) by (auto simp: only_below_def a(2))
  qed
  moreover have "clock k2 = clock k" using f(2) a(3) by (simp add: closes_def evolves_def)
  ultimately show ?thesis using f(1,4) a(2) by (simp add: agree_def)
qed

section \<open>The walk\<close>

lemma walk_exact:
  assumes "kernel_ok k"
  shows "x \<in> set (missions k) \<Longrightarrow> agree (Suc (height (shape_of k) (m_id x))) k k1 \<Longrightarrow>
    length (missions k) - height (shape_of k) (m_id x) < n \<Longrightarrow>
    \<exists>k2. active_ancestors n (m_parent x) k1 =
      (k2, if list_all (standing k) (tl (ancestry n k x)) then Inr () else Inl (GateError ''mission_not_active'')) \<and>
      kernel_ok k2 \<and> closes k1 k2"
proof (induction n arbitrary: x k1)
  case (Suc n)
  let ?h = "height (shape_of k)"
  have ok1: "kernel_ok k1" "shape_of k1 = shape_of k" using Suc.prems(2) by (simp_all add: agree_def)
  show ?case
  proof (cases "non_empty (m_parent x)")
    case None
    then show ?thesis using ok1(1) by simp
  next
    case (Some g)
    have up: "?h (m_id x) < ?h g" using parent_height[OF assms Suc.prems(1) non_empty_SomeD[OF Some]] .
    have same: "get_mission g k1 = get_mission g k" using agree_get[OF assms Suc.prems(2)] up by simp
    show ?thesis
    proof (cases "get_mission g k")
      case None
      then show ?thesis using ok1(1) same by (simp add: Some)
    next
      case gp: (Some y)
      then have y: "y \<in> set (missions k)" "y \<in> set (missions k1)" "m_id y = g" using get_in same by metis+
      obtain k2 m where ae: "apply_expiry y k1 = (k2, Inr m)" and
        f: "kernel_ok k2" "closes k1 k2" "content m = content y"
        using expiry_facts[OF ok1(1) y(2)] by blast
      have st: "m_state m = Active \<longleftrightarrow> standing k y"
        using expiry_standing[OF ok1(1) y(2) ae] agree_standing[OF assms Suc.prems(2) y(1)] up y(3) by simp
      have p: "m_parent m = m_parent y" using content_fields[OF f(3)] by simp
      have "?h g \<le> length (missions k)" using height_le[of "shape_of k" g] by (simp add: shape_of_def)
      then have n: "length (missions k) - ?h (m_id y) < n" using up Suc.prems(3) y(3) by simp
      have ag: "agree (Suc (?h (m_id y))) k k2"
        by (rule agree_expiry[OF assms Suc.prems(2) y(2) _ ae]) (use up y(3) in simp)
      obtain k3 where w: "active_ancestors n (m_parent y) k2 =
        (k3, if list_all (standing k) (tl (ancestry n k y)) then Inr () else Inl (GateError ''mission_not_active''))"
        "kernel_ok k3" "closes k2 k3"
        using Suc.IH[OF y(1) ag n] by blast
      have anc: "tl (ancestry (Suc n) k x) = y # tl (ancestry n k y)" using ancestry_head[of n k y] by (simp add: Some gp)
      show ?thesis
      proof (cases "m_state m = Active")
        case True
        then show ?thesis unfolding anc
          using st w(1,2) closes_trans[OF f(2) w(3)] by (simp add: Some gp same ae p)
      next
        case False
        then show ?thesis unfolding anc using st f(1,2) by (simp add: Some gp same ae)
      qed
    qed
  qed
qed simp

section \<open>The gates\<close>

definition lineage_stands :: "kernel \<Rightarrow> mission \<Rightarrow> bool" where
  "lineage_stands k r = list_all (standing k) (ancestry (fuel_for k) k r)"

definition admissible :: "gate_env \<Rightarrow> kernel \<Rightarrow> mission \<Rightarrow> bool" where
  "admissible env k r = (lineage_stands k r \<and> \<not> ge_dependency env (m_id r) (m_issuer r) (m_client_id r) \<and>
     issuable_set env r \<noteq> [])"

definition same_grant :: "mission \<Rightarrow> mission \<Rightarrow> bool" where
  "same_grant m r = (content m = content r \<and> m_containment m = m_containment r \<and> m_discharged m = m_discharged r)"

lemma same_grant_client: "same_grant m r \<Longrightarrow> m_client_id m = m_client_id r \<and> m_id m = m_id r \<and> m_issuer m = m_issuer r"
proof -
  assume s: "same_grant m r"
  then have c: "content m = content r" by (simp add: same_grant_def)
  have "m_client_id (content m) = m_client_id (content r)" by (simp only: c)
  then show ?thesis using content_fields[OF c] by (simp add: content_def)
qed

lemma effective_entry_cong:
  "m_issuer m = m_issuer r \<Longrightarrow> m_discharged m = m_discharged r \<Longrightarrow> m_containment m = m_containment r \<Longrightarrow>
   effective_entry digest m e = effective_entry digest r e"
  by (simp add: effective_entry_def)

lemma same_grant_issuable: "same_grant m r \<Longrightarrow> issuable_set env m = issuable_set env r"
proof -
  assume s: "same_grant m r"
  then have c: "content m = content r" "m_containment m = m_containment r" "m_discharged m = m_discharged r"
    by (simp_all add: same_grant_def)
  have f: "m_issuer m = m_issuer r" "m_authority_set m = m_authority_set r" using content_fields[OF c(1)] by simp_all
  have "effective_entry d m = effective_entry d r" for d by (rule ext) (rule effective_entry_cong[OF f(1) c(3,2)])
  then show ?thesis
    by (simp add: issuable_set_def issuable_authority_set_def issuable_entries_with_origin_def effective_entries_with_origin_def f(2) c)
qed

lemma gate_lineage_exact:
  assumes "kernel_ok k" "get_mission mid k = Some r"
  shows "\<exists>k' res. gate_active_lineage env mid k = (k', res) \<and> kernel_ok k' \<and> closes k k' \<and>
    (case res of
       Inr m \<Rightarrow> same_grant m r \<and> lineage_stands k r \<and> \<not> ge_dependency env (m_id r) (m_issuer r) (m_client_id r)
     | Inl e \<Rightarrow> e \<in> GateError ` {''mission_expired'', ''mission_not_active'', ''authority_dependency''} \<and>
         \<not> (lineage_stands k r \<and> \<not> ge_dependency env (m_id r) (m_issuer r) (m_client_id r)))"
proof -
  have r: "r \<in> set (missions k)" "m_id r = mid" using get_in[OF assms(2)] by simp_all
  obtain k1 m where ae: "apply_expiry r k = (k1, Inr m)" and f: "kernel_ok k1" "closes k k1" "same_grant m r"
    using expiry_facts[OF assms(1) r(1)] unfolding same_grant_def by blast
  have c: "m_parent m = m_parent r" using f(3) content_fields[of m r] by (simp add: same_grant_def)
  have st: "m_state m = Active \<longleftrightarrow> standing k r" by (rule expiry_standing[OF assms(1) r(1) ae])
  have ag: "agree (Suc (height (shape_of k) (m_id r))) k k1"
    by (rule agree_expiry[OF assms(1) agree_refl[OF assms(1), of 0] r(1) _ ae]) simp
  have fuel: "fuel_for k1 = fuel_for k" using closes_shape[OF f(2)] by (metis fuel_for_def length_map shape_of_def)
  have "length (missions k) - height (shape_of k) (m_id r) < fuel_for k" by (simp add: fuel_for_def)
  from walk_exact[OF assms(1) r(1) ag this] obtain k2 where w: "active_ancestors (fuel_for k) (m_parent r) k1 =
      (k2, if list_all (standing k) (tl (ancestry (fuel_for k) k r)) then Inr () else Inl (GateError ''mission_not_active''))"
    "kernel_ok k2" "closes k1 k2" by blast
  have l: "lineage_stands k r \<longleftrightarrow> standing k r \<and> list_all (standing k) (tl (ancestry (fuel_for k) k r))"
    unfolding lineage_stands_def by (metis ancestry_head list.pred_inject(2))
  have cl: "closes k k2" by (rule closes_trans[OF f(2) w(3)])
  note g = gate_active_lineage_def must_get_def
  show ?thesis
  proof (cases "m_state m = Active")
    case False
    then show ?thesis using st l f(1,2) by (simp add: g assms(2) ae)
  next
    case True
    then show ?thesis
      using st l w(1,2) cl f(3) same_grant_client[OF f(3)] by (simp add: g assms(2) ae c fuel)
  qed
qed

lemma gate_derivable_exact:
  assumes "kernel_ok k" "get_mission mid k = Some r"
  shows "\<exists>k' res. gate_derivable env mid k = (k', res) \<and> kernel_ok k' \<and> closes k k' \<and>
    (case res of Inr m \<Rightarrow> same_grant m r \<and> admissible env k r | Inl e \<Rightarrow> (\<exists>c. e = GateError c) \<and> \<not> admissible env k r)"
proof -
  obtain k' res where g: "gate_active_lineage env mid k = (k', res)" and ok: "kernel_ok k'" "closes k k'" and
    c: "case res of
       Inr m \<Rightarrow> same_grant m r \<and> lineage_stands k r \<and> \<not> ge_dependency env (m_id r) (m_issuer r) (m_client_id r)
     | Inl e \<Rightarrow> e \<in> GateError ` {''mission_expired'', ''mission_not_active'', ''authority_dependency''} \<and>
         \<not> (lineage_stands k r \<and> \<not> ge_dependency env (m_id r) (m_issuer r) (m_client_id r))"
    using gate_lineage_exact[OF assms, of env] by blast
  show ?thesis
  proof (cases res)
    case (Inl e)
    then have "(\<exists>x. e = GateError x) \<and> \<not> admissible env k r" using c by (auto simp: admissible_def simp del: insert_iff)
    then show ?thesis using ok by (simp add: gate_derivable_def g Inl)
  next
    case (Inr m)
    then have s: "same_grant m r" using c by simp
    show ?thesis using c ok same_grant_issuable[OF s, of env] by (simp add: gate_derivable_def g Inr admissible_def)
  qed
qed

end
