(* ===== verification/Derivation_Theorems.thy ===== *)
theory Derivation_Theorems
  imports Derivation_Gate
begin

text \<open>
  What a derivation against an operation identity answers, and what any sequence of
  derivations, settlements and lifecycle operations keeps of the count and the ledger.
\<close>

section \<open>The count\<close>

lemma recount_ok:
  assumes "kernel_ok k"
  shows "kernel_ok (update_missions p (\<lambda>m. m\<lparr>m_derivation_count := g m\<rparr>) k)"
proof -
  let ?k = "update_missions p (\<lambda>m. m\<lparr>m_derivation_count := g m\<rparr>) k"
  have s: "shape_of ?k = shape_of k" by (simp add: shape_of_def update_missions_def update_where_def comp_def)
  have r: "sealed_row ?k m = sealed_row k m" for m by (simp add: sealed_row_def update_missions_def)
  have rows: "m_state (m\<lparr>m_derivation_count := n\<rparr>) = m_state m" "m_id (m\<lparr>m_derivation_count := n\<rparr>) = m_id m"
    "row_ok (m\<lparr>m_derivation_count := n\<rparr>) = row_ok m" "sealed_row k (m\<lparr>m_derivation_count := n\<rparr>) = sealed_row k m" for m n
    by (simp_all add: row_ok_def sealed_row_def)
  have a: "list_all P (missions ?k) = list_all P (missions k)" if "\<And>m n. P (m\<lparr>m_derivation_count := n\<rparr>) = P m" for P
  proof -
    have "list_all P (map (\<lambda>m. if p m then m\<lparr>m_derivation_count := g m\<rparr> else m) ms) = list_all P ms" for ms
      by (induction ms) (simp_all add: that)
    then show ?thesis by (simp add: update_missions_def update_where_def)
  qed
  have c: "children_terminated ?k i = children_terminated k i" for i
    unfolding children_terminated_def Ball_set_list_all by (rule a) simp
  have "list_all row_ok (missions ?k) = list_all row_ok (missions k)" by (rule a) (rule rows(3))
  moreover have "closed_down ?k = closed_down k" unfolding closed_down_def c by (rule a) (simp add: rows)
  moreover have "sealed ?k = sealed k" unfolding sealed_def r by (rule a) (simp add: rows)
  ultimately show ?thesis using assms s by (simp add: kernel_ok_def sound_def clock_ok_def update_missions_def)
qed

lemma get_update:
  "(\<And>m. m_id (f m) = m_id m) \<Longrightarrow>
   get_mission i (update_missions p f k) = map_option (\<lambda>m. if p m then f m else m) (get_mission i k)"
  unfolding get_mission_def update_missions_def by (simp add: select_update_where)

definition counted :: "string \<Rightarrow> kernel \<Rightarrow> kernel" where
  "counted mid k = update_missions (\<lambda>m. m_id m = mid \<and> within_derivation_cap m)
     (\<lambda>m. m\<lparr>m_derivation_count := m_derivation_count m + 1\<rparr>) k"

lemma counted_get:
  "get_mission i k = Some m \<Longrightarrow> get_mission i (counted mid k) =
     Some (if i = mid \<and> within_derivation_cap m then m\<lparr>m_derivation_count := m_derivation_count m + 1\<rparr> else m)"
  using get_in[of i k m] by (simp add: counted_def get_update)

lemma counted_ok: "kernel_ok k \<Longrightarrow> kernel_ok (counted mid k)"
  unfolding counted_def by (rule recount_ok)

lemma counted_clock [simp]: "clock (counted mid k) = clock k"
  by (simp add: counted_def update_missions_def)

lemma count_exact:
  assumes "kernel_ok k" "get_mission mid k = Some r"
  shows "count_derivation_in_caller_tx mid k =
    (if within_derivation_cap r then Inr (counted mid k, r\<lparr>m_derivation_count := m_derivation_count r + 1\<rparr>)
     else Inl derivation_cap_exhausted)"
proof -
  let ?p = "\<lambda>m. m_id m = mid \<and> within_derivation_cap m"
  have key: "mission_keyed k" using assms(1) sound_keyed by (simp add: kernel_ok_def)
  have r: "r \<in> set (missions k)" "m_id r = mid" using get_in[OF assms(2)] by simp_all
  have "affected ?p (missions k) \<le> 1" by (rule affected_keyed_le[OF key])
  moreover have "affected ?p (missions k) = 0 \<longleftrightarrow> \<not> within_derivation_cap r"
  proof
    show "affected ?p (missions k) = 0 \<Longrightarrow> \<not> within_derivation_cap r" using r by (auto simp: affected_def filter_empty_conv)
    show "\<not> within_derivation_cap r \<Longrightarrow> affected ?p (missions k) = 0"
      using keyed_unique[OF key _ r(1)] r(2) by (auto simp: affected_def filter_empty_conv)
  qed
  ultimately have n: "affected ?p (missions k) = (if within_derivation_cap r then 1 else 0)" by auto
  have "get_mission mid (counted mid k) =
      Some (if within_derivation_cap r then r\<lparr>m_derivation_count := m_derivation_count r + 1\<rparr> else r)"
    using counted_get[OF assms(2), of mid] by simp
  then show ?thesis by (simp add: count_derivation_in_caller_tx_def Let_def n must_get_def counted_def)
qed

section \<open>The ledger\<close>

definition ledger_ok :: "derivation_store \<Rightarrow> bool" where
  "ledger_ok s = (keyed dv_id (ds_rows s) \<and> keyed reservation_key (ds_rows s) \<and> 0 \<le> ds_retention_ms s \<and>
     list_all (\<lambda>r. list_ex (\<lambda>i. dv_id r = ''drv_'' @ nat_text i) [0..<ds_fresh s]) (ds_rows s))"

lemma fresh_id:
  assumes "ledger_ok s"
  shows "''drv_'' @ nat_text (ds_fresh s) \<notin> set (map dv_id (ds_rows s))"
proof
  assume "''drv_'' @ nat_text (ds_fresh s) \<in> set (map dv_id (ds_rows s))"
  then obtain r where r: "r \<in> set (ds_rows s)" "dv_id r = ''drv_'' @ nat_text (ds_fresh s)" by auto
  then obtain i where i: "i < ds_fresh s" "dv_id r = ''drv_'' @ nat_text i"
    using assms by (auto simp: ledger_ok_def list_all_iff list_ex_iff)
  have "nat_text i = nat_text (ds_fresh s)" using r(2) unfolding i(2) by (rule append_eq_append_conv[THEN iffD1, THEN conjunct2, rotated]) simp
  then show False using i(1) by simp
qed

lemma find_key: "find_reservation iss mid op s = Some x \<Longrightarrow> (iss, mid, op) \<in> set (map reservation_key (ds_rows s))"
  by (auto simp: find_reservation_def image_iff dest!: select_first_SomeD split: option.splits) metis

lemma find_cong: "ds_rows s' = ds_rows s \<Longrightarrow> ds_now s' = ds_now s \<Longrightarrow> find_reservation iss mid op s' = find_reservation iss mid op s"
  by (simp add: find_reservation_def split: option.split)

definition with_row :: "derivation_row \<Rightarrow> derivation_store \<Rightarrow> derivation_store" where
  "with_row r s = s\<lparr>ds_rows := ds_rows s @ [r], ds_fresh := Suc (ds_fresh s)\<rparr>"

lemma with_row_simps [simp]:
  "ds_rows (with_row r s) = ds_rows s @ [r]" "ds_kernel (with_row r s) = ds_kernel s" "ds_fresh (with_row r s) = Suc (ds_fresh s)"
  "ds_retention_ms (with_row r s) = ds_retention_ms s"
  by (simp_all add: with_row_def)

lemma reservation_key_new [simp]: "reservation_key (new_row iss mid op artifact s) = (iss, mid, op)"
  by (simp add: reservation_key_def new_row_def)

lemma reserve_in_caller_tx_exact:
  assumes "ledger_ok s" "find_reservation iss mid op s = None"
  shows "reserve_in_caller_tx iss mid op artifact s =
    (if (iss, mid, op) \<in> set (map reservation_key (ds_rows s)) then Inl SqlConstraint
     else Inr (with_row (new_row iss mid op artifact s) s, Reserved (to_reservation (new_row iss mid op artifact s))))"
proof -
  have "dv_id (new_row iss mid op artifact s) \<notin> set (map dv_id (ds_rows s))" using fresh_id[OF assms(1)] by (simp add: new_row_def)
  then show ?thesis
    unfolding reserve_in_caller_tx_def assms(2) Let_def reservation_key_new
    by (simp add: with_row_def to_reservation_def new_row_def)
qed

lemma with_row_ok:
  assumes "ledger_ok s" "(iss, mid, op) \<notin> set (map reservation_key (ds_rows s))"
  shows "ledger_ok (with_row (new_row iss mid op artifact s) s)"
  using assms fresh_id[OF assms(1)]
  by (auto simp: ledger_ok_def keyed_snoc reservation_key_new new_row_def[of iss mid op artifact s] list_all_iff list_ex_iff reservation_key_def less_Suc_eq)

lemma with_row_find:
  assumes "ledger_ok s" "(iss, mid, op) \<notin> set (map reservation_key (ds_rows s))"
  shows "find_reservation iss mid op (with_row (new_row iss mid op artifact s) s) = Some (to_reservation (new_row iss mid op artifact s))"
proof -
  have "select_first (\<lambda>r. reservation_key r = (iss, mid, op)) (ds_rows s) = None" using assms(2) unfolding select_key_None .
  then show ?thesis
    using assms(1) by (simp add: find_reservation_def select_first_append) (simp add: new_row_def ledger_ok_def)
qed

section \<open>A reserved derivation\<close>

lemma closes_get:
  assumes "closes k k'" "get_mission mid k = Some m"
  shows "\<exists>m'. get_mission mid k' = Some m' \<and> content m' = content m"
  using evolves_get[of k k' mid m] assms by (auto simp: closes_def row_evolves_def)

lemma within_cong: "content m = content r \<Longrightarrow> within_derivation_cap m = within_derivation_cap r"
  using content_fields[of m r] by (simp add: within_derivation_cap_def split: option.split)

lemma closes_clock: "closes k k' \<Longrightarrow> clock k' = clock k"
  by (simp add: closes_def evolves_def)

lemma ledger_kernel [simp]: "ledger_ok (s\<lparr>ds_kernel := k\<rparr>) = ledger_ok s"
  by (simp add: ledger_ok_def)

text \<open>The outcome of a call on a Mission: what it answers, and the one change it makes.\<close>

definition derivation_outcome ::
    "gate_env \<Rightarrow> string \<Rightarrow> string \<Rightarrow> mission \<Rightarrow> derivation_store \<Rightarrow> mission \<Rightarrow>
     derivation_store \<Rightarrow> kernel_error + mission \<times> reservation_result \<Rightarrow> bool" where
  "derivation_outcome env mid op r s r' s' res =
     (case find_reservation (m_issuer r) mid op s of
        Some rsv \<Rightarrow>
          ds_rows s' = ds_rows s \<and> m_derivation_count r' = m_derivation_count r \<and>
          (if dv_state rsv = DRefunded then res = Inl (GateError ''operation_refunded'')
           else if dv_completion rsv \<noteq> None \<or> admissible env (ds_kernel s) r then \<exists>m. res = Inr (m, Replay rsv)
           else \<exists>e. res = Inl e)
      | None \<Rightarrow>
          if admissible env (ds_kernel s) r \<and> within_derivation_cap r \<and>
             (m_issuer r, mid, op) \<notin> set (map reservation_key (ds_rows s))
          then m_derivation_count r' = m_derivation_count r + 1 \<and>
            (\<exists>row m. ds_rows s' = ds_rows s @ [row] \<and> reservation_key row = (m_issuer r, mid, op) \<and> dv_state row = DReserved \<and>
               res = Inr (m, Reserved (to_reservation row)) \<and>
               find_reservation (m_issuer r) mid op s' = Some (to_reservation row))
          else ds_rows s' = ds_rows s \<and> m_derivation_count r' = m_derivation_count r \<and> (\<exists>e. res = Inl e))"

lemma count_and_reserve_exact:
  assumes "kernel_ok (ds_kernel s)" "ledger_ok s" "get_mission mid (ds_kernel s) = Some r"
    and "find_reservation (m_issuer r) mid op s = None"
  shows "count_and_reserve mid op artifact s =
    (if \<not> within_derivation_cap r then Inl derivation_cap_exhausted
     else if (m_issuer r, mid, op) \<in> set (map reservation_key (ds_rows s)) then Inl SqlConstraint
     else let s1 = s\<lparr>ds_kernel := counted mid (ds_kernel s)\<rparr>; row = new_row (m_issuer r) mid op (non_empty artifact) s1
       in Inr (with_row row s1, r\<lparr>m_derivation_count := m_derivation_count r + 1\<rparr>, Reserved (to_reservation row)))"
proof (cases "within_derivation_cap r")
  case False
  then show ?thesis by (simp add: count_and_reserve_def count_exact[OF assms(1,3)])
next
  case True
  let ?s1 = "s\<lparr>ds_kernel := counted mid (ds_kernel s)\<rparr>"
  have l: "ledger_ok ?s1" using assms(2) by simp
  have f: "find_reservation (m_issuer r) mid op ?s1 = None" using assms(4) find_cong[of ?s1 s] by simp
  have "m_id r = mid" using get_in[OF assms(3)] by simp
  then show ?thesis
    using True by (simp add: count_and_reserve_def count_exact[OF assms(1,3)] reserve_in_caller_tx_exact[OF l f] Let_def)
qed

lemma reserve_facts:
  assumes "kernel_ok (ds_kernel s)" "ledger_ok s" "get_mission mid (ds_kernel s) = Some r"
    and "reserve_derivation env mid op artifact s = (s', res)"
  shows "kernel_ok (ds_kernel s') \<and> ledger_ok s' \<and>
    (\<exists>r'. get_mission mid (ds_kernel s') = Some r' \<and> derivation_outcome env mid op r s r' s' res) \<and>
    (ds_rows s' = ds_rows s \<and> closes (ds_kernel s) (ds_kernel s') \<or>
     (\<exists>k1 row. closes (ds_kernel s) k1 \<and> kernel_ok k1 \<and> ds_kernel s' = counted mid k1 \<and> ds_rows s' = ds_rows s @ [row] \<and>
        dv_mission row = mid \<and> within_derivation_cap r))"
proof -
  let ?k = "ds_kernel s" and ?rec = "find_reservation (m_issuer r) mid op s"
  note d = assms(4)[unfolded reserve_derivation_def must_get_def assms(3) option.case sum.case Let_def]
  have same: ?thesis if "s' = s" "derivation_outcome env mid op r s r s res" using assms(1-3) that by auto
  consider rsv where "?rec = Some rsv" "dv_state rsv = DRefunded"
    | rsv where "?rec = Some rsv" "dv_state rsv \<noteq> DRefunded" "dv_completion rsv \<noteq> None"
    | "?rec = None \<or> (\<exists>rsv. ?rec = Some rsv \<and> dv_state rsv \<noteq> DRefunded \<and> dv_completion rsv = None)"
  proof (cases ?rec)
    case (Some rsv)
    consider "dv_state rsv = DRefunded" | "dv_state rsv \<noteq> DRefunded" "dv_completion rsv \<noteq> None"
      | "dv_state rsv \<noteq> DRefunded" "dv_completion rsv = None" by blast
    then show thesis
    proof cases
      case 3
      then show thesis using Some by (intro that(3) disjI2 exI[of _ rsv] conjI)
    qed (rule that(1)[OF Some] that(2)[OF Some]; assumption)+
  qed (rule that(3), simp)
  then show ?thesis
  proof cases
    case (1 rsv)
    then have "s' = s \<and> res = Inl (GateError ''operation_refunded'')" using d by simp
    then show ?thesis using same 1 by (simp add: derivation_outcome_def)
  next
    case (2 rsv)
    then have "s' = s \<and> res = Inr (r, Replay rsv)" using d by simp
    then show ?thesis using same 2 by (simp add: derivation_outcome_def)
  next
    case 3
    obtain k1 g where gd: "gate_derivable env mid ?k = (k1, g)" and ok: "kernel_ok k1" "closes ?k k1" and
      c: "case g of Inr m \<Rightarrow> same_grant m r \<and> admissible env ?k r | Inl e \<Rightarrow> (\<exists>c. e = GateError c) \<and> \<not> admissible env ?k r"
      using gate_derivable_exact[OF assms(1,3), of env] by blast
    obtain r1 where r1: "get_mission mid k1 = Some r1" "content r1 = content r" using closes_get[OF ok(2) assms(3)] by blast
    have cf: "m_issuer r1 = m_issuer r" "m_derivation_count r1 = m_derivation_count r" using content_fields[OF r1(2)] by simp_all
    let ?s1 = "s\<lparr>ds_kernel := k1\<rparr>"
    have kept: ?thesis if "s' = ?s1" "derivation_outcome env mid op r s r1 ?s1 res"
      using that ok assms(2) r1(1) by auto
    show ?thesis
    proof (cases g)
      case (Inl e)
      then have a: "\<not> admissible env ?k r" using c by simp
      have "s' = ?s1 \<and> res = Inl e" using d 3 gd Inl by auto
      then show ?thesis using kept 3 a cf by (auto simp: derivation_outcome_def)
    next
      case (Inr gated)
      then have a: "admissible env ?k r" using c by simp
      show ?thesis
      proof (cases ?rec)
        case (Some rsv)
        then have "s' = ?s1 \<and> res = Inr (gated, Replay rsv)" using d 3 gd Inr by simp
        then show ?thesis using kept 3 a cf Some by (auto simp: derivation_outcome_def)
      next
        case None
        have l: "ledger_ok ?s1" "kernel_ok (ds_kernel ?s1)" "get_mission mid (ds_kernel ?s1) = Some r1"
          using assms(2) ok(1) r1(1) by simp_all
        have f: "find_reservation (m_issuer r1) mid op ?s1 = None"
          using None closes_clock[OF ok(2)] find_cong[of ?s1 s] cf(1) by simp
        note cr = count_and_reserve_exact[OF l(2,1,3) f, of artifact, unfolded cf(1) within_cong[OF r1(2)]]
        show ?thesis
        proof (cases "within_derivation_cap r \<and> (m_issuer r, mid, op) \<notin> set (map reservation_key (ds_rows s))")
          case False
          then have "s' = ?s1 \<and> (\<exists>e. res = Inl e)" using d None gd Inr cr by (auto split: if_splits)
          then show ?thesis using kept None False cf by (auto simp: derivation_outcome_def)
        next
          case True
          let ?s2 = "s\<lparr>ds_kernel := counted mid k1\<rparr>"
          let ?row = "new_row (m_issuer r) mid op (non_empty artifact) ?s2"
          have s': "s' = with_row ?row ?s2" and res: "\<exists>m. res = Inr (m, Reserved (to_reservation ?row))"
            using d None gd Inr cr True by (auto simp: Let_def)
          have l2: "ledger_ok ?s2" "(m_issuer r, mid, op) \<notin> set (map reservation_key (ds_rows ?s2))" using assms(2) True by simp_all
          have get: "get_mission mid (counted mid k1) = Some (r1\<lparr>m_derivation_count := m_derivation_count r1 + 1\<rparr>)"
            using counted_get[OF r1(1), of mid] True within_cong[OF r1(2)] by simp
          have "derivation_outcome env mid op r s (r1\<lparr>m_derivation_count := m_derivation_count r1 + 1\<rparr>) s' res"
            using None a True cf(2) res with_row_find[OF l2, of "non_empty artifact"]
            by (auto simp: derivation_outcome_def s') (simp add: new_row_def)
          then show ?thesis
            using get with_row_ok[OF l2, of "non_empty artifact"] counted_ok[OF ok(1)] True ok
            by (auto simp: s' new_row_def)
        qed
      qed
    qed
  qed
qed

text \<open>
  C10. A derivation against an operation identity is decided by the record alone.  On a
  well-formed kernel: a retained refunded identity is refused; a retained settled one is
  answered with its recorded outcome; a retained open one is answered with its record
  exactly when the Mission and its whole lineage stand at the clock of the call, its
  dependency is established and something issuable is left.  In all three cases nothing
  is counted.  A new identity is admitted exactly when the same holds, the count is below
  the limit and no row (retained or not) has the identity; then the count goes up by
  one and one open row, found again under the identity, is added.  Any refusal leaves
  the ledger and the count as they were.
\<close>

theorem reserve_exact:
  assumes "kernel_ok (ds_kernel s)" "ledger_ok s" "get_mission mid (ds_kernel s) = Some r"
    and "reserve_derivation env mid op artifact s = (s', res)"
  shows "kernel_ok (ds_kernel s') \<and> ledger_ok s' \<and>
    (\<exists>r'. get_mission mid (ds_kernel s') = Some r' \<and> derivation_outcome env mid op r s r' s' res)"
  using reserve_facts[OF assms] by blast

section \<open>Steps\<close>

text \<open>What the ledger holds of a Mission: the operations counted and not refunded.\<close>

definition held :: "string \<Rightarrow> derivation_row table \<Rightarrow> nat" where
  "held mid rows = length (filter (\<lambda>r. dv_mission r = mid \<and> dv_state r \<noteq> DRefunded) rows)"

text \<open>
  The operations in any order.  A refund outside the ledger is taken, as its contract
  says, only for a count that no ledger row pays for.
\<close>

inductive derivation_step :: "derivation_store \<Rightarrow> derivation_store \<Rightarrow> bool" where
  lifecycle: "kernel_step (ds_kernel s) k' \<Longrightarrow> derivation_step s (s\<lparr>ds_kernel := k'\<rparr>)"
| reserve: "reserve_derivation env mid op artifact s = (s', res) \<Longrightarrow> derivation_step s s'"
| uncoupled: "gate_derivation env mid (ds_kernel s) = (k', res) \<Longrightarrow> derivation_step s (s\<lparr>ds_kernel := k'\<rparr>)"
| precheck: "check_derivation env mid (ds_kernel s) = (k', res) \<Longrightarrow> derivation_step s (s\<lparr>ds_kernel := k'\<rparr>)"
| continuation: "gate_active env mid (ds_kernel s) = (k', res) \<Longrightarrow> derivation_step s (s\<lparr>ds_kernel := k'\<rparr>)"
| release: "s' = release_derivation rid artifact completion s \<Longrightarrow> derivation_step s s'"
| recover: "recover_at_boot s = (s', pending) \<Longrightarrow> derivation_step s s'"
| reconcile: "reconcile_derivation rid ob s = (s', found) \<Longrightarrow> derivation_step s s'"
| refund: "get_mission mid (ds_kernel s) = Some m \<Longrightarrow> int (held mid (ds_rows s)) < m_derivation_count m \<Longrightarrow>
    derivation_step s (s\<lparr>ds_kernel := refund_derivation mid (ds_kernel s)\<rparr>)"

definition solvent :: "mission \<Rightarrow> nat \<Rightarrow> bool" where
  "solvent m h = (int h \<le> m_derivation_count m \<and>
     (case m_derivation_limit m of None \<Rightarrow> True | Some l \<Rightarrow> m_derivation_count m \<le> l))"

definition keeps_solvent :: "derivation_store \<Rightarrow> derivation_store \<Rightarrow> bool" where
  "keeps_solvent s s' = (\<forall>mid m. get_mission mid (ds_kernel s) = Some m \<longrightarrow>
     (\<exists>m'. get_mission mid (ds_kernel s') = Some m' \<and> m_derivation_limit m' = m_derivation_limit m \<and>
        (solvent m (held mid (ds_rows s)) \<longrightarrow> solvent m' (held mid (ds_rows s')))))"

lemma solvent_cong: "content m' = content m \<Longrightarrow> solvent m' h = solvent m h"
  using content_fields[of m' m] by (simp add: solvent_def split: option.split)

lemma keeps_content:
  assumes "\<And>mid m. get_mission mid (ds_kernel s) = Some m \<Longrightarrow> \<exists>m'. get_mission mid (ds_kernel s') = Some m' \<and> content m' = content m"
    and "\<And>mid. held mid (ds_rows s') \<le> held mid (ds_rows s)"
  shows "keeps_solvent s s'"
proof -
  have "\<exists>m'. get_mission mid (ds_kernel s') = Some m' \<and> m_derivation_limit m' = m_derivation_limit m \<and>
      (solvent m (held mid (ds_rows s)) \<longrightarrow> solvent m' (held mid (ds_rows s')))"
    if m: "get_mission mid (ds_kernel s) = Some m" for mid m
  proof -
    obtain m' where m': "get_mission mid (ds_kernel s') = Some m'" "content m' = content m" using assms(1)[OF m] by blast
    have "solvent m (held mid (ds_rows s)) \<longrightarrow> solvent m' (held mid (ds_rows s'))"
      using assms(2)[of mid] solvent_cong[OF m'(2)] by (simp add: solvent_def)
    then show ?thesis using m' content_fields[OF m'(2)] by blast
  qed
  then show ?thesis unfolding keeps_solvent_def by blast
qed

lemma keeps_closes: "closes (ds_kernel s) (ds_kernel s') \<Longrightarrow> ds_rows s' = ds_rows s \<Longrightarrow> keeps_solvent s s'"
  by (rule keeps_content) (auto intro: closes_get)

lemma keeps_counted:
  assumes "closes (ds_kernel s) k1" "ds_kernel s' = counted mid k1"
    and "\<And>i. held i (ds_rows s') \<le> held i (ds_rows s) + (if i = mid \<and> paid then 1 else 0)"
    and "paid \<Longrightarrow> \<exists>r. get_mission mid (ds_kernel s) = Some r \<and> within_derivation_cap r"
  shows "keeps_solvent s s'"
proof -
  have "\<exists>m'. get_mission i (ds_kernel s') = Some m' \<and> m_derivation_limit m' = m_derivation_limit m \<and>
      (solvent m (held i (ds_rows s)) \<longrightarrow> solvent m' (held i (ds_rows s')))"
    if m: "get_mission i (ds_kernel s) = Some m" for i m
  proof -
    obtain m1 where m1: "get_mission i k1 = Some m1" "content m1 = content m" using closes_get[OF assms(1) m] by blast
    have f: "m_derivation_limit m1 = m_derivation_limit m" "m_derivation_count m1 = m_derivation_count m"
      using content_fields[OF m1(2)] by simp_all
    note get = counted_get[OF m1(1), of mid, folded assms(2)]
    show ?thesis
    proof (cases "i = mid \<and> within_derivation_cap m1")
      case True
      then show ?thesis
        using get f assms(3)[of i] by (auto simp: solvent_def within_derivation_cap_def split: option.splits if_splits)
    next
      case False
      have "\<not> (i = mid \<and> paid)" using False assms(4) m within_cong[OF m1(2)] by auto
      then have "held i (ds_rows s') \<le> held i (ds_rows s)" using assms(3)[of i] by auto
      then show ?thesis using get False f by (auto simp: solvent_def split: option.splits)
    qed
  qed
  then show ?thesis unfolding keeps_solvent_def by blast
qed

lemma held_update:
  "(\<And>r. r \<in> set rows \<Longrightarrow> p r \<Longrightarrow> dv_mission (f r) = dv_mission r \<and> (dv_state (f r) = DRefunded) = (dv_state r = DRefunded)) \<Longrightarrow>
   held i (update_where p f rows) = held i rows"
  by (induction rows) (auto simp: held_def update_where_def)

lemma ledger_update:
  assumes "\<And>r. dv_id (f r) = dv_id r \<and> reservation_key (f r) = reservation_key r" "ledger_ok s"
  shows "ledger_ok (s\<lparr>ds_rows := update_where p f (ds_rows s)\<rparr>)"
proof -
  let ?u = "update_where p f (ds_rows s)"
  have m: "map dv_id ?u = map dv_id (ds_rows s)" "map reservation_key ?u = map reservation_key (ds_rows s)"
    using assms(1) by (simp_all add: update_where_keys)
  have q: "list_all (\<lambda>r. Q (dv_id r)) rows = list_all Q (map dv_id rows)" for Q rows by (simp add: list.pred_map comp_def)
  have "list_all (\<lambda>r. Q (dv_id r)) ?u = list_all (\<lambda>r. Q (dv_id r)) (ds_rows s)" for Q unfolding q m ..
  from this[of "\<lambda>i. list_ex (\<lambda>n. i = ''drv_'' @ nat_text n) [0..<ds_fresh s]"]
  show ?thesis using assms(2) by (simp add: ledger_ok_def keyed_def m)
qed

lemma held_refund:
  assumes "keyed dv_id rows" "row \<in> set rows" "open_row rid row" "\<And>r. dv_mission (f r) = dv_mission r \<and> dv_state (f r) = DRefunded"
  shows "held i rows = held i (update_where (open_row rid) f rows) + (if dv_mission row = i then 1 else 0)"
  using assms(1,2)
proof (induction rows)
  case (Cons r rs)
  have k: "keyed dv_id rs" using Cons.prems(1) by (simp add: keyed_def)
  show ?case
  proof (cases "r = row")
    case True
    have "update_where (open_row rid) f rs = rs"
    proof -
      have "\<not> open_row rid x" if "x \<in> set rs" for x
        using that Cons.prems(1) assms(3) True by (auto simp: keyed_def open_row_def image_iff)
      then show ?thesis by (simp add: update_where_def map_idI)
    qed
    then have u: "update_where (open_row rid) f (r # rs) = f row # rs" using True assms(3) by (simp add: update_where_def)
    have "dv_state row \<noteq> DRefunded" using assms(3) by (auto simp: open_row_def)
    then show ?thesis unfolding u by (simp add: held_def True assms(4))
  next
    case False
    then have m: "row \<in> set rs" using Cons.prems(2) by simp
    have "dv_id r \<noteq> dv_id row" using Cons.prems(1) m by (auto simp: keyed_def image_iff)
    then have "\<not> open_row rid r" using assms(3) by (simp add: open_row_def)
    then have u: "update_where (open_row rid) f (r # rs) = r # update_where (open_row rid) f rs" by (simp add: update_where_def)
    show ?thesis using Cons.IH[OF k m] unfolding u by (simp add: held_def)
  qed
qed simp

lemma refund_get:
  "get_mission i k = Some m \<Longrightarrow> get_mission i (refund_derivation mid k) =
     Some (if i = mid \<and> m_derivation_count m > 0 then m\<lparr>m_derivation_count := m_derivation_count m - 1\<rparr> else m)"
  using get_in[of i k m] by (simp add: refund_derivation_def get_update)

lemma keeps_refund:
  assumes "ds_kernel s' = refund_derivation mid (ds_kernel s)" "\<And>i. held i (ds_rows s') \<le> held i (ds_rows s)"
    and "\<And>m. get_mission mid (ds_kernel s) = Some m \<Longrightarrow> solvent m (held mid (ds_rows s)) \<Longrightarrow>
      int (held mid (ds_rows s')) < m_derivation_count m"
  shows "keeps_solvent s s'"
proof -
  have "\<exists>m'. get_mission i (ds_kernel s') = Some m' \<and> m_derivation_limit m' = m_derivation_limit m \<and>
      (solvent m (held i (ds_rows s)) \<longrightarrow> solvent m' (held i (ds_rows s')))"
    if m: "get_mission i (ds_kernel s) = Some m" for i m
    using refund_get[OF m, of mid, folded assms(1)] assms(2)[of i] assms(3)[of m] m
    by (auto simp: solvent_def split: option.splits)
  then show ?thesis unfolding keeps_solvent_def by blast
qed

lemma refund_ok: "kernel_ok k \<Longrightarrow> kernel_ok (refund_derivation mid k)"
  unfolding refund_derivation_def by (rule recount_ok)

lemma gate_closes:
  assumes "kernel_ok k"
  shows "gate_active_lineage env mid k = (k', res) \<Longrightarrow> closes k k'"
    "gate_derivable env mid k = (k', res') \<Longrightarrow> closes k k'"
  using gate_lineage_exact[OF assms, of mid _ env] gate_derivable_exact[OF assms, of mid _ env]
  by (cases "get_mission mid k"; force simp: gate_active_lineage_def gate_derivable_def must_get_def)+

lemma step_keeps:
  assumes "derivation_step s s'" "kernel_ok (ds_kernel s)" "ledger_ok s"
  shows "kernel_ok (ds_kernel s') \<and> ledger_ok s' \<and> keeps_solvent s s'"
  using assms(1)
proof cases
  case (lifecycle k')
  have "keeps_solvent s s'"
  proof (rule keeps_content)
    fix mid m
    assume m: "get_mission mid (ds_kernel s) = Some m"
    have g: "grows (ds_kernel s) k'" by (rule step_grows[OF lifecycle(2) assms(2)])
    then obtain m' where m': "m' \<in> set (missions k')" "row_evolves m m'"
      using get_in[OF m] by (auto simp: grows_def list_all_iff list_ex_iff)
    have "get_mission mid k' = Some m'"
      using get_current[OF ok_sound[OF step_ok[OF lifecycle(2) assms(2)]] m'(1)] row_evolves_ids[OF m'(2)] get_in[OF m] by simp
    then show "\<exists>m'. get_mission mid (ds_kernel s') = Some m' \<and> content m' = content m"
      using m'(2) lifecycle(1) by (auto simp: row_evolves_def)
  qed (simp add: lifecycle)
  then show ?thesis using step_ok[OF lifecycle(2) assms(2)] assms(3) lifecycle(1) by simp
next
  case (reserve env mid op artifact res)
  show ?thesis
  proof (cases "get_mission mid (ds_kernel s)")
    case None
    then have "s' = s" using reserve by (simp add: reserve_derivation_def must_get_def)
    then show ?thesis using assms(2,3) keeps_closes[of s s] by simp
  next
    case (Some r)
    note f = reserve_facts[OF assms(2,3) Some reserve]
    have "keeps_solvent s s'"
      using conjunct2[OF conjunct2[OF conjunct2[OF f]]]
    proof (elim disjE exE conjE)
      show "ds_rows s' = ds_rows s \<Longrightarrow> closes (ds_kernel s) (ds_kernel s') \<Longrightarrow> keeps_solvent s s'" by (rule keeps_closes)
    next
      fix k1 row
      assume a: "closes (ds_kernel s) k1" "ds_kernel s' = counted mid k1" "ds_rows s' = ds_rows s @ [row]" "dv_mission row = mid"
        "within_derivation_cap r"
      show ?thesis by (rule keeps_counted[OF a(1,2), of True]) (use a Some in \<open>simp_all add: held_def\<close>)
    qed
    then show ?thesis using f by blast
  qed
next
  case (uncoupled env mid k' res)
  obtain k1 g where gd: "gate_derivable env mid (ds_kernel s) = (k1, g)" by fastforce
  have c: "closes (ds_kernel s) k1" by (rule gate_closes(2)[OF assms(2) gd])
  have ok1: "kernel_ok k1" by (rule closes_ok[OF c assms(2)])
  have "k' = k1 \<or> k' = counted mid k1"
  proof (cases g)
    case (Inr m)
    then have k': "(k', res) = commit_or k1 (count_derivation_in_caller_tx mid k1)" using uncoupled(2) gd by (simp add: gate_derivation_def)
    show ?thesis
    proof (cases "get_mission mid k1")
      case None
      then have "get_mission mid (update_missions p f k1) = None" if "\<And>m. m_id (f m) = m_id m" for p f using that by (simp add: get_update)
      then show ?thesis using k' None
        by (auto simp: commit_or_def count_derivation_in_caller_tx_def must_get_def Let_def split: if_splits)
    next
      case (Some r1)
      then show ?thesis using k' by (auto simp: commit_or_def count_exact[OF ok1 Some] split: if_splits)
    qed
  qed (use uncoupled(2) gd in \<open>simp add: gate_derivation_def\<close>)
  then show ?thesis
  proof
    assume "k' = k1"
    then show ?thesis using keeps_closes[of s s'] c ok1 assms(3) uncoupled(1) by simp
  next
    assume k': "k' = counted mid k1"
    have "keeps_solvent s s'" by (rule keeps_counted[OF c, of _ mid False]) (use k' uncoupled(1) in simp_all)
    then show ?thesis using counted_ok[OF ok1] assms(3) uncoupled(1) k' by simp
  qed
next
  case (precheck env mid k' res)
  obtain k1 g where gd: "gate_derivable env mid (ds_kernel s) = (k1, g)" by fastforce
  have c: "closes (ds_kernel s) k1" by (rule gate_closes(2)[OF assms(2) gd])
  have "k' = k1" using precheck(2) by (auto simp: check_derivation_def gd split: sum.splits if_splits)
  then show ?thesis using keeps_closes[of s s'] c closes_ok[OF c assms(2)] assms(3) precheck(1) by simp
next
  case (continuation env mid k' res)
  have c: "closes (ds_kernel s) k'" using gate_closes(1)[OF assms(2)] continuation(2) by (simp add: gate_active_def)
  then show ?thesis using keeps_closes[of s s'] closes_ok[OF c assms(2)] assms(3) continuation(1) by simp
next
  case (release rid artifact completion)
  have "ledger_ok s'" unfolding release release_derivation_def by (rule ledger_update) (simp_all add: reservation_key_def assms(3))
  moreover have "keeps_solvent s s'"
    by (rule keeps_content) (auto simp: release release_derivation_def open_row_def intro!: eq_refl held_update)
  ultimately show ?thesis using assms(2) release by (simp add: release_derivation_def)
next
  case (recover pending)
  have s': "s' = s\<lparr>ds_rows := update_where (\<lambda>r. dv_state r = DReserved)
      (\<lambda>r. r\<lparr>dv_state := DUnacknowledged, dv_recovered_at := Some (ds_now s)\<rparr>) (ds_rows s)\<rparr>"
    using recover by (simp add: recover_at_boot_def Let_def)
  have "ledger_ok s'" unfolding s' by (rule ledger_update) (simp_all add: reservation_key_def assms(3))
  moreover have "keeps_solvent s s'" by (rule keeps_content) (auto simp: s' intro!: eq_refl held_update)
  ultimately show ?thesis using assms(2) s' by simp
next
  case (reconcile rid ob found)
  show ?thesis
  proof (cases "s' = s")
    case True
    then show ?thesis using assms(2,3) keeps_closes[of s s] by simp
  next
    case False
    then obtain row where row: "select_first (\<lambda>r. dv_id r = rid) (ds_rows s) = Some row" "open_row rid row"
      using reconcile by (auto simp: reconcile_derivation_def open_row_def split: option.splits if_splits dest: select_first_SomeD)
    have m: "row \<in> set (ds_rows s)" using select_first_SomeD[OF row(1)] by simp
    have st: "\<not> (dv_state row \<noteq> DReserved \<and> dv_state row \<noteq> DUnacknowledged)" using row(2) by (auto simp: open_row_def)
    note r = reconcile[unfolded reconcile_derivation_def row(1) option.case if_not_P[OF st]]
    show ?thesis
    proof (cases "io_accepted ob")
      case True
      let ?f = "\<lambda>r. r\<lparr>dv_state := DReleased, dv_artifact := coalesce (io_artifact ob) (dv_artifact r),
                      dv_completion := coalesce (io_completion ob) (dv_completion r), dv_settled_by := Some (io_authority ob),
                      dv_settled_at := Some (ds_now s)\<rparr> :: derivation_row"
      have s': "s' = s\<lparr>ds_rows := update_where (open_row rid) ?f (ds_rows s)\<rparr>" using r True by simp
      have "ledger_ok s'" unfolding s' by (rule ledger_update) (simp_all add: reservation_key_def assms(3))
      moreover have "keeps_solvent s s'" by (rule keeps_content) (auto simp: s' open_row_def intro!: eq_refl held_update)
      ultimately show ?thesis using assms(2) s' by simp
    next
      case refused: False
      let ?f = "\<lambda>r. r\<lparr>dv_state := DRefunded, dv_settled_by := Some (io_authority ob), dv_settled_at := Some (ds_now s)\<rparr> :: derivation_row"
      have s': "s' = s\<lparr>ds_rows := update_where (open_row rid) ?f (ds_rows s), ds_kernel := refund_derivation (dv_mission row) (ds_kernel s)\<rparr>"
        using r refused False by (auto split: if_splits)
      have l: "ledger_ok (s\<lparr>ds_rows := update_where (open_row rid) ?f (ds_rows s)\<rparr>)"
        by (rule ledger_update) (simp_all add: reservation_key_def assms(3))
      have h: "held i (ds_rows s) = held i (ds_rows s') + (if dv_mission row = i then 1 else 0)" for i
        using held_refund[OF _ m row(2), of ?f i] assms(3) by (simp add: ledger_ok_def s')
      have "keeps_solvent s s'"
        by (rule keeps_refund[of _ "dv_mission row"]) (use h in \<open>auto simp: s' solvent_def\<close>)
      then show ?thesis using l refund_ok[OF assms(2)] by (simp add: s' ledger_ok_def)
    qed
  qed
next
  case (refund mid m)
  have "keeps_solvent s s'" by (rule keeps_refund[of _ mid]) (use refund in simp_all)
  then show ?thesis using refund_ok[OF assms(2)] assms(3) refund(1) by simp
qed

text \<open>
  C4. The derivation count.  From a well-formed store, whatever sequence of
  reservations, uncoupled derivations, settlements, boot recoveries, refunds, transitions,
  containments and other kernel operations follows, the count of a Mission never passes
  its limit and never falls below what the ledger holds: every operation counted and not
  refunded is still paid for, and no identity has two rows.
\<close>

theorem derivation_cap:
  assumes "derivation_step\<^sup>*\<^sup>* s s'" "kernel_ok (ds_kernel s)" "ledger_ok s"
    and "get_mission mid (ds_kernel s) = Some m" "int (held mid (ds_rows s)) \<le> m_derivation_count m"
    and "m_derivation_limit m = Some l" "m_derivation_count m \<le> l"
  shows "\<exists>m'. get_mission mid (ds_kernel s') = Some m' \<and> m_derivation_limit m' = Some l \<and>
    int (held mid (ds_rows s')) \<le> m_derivation_count m' \<and> m_derivation_count m' \<le> l \<and>
    distinct (map reservation_key (ds_rows s'))"
proof -
  have "kernel_ok (ds_kernel s') \<and> ledger_ok s' \<and>
    (\<exists>m'. get_mission mid (ds_kernel s') = Some m' \<and> m_derivation_limit m' = Some l \<and> solvent m' (held mid (ds_rows s')))"
    using assms(1)
  proof (induction rule: rtranclp_induct)
    case base
    then show ?case using assms(2-7) by (simp add: solvent_def)
  next
    case (step t u)
    then show ?case using step_keeps[of t u] unfolding keeps_solvent_def by metis
  qed
  then show ?thesis by (auto simp: solvent_def ledger_ok_def keyed_def)
qed

text \<open>One active Mission that may derive once, under a full narrowing declaration.\<close>

definition once_mission :: mission where
  "once_mission = (holder ''m1'' None root_entry)\<lparr>m_derivation_limit := Some 1\<rparr>"

definition once_store :: derivation_store where
  "once_store = new_derivation_store (sample_start\<lparr>missions := [once_mission]\<rparr>) None"

definition open_env :: gate_env where
  "open_env = \<lparr>ge_unicode = plain_unicode, ge_digest = (\<lambda>t. t), ge_narrowing = Full, ge_dependency = (\<lambda>i iss c. False)\<rparr>"

lemmas once_defs = once_store_def new_derivation_store_def once_mission_def holder_def sample_mission_def

lemma once_ok: "kernel_ok (ds_kernel once_store)" "ledger_ok once_store"
  by (simp_all add: kernel_ok_defs sample_defs sample_dates once_defs ledger_ok_def keyed_def DEFAULT_DERIVATION_RESERVATION_TTL_S_def)

lemma once_get: "get_mission ''m1'' (ds_kernel once_store) = Some once_mission"
  by (simp add: get_mission_def once_defs)

lemma once_find: "find_reservation iss mid op once_store = None"
  by (simp add: find_reservation_def once_store_def new_derivation_store_def)

lemma once_admissible: "admissible open_env (ds_kernel once_store) once_mission"
proof -
  let ?k = "ds_kernel once_store"
  have o: "observe_at n ?k 1000 False once_mission = once_mission" for n
    by (subst observe_at.simps)
      (simp add: Let_def observe_expiry_def due_by_def sample_dates once_defs split: nat.split)
  have "clock ?k = 1000" by (simp add: once_defs sample_start_def new_kernel_def)
  then have "standing ?k once_mission"
    using o by (simp add: standing_def observe_def) (simp add: due_schedule_transition_def once_defs)
  moreover have "ancestry n ?k once_mission = [once_mission]" for n by (cases n) (simp_all add: once_defs)
  moreover have "issuable_set open_env once_mission = [root_entry]"
    by (simp add: issuable_set_def issuable_authority_set_def once_defs)
  ultimately show ?thesis by (simp add: admissible_def lineage_stands_def open_env_def)
qed

theorem reserve_exact_witness:
  "\<exists>s' m row. reserve_derivation open_env ''m1'' ''op'' None once_store = (s', Inr (m, Reserved (to_reservation row))) \<and>
     ds_rows s' = [row] \<and> (\<exists>r'. get_mission ''m1'' (ds_kernel s') = Some r' \<and> m_derivation_count r' = 1)"
proof -
  obtain s' res where r: "reserve_derivation open_env ''m1'' ''op'' None once_store = (s', res)" by fastforce
  have z: "m_derivation_count once_mission = 0" "within_derivation_cap once_mission" "ds_rows once_store = []"
    by (simp_all add: within_derivation_cap_def once_defs)
  obtain r' where r': "get_mission ''m1'' (ds_kernel s') = Some r'" "derivation_outcome open_env ''m1'' ''op'' once_mission once_store r' s' res"
    using reserve_exact[OF once_ok once_get r] by blast
  then show ?thesis using r z by (auto simp: derivation_outcome_def once_find once_admissible)
qed

theorem derivation_cap_witness:
  "\<exists>s1 s2 m. fst (reserve_derivation open_env ''m1'' ''a'' None once_store) = s1 \<and>
     fst (reserve_derivation open_env ''m1'' ''b'' None s1) = s2 \<and>
     get_mission ''m1'' (ds_kernel s2) = Some m \<and> m_derivation_count m \<le> 1"
proof -
  obtain s1 a1 where r1: "reserve_derivation open_env ''m1'' ''a'' None once_store = (s1, a1)" by fastforce
  obtain s2 a2 where r2: "reserve_derivation open_env ''m1'' ''b'' None s1 = (s2, a2)" by fastforce
  have st: "derivation_step\<^sup>*\<^sup>* once_store s2"
    using derivation_step.reserve[OF r1] derivation_step.reserve[OF r2] by (meson converse_rtranclp_into_rtranclp rtranclp.rtrancl_refl)
  have z: "int (held ''m1'' (ds_rows once_store)) \<le> m_derivation_count once_mission" "m_derivation_limit once_mission = Some 1"
    "m_derivation_count once_mission \<le> 1"
    by (simp_all add: held_def once_defs)
  show ?thesis using derivation_cap[OF st once_ok once_get z] r1 r2 by auto
qed

end
