(* ===== verification/Discharge_Laws.thy ===== *)
theory Discharge_Laws
  imports Containment_Theorems
begin

text \<open>
  A latch on a well-formed kernel whose approved entries have the guarded shape: it
  succeeds, and every live child entry the discharged entries justify is latched too.
\<close>

section \<open>What a latch must reach\<close>

definition conditions_of :: "json \<Rightarrow> json list" where
  "conditions_of e = (case terminal_when_of e of None \<Rightarrow> [] | Some cs \<Rightarrow> cs)"

definition carries :: "(string \<Rightarrow> string) \<Rightarrow> string \<Rightarrow> json \<Rightarrow> bool" where
  "carries digest cd e = list_ex (\<lambda>c. condition_digest digest c = Some cd) (conditions_of e)"

definition justified_by :: "unicode \<Rightarrow> (string \<Rightarrow> string) \<Rightarrow> mission \<Rightarrow> string \<Rightarrow> json \<Rightarrow> bool" where
  "justified_by uc digest p ed e =
     (case justifying_entry uc e (m_authority_set p) of None \<Rightarrow> False | Some j \<Rightarrow> entry_digest digest (m_issuer p) j = ed)"

definition reached :: "unicode \<Rightarrow> (string \<Rightarrow> string) \<Rightarrow> string \<Rightarrow> mission \<Rightarrow> string \<Rightarrow> mission \<Rightarrow> bool" where
  "reached uc digest cd p ed c = (\<forall>e \<in> set (m_authority_set c). justified_by uc digest p ed e \<longrightarrow> carries digest cd e \<longrightarrow>
     entry_digest digest (m_issuer c) e \<in> set (m_discharged c))"

lemma guarded_conditions:
  assumes "is_authority_entry uc e" "c \<in> set (conditions_of e)"
  shows "condition_canonical_bytes c \<noteq> None"
proof -
  obtain cs where cs: "constraint_of ''terminal_when'' e = Some (JArr cs)" "c \<in> set cs"
    using assms(2) by (auto simp: conditions_of_def terminal_when_of_def split: option.splits json.splits list.splits)
  show ?thesis using entry_caps(2)[OF assms(1)] cs by (simp add: conditions_ok_def elements_of_iff)
qed

lemma find_condition_exact:
  "list_all (\<lambda>c. condition_canonical_bytes c \<noteq> None) cs \<Longrightarrow>
   \<exists>x. find_condition digest cd cs = Inr x \<and> (x \<noteq> None) = list_ex (\<lambda>c. condition_digest digest c = Some cd) cs"
  by (induction cs) (auto simp: condition_digest_def split: option.splits)

lemma child_latches_exact:
  "list_all (is_authority_entry uc) es \<Longrightarrow>
   \<exists>ls. child_latches uc digest p ed cd fresh seen es = Inr ls \<and>
     (\<forall>e \<in> set es. justified_by uc digest p ed e \<longrightarrow> carries digest cd e \<longrightarrow>
        entry_digest digest (m_issuer fresh) e \<in> set (m_discharged fresh) \<union> set seen \<union> set ls)"
proof (induction es arbitrary: seen)
  case Nil
  then show ?case by simp
next
  case (Cons e es)
  have es: "list_all (is_authority_entry uc) es" using Cons.prems by simp
  obtain x where x: "find_condition digest cd (conditions_of e) = Inr x" "(x \<noteq> None) = carries digest cd e"
    using find_condition_exact[of "conditions_of e" digest cd] guarded_conditions[of uc e] Cons.prems
    by (auto simp: carries_def list_all_iff)
  let ?d = "entry_digest digest (m_issuer fresh) e"
  obtain l1 where l1: "child_latches uc digest p ed cd fresh seen es = Inr l1"
    "\<forall>e \<in> set es. justified_by uc digest p ed e \<longrightarrow> carries digest cd e \<longrightarrow>
        entry_digest digest (m_issuer fresh) e \<in> set (m_discharged fresh) \<union> set seen \<union> set l1"
    using Cons.IH[OF es, of seen] by blast
  obtain l2 where l2: "child_latches uc digest p ed cd fresh (?d # seen) es = Inr l2"
    "\<forall>e \<in> set es. justified_by uc digest p ed e \<longrightarrow> carries digest cd e \<longrightarrow>
        entry_digest digest (m_issuer fresh) e \<in> set (m_discharged fresh) \<union> set (?d # seen) \<union> set l2"
    using Cons.IH[OF es, of "?d # seen"] by blast
  show ?case
  proof (cases "justified_by uc digest p ed e \<and> carries digest cd e \<and> ?d \<notin> set (m_discharged fresh) \<and> ?d \<notin> set seen")
    case True
    then obtain j where "justifying_entry uc e (m_authority_set p) = Some j" "entry_digest digest (m_issuer p) j = ed"
      by (auto simp: justified_by_def split: option.splits)
    moreover obtain c where "x = Some c" using True x(2) by auto
    ultimately have "child_latches uc digest p ed cd fresh seen (e # es) = Inr (?d # l2)"
      using True x(1) l2(1) by (simp add: conditions_of_def Let_def)
    then show ?thesis using l2(2) by auto
  next
    case False
    have "child_latches uc digest p ed cd fresh seen (e # es) = Inr l1"
    proof (cases "justified_by uc digest p ed e")
      case True
      then obtain j where "justifying_entry uc e (m_authority_set p) = Some j" "entry_digest digest (m_issuer p) j = ed"
        by (auto simp: justified_by_def split: option.splits)
      then show ?thesis using False True x l1(1) by (cases x) (auto simp: conditions_of_def Let_def)
    next
      case no: False
      then show ?thesis using l1(1) by (auto simp: justified_by_def split: option.splits)
    qed
    then show ?thesis using l1(2) False by auto
  qed
qed

lemma reached_evolves: "row_evolves c c' \<Longrightarrow> reached uc digest cd p ed c \<Longrightarrow> reached uc digest cd p ed c'"
proof -
  assume r: "row_evolves c c'" "reached uc digest cd p ed c"
  have "m_authority_set c' = m_authority_set c" "m_issuer c' = m_issuer c" "set (m_discharged c) \<subseteq> set (m_discharged c')"
    using r(1) content_fields[of c' c] by (simp_all add: row_evolves_def overlay_kept_def)
  then show ?thesis using r(2) by (auto simp: reached_def)
qed

section \<open>The latch succeeds\<close>

definition latched :: "mission \<Rightarrow> string list \<Rightarrow> mission" where
  "latched r ds = r\<lparr>m_discharged := m_discharged r @ ds, m_version := m_version r + 1\<rparr>"

lemma latched_simps [simp]:
  "m_id (latched r ds) = m_id r" "m_authority_set (latched r ds) = m_authority_set r" "m_issuer (latched r ds) = m_issuer r"
  "m_discharged (latched r ds) = m_discharged r @ ds" "m_state (latched r ds) = m_state r" "m_version (latched r ds) = m_version r + 1"
  by (simp_all add: latched_def)

lemma commit_latch_succeeds:
  assumes "kernel_ok k" "r \<in> set (missions k)" "m_state r \<noteq> Terminated" "list_all (is_authority_entry uc) (m_authority_set r)"
  shows "\<exists>k'. commit_latch uc digest r ds k = Inr (k', latched r ds)"
proof -
  let ?f = "\<lambda>m :: mission. m\<lparr>m_discharged := m_discharged r @ ds, m_version := m_version m + 1\<rparr>"
  let ?k1 = "update_missions (\<lambda>m. m_id m = m_id r) ?f k"
  have mc: "more_contained r (r\<lparr>m_discharged := m_discharged r @ ds\<rparr>)"
    by (simp add: more_contained_def prior_contained_def)
  have sub: "is_subset_set uc (effective_authority_set digest (r\<lparr>m_discharged := m_discharged r @ ds\<rparr>)) (effective_authority_set digest r)"
    by (rule effective_narrows[OF mc assms(4)])
  have "get_mission (m_id r) k = Some r" by (rule get_current[OF ok_sound[OF assms(1)] assms(2)])
  then have g: "get_mission (m_id r) ?k1 = Some (?f r)"
    by (simp add: get_mission_def update_missions_def select_update_where)
  have "outbox_fresh (k_outbox ?k1)" using ok_sound[OF assms(1)] by (simp add: sound_def update_missions_def)
  then obtain k' where "emit_commit (?f r) (Some (m_state (?f r)))
      (\<not> is_subset_set uc (effective_authority_set digest r) (effective_authority_set digest (r\<lparr>m_discharged := m_discharged r @ ds\<rparr>)))
      (iso_text (clock k)) no_extra ?k1 = Inr k'"
    using emit_commit_ok[of ?k1 "Some (m_state (?f r))"] by blast
  then show ?thesis by (simp add: commit_latch_def Let_def sub g latched_def)
qed

definition latches_ok :: "unicode \<Rightarrow> nat \<Rightarrow> latcher \<Rightarrow> bool" where
  "latches_ok uc n rec = (frames rec \<and> (\<forall>r ds k. kernel_ok k \<longrightarrow> guarded uc k \<longrightarrow> r \<in> set (missions k) \<longrightarrow> m_state r \<noteq> Terminated \<longrightarrow>
     height (shape_of k) (m_id r) < n \<longrightarrow>
     (\<exists>k' m. rec r ds k = (k', Inr (latched r ds)) \<and> m \<in> set (missions k') \<and> row_evolves (latched r ds) m)))"

definition done_for :: "unicode \<Rightarrow> (string \<Rightarrow> string) \<Rightarrow> string \<Rightarrow> mission \<Rightarrow> string \<Rightarrow> string \<Rightarrow> kernel \<Rightarrow> bool" where
  "done_for uc digest cd p ed i k = (\<exists>c \<in> set (missions k). m_id c = i \<and> (m_state c = Terminated \<or> reached uc digest cd p ed c))"

lemma done_for_closes: "done_for uc digest cd p ed i k \<Longrightarrow> closes k k' \<Longrightarrow> done_for uc digest cd p ed i k'"
proof -
  assume a: "done_for uc digest cd p ed i k" "closes k k'"
  then obtain c where c: "c \<in> set (missions k)" "m_id c = i" "m_state c = Terminated \<or> reached uc digest cd p ed c"
    unfolding done_for_def by blast
  obtain c' where c': "c' \<in> set (missions k')" "row_evolves c c'"
    using evolves_forward[of k k' c] a(2) c(1) by (auto simp: closes_def)
  have "m_state c' = Terminated \<or> reached uc digest cd p ed c'"
    using c(3) row_evolves_terminated[OF c'(2)] reached_evolves[OF c'(2)] by blast
  then show ?thesis using c' c(2) row_evolves_ids[OF c'(2)] unfolding done_for_def by auto
qed

lemma latch_children_succeeds:
  assumes "latches_ok uc n rec"
  shows "kernel_ok k \<Longrightarrow> guarded uc k \<Longrightarrow> distinct (map m_id cs) \<Longrightarrow> set cs \<subseteq> set (missions k) \<Longrightarrow>
    \<forall>c \<in> set cs. m_parent c = Some i \<and> height (shape_of k) (m_id c) < n \<Longrightarrow>
    \<exists>k'. latch_children rec uc digest p cd ed cs k = (k', Inr ()) \<and> (\<forall>c0 \<in> set cs. done_for uc digest cd p ed (m_id c0) k')"
proof (induction cs arbitrary: k)
  case Nil
  then show ?case by simp
next
  case (Cons c cs)
  have fr: "frames rec" using assms by (simp add: latches_ok_def)
  have c: "c \<in> set (missions k)" "height (shape_of k) (m_id c) < n" using Cons.prems(4,5) by simp_all
  have par: "\<forall>x \<in> set (c # cs). m_parent x = Some i" using Cons.prems(5) by blast
  obtain k1 fresh where ae: "apply_expiry c k = (k1, Inr fresh)" using apply_expiry_succeeds[OF Cons.prems(1) c(1)] by blast
  note f = expiry_frame[OF Cons.prems(1) c(1) ae]
  have g1: "guarded uc k1" by (rule guarded_closes[OF f(1) Cons.prems(2)])
  obtain ls where ls: "child_latches uc digest p ed cd fresh [] (m_authority_set fresh) = Inr ls"
    "\<forall>e \<in> set (m_authority_set fresh). justified_by uc digest p ed e \<longrightarrow> carries digest cd e \<longrightarrow>
        entry_digest digest (m_issuer fresh) e \<in> set (m_discharged fresh) \<union> set [] \<union> set ls"
    using child_latches_exact[OF guarded_row[OF g1 f(3)], of digest p ed cd fresh "[]"] by blast
  have "\<exists>k2. latch_children rec uc digest p cd ed (c # cs) k = latch_children rec uc digest p cd ed cs k2 \<and> closes k1 k2 \<and>
      only_below (shape_of k) {m_id c} k k2 \<and> done_for uc digest cd p ed (m_id c) k2"
  proof (cases "m_state fresh = Terminated")
    case True
    then have "done_for uc digest cd p ed (m_id c) k1" using f(3,4) unfolding done_for_def by blast
    then show ?thesis using True f(5) by (intro exI[of _ k1]) (simp add: ae)
  next
    case live: False
    show ?thesis
    proof (cases ls)
      case Nil
      then have "reached uc digest cd p ed fresh" using ls(2) by (auto simp: reached_def)
      then have "done_for uc digest cd p ed (m_id c) k1" using f(3,4) unfolding done_for_def by blast
      then show ?thesis using Nil live ls(1) f(5) by (intro exI[of _ k1]) (simp add: ae)
    next
      case (Cons d ds)
      have h: "height (shape_of k1) (m_id fresh) < n" using c(2) f(4) closes_shape[OF f(1)] by simp
      obtain k2 m where r: "rec fresh ls k1 = (k2, Inr (latched fresh ls))" "m \<in> set (missions k2)" "row_evolves (latched fresh ls) m"
        using assms f(2,3) g1 live h unfolding latches_ok_def by blast
      have b: "closes k1 k2" "only_below (shape_of k1) {m_id fresh} k1 k2"
        using fr f(2,3) live r(1) unfolding frames_def by blast+
      have "reached uc digest cd p ed (latched fresh ls)" using ls(2) by (auto simp: reached_def)
      then have "done_for uc digest cd p ed (m_id c) k2"
        using reached_evolves[OF r(3)] row_evolves_ids[OF r(3)] r(2) f(4) unfolding done_for_def by auto
      moreover have "only_below (shape_of k) {m_id c} k k2"
        using f(4,5) b(2) closes_shape[OF f(1)] only_below_trans by auto
      ultimately show ?thesis using live ls(1) r(1) b(1) Cons by (intro exI[of _ k2]) (simp add: ae)
    qed
  qed
  then obtain k2 where k2: "latch_children rec uc digest p cd ed (c # cs) k = latch_children rec uc digest p cd ed cs k2" "closes k1 k2"
    "only_below (shape_of k) {m_id c} k k2" "done_for uc digest cd p ed (m_id c) k2" by blast
  have c02: "closes k k2" by (rule closes_trans[OF f(1) k2(2)])
  have ok2: "kernel_ok k2" by (rule closes_ok[OF c02 Cons.prems(1)])
  have st: "set cs \<subseteq> set (missions k2)" by (rule siblings_stay[OF Cons.prems(1,4,3) par k2(3)])
  obtain k' where k': "latch_children rec uc digest p cd ed cs k2 = (k', Inr ())" "\<forall>c0 \<in> set cs. done_for uc digest cd p ed (m_id c0) k'"
    using Cons.IH[OF ok2 guarded_closes[OF c02 Cons.prems(2)] _ st] Cons.prems(3,5) closes_shape[OF c02] by auto
  have "closes k2 k'"
    using latch_children_frame[OF fr k'(1) ok2 st] Cons.prems(3) par by auto
  then show ?case using k' k2(1) done_for_closes[OF k2(4)] by simp
qed

lemma latch_each_succeeds:
  assumes "latches_ok uc n rec"
  shows "kernel_ok k \<Longrightarrow> guarded uc k \<Longrightarrow> height (shape_of k) (m_id p) \<le> n \<Longrightarrow>
    \<exists>k'. latch_each rec uc digest p cd ds k = (k', Inr ()) \<and>
      (\<forall>d \<in> set ds. \<forall>c0 \<in> set (find_children (m_id p) k). done_for uc digest cd p d (m_id c0) k')"
proof (induction ds arbitrary: k)
  case Nil
  then show ?case by simp
next
  case (Cons d ds)
  have fr: "frames rec" using assms by (simp add: latches_ok_def)
  note ch = children_listed[OF Cons.prems(1), of "m_id p"]
  have fl: "falls (height (shape_of k)) (shape_of k)" using sound_ready[OF ok_sound[OF Cons.prems(1)]] by (simp add: ready_def)
  have low: "\<forall>c \<in> set (find_children (m_id p) k). m_parent c = Some (m_id p) \<and> height (shape_of k) (m_id c) < n"
  proof
    fix c
    assume c: "c \<in> set (find_children (m_id p) k)"
    then have "(m_id c, Some (m_id p)) \<in> set (shape_of k)" by (force simp: find_children_def select_all_def shape_of_def)
    then show "m_parent c = Some (m_id p) \<and> height (shape_of k) (m_id c) < n"
      using falls_child[OF fl] Cons.prems(3) ch(3) c by fastforce
  qed
  obtain k1 where k1: "latch_children rec uc digest p cd d (find_children (m_id p) k) k = (k1, Inr ())"
    "\<forall>c0 \<in> set (find_children (m_id p) k). done_for uc digest cd p d (m_id c0) k1"
    using latch_children_succeeds[OF assms Cons.prems(1,2) ch(2,1) low] by blast
  have cl: "closes k k1" using latch_children_frame[OF fr k1(1) Cons.prems(1) ch] by blast
  have ok1: "kernel_ok k1" by (rule closes_ok[OF cl Cons.prems(1)])
  obtain k' where k': "latch_each rec uc digest p cd ds k1 = (k', Inr ())"
    "\<forall>d \<in> set ds. \<forall>c0 \<in> set (find_children (m_id p) k1). done_for uc digest cd p d (m_id c0) k'"
    using Cons.IH[OF ok1 guarded_closes[OF cl Cons.prems(2)]] Cons.prems(3) closes_shape[OF cl] by auto
  have cl': "closes k1 k'" using latch_each_frame[OF fr k'(1) ok1] by blast
  have same: "\<exists>c1 \<in> set (find_children (m_id p) k1). m_id c1 = m_id c0" if c0: "c0 \<in> set (find_children (m_id p) k)" for c0
  proof -
    obtain c1 where "c1 \<in> set (missions k1)" "row_evolves c0 c1"
      using evolves_forward[of k k1 c0] cl ch(1) c0 by (auto simp: closes_def)
    then show ?thesis using row_evolves_ids[of c0 c1] c0 by (auto simp: find_children_def select_all_def)
  qed
  have "done_for uc digest cd p x (m_id c0) k'" if "x \<in> set (d # ds)" "c0 \<in> set (find_children (m_id p) k)" for x c0
    using that k1(2) k'(2) done_for_closes[OF _ cl'] same[OF that(2)] by (metis set_ConsD)
  then show ?case using k1(1) k'(1) by auto
qed

lemma latch_n_ok: "latches_ok uc n (latch_n n uc digest cd)"
proof (induction n)
  case 0
  then show ?case unfolding latches_ok_def by (intro conjI latch_n_frames) simp
next
  case (Suc n)
  have "\<exists>k' m. latch_n (Suc n) uc digest cd r ds k = (k', Inr (latched r ds)) \<and> m \<in> set (missions k') \<and> row_evolves (latched r ds) m"
    if a: "kernel_ok k" "guarded uc k" "r \<in> set (missions k)" "m_state r \<noteq> Terminated" "height (shape_of k) (m_id r) < Suc n" for r ds k
  proof -
    obtain k1 where k1: "commit_latch uc digest r ds k = Inr (k1, latched r ds)"
      using commit_latch_succeeds[OF a(1,3,4) guarded_row[OF a(2,3)]] by blast
    note b = commit_latch_below[OF k1 a(1,3,4)]
    have g: "get_mission (m_id r) k1 = Some (latched r ds)"
      using commit_latch_closes(4)[OF k1 sound_keyed[OF ok_sound[OF a(1)]] a(3,4)] .
    have h: "height (shape_of k1) (m_id (latched r ds)) \<le> n" using a(5) closes_shape[OF b(1)] by simp
    obtain k2 where k2: "latch_each (latch_n n uc digest cd) uc digest (latched r ds) cd ds k1 = (k2, Inr ())"
      using latch_each_succeeds[OF Suc.IH b(2) guarded_closes[OF b(1) a(2)] h] by blast
    have "closes k1 k2" using latch_each_frame[OF latch_n_frames k2 b(2)] by blast
    then obtain m where "m \<in> set (missions k2)" "row_evolves (latched r ds) m"
      using evolves_forward[of k1 k2] get_in[OF g] by (auto simp: closes_def)
    then show ?thesis using k1 k2 by auto
  qed
  then show ?case using latch_n_frames unfolding latches_ok_def by blast
qed

lemma latch_discharge_exact:
  assumes "kernel_ok k" "guarded uc k" "r \<in> set (missions k)" "m_state r \<noteq> Terminated"
  shows "\<exists>k1 k'. commit_latch uc digest r ds k = Inr (k1, latched r ds) \<and>
    propagate_latch uc digest cd (latched r ds) ds k1 = (k', Inr ()) \<and>
    latch_discharge uc digest cd r ds k = (k', Inr (latched r ds)) \<and> kernel_ok k' \<and> closes k k' \<and>
    (\<exists>m. get_mission (m_id r) k' = Some m \<and> row_evolves (latched r ds) m) \<and>
    (\<forall>d \<in> set ds. \<forall>c0 \<in> set (find_children (m_id r) k). done_for uc digest cd r d (m_id c0) k')"
proof -
  obtain k1 where k1: "commit_latch uc digest r ds k = Inr (k1, latched r ds)"
    using commit_latch_succeeds[OF assms(1,3,4) guarded_row[OF assms(2,3)]] by blast
  note b = commit_latch_below[OF k1 assms(1,3,4)]
  have key: "mission_keyed k" by (rule sound_keyed[OF ok_sound[OF assms(1)]])
  note c = commit_latch_closes[OF k1 key assms(3,4)]
  have h: "height (shape_of k1) (m_id (latched r ds)) \<le> length (missions k1)"
    using height_le[of "shape_of k1" "m_id (latched r ds)"] by (simp add: shape_of_def)
  obtain k' where k': "propagate_latch uc digest cd (latched r ds) ds k1 = (k', Inr ())"
    "\<forall>d \<in> set ds. \<forall>c0 \<in> set (find_children (m_id (latched r ds)) k1). done_for uc digest cd (latched r ds) d (m_id c0) k'"
    using latch_each_succeeds[OF latch_n_ok b(2) guarded_closes[OF b(1) assms(2)] h] unfolding propagate_latch_def by blast
  have cl: "closes k1 k'" by (rule propagate_latch_closes[OF k'(1) b(2)])
  have kids: "c0 \<in> set (find_children (m_id r) k1)" if c0: "c0 \<in> set (find_children (m_id r) k)" for c0
  proof -
    have "c0 \<in> set (missions k)" "m_parent c0 = Some (m_id r)" using c0 by (auto simp: find_children_def select_all_def)
    moreover have "m_id c0 \<noteq> m_id r"
    proof -
      have "falls (height (shape_of k)) (shape_of k)" using sound_ready[OF ok_sound[OF assms(1)]] by (simp add: ready_def)
      moreover have "(m_id c0, Some (m_id r)) \<in> set (shape_of k)" using c0 by (force simp: find_children_def select_all_def shape_of_def)
      ultimately show ?thesis using falls_child by fastforce
    qed
    ultimately show ?thesis unfolding find_children_def select_all_def c(3) by (force simp: update_where_def)
  qed
  have same: "done_for uc digest cd (latched r ds) d i k = done_for uc digest cd r d i k" for d i k
  proof -
    have "justified_by uc digest (latched r ds) d e = justified_by uc digest r d e" for e
      by (simp add: justified_by_def split: option.split)
    then show ?thesis by (simp add: done_for_def reached_def)
  qed
  have "\<exists>m. get_mission (m_id r) k' = Some m \<and> row_evolves (latched r ds) m"
    using evolves_get[OF _ c(4)] cl by (simp add: closes_def)
  then show ?thesis
    using k1 k' kids same closes_ok[OF cl b(2)] closes_trans[OF b(1) cl] by (simp add: latch_discharge_def)
qed

end
