(* ===== verification/Discharge.thy ===== *)
theory Discharge
  imports Discharge_Laws
begin

text \<open>
  Entry discharge: the \<open>discharge\<close> funnel of \<^verbatim>\<open>kernel.ts\<close> with its read-only twin
  \<open>authorizeDischarge\<close>, the vocabulary of \<^verbatim>\<open>kernel/discharge.ts\<close>, and the stores beside
  it: the pinned mappings (\<^verbatim>\<open>discharge-pin-store.ts\<close>), the condition selectors
  (\<^verbatim>\<open>discharge-selector-store.ts\<close>) and the recorded occurrences (\<open>DischargeEventStore\<close> of
  \<^verbatim>\<open>lifecycle-idempotency.ts\<close>).

  The carryover tables are data of the store, written by the carryover body; the random
  selector is drawn from a counter.
\<close>

section \<open>Mappings and pins\<close>

record discharge_mapping =
  mp_id :: string
  mp_version :: string
  mp_event_types :: "string list option"
  mp_principals :: "string list"

record discharge_policy =
  dp_policies :: "string \<Rightarrow> discharge_mapping option"
  dp_baseline :: "string \<Rightarrow> discharge_mapping option"

definition resolve_condition_mapping :: "discharge_policy option \<Rightarrow> json \<Rightarrow> discharge_mapping option" where
  "resolve_condition_mapping policy c =
     (case opt_string (jget ''discharge_authority'' c) of
        Some a \<Rightarrow> Option.bind policy (\<lambda>p. dp_policies p a)
      | None \<Rightarrow> Option.bind policy (\<lambda>p. dp_baseline p (the (opt_string (jget ''event_type'' c)))))"

definition mapping_permits :: "discharge_mapping \<Rightarrow> string \<Rightarrow> string \<Rightarrow> bool" where
  "mapping_permits m who event_type =
     ((case mp_event_types m of None \<Rightarrow> True | Some ts \<Rightarrow> event_type \<in> set ts) \<and> who \<in> set (mp_principals m))"

record pin_row =
  pin_mission :: string
  pin_entry :: string
  pin_condition :: string
  pin_mapping :: discharge_mapping

definition pin_key :: "pin_row \<Rightarrow> string \<times> string \<times> string" where
  "pin_key r = (pin_mission r, pin_entry r, pin_condition r)"

definition pin_in_caller_tx :: "string \<Rightarrow> string \<Rightarrow> string \<Rightarrow> discharge_mapping \<Rightarrow> pin_row table \<Rightarrow> pin_row table" where
  "pin_in_caller_tx mid ed cd m t =
     fst (insert_or_ignore pin_key \<lparr>pin_mission = mid, pin_entry = ed, pin_condition = cd, pin_mapping = m\<rparr> t)"

definition find_pin :: "string \<Rightarrow> string \<Rightarrow> string \<Rightarrow> pin_row table \<Rightarrow> discharge_mapping option" where
  "find_pin mid ed cd t = map_option pin_mapping (select_first (\<lambda>r. pin_key r = (mid, ed, cd)) t)"

section \<open>Condition selectors\<close>

record selector_row =
  cs_selector :: string
  cs_target :: "string \<times> string \<times> string"
  cs_created_at :: int

definition find_selector :: "string \<times> string \<times> string \<Rightarrow> selector_row table \<Rightarrow> string option" where
  "find_selector target t = map_option cs_selector (select_first (\<lambda>r. cs_target r = target) t)"

definition resolve_selector :: "string \<Rightarrow> selector_row table \<Rightarrow> (string \<times> string \<times> string) option" where
  "resolve_selector sel t = map_option cs_target (select_first (\<lambda>r. cs_selector r = sel) t)"

text \<open>\<open>minted\<close> is the random selector of the call; the insert is ignored on a conflict.\<close>

definition selector_for ::
    "string \<Rightarrow> int \<Rightarrow> string \<times> string \<times> string \<Rightarrow> selector_row table \<Rightarrow> kernel_error + selector_row table \<times> string" where
  "selector_for minted now_ms target t =
     (case find_selector target t of
        Some x \<Rightarrow> Inr (t, x)
      | None \<Rightarrow>
          let t1 = (if minted \<in> set (map cs_selector t) \<or> target \<in> set (map cs_target t) then t
                    else t @ [\<lparr>cs_selector = minted, cs_target = target, cs_created_at = now_ms\<rparr>])
          in case find_selector target t1 of None \<Rightarrow> Inl (InvalidCall minted) | Some x \<Rightarrow> Inr (t1, x))"

section \<open>Requests and results\<close>

datatype target_form = By_selector string | By_digests string string

record discharge_request =
  dq_target :: target_form
  dq_authority :: string
  dq_event_type :: string
  dq_event_id :: string
  dq_evidence_ref :: "string option"
  dq_evidence_digest :: "string option"
  dq_observed_at :: "string option"

datatype discharge_outcome = Discharged | Already_discharged | Terminal_noop

record discharge_result =
  rs_target :: target_form
  rs_event_id :: string
  rs_outcome :: discharge_outcome
  rs_prior_version :: int
  rs_new_version :: int
  rs_forwarded_from :: "(string \<times> string) option"

datatype refusal_reason =
    Unknown_mission | Unknown_selector | Unknown_entry | No_terminal_when | Unknown_condition
  | Event_type_mismatch | Unpinned_mapping | Unauthorized_target

datatype discharge_failure =
    Not_found_for refusal_reason | Assertion_conflict | Traversal_failed string | Kernel_failure kernel_error

definition optional_member :: "string \<Rightarrow> string option \<Rightarrow> (string \<times> json) list" where
  "optional_member k v = (case v of None \<Rightarrow> [] | Some s \<Rightarrow> [(k, JStr s)])"

definition assertion_fingerprint ::
    "(string \<Rightarrow> string) \<Rightarrow> string \<Rightarrow> string \<Rightarrow> string \<Rightarrow> discharge_request \<Rightarrow> string" where
  "assertion_fingerprint digest mid ed cd q =
     ''sha-256:'' @ digest (canonicalize (JObj
       ([(''operation'', JStr ''discharge''), (''mission_id'', JStr mid), (''entry_digest'', JStr ed),
         (''condition_digest'', JStr cd), (''event_type'', JStr (dq_event_type q)), (''event_id'', JStr (dq_event_id q))] @
        optional_member ''evidence_ref'' (dq_evidence_ref q) @
        optional_member ''evidence_digest'' (dq_evidence_digest q) @
        optional_member ''observed_at'' (dq_observed_at q))))"

section \<open>Recorded occurrences\<close>

record event_key =
  ek_authority :: string
  ek_mission :: string
  ek_entry :: string
  ek_condition :: string
  ek_event :: string

record stored_event =
  se_fingerprint :: string
  se_outcome :: discharge_outcome
  se_prior_version :: int
  se_new_version :: int
  se_resolved :: "(string \<times> string) option"

record discharge_event_row =
  ev_key :: event_key
  ev_stored :: stored_event
  ev_received_at :: string
  ev_evidence :: "string option \<times> string option \<times> string option"
  ev_created_at :: int
  ev_expires_at :: int

definition DEFAULT_DISCHARGE_EVENT_TTL_S :: int where
  "DEFAULT_DISCHARGE_EVENT_TTL_S = 86400"

definition find_occurrence ::
    "bool \<Rightarrow> event_key \<Rightarrow> int \<Rightarrow> discharge_event_row table \<Rightarrow> discharge_event_row table \<times> stored_event option" where
  "find_occurrence purge key now_ms t =
     (case select_first (\<lambda>r. ev_key r = key) t of
        None \<Rightarrow> (t, None)
      | Some r \<Rightarrow>
          if now_ms > ev_expires_at r then (if purge then delete_where (\<lambda>r. ev_key r = key) t else t, None)
          else (t, Some (ev_stored r)))"

definition record_occurrence ::
    "int \<Rightarrow> int \<Rightarrow> event_key \<Rightarrow> stored_event \<Rightarrow> discharge_request \<Rightarrow> discharge_event_row table \<Rightarrow> discharge_event_row table" where
  "record_occurrence retention_ms now_ms key st q t =
     fst (insert_or_ignore ev_key
       \<lparr>ev_key = key, ev_stored = st, ev_received_at = iso_text now_ms,
        ev_evidence = (dq_evidence_ref q, dq_evidence_digest q, dq_observed_at q),
        ev_created_at = now_ms, ev_expires_at = now_ms + retention_ms\<rparr>
       (delete_where (\<lambda>r. ev_key r = key \<and> ev_expires_at r < now_ms) t))"

section \<open>The carried chain\<close>

record carryover_map_row =
  cm_issuer :: string
  cm_mission :: string
  cm_replacement :: "string option"
  cm_pairs :: "(string \<times> string) list option"

record carryover_plan_row =
  cp_plan :: string
  cp_issuer :: string
  cp_replacement :: string
  cp_old_child :: string

record carryover_tables =
  co_replacements :: "carryover_plan_row table"
  co_results :: "(string \<times> carryover_map_row list) table"

record entry_discharge =
  dc_kernel :: kernel
  dc_pins :: "pin_row table"
  dc_selectors :: "selector_row table"
  dc_events :: "discharge_event_row table"
  dc_carryover :: "carryover_tables option"
  dc_retention_ms :: int

abbreviation dc_now :: "entry_discharge \<Rightarrow> int" where
  "dc_now s \<equiv> clock (dc_kernel s)"

definition carried_map :: "carryover_tables \<Rightarrow> string \<Rightarrow> string \<Rightarrow> string \<Rightarrow> carryover_map_row list option" where
  "carried_map co iss replacement old =
     map_option snd (List.find (\<lambda>r. list_ex (\<lambda>p. cp_issuer p = iss \<and> cp_replacement p = replacement \<and>
         cp_old_child p = old \<and> cp_plan p = fst r) (co_replacements co)) (co_results co))"

definition carried_row_of :: "carryover_tables option \<Rightarrow> mission \<Rightarrow> (string \<times> (string \<times> string) list) option" where
  "carried_row_of co r =
     (case non_empty (Option.bind (m_termination r) t_carried_to) of
        None \<Rightarrow> None
      | Some carried_to \<Rightarrow>
          (case Option.bind co (\<lambda>t. carried_map t (m_issuer r) carried_to (m_id r)) of
             None \<Rightarrow> None
           | Some rows \<Rightarrow>
               (case List.find (\<lambda>x. cm_replacement x \<noteq> None \<and> cm_issuer x = m_issuer r \<and> cm_mission x = m_id r) rows of
                  None \<Rightarrow> None
                | Some x \<Rightarrow>
                    if cm_replacement x \<noteq> Some carried_to then None
                    else Some (carried_to, case cm_pairs x of None \<Rightarrow> [] | Some ps \<Rightarrow> ps))))"

datatype resolution = Resolved mission string | Absent | Chain_broken string

definition holds_condition :: "(string \<Rightarrow> string) \<Rightarrow> mission \<Rightarrow> string \<Rightarrow> string \<Rightarrow> bool" where
  "holds_condition digest m ed cd =
     (case List.find (\<lambda>e. entry_digest digest (m_issuer m) e = ed) (m_authority_set m) of
        None \<Rightarrow> False
      | Some e \<Rightarrow> (case terminal_when_of e of None \<Rightarrow> False | Some cs \<Rightarrow> list_ex (\<lambda>c. condition_digest digest c = Some cd) cs))"

fun resolve_carried ::
    "nat \<Rightarrow> (string \<Rightarrow> string) \<Rightarrow> bool \<Rightarrow> carryover_tables option \<Rightarrow> string \<Rightarrow> string list \<Rightarrow> bool \<Rightarrow> mission \<Rightarrow> string \<Rightarrow>
     kernel \<Rightarrow> kernel \<times> (kernel_error + resolution)" where
  "resolve_carried 0 digest materialize co cd visited hopped current ed k = (k, Inl OutOfFuel)"
| "resolve_carried (Suc n) digest materialize co cd visited hopped current ed k =
     (case carried_row_of co current of
        None \<Rightarrow> (k, Inr (if hopped then Resolved current ed else Absent))
      | Some (replacement, pairs) \<Rightarrow>
          (case List.find (\<lambda>p. fst p = ed) pairs of
             None \<Rightarrow> (k, Inr Absent)
           | Some pair \<Rightarrow>
               if replacement \<in> set visited then (k, Inr (Chain_broken ''cycle''))
               else
                 (case get_mission replacement k of
                    None \<Rightarrow> (k, Inr (if tombstone_exists (m_issuer current) replacement (k_tombstones k) then Absent
                                    else Chain_broken ''missing''))
                  | Some nxt \<Rightarrow>
                      if \<not> holds_condition digest nxt (snd pair) cd then (k, Inr (Chain_broken ''pairing''))
                      else if materialize then
                        (case apply_expiry nxt k of
                           (k1, Inl e) \<Rightarrow> (k1, Inl e)
                         | (k1, Inr fresh) \<Rightarrow>
                             resolve_carried n digest materialize co cd (replacement # visited) True fresh (snd pair) k1)
                      else resolve_carried n digest materialize co cd (replacement # visited) True nxt (snd pair) k)))"

section \<open>The route and the authorization\<close>

definition target_in ::
    "(string \<Rightarrow> string) \<Rightarrow> selector_row table \<Rightarrow> mission \<Rightarrow> discharge_request \<Rightarrow> discharge_failure + string \<times> string" where
  "target_in digest sels r q =
     (let target = (case dq_target q of
          By_digests ed cd \<Rightarrow> Inr (ed, cd)
        | By_selector sel \<Rightarrow>
            (case resolve_selector sel sels of
               None \<Rightarrow> Inl (Not_found_for Unknown_selector)
             | Some (mid, ed, cd) \<Rightarrow> if mid \<noteq> m_id r then Inl (Not_found_for Unknown_selector) else Inr (ed, cd)))
      in case target of
           Inl e \<Rightarrow> Inl e
         | Inr (ed, cd) \<Rightarrow>
             (case List.find (\<lambda>e. entry_digest digest (m_issuer r) e = ed) (m_authority_set r) of
                None \<Rightarrow> Inl (Not_found_for Unknown_entry)
              | Some e \<Rightarrow>
                  (case terminal_when_of e of
                     None \<Rightarrow> Inl (Not_found_for No_terminal_when)
                   | Some cs \<Rightarrow>
                       (case find_condition digest cd cs of
                          Inl err \<Rightarrow> Inl (Kernel_failure err)
                        | Inr None \<Rightarrow> Inl (Not_found_for Unknown_condition)
                        | Inr (Some c) \<Rightarrow>
                            if opt_string (jget ''event_type'' c) \<noteq> Some (dq_event_type q)
                            then Inl (Not_found_for Event_type_mismatch) else Inr (ed, cd)))))"

definition authorize_target :: "pin_row table \<Rightarrow> string \<times> string \<Rightarrow> string \<Rightarrow> discharge_request \<Rightarrow> discharge_failure option" where
  "authorize_target pins target cd q =
     (case find_pin (fst target) (snd target) cd pins of
        None \<Rightarrow> Some (Not_found_for Unpinned_mapping)
      | Some m \<Rightarrow> if mapping_permits m (dq_authority q) (dq_event_type q) then None
                  else Some (Not_found_for Unauthorized_target))"

datatype route = Recorded | Own_latch | Absent_route | Direct | Broken_route string | Forwarded mission string

definition discharge_route ::
    "(string \<Rightarrow> string) \<Rightarrow> bool \<Rightarrow> carryover_tables option \<Rightarrow> mission \<Rightarrow> string \<Rightarrow> string \<Rightarrow> stored_event option \<Rightarrow>
     kernel \<Rightarrow> kernel \<times> (kernel_error + route \<times> (string \<times> string))" where
  "discharge_route digest materialize co r ed cd recorded k =
     (let named = (m_id r, ed)
      in case recorded of
           Some se \<Rightarrow> (k, Inr (Recorded, case se_resolved se of None \<Rightarrow> named | Some t \<Rightarrow> t))
         | None \<Rightarrow>
             if carried_row_of co r = None then (k, Inr (Direct, named))
             else if ed \<in> set (m_discharged r) then (k, Inr (Own_latch, named))
             else
               (case resolve_carried (Suc (fuel_for k)) digest materialize co cd [m_id r] False r ed k of
                  (k1, Inl e) \<Rightarrow> (k1, Inl e)
                | (k1, Inr (Chain_broken reason)) \<Rightarrow> (k1, Inr (Broken_route reason, named))
                | (k1, Inr Absent) \<Rightarrow> (k1, Inr (Absent_route, named))
                | (k1, Inr (Resolved m d)) \<Rightarrow> (k1, Inr (Forwarded m d, (m_id m, d)))))"

definition event_key_of :: "discharge_request \<Rightarrow> string \<Rightarrow> string \<Rightarrow> string \<Rightarrow> event_key" where
  "event_key_of q mid ed cd =
     \<lparr>ek_authority = dq_authority q, ek_mission = mid, ek_entry = ed, ek_condition = cd, ek_event = dq_event_id q\<rparr>"

text \<open>The read-only twin.\<close>

definition authorize_discharge ::
    "(string \<Rightarrow> string) \<Rightarrow> string \<Rightarrow> discharge_request \<Rightarrow> entry_discharge \<Rightarrow> discharge_failure option" where
  "authorize_discharge digest mid q s =
     (case get_mission mid (dc_kernel s) of
        None \<Rightarrow> Some (Not_found_for Unknown_mission)
      | Some r \<Rightarrow>
          (case target_in digest (dc_selectors s) r q of
             Inl e \<Rightarrow> Some e
           | Inr (ed, cd) \<Rightarrow>
               let recorded = snd (find_occurrence False (event_key_of q (m_id r) ed cd) (dc_now s) (dc_events s))
               in case snd (discharge_route digest False (dc_carryover s) r ed cd recorded (dc_kernel s)) of
                    Inl e \<Rightarrow> Some (Kernel_failure e)
                  | Inr (route, target) \<Rightarrow> authorize_target (dc_pins s) target cd q))"

section \<open>Discharging\<close>

definition record_outcome ::
    "event_key \<Rightarrow> string \<Rightarrow> discharge_request \<Rightarrow> (string \<times> string) option \<Rightarrow> discharge_result \<Rightarrow> entry_discharge \<Rightarrow> entry_discharge" where
  "record_outcome key fingerprint q resolved rs s =
     s\<lparr>dc_events := record_occurrence (dc_retention_ms s) (dc_now s) key
         \<lparr>se_fingerprint = fingerprint, se_outcome = rs_outcome rs, se_prior_version = rs_prior_version rs,
          se_new_version = rs_new_version rs, se_resolved = resolved\<rparr> q (dc_events s)\<rparr>"

definition apply_discharge ::
    "unicode \<Rightarrow> (string \<Rightarrow> string) \<Rightarrow> mission \<Rightarrow> string \<Rightarrow> string \<Rightarrow> event_key \<Rightarrow> string \<Rightarrow> discharge_request \<Rightarrow>
     (string \<times> string) option \<Rightarrow> bool \<Rightarrow> entry_discharge \<Rightarrow> entry_discharge \<times> (discharge_failure + mission \<times> discharge_result)" where
  "apply_discharge uc digest r ed cd key fingerprint q forwarded_from latch_first s =
     (let resolved = map_option (\<lambda>f. (m_id r, ed)) forwarded_from;
          is_latched = ed \<in> set (m_discharged r);
          result = (\<lambda>outcome pv nv. \<lparr>rs_target = dq_target q, rs_event_id = dq_event_id q, rs_outcome = outcome,
                      rs_prior_version = pv, rs_new_version = nv, rs_forwarded_from = forwarded_from\<rparr>)
      in if m_state r = Terminated \<and> \<not> (latch_first \<and> is_latched) then
           let rs = result Terminal_noop (m_version r) (m_version r)
           in (record_outcome key fingerprint q resolved rs s, Inr (r, rs))
         else if is_latched then
           let rs = result Already_discharged (m_version r) (m_version r)
           in (record_outcome key fingerprint q resolved rs s, Inr (r, rs))
         else
           (case commit_latch uc digest r [ed] (dc_kernel s) of
              Inl e \<Rightarrow> (s, Inl (Kernel_failure e))
            | Inr (k1, fresh) \<Rightarrow>
                let rs = result Discharged (m_version r) (m_version fresh);
                    s1 = record_outcome key fingerprint q resolved rs (s\<lparr>dc_kernel := k1\<rparr>)
                in (case propagate_latch uc digest cd fresh [ed] k1 of
                      (k2, Inl e) \<Rightarrow> (s1\<lparr>dc_kernel := k2\<rparr>, Inl (Kernel_failure e))
                    | (k2, Inr _) \<Rightarrow> (s1\<lparr>dc_kernel := k2\<rparr>, Inr (fresh, rs)))))"

definition replay_result :: "discharge_request \<Rightarrow> stored_event \<Rightarrow> (string \<times> string) option \<Rightarrow> discharge_result" where
  "replay_result q se forwarded =
     \<lparr>rs_target = dq_target q, rs_event_id = dq_event_id q, rs_outcome = se_outcome se,
      rs_prior_version = se_prior_version se, rs_new_version = se_new_version se, rs_forwarded_from = forwarded\<rparr>"

definition replay_discharge ::
    "mission \<Rightarrow> string \<Rightarrow> stored_event \<Rightarrow> discharge_request \<Rightarrow> entry_discharge \<Rightarrow>
     entry_discharge \<times> (discharge_failure + mission \<times> discharge_result)" where
  "replay_discharge r fingerprint se q s =
     (if se_fingerprint se \<noteq> fingerprint then (s, Inl Assertion_conflict)
      else case se_resolved se of
        Some (mid, ed) \<Rightarrow>
          if mid \<noteq> m_id r then
            (case get_mission mid (dc_kernel s) of
               None \<Rightarrow> (s, Inl (Not_found_for Unknown_mission))
             | Some described \<Rightarrow> (s, Inr (described, replay_result q se (Some (m_issuer r, m_id r)))))
          else (s, Inr (r, replay_result q se None))
      | None \<Rightarrow> (s, Inr (r, replay_result q se None)))"

definition discharge_as ::
    "unicode \<Rightarrow> (string \<Rightarrow> string) \<Rightarrow> mission \<Rightarrow> string \<Rightarrow> string \<Rightarrow> discharge_request \<Rightarrow> entry_discharge \<Rightarrow>
     entry_discharge \<times> (discharge_failure + mission \<times> discharge_result)" where
  "discharge_as uc digest r ed cd q s0 =
     (let key = event_key_of q (m_id r) ed cd;
          fingerprint = assertion_fingerprint digest (m_id r) ed cd q;
          found = find_occurrence True key (dc_now s0) (dc_events s0);
          s = s0\<lparr>dc_events := fst found\<rparr>
      in case discharge_route digest True (dc_carryover s) r ed cd (snd found) (dc_kernel s) of
           (k1, Inl e) \<Rightarrow> (s\<lparr>dc_kernel := k1\<rparr>, Inl (Kernel_failure e))
         | (k1, Inr (route, target)) \<Rightarrow>
             let s1 = s\<lparr>dc_kernel := k1\<rparr>
             in case authorize_target (dc_pins s1) target cd q of
                  Some e \<Rightarrow> (s1, Inl e)
                | None \<Rightarrow>
                    (case snd found of
                       Some se \<Rightarrow> replay_discharge r fingerprint se q s1
                     | None \<Rightarrow>
                         (case route of
                            Own_latch \<Rightarrow> apply_discharge uc digest r ed cd key fingerprint q None True s1
                          | Broken_route reason \<Rightarrow> (s1, Inl (Traversal_failed reason))
                          | Forwarded m d \<Rightarrow>
                              apply_discharge uc digest m d cd key fingerprint q (Some (m_issuer r, m_id r)) False s1
                          | _ \<Rightarrow> apply_discharge uc digest r ed cd key fingerprint q None False s1)))"

definition discharge ::
    "unicode \<Rightarrow> (string \<Rightarrow> string) \<Rightarrow> string \<Rightarrow> discharge_request \<Rightarrow> entry_discharge \<Rightarrow>
     entry_discharge \<times> (discharge_failure + mission \<times> discharge_result)" where
  "discharge uc digest mid q s =
     (case get_mission mid (dc_kernel s) of
        None \<Rightarrow> (s, Inl (Not_found_for Unknown_mission))
      | Some found \<Rightarrow>
          (case apply_expiry found (dc_kernel s) of
             (k1, Inl e) \<Rightarrow> (s\<lparr>dc_kernel := k1\<rparr>, Inl (Kernel_failure e))
           | (k1, Inr r) \<Rightarrow>
               (case target_in digest (dc_selectors s) r q of
                  Inl e \<Rightarrow> (s\<lparr>dc_kernel := k1\<rparr>, Inl e)
                | Inr (ed, cd) \<Rightarrow> discharge_as uc digest r ed cd q (s\<lparr>dc_kernel := k1\<rparr>))))"

end
