(* ===== verification/Discharge_Theorems.thy ===== *)
theory Discharge_Theorems
  imports Discharge
begin

text \<open>
  What a discharge answers, whom it obeys and how far it reaches, and what a retry of a
  recorded occurrence gets.
\<close>

section \<open>The chain ends\<close>

definition ids_of :: "kernel \<Rightarrow> string set" where
  "ids_of k = m_id ` set (missions k)"

lemma closes_ids: "closes k k' \<Longrightarrow> ids_of k' = ids_of k"
  using evolves_ids[of k k'] unfolding closes_def ids_of_def by (metis set_map)

lemma resolve_total:
  "kernel_ok k \<Longrightarrow> card (ids_of k - set visited) < n \<Longrightarrow> (hopped \<Longrightarrow> current \<in> set (missions k)) \<Longrightarrow>
   \<exists>k' res. resolve_carried n digest materialize co cd visited hopped current ed k = (k', Inr res) \<and> kernel_ok k' \<and> closes k k' \<and>
     (\<forall>m d. res = Resolved m d \<longrightarrow> m \<in> set (missions k') \<and> (hopped \<and> m = current \<or> m_id m \<notin> set visited))"
proof (induction n arbitrary: visited hopped current ed k)
  case 0
  then show ?case by simp
next
  case (Suc n)
  show ?case
  proof (cases "carried_row_of co current")
    case None
    then show ?thesis using Suc.prems by simp
  next
    case (Some rp)
    obtain replacement pairs where rp: "rp = (replacement, pairs)" by fastforce
    show ?thesis
    proof (cases "List.find (\<lambda>p. fst p = ed) pairs")
      case None
      then show ?thesis using Suc.prems Some rp by simp
    next
      case pair: (Some pair)
      show ?thesis
      proof (cases "replacement \<in> set visited \<or> get_mission replacement k = None")
        case True
        then show ?thesis using Suc.prems Some rp pair by (cases "replacement \<in> set visited") simp_all
      next
        case False
        then obtain nxt where nxt: "get_mission replacement k = Some nxt" by auto
        have m: "nxt \<in> set (missions k)" "m_id nxt = replacement" using get_in[OF nxt] by simp_all
        show ?thesis
        proof (cases "holds_condition digest nxt (snd pair) cd")
          case no: False
          then show ?thesis using Suc.prems Some rp pair False nxt by simp
        next
          case holds: True
          have fin: "finite (ids_of k - set visited)" by (simp add: ids_of_def)
          have "replacement \<in> ids_of k - set visited" using m False by (auto simp: ids_of_def)
          then have "card (ids_of k - set (replacement # visited)) < card (ids_of k - set visited)"
            by (intro psubset_card_mono[OF fin]) auto
          then have less: "card (ids_of k - set (replacement # visited)) < n" using Suc.prems(2) by simp
          obtain k1 fresh where ae: "apply_expiry nxt k = (k1, Inr fresh)" using apply_expiry_succeeds[OF Suc.prems(1) m(1)] by blast
          note f = expiry_frame[OF Suc.prems(1) m(1) ae]
          show ?thesis
          proof (cases materialize)
            case True
            have less1: "card (ids_of k1 - set (replacement # visited)) < n" using less closes_ids[OF f(1)] by simp
            obtain k' res where r: "resolve_carried n digest materialize co cd (replacement # visited) True fresh (snd pair) k1 = (k', Inr res)"
              "kernel_ok k'" "closes k1 k'"
              "\<forall>m d. res = Resolved m d \<longrightarrow> m \<in> set (missions k') \<and> (True \<and> m = fresh \<or> m_id m \<notin> set (replacement # visited))"
              using Suc.IH[OF f(2) less1, of True fresh "snd pair"] f(3) by blast
            show ?thesis
              using r True Some rp pair False nxt holds ae closes_trans[OF f(1)] f(4) m(2)
              by (intro exI[of _ k'] exI[of _ res]) auto
          next
            case no: False
            obtain k' res where r: "resolve_carried n digest materialize co cd (replacement # visited) True nxt (snd pair) k = (k', Inr res)"
              "kernel_ok k'" "closes k k'"
              "\<forall>m d. res = Resolved m d \<longrightarrow> m \<in> set (missions k') \<and> (True \<and> m = nxt \<or> m_id m \<notin> set (replacement # visited))"
              using Suc.IH[OF Suc.prems(1) less, of True nxt "snd pair"] m(1) by blast
            show ?thesis
              using r no Some rp pair False nxt holds m(2) by (intro exI[of _ k'] exI[of _ res]) auto
          qed
        qed
      qed
    qed
  qed
qed

lemma resolve_start:
  assumes "kernel_ok k"
  shows "\<exists>k' res. resolve_carried (Suc (fuel_for k)) digest materialize co cd [mid] False r ed k = (k', Inr res) \<and> kernel_ok k' \<and>
    closes k k' \<and> (\<forall>m d. res = Resolved m d \<longrightarrow> m \<in> set (missions k') \<and> m_id m \<noteq> mid)"
proof -
  have "card (ids_of k - set [mid]) \<le> card (ids_of k)" by (intro card_mono) (auto simp: ids_of_def)
  also have "\<dots> \<le> length (missions k)" unfolding ids_of_def by (metis card_length length_map set_map)
  finally have "card (ids_of k - set [mid]) < Suc (fuel_for k)" by (simp add: fuel_for_def)
  from resolve_total[OF assms this, of False r digest materialize co cd ed] show ?thesis by auto
qed

lemma route_exact:
  assumes "kernel_ok k" "r \<in> set (missions k)"
  shows "\<exists>k' rt t. discharge_route digest materialize co r ed cd recorded k = (k', Inr (rt, t)) \<and> kernel_ok k' \<and> closes k k' \<and>
    (case recorded of
       Some se \<Rightarrow> rt = Recorded \<and> k' = k \<and> t = (case se_resolved se of None \<Rightarrow> (m_id r, ed) | Some x \<Rightarrow> x)
     | None \<Rightarrow> rt \<noteq> Recorded \<and>
         (case rt of
            Forwarded m d \<Rightarrow> m \<in> set (missions k') \<and> m_id m \<noteq> m_id r \<and> t = (m_id m, d)
          | _ \<Rightarrow> t = (m_id r, ed)) \<and>
         (rt = Own_latch \<longrightarrow> k' = k \<and> ed \<in> set (m_discharged r)) \<and> (rt = Direct \<longrightarrow> k' = k) \<and> (rt \<noteq> Direct \<longrightarrow> carried_row_of co r \<noteq> None))"
proof (cases recorded)
  case (Some se)
  then show ?thesis using assms(1) by (simp add: discharge_route_def)
next
  case None
  obtain k' res where rs: "resolve_carried (Suc (fuel_for k)) digest materialize co cd [m_id r] False r ed k = (k', Inr res)"
    "kernel_ok k'" "closes k k'" "\<forall>m d. res = Resolved m d \<longrightarrow> m \<in> set (missions k') \<and> m_id m \<noteq> m_id r"
    using resolve_start[OF assms(1)] by blast
  consider "carried_row_of co r = None" | "carried_row_of co r \<noteq> None" "ed \<in> set (m_discharged r)"
    | "carried_row_of co r \<noteq> None" "ed \<notin> set (m_discharged r)" by blast
  then show ?thesis
  proof cases
    case 3
    then show ?thesis using rs None assms(1) by (cases res) (simp_all add: discharge_route_def Let_def del: resolve_carried.simps)
  qed (use None assms(1) in \<open>simp_all add: discharge_route_def Let_def del: resolve_carried.simps\<close>)
qed

section \<open>An outcome\<close>

text \<open>What the outcome of a new occurrence says of the record it applies to.\<close>

definition outcome_holds ::
    "unicode \<Rightarrow> (string \<Rightarrow> string) \<Rightarrow> kernel \<Rightarrow> mission \<Rightarrow> string \<Rightarrow> string \<Rightarrow> discharge_result \<Rightarrow> bool" where
  "outcome_holds uc digest k m ed cd rs =
     (m_version m = rs_new_version rs \<and>
      (case rs_outcome rs of
         Terminal_noop \<Rightarrow> m_state m = Terminated \<and> rs_prior_version rs = rs_new_version rs
       | Already_discharged \<Rightarrow> ed \<in> set (m_discharged m) \<and> rs_prior_version rs = rs_new_version rs
       | Discharged \<Rightarrow> m_state m \<noteq> Terminated \<and> rs_new_version rs = rs_prior_version rs + 1 \<and> ed \<in> set (m_discharged m) \<and>
           (\<exists>m'. get_mission (m_id m) k = Some m' \<and> ed \<in> set (m_discharged m')) \<and>
           (\<forall>c \<in> set (find_children (m_id m) k). m_state c = Terminated \<or> reached uc digest cd m ed c)))"

lemma record_outcome_kernel [simp]:
  "dc_kernel (record_outcome key fp q resolved rs s) = dc_kernel s" "dc_pins (record_outcome key fp q resolved rs s) = dc_pins s"
  "dc_selectors (record_outcome key fp q resolved rs s) = dc_selectors s"
  by (simp_all add: record_outcome_def)

definition records :: "event_key \<Rightarrow> string \<Rightarrow> (string \<times> string) option \<Rightarrow> discharge_result \<Rightarrow> entry_discharge \<Rightarrow> bool" where
  "records key fp resolved rs s = (\<exists>row. select_first (\<lambda>r. ev_key r = key) (dc_events s) = Some row \<and>
     ev_stored row = \<lparr>se_fingerprint = fp, se_outcome = rs_outcome rs, se_prior_version = rs_prior_version rs,
       se_new_version = rs_new_version rs, se_resolved = resolved\<rparr>)"

lemma record_outcome_records:
  assumes "key \<notin> set (map ev_key (dc_events s))"
  shows "records key fp resolved rs (record_outcome key fp q resolved rs s)"
proof -
  let ?t = "delete_where (\<lambda>r. ev_key r = key \<and> ev_expires_at r < dc_now s) (dc_events s)"
  have n: "key \<notin> set (map ev_key ?t)" using assms by (auto simp: delete_where_def)
  then have "select_first (\<lambda>r. ev_key r = key) ?t = None" unfolding select_key_None .
  then show ?thesis using n
    by (simp add: records_def record_outcome_def record_occurrence_def insert_or_ignore_def select_first_append)
qed

lemma apply_discharge_facts:
  assumes "kernel_ok (dc_kernel s)" "guarded uc (dc_kernel s)" "m_state r \<noteq> Terminated \<Longrightarrow> r \<in> set (missions (dc_kernel s))"
    and "key \<notin> set (map ev_key (dc_events s))"
  shows "\<exists>s' m rs. apply_discharge uc digest r ed cd key fp q fwd latch_first s = (s', Inr (m, rs)) \<and>
    kernel_ok (dc_kernel s') \<and> closes (dc_kernel s) (dc_kernel s') \<and> dc_pins s' = dc_pins s \<and> dc_selectors s' = dc_selectors s \<and>
    m_id m = m_id r \<and> rs_target rs = dq_target q \<and> rs_event_id rs = dq_event_id q \<and> rs_forwarded_from rs = fwd \<and>
    outcome_holds uc digest (dc_kernel s') m ed cd rs \<and> records key fp (map_option (\<lambda>f. (m_id r, ed)) fwd) rs s'"
proof -
  let ?rs = "\<lambda>outcome pv nv. \<lparr>rs_target = dq_target q, rs_event_id = dq_event_id q, rs_outcome = outcome,
      rs_prior_version = pv, rs_new_version = nv, rs_forwarded_from = fwd\<rparr>"
  let ?res = "map_option (\<lambda>f. (m_id r, ed)) fwd"
  consider (noop) "m_state r = Terminated \<and> \<not> (latch_first \<and> ed \<in> set (m_discharged r))"
    | (already) "\<not> (m_state r = Terminated \<and> \<not> (latch_first \<and> ed \<in> set (m_discharged r)))" "ed \<in> set (m_discharged r)"
    | (fires) "m_state r \<noteq> Terminated" "ed \<notin> set (m_discharged r)" by blast
  then show ?thesis
  proof cases
    case noop
    then show ?thesis
      using assms(1) record_outcome_records[OF assms(4)]
      by (simp add: apply_discharge_def Let_def outcome_holds_def)
  next
    case already
    then show ?thesis
      using assms(1) record_outcome_records[OF assms(4)]
      by (simp add: apply_discharge_def Let_def outcome_holds_def)
  next
    case fires
    obtain k1 k' where k: "commit_latch uc digest r [ed] (dc_kernel s) = Inr (k1, latched r [ed])"
      "propagate_latch uc digest cd (latched r [ed]) [ed] k1 = (k', Inr ())" "kernel_ok k'" "closes (dc_kernel s) k'"
      "\<exists>m. get_mission (m_id r) k' = Some m \<and> row_evolves (latched r [ed]) m"
      "\<forall>d \<in> set [ed]. \<forall>c0 \<in> set (find_children (m_id r) (dc_kernel s)). done_for uc digest cd r d (m_id c0) k'"
      using latch_discharge_exact[OF assms(1,2) assms(3)[OF fires(1)] fires(1), of digest "[ed]" cd] by blast
    let ?r = "?rs Discharged (m_version r) (m_version (latched r [ed]))"
    let ?s1 = "record_outcome key fp q ?res ?r (s\<lparr>dc_kernel := k1\<rparr>)"
    have app: "apply_discharge uc digest r ed cd key fp q fwd latch_first s = (?s1\<lparr>dc_kernel := k'\<rparr>, Inr (latched r [ed], ?r))"
      using fires k(1,2) by (simp add: apply_discharge_def Let_def)
    have rec: "records key fp ?res ?r (?s1\<lparr>dc_kernel := k'\<rparr>)"
      using record_outcome_records[of key "s\<lparr>dc_kernel := k1\<rparr>" fp ?res ?r q] assms(4) by (simp add: records_def)
    have kids: "m_state c = Terminated \<or> reached uc digest cd (latched r [ed]) ed c" if c: "c \<in> set (find_children (m_id r) k')" for c
    proof -
      have cm: "c \<in> set (missions k')" "m_parent c = Some (m_id r)" using c by (auto simp: find_children_def select_all_def)
      obtain c0 where c0: "c0 \<in> set (missions (dc_kernel s))" "row_evolves c0 c"
        using evolves_back[of "dc_kernel s" k' c] k(4) cm(1) by (auto simp: closes_def)
      have "c0 \<in> set (find_children (m_id r) (dc_kernel s))"
        using c0 cm(2) row_evolves_ids[OF c0(2)] by (simp add: find_children_def select_all_def)
      then obtain x where x: "x \<in> set (missions k')" "m_id x = m_id c0" "m_state x = Terminated \<or> reached uc digest cd r ed x"
        using k(6) unfolding done_for_def by auto
      have "x = c"
        using keyed_unique[OF sound_keyed[OF ok_sound[OF k(3)]] x(1) cm(1)] x(2) row_evolves_ids[OF c0(2)] by simp
      moreover have "justified_by uc digest (latched r [ed]) ed e = justified_by uc digest r ed e" for e
        by (simp add: justified_by_def split: option.split)
      ultimately show ?thesis using x(3) by (simp add: reached_def)
    qed
    have "\<exists>m'. get_mission (m_id r) k' = Some m' \<and> ed \<in> set (m_discharged m')"
      using k(5) by (auto simp: row_evolves_def overlay_kept_def)
    then have "outcome_holds uc digest k' (latched r [ed]) ed cd ?r"
      using fires(1) kids by (simp add: outcome_holds_def)
    then show ?thesis using app rec k(3,4) by simp
  qed
qed

section \<open>A call\<close>

text \<open>The record's grant decides the target, so it is read alike on a later state of the record.\<close>

lemma target_cong:
  assumes "content r' = content r"
  shows "target_in digest sels r' q = target_in digest sels r q"
proof -
  have "m_id r' = m_id r" "m_issuer r' = m_issuer r" "m_authority_set r' = m_authority_set r" using content_fields[OF assms] by simp_all
  then show ?thesis
    by (simp add: target_in_def cong: option.case_cong sum.case_cong target_form.case_cong prod.case_cong if_cong)
qed

lemma target_condition:
  assumes "target_in digest sels r q = Inl f" "list_all (is_authority_entry uc) (m_authority_set r)"
  shows "\<exists>x. f = Not_found_for x"
proof -
  have "\<exists>x. find_condition digest cd cs = Inr x" if "e \<in> set (m_authority_set r)" "terminal_when_of e = Some cs" for e cs cd
    using find_condition_exact[of cs digest cd] guarded_conditions[of uc e] assms(2) that
    by (auto simp: conditions_of_def list_all_iff)
  then show ?thesis
    using assms(1) find_Some_iff
    by (auto simp: target_in_def Let_def split: target_form.splits option.splits sum.splits if_splits prod.splits
        dest!: find_Some_iff[THEN iffD1]) (metis Inl_Inr_False nth_mem)+
qed

lemma find_occurrence_purged:
  assumes "find_occurrence True key now_ms t = (t', None)" "keyed ev_key t"
  shows "key \<notin> set (map ev_key t')" "keyed ev_key t'"
  using assms unfolding find_occurrence_def
  by (auto simp: select_key_None delete_where_def keyed_def intro: distinct_map_filter split: option.splits if_splits)

lemma find_occurrence_found: "find_occurrence p key now_ms t = (t', Some se) \<Longrightarrow>
   t' = t \<and> (\<exists>row. select_first (\<lambda>r. ev_key r = key) t = Some row \<and> ev_stored row = se)"
  by (auto simp: find_occurrence_def split: option.splits if_splits)

text \<open>\<open>settled_call\<close> is what a successful call leaves behind: the occurrence is recorded with the
  answer, under the authorization of the target it resolved to.\<close>

definition settled_call ::
    "(string \<Rightarrow> string) \<Rightarrow> mission \<Rightarrow> discharge_request \<Rightarrow> entry_discharge \<Rightarrow> string \<Rightarrow> string \<Rightarrow> mission \<Rightarrow> discharge_result \<Rightarrow> bool" where
  "settled_call digest r q s' ed cd m rs =
     (\<exists>resolved. records (event_key_of q (m_id r) ed cd) (assertion_fingerprint digest (m_id r) ed cd q) resolved rs s' \<and>
        authorize_target (dc_pins s') (case resolved of None \<Rightarrow> (m_id r, ed) | Some t \<Rightarrow> t) cd q = None \<and>
        rs_target rs = dq_target q \<and> rs_event_id rs = dq_event_id q \<and>
        (\<exists>x. get_mission (m_id m) (dc_kernel s') = Some x) \<and>
        m_id m = (case resolved of None \<Rightarrow> m_id r | Some t \<Rightarrow> fst t) \<and>
        rs_forwarded_from rs = (if m_id m = m_id r then None else Some (m_issuer r, m_id r)))"

definition new_outcome ::
    "unicode \<Rightarrow> (string \<Rightarrow> string) \<Rightarrow> pin_row table \<Rightarrow> discharge_request \<Rightarrow> kernel \<Rightarrow> string \<Rightarrow> string \<Rightarrow> string \<Rightarrow>
     mission \<Rightarrow> discharge_result \<Rightarrow> bool" where
  "new_outcome uc digest pins q k mid ed cd m rs =
     (\<exists>d. (m_id m = mid \<longrightarrow> d = ed) \<and> outcome_holds uc digest k m d cd rs \<and> authorize_target pins (m_id m, d) cd q = None)"

lemma discharge_as_facts:
  assumes "kernel_ok (dc_kernel s)" "guarded uc (dc_kernel s)" "r \<in> set (missions (dc_kernel s))" "keyed ev_key (dc_events s)"
    and "discharge_as uc digest r ed cd q s = (s', res)"
  shows "kernel_ok (dc_kernel s') \<and> closes (dc_kernel s) (dc_kernel s') \<and> dc_pins s' = dc_pins s \<and> dc_selectors s' = dc_selectors s \<and>
    (case res of
       Inl f \<Rightarrow> (\<exists>x. f = Not_found_for x) \<or> f = Assertion_conflict \<or> (\<exists>x. f = Traversal_failed x)
     | Inr (m, rs) \<Rightarrow> settled_call digest r q s' ed cd m rs \<and>
         (snd (find_occurrence True (event_key_of q (m_id r) ed cd) (dc_now s) (dc_events s)) = None \<longrightarrow>
            new_outcome uc digest (dc_pins s) q (dc_kernel s') (m_id r) ed cd m rs))"
proof -
  let ?key = "event_key_of q (m_id r) ed cd" and ?fp = "assertion_fingerprint digest (m_id r) ed cd q"
  obtain t1 found where fe: "find_occurrence True ?key (dc_now s) (dc_events s) = (t1, found)" by fastforce
  let ?s0 = "s\<lparr>dc_events := t1\<rparr>"
  obtain k1 rt t where rx: "discharge_route digest True (dc_carryover s) r ed cd found (dc_kernel s) = (k1, Inr (rt, t))" "kernel_ok k1"
    "closes (dc_kernel s) k1" and
    c: "case found of
       Some se \<Rightarrow> rt = Recorded \<and> k1 = dc_kernel s \<and> t = (case se_resolved se of None \<Rightarrow> (m_id r, ed) | Some x \<Rightarrow> x)
     | None \<Rightarrow> rt \<noteq> Recorded \<and>
         (case rt of
            Forwarded m d \<Rightarrow> m \<in> set (missions k1) \<and> m_id m \<noteq> m_id r \<and> t = (m_id m, d)
          | _ \<Rightarrow> t = (m_id r, ed)) \<and>
         (rt = Own_latch \<longrightarrow> k1 = dc_kernel s \<and> ed \<in> set (m_discharged r)) \<and> (rt = Direct \<longrightarrow> k1 = dc_kernel s) \<and>
         (rt \<noteq> Direct \<longrightarrow> carried_row_of (dc_carryover s) r \<noteq> None)"
    using route_exact[OF assms(1,3), of digest True "dc_carryover s" ed cd found] by blast
  let ?s1 = "?s0\<lparr>dc_kernel := k1\<rparr>"
  have g1: "guarded uc k1" by (rule guarded_closes[OF rx(3) assms(2)])
  have run: "discharge_as uc digest r ed cd q s =
      (case authorize_target (dc_pins s) t cd q of
         Some e \<Rightarrow> (?s1, Inl e)
       | None \<Rightarrow>
           (case found of
              Some se \<Rightarrow> replay_discharge r ?fp se q ?s1
            | None \<Rightarrow>
                (case rt of
                   Own_latch \<Rightarrow> apply_discharge uc digest r ed cd ?key ?fp q None True ?s1
                 | Broken_route reason \<Rightarrow> (?s1, Inl (Traversal_failed reason))
                 | Forwarded m d \<Rightarrow> apply_discharge uc digest m d cd ?key ?fp q (Some (m_issuer r, m_id r)) False ?s1
                 | _ \<Rightarrow> apply_discharge uc digest r ed cd ?key ?fp q None False ?s1)))"
    unfolding discharge_as_def Let_def fe fst_conv snd_conv using rx(1) by (simp split: option.split route.split)
  show ?thesis
  proof (cases "authorize_target (dc_pins s) t cd q")
    case (Some e)
    then have "\<exists>x. e = Not_found_for x" by (auto simp: authorize_target_def split: option.splits if_splits)
    then show ?thesis using assms(5) Some rx(2,3) by (auto simp: run)
  next
    case auth: None
    show ?thesis
    proof (cases found)
      case (Some se)
      note cs = c[unfolded Some option.case]
      have k1: "k1 = dc_kernel s" "t1 = dc_events s" using cs find_occurrence_found fe Some by auto
      obtain row where row: "select_first (\<lambda>r. ev_key r = ?key) (dc_events s) = Some row" "ev_stored row = se"
        using find_occurrence_found fe Some by blast
      have res: "(s', res) = replay_discharge r ?fp se q ?s1" using assms(5) auth Some by (simp add: run)
      have rec: "records ?key ?fp (se_resolved se) (replay_result q se fwd) s" if "se_fingerprint se = ?fp" for fwd
        using row that by (simp add: records_def replay_result_def)
      have self: "get_mission (m_id r) (dc_kernel s) = Some r" by (rule get_current[OF ok_sound[OF assms(1)] assms(3)])
      have same: "?s1 = s" using k1 by simp
      show ?thesis
      proof (cases "se_fingerprint se = ?fp")
        case False
        then show ?thesis using res same assms(1) by (simp add: replay_discharge_def)
      next
        case fp: True
        show ?thesis
        proof (cases "se_resolved se")
          case None
          then have "res = Inr (r, replay_result q se None) \<and> s' = s" using res fp same by (simp add: replay_discharge_def)
          then show ?thesis
            using assms(1) rec[OF fp, of None] auth cs None self fe Some
            by (auto simp: settled_call_def replay_result_def)
        next
          case to: (Some tgt)
          obtain tm td where tgt: "tgt = (tm, td)" by fastforce
          show ?thesis
          proof (cases "tm = m_id r")
            case True
            then have "res = Inr (r, replay_result q se None) \<and> s' = s" using res fp same to tgt by (simp add: replay_discharge_def)
            then show ?thesis
              using assms(1) rec[OF fp, of None] auth cs to tgt True self fe Some
              by (auto simp: settled_call_def replay_result_def)
          next
            case other: False
            show ?thesis
            proof (cases "get_mission tm (dc_kernel s)")
              case None
              then have "res = Inl (Not_found_for Unknown_mission) \<and> s' = s" using res fp same to tgt other by (simp add: replay_discharge_def)
              then show ?thesis using assms(1) by simp
            next
              case d: (Some described)
              then have "res = Inr (described, replay_result q se (Some (m_issuer r, m_id r))) \<and> s' = s"
                using res fp same to tgt other by (simp add: replay_discharge_def)
              moreover have "m_id described = tm" using get_in[OF d] by simp
              ultimately show ?thesis
                using assms(1) rec[OF fp, of "Some (m_issuer r, m_id r)"] auth cs to tgt other d fe Some
                by (auto simp: settled_call_def replay_result_def)
            qed
          qed
        qed
      qed
    next
      case None
      note cn = c[unfolded None option.case]
      have key: "?key \<notin> set (map ev_key (dc_events ?s1))" using find_occurrence_purged(1)[OF fe[unfolded None] assms(4)] by simp
      have applied: ?thesis
        if a: "(s', res) = apply_discharge uc digest x d cd ?key ?fp q fwd lf ?s1" "m_state x \<noteq> Terminated \<Longrightarrow> x \<in> set (missions k1)" "t = (m_id x, d)"
          "fwd = (if m_id x = m_id r then None else Some (m_issuer r, m_id r))" "m_id x = m_id r \<Longrightarrow> d = ed" "\<exists>y. get_mission (m_id x) k1 = Some y" for x d fwd lf
      proof -
        obtain s2 m rs where f: "apply_discharge uc digest x d cd ?key ?fp q fwd lf ?s1 = (s2, Inr (m, rs))"
          "kernel_ok (dc_kernel s2)" "closes (dc_kernel ?s1) (dc_kernel s2)" "dc_pins s2 = dc_pins ?s1" "dc_selectors s2 = dc_selectors ?s1"
          "m_id m = m_id x" "rs_target rs = dq_target q" "rs_event_id rs = dq_event_id q" "rs_forwarded_from rs = fwd"
          "outcome_holds uc digest (dc_kernel s2) m d cd rs" "records ?key ?fp (map_option (\<lambda>f. (m_id x, d)) fwd) rs s2"
          using apply_discharge_facts[of ?s1 uc x ?key digest d cd ?fp q fwd lf] rx(2) g1 a(2) key by auto
        obtain y where y: "get_mission (m_id x) k1 = Some y" using a(6) by blast
        have "\<exists>y. get_mission (m_id m) (dc_kernel s2) = Some y"
          using evolves_get[OF _ y, of "dc_kernel s2"] f(3) unfolding f(6) by (auto simp: closes_def)
        then have "settled_call digest r q s2 ed cd m rs"
          unfolding settled_call_def
          using f(4,6-9,11) auth a(3-5) by (intro exI[of _ "map_option (\<lambda>f. (m_id x, d)) fwd"]) auto
        moreover have "new_outcome uc digest (dc_pins s) q (dc_kernel s2) (m_id r) ed cd m rs"
          unfolding new_outcome_def using f(6,10) auth a(3,5) by (intro exI[of _ d]) auto
        ultimately show ?thesis using a(1) f(1-5) closes_trans[OF rx(3)] by simp
      qed
      have self: "\<exists>y. get_mission (m_id r) k1 = Some y"
        using evolves_get[OF _ get_current[OF ok_sound[OF assms(1)] assms(3)], of k1] rx(3) by (auto simp: closes_def)
      have plain: "(m_state r \<noteq> Terminated \<Longrightarrow> k1 = dc_kernel s) \<Longrightarrow> (s', res) = apply_discharge uc digest r ed cd ?key ?fp q None lf ?s1 \<Longrightarrow> t = (m_id r, ed) \<Longrightarrow> ?thesis" for lf
        by (rule applied) (use self assms(3) in auto)
      show ?thesis
      proof (cases rt)
        case Own_latch
        then show ?thesis using plain[of True] cn assms(5) auth None by (simp add: run)
      next
        case Direct
        then show ?thesis using plain[of False] cn assms(5) auth None by (simp add: run)
      next
        case (Broken_route x)
        then show ?thesis using assms(5) auth None rx(2,3) by (auto simp: run)
      next
        case (Forwarded x d)
        then have "x \<in> set (missions k1)" using cn by simp
        then have "get_mission (m_id x) k1 = Some x" by (rule get_current[OF ok_sound[OF rx(2)]])
        then show ?thesis
          using applied[of x d "Some (m_issuer r, m_id r)" False] Forwarded cn assms(5) auth None by (simp add: run)
      next
        case Recorded
        then show ?thesis using cn by simp
      next
        case Absent_route
        then have "carried_row_of (dc_carryover s) r \<noteq> None" using cn by simp
        then have "m_termination r \<noteq> None" by (cases "m_termination r") (simp_all add: carried_row_of_def)
        then have "m_state r = Terminated"
          using ok_sound[OF assms(1)] assms(3) by (auto simp: sound_def list_all_iff row_ok_def)
        then show ?thesis using plain[of False] Absent_route cn assms(5) auth None by (simp add: run)
      qed
    qed
  qed
qed

end
