(* ===== verification/Discharge_Props.thy ===== *)
theory Discharge_Props
  imports Discharge_Theorems Containment_Theorems
begin

text \<open>
  The two properties of the discharge funnel: what a call answers and commits, and what a
  retry of a recorded occurrence gets.
\<close>

lemma settled_cong:
  assumes "m_id r' = m_id r" "m_issuer r' = m_issuer r"
  shows "settled_call digest r' q s ed cd m rs = settled_call digest r q s ed cd m rs"
  unfolding settled_call_def assms ..

lemma target_failure:
  assumes "target_in digest sels r q = Inl f" "guarded uc k" "r \<in> set (missions k)"
  shows "\<exists>x. f = Not_found_for x"
  using target_condition[OF assms(1) guarded_row[OF assms(2,3)]] .

lemma discharge_runs:
  assumes "kernel_ok (dc_kernel s)" "get_mission mid (dc_kernel s) = Some found"
  obtains k1 r where "apply_expiry found (dc_kernel s) = (k1, Inr r)" "closes (dc_kernel s) k1" "kernel_ok k1"
    "r \<in> set (missions k1)" "m_id r = mid" "m_issuer r = m_issuer found"
    "discharge uc digest mid q s = (case target_in digest (dc_selectors s) found q of
       Inl e \<Rightarrow> (s\<lparr>dc_kernel := k1\<rparr>, Inl e)
     | Inr (ed, cd) \<Rightarrow> discharge_as uc digest r ed cd q (s\<lparr>dc_kernel := k1\<rparr>))"
proof -
  have f: "found \<in> set (missions (dc_kernel s))" "m_id found = mid" using get_in[OF assms(2)] by simp_all
  obtain k1 r where ae: "apply_expiry found (dc_kernel s) = (k1, Inr r)" using apply_expiry_succeeds[OF assms(1) f(1)] by blast
  have c: "content r = content found" using expiry_facts[OF assms(1) f(1)] ae by auto
  have "discharge uc digest mid q s = (case target_in digest (dc_selectors s) found q of
       Inl e \<Rightarrow> (s\<lparr>dc_kernel := k1\<rparr>, Inl e)
     | Inr (ed, cd) \<Rightarrow> discharge_as uc digest r ed cd q (s\<lparr>dc_kernel := k1\<rparr>))"
    unfolding discharge_def assms(2) option.case ae prod.case sum.case target_cong[OF c] ..
  then show ?thesis using that ae expiry_frame[OF assms(1) f(1) ae] f(2) content_fields[OF c] by metis
qed

section \<open>A call\<close>

text \<open>
  C9. A discharge answers with nothing but the collapsed not-found refusal, a conflict of the
  occurrence, or a broken carried chain; otherwise the target named is a condition of the
  Mission's grant, the occurrence is recorded with the answer, and the mapping pinned for the
  resolved target permits the caller. For an occurrence not recorded before, the answer
  describes the record: discharged means the entry is latched, the version went up by exactly
  one, and every child is terminated or carries the latch for each of its entries that the
  entry justifies and that shares the condition.
\<close>

theorem discharge_exact:
  assumes "kernel_ok (dc_kernel s)" "guarded uc (dc_kernel s)" "keyed ev_key (dc_events s)"
    and "discharge uc digest mid q s = (s', res)"
  shows "kernel_ok (dc_kernel s') \<and> closes (dc_kernel s) (dc_kernel s') \<and> dc_pins s' = dc_pins s \<and>
    (case res of
       Inl f \<Rightarrow> (\<exists>x. f = Not_found_for x) \<or> f = Assertion_conflict \<or> (\<exists>x. f = Traversal_failed x)
     | Inr (m, rs) \<Rightarrow>
         (\<exists>r ed cd. get_mission mid (dc_kernel s) = Some r \<and> target_in digest (dc_selectors s) r q = Inr (ed, cd) \<and>
            settled_call digest r q s' ed cd m rs \<and>
            (snd (find_occurrence True (event_key_of q mid ed cd) (dc_now s) (dc_events s)) = None \<longrightarrow>
               new_outcome uc digest (dc_pins s) q (dc_kernel s') mid ed cd m rs)))"
proof (cases "get_mission mid (dc_kernel s)")
  case None
  then have "s' = s \<and> res = Inl (Not_found_for Unknown_mission)" using assms(4) by (simp add: discharge_def)
  then show ?thesis using assms(1) by simp
next
  case (Some found)
  obtain k1 r where r: "closes (dc_kernel s) k1" "kernel_ok k1" "r \<in> set (missions k1)" "m_id r = mid" "m_issuer r = m_issuer found"
    and run: "discharge uc digest mid q s = (case target_in digest (dc_selectors s) found q of
       Inl e \<Rightarrow> (s\<lparr>dc_kernel := k1\<rparr>, Inl e)
     | Inr (ed, cd) \<Rightarrow> discharge_as uc digest r ed cd q (s\<lparr>dc_kernel := k1\<rparr>))"
    by (rule discharge_runs[OF assms(1) Some, of uc digest q])
  have found: "found \<in> set (missions (dc_kernel s))" "m_id found = mid" using get_in[OF Some] by simp_all
  have now: "clock k1 = clock (dc_kernel s)" using r(1) by (simp add: closes_def evolves_def)
  show ?thesis
  proof (cases "target_in digest (dc_selectors s) found q")
    case (Inl e)
    then have "s' = s\<lparr>dc_kernel := k1\<rparr> \<and> res = Inl e" using assms(4) run by simp
    then show ?thesis using r(1,2) target_failure[OF Inl assms(2) found(1)] by simp
  next
    case (Inr t)
    obtain ed cd where t: "t = (ed, cd)" by fastforce
    have "discharge_as uc digest r ed cd q (s\<lparr>dc_kernel := k1\<rparr>) = (s', res)" using assms(4) run Inr t by simp
    note facts = discharge_as_facts[OF _ _ _ _ this, unfolded r(4)]
    have a: "kernel_ok (dc_kernel s') \<and> closes k1 (dc_kernel s') \<and> dc_pins s' = dc_pins s \<and>
      (case res of
         Inl f \<Rightarrow> (\<exists>x. f = Not_found_for x) \<or> f = Assertion_conflict \<or> (\<exists>x. f = Traversal_failed x)
       | Inr (m, rs) \<Rightarrow> settled_call digest r q s' ed cd m rs \<and>
           (snd (find_occurrence True (event_key_of q mid ed cd) (clock k1) (dc_events s)) = None \<longrightarrow>
              new_outcome uc digest (dc_pins s) q (dc_kernel s') mid ed cd m rs))"
      using facts r(2,3) guarded_closes[OF r(1) assms(2)] assms(3) by (simp add: r(4) cong: sum.case_cong)
    have "settled_call digest r q s' ed cd m rs = settled_call digest found q s' ed cd m rs" for m rs
      using settled_cong r(4,5) found(2) by metis
    then show ?thesis
      using a closes_trans[OF r(1)] Some Inr t now by (cases res) auto
  qed
qed

section \<open>What happens between two calls\<close>

text \<open>
  Between a call and its retry the store goes on: any step of the kernel, discharges of any
  other assertion (and of this one), pins and selectors written for other Missions, and new
  carryover tables.
\<close>

inductive discharge_step :: "entry_discharge \<Rightarrow> entry_discharge \<Rightarrow> bool" where
  lifecycle: "kernel_step (dc_kernel s) k' \<Longrightarrow> discharge_step s (s\<lparr>dc_kernel := k'\<rparr>)"
| call: "discharge uc digest mid q s = (s', res) \<Longrightarrow> discharge_step s s'"
| pinned: "discharge_step s (s\<lparr>dc_pins := pin_in_caller_tx mid ed cd mapping (dc_pins s)\<rparr>)"
| selector: "selector_for minted now_ms target (dc_selectors s) = Inr (t, x) \<Longrightarrow> discharge_step s (s\<lparr>dc_selectors := t\<rparr>)"
| carryover: "discharge_step s (s\<lparr>dc_carryover := co\<rparr>)"

inductive_cases discharge_stepE: "discharge_step s s'"

text \<open>A step taken while a record that ends at \<open>expires\<close> is unexpired.\<close>

definition retained_step :: "int \<Rightarrow> entry_discharge \<Rightarrow> entry_discharge \<Rightarrow> bool" where
  "retained_step expires s s' = (discharge_step s s' \<and> dc_now s \<le> expires)"

text \<open>Every unexpired record is found again.\<close>

definition keeps :: "entry_discharge \<Rightarrow> entry_discharge \<Rightarrow> bool" where
  "keeps s s' = (\<forall>key row. select_first (\<lambda>r. ev_key r = key) (dc_events s) = Some row \<longrightarrow> dc_now s \<le> ev_expires_at row \<longrightarrow>
     select_first (\<lambda>r. ev_key r = key) (dc_events s') = Some row)"

lemma keeps_same: "dc_events s' = dc_events s \<Longrightarrow> keeps s s'"
  by (simp add: keeps_def)

lemma keeps_trans: "keeps s s1 \<Longrightarrow> keeps s1 s2 \<Longrightarrow> dc_now s1 = dc_now s \<Longrightarrow> keeps s s2"
  unfolding keeps_def by simp

lemma record_outcome_keeps: "keeps s (record_outcome key fp q resolved rs s)"
proof -
  have "select_first (\<lambda>r. ev_key r = key') (dc_events (record_outcome key fp q resolved rs s)) = Some row"
    if r: "select_first (\<lambda>r. ev_key r = key') (dc_events s) = Some row" "dc_now s \<le> ev_expires_at row" for key' row
  proof -
    let ?t = "delete_where (\<lambda>r. ev_key r = key \<and> ev_expires_at r < dc_now s) (dc_events s)"
    have "select_first (\<lambda>r. ev_key r = key') ?t = Some row" by (rule select_kept[OF r(1)]) (use r(2) in simp)
    then show ?thesis
      by (simp add: record_outcome_def record_occurrence_def insert_or_ignore_def select_extend)
  qed
  then show ?thesis by (simp add: keeps_def)
qed

lemma purge_keeps: "keeps s (s\<lparr>dc_events := fst (find_occurrence True key (dc_now s) (dc_events s))\<rparr>)"
proof -
  have "select_first (\<lambda>r. ev_key r = key') (fst (find_occurrence True key (dc_now s) (dc_events s))) = Some row"
    if r: "select_first (\<lambda>r. ev_key r = key') (dc_events s) = Some row" "dc_now s \<le> ev_expires_at row" for key' row
  proof (cases "key' = key")
    case True
    then show ?thesis using r by (simp add: find_occurrence_def)
  next
    case False
    have "ev_key row = key'" using r(1) by (auto dest: select_first_SomeD)
    then have "select_first (\<lambda>r. ev_key r = key') (delete_where (\<lambda>r. ev_key r = key) (dc_events s)) = Some row"
      by (intro select_kept[OF r(1)]) (use False in simp)
    then show ?thesis using r by (simp add: find_occurrence_def split: option.split)
  qed
  then show ?thesis by (simp add: keeps_def)
qed

definition call_frame :: "entry_discharge \<Rightarrow> entry_discharge \<Rightarrow> bool" where
  "call_frame s s' = (closes (dc_kernel s) (dc_kernel s') \<and> keeps s s' \<and> dc_pins s' = dc_pins s \<and> dc_selectors s' = dc_selectors s)"

lemma closes_now: "closes k k' \<Longrightarrow> clock k' = clock k"
  by (simp add: closes_def evolves_def)

lemma call_frame_trans: "call_frame s s1 \<Longrightarrow> call_frame s1 s2 \<Longrightarrow> call_frame s s2"
  unfolding call_frame_def using closes_trans keeps_trans closes_now by metis

lemma frame_kernel: "closes (dc_kernel s) k \<Longrightarrow> call_frame s (s\<lparr>dc_kernel := k\<rparr>)"
  by (simp add: call_frame_def keeps_same)

lemma frame_record: "call_frame s (record_outcome key fp q resolved rs s)"
  by (simp add: call_frame_def record_outcome_keeps)

lemma apply_discharge_frame:
  assumes "kernel_ok (dc_kernel s)" "m_state r \<noteq> Terminated \<Longrightarrow> r \<in> set (missions (dc_kernel s))"
    and "apply_discharge uc digest r ed cd key fp q fwd latch_first s = (s', res)"
  shows "call_frame s s'"
proof -
  consider (noop) "m_state r = Terminated \<and> \<not> (latch_first \<and> ed \<in> set (m_discharged r))"
    | (already) "\<not> (m_state r = Terminated \<and> \<not> (latch_first \<and> ed \<in> set (m_discharged r)))" "ed \<in> set (m_discharged r)"
    | (fires) "m_state r \<noteq> Terminated" "ed \<notin> set (m_discharged r)" by blast
  then show ?thesis
  proof cases
    case noop
    then show ?thesis using assms(3) frame_record by (auto simp: apply_discharge_def Let_def)
  next
    case already
    then show ?thesis using assms(3) frame_record by (auto simp: apply_discharge_def Let_def)
  next
    case fires
    show ?thesis
    proof (cases "commit_latch uc digest r [ed] (dc_kernel s)")
      case (Inl e)
      then show ?thesis using fires assms(3) by (auto simp: apply_discharge_def Let_def call_frame_def keeps_same)
    next
      case (Inr kf)
      obtain k1 fresh where kf: "kf = (k1, fresh)" by fastforce
      have c: "closes (dc_kernel s) k1"
        by (rule commit_latch_closes(1)[OF Inr[unfolded kf] sound_keyed[OF ok_sound[OF assms(1)]] assms(2)[OF fires(1)] fires(1)])
      let ?rec = "\<lambda>rs. record_outcome key fp q (map_option (\<lambda>f. (m_id r, ed)) fwd) rs (s\<lparr>dc_kernel := k1\<rparr>)"
      obtain k2 x where p: "propagate_latch uc digest cd fresh [ed] k1 = (k2, x)" by fastforce
      obtain rs where s': "s' = (?rec rs)\<lparr>dc_kernel := k2\<rparr>"
        using fires assms(3) Inr kf p by (auto simp: apply_discharge_def Let_def split: sum.splits)
      have "closes k1 k2" by (rule propagate_latch_closes[OF p closes_ok[OF c assms(1)]])
      then have "call_frame (?rec rs) s'" unfolding s' by (intro frame_kernel) simp
      then show ?thesis using frame_kernel[OF c] frame_record call_frame_trans by blast
    qed
  qed
qed

lemma discharge_as_frame:
  assumes "kernel_ok (dc_kernel s)" "r \<in> set (missions (dc_kernel s))" "discharge_as uc digest r ed cd q s = (s', res)"
  shows "call_frame s s'"
proof -
  let ?key = "event_key_of q (m_id r) ed cd" and ?fp = "assertion_fingerprint digest (m_id r) ed cd q"
  let ?found = "find_occurrence True ?key (dc_now s) (dc_events s)"
  let ?s0 = "s\<lparr>dc_events := fst ?found\<rparr>"
  obtain k1 rt t where rx: "discharge_route digest True (dc_carryover s) r ed cd (snd ?found) (dc_kernel s) = (k1, Inr (rt, t))"
    "kernel_ok k1" "closes (dc_kernel s) k1"
    and fwd: "\<And>m d. snd ?found = None \<Longrightarrow> rt = Forwarded m d \<Longrightarrow> m \<in> set (missions k1)"
    and own: "snd ?found = None \<Longrightarrow> rt = Own_latch \<or> rt = Direct \<Longrightarrow> k1 = dc_kernel s"
    and no: "snd ?found = None \<Longrightarrow> rt \<noteq> Recorded" and gone: "snd ?found = None \<Longrightarrow> rt = Absent_route \<Longrightarrow> carried_row_of (dc_carryover s) r \<noteq> None"
    using route_exact[OF assms(1,2), of digest True "dc_carryover s" ed cd "snd ?found"] by fastforce
  let ?s1 = "?s0\<lparr>dc_kernel := k1\<rparr>"
  have f1: "call_frame s ?s1"
    using rx(3) purge_keeps[of s ?key] by (simp add: call_frame_def keeps_def)
  have run: "discharge_as uc digest r ed cd q s =
      (case authorize_target (dc_pins s) t cd q of
         Some e \<Rightarrow> (?s1, Inl e)
       | None \<Rightarrow>
           (case snd ?found of
              Some se \<Rightarrow> replay_discharge r ?fp se q ?s1
            | None \<Rightarrow>
                (case rt of
                   Own_latch \<Rightarrow> apply_discharge uc digest r ed cd ?key ?fp q None True ?s1
                 | Broken_route reason \<Rightarrow> (?s1, Inl (Traversal_failed reason))
                 | Forwarded m d \<Rightarrow> apply_discharge uc digest m d cd ?key ?fp q (Some (m_issuer r, m_id r)) False ?s1
                 | _ \<Rightarrow> apply_discharge uc digest r ed cd ?key ?fp q None False ?s1)))"
    unfolding discharge_as_def Let_def using rx(1) by (simp split: option.split route.split)
  have rep: "fst (replay_discharge r ?fp se q ?s1) = ?s1" for se
    by (auto simp: replay_discharge_def split: option.split prod.split)
  have app: "call_frame ?s1 s'" if "apply_discharge uc digest m d cd ?key ?fp q fw lf ?s1 = (s', res)"
    "m_state m \<noteq> Terminated \<Longrightarrow> m \<in> set (missions k1)" for m d fw lf
    by (rule apply_discharge_frame[OF _ _ that(1)]) (use rx(2) that(2) in simp_all)
  have "call_frame ?s1 s'"
  proof (cases "authorize_target (dc_pins s) t cd q")
    case (Some e)
    then show ?thesis using assms(3) by (simp add: run call_frame_def keeps_same)
  next
    case auth: None
    show ?thesis
    proof (cases "snd ?found")
      case (Some se)
      then show ?thesis using assms(3) auth rep[of se] by (simp add: run call_frame_def keeps_same)
    next
      case None
      have state: "m_state r \<noteq> Terminated \<Longrightarrow> r \<in> set (missions k1)" if "rt = Own_latch \<or> rt = Direct \<or> rt = Absent_route"
      proof -
        assume live: "m_state r \<noteq> Terminated"
        then have "m_termination r = None" using ok_sound[OF assms(1)] assms(2) by (auto simp: sound_def list_all_iff row_ok_def)
        then have "rt \<noteq> Absent_route" using gone[OF None] by (auto simp: carried_row_of_def)
        then show ?thesis using own[OF None] that assms(2) by auto
      qed
      show ?thesis
      proof (cases rt)
        case (Broken_route x)
        then show ?thesis using assms(3) auth None by (simp add: run call_frame_def keeps_same)
      next
        case (Forwarded m d)
        then show ?thesis using assms(3) auth None fwd[OF None] by (intro app) (simp_all add: run)
      next
        case Recorded
        then show ?thesis using no[OF None] by simp
      next
        case Own_latch
        then show ?thesis using assms(3) auth None state by (intro app[of r ed None True]) (simp_all add: run)
      next
        case Absent_route
        then show ?thesis using assms(3) auth None state by (intro app[of r ed None False]) (simp_all add: run)
      next
        case Direct
        then show ?thesis using assms(3) auth None state by (intro app[of r ed None False]) (simp_all add: run)
      qed
    qed
  qed
  then show ?thesis using f1 call_frame_trans by blast
qed

lemma discharge_frame:
  assumes "kernel_ok (dc_kernel s)" "discharge uc digest mid q s = (s', res)"
  shows "call_frame s s'"
proof (cases "get_mission mid (dc_kernel s)")
  case None
  then show ?thesis using assms(2) by (simp add: discharge_def call_frame_def keeps_same)
next
  case (Some found)
  obtain k1 r where r: "closes (dc_kernel s) k1" "kernel_ok k1" "r \<in> set (missions k1)"
    and run: "discharge uc digest mid q s = (case target_in digest (dc_selectors s) found q of
       Inl e \<Rightarrow> (s\<lparr>dc_kernel := k1\<rparr>, Inl e)
     | Inr (ed, cd) \<Rightarrow> discharge_as uc digest r ed cd q (s\<lparr>dc_kernel := k1\<rparr>))"
    by (rule discharge_runs[OF assms(1) Some, of uc digest q])
  have f: "call_frame s (s\<lparr>dc_kernel := k1\<rparr>)" by (rule frame_kernel[OF r(1)])
  show ?thesis
  proof (cases "target_in digest (dc_selectors s) found q")
    case (Inl e)
    then show ?thesis using assms(2) run f by simp
  next
    case (Inr t)
    obtain ed cd where t: "t = (ed, cd)" by fastforce
    have "call_frame (s\<lparr>dc_kernel := k1\<rparr>) s'"
      by (rule discharge_as_frame[of _ r uc digest ed cd q]) (use r(2,3) assms(2) run Inr t in simp_all)
    then show ?thesis using f call_frame_trans by blast
  qed
qed

text \<open>What a later state remembers of an earlier one, beside the record.\<close>

definition remembers :: "entry_discharge \<Rightarrow> entry_discharge \<Rightarrow> bool" where
  "remembers s s' = (grows (dc_kernel s) (dc_kernel s') \<and>
     (\<forall>sel x. resolve_selector sel (dc_selectors s) = Some x \<longrightarrow> resolve_selector sel (dc_selectors s') = Some x) \<and>
     (\<forall>i ed cd m. find_pin i ed cd (dc_pins s) = Some m \<longrightarrow> find_pin i ed cd (dc_pins s') = Some m))"

lemma grows_same: "grows k k"
  by (rule same_grows[of _ _ "[]"]) simp

lemma remembers_trans: "remembers s s1 \<Longrightarrow> remembers s1 s2 \<Longrightarrow> remembers s s2"
  unfolding remembers_def using grows_trans by blast

lemma pin_stays: "find_pin i ed cd t = Some m \<Longrightarrow> find_pin i ed cd (pin_in_caller_tx a b c x t) = Some m"
  by (auto simp: find_pin_def pin_in_caller_tx_def insert_or_ignore_def select_extend)

lemma selector_stays:
  "selector_for minted now_ms target t = Inr (t', y) \<Longrightarrow> resolve_selector sel t = Some x \<Longrightarrow> resolve_selector sel t' = Some x"
  by (auto simp: selector_for_def Let_def resolve_selector_def select_extend split: option.splits if_splits)

lemma step_remembers:
  assumes "discharge_step s s'" "kernel_ok (dc_kernel s)"
  shows "kernel_ok (dc_kernel s') \<and> remembers s s' \<and> keeps s s'"
  using assms(1)
proof cases
  case (lifecycle k')
  then show ?thesis using step_ok[OF lifecycle(2) assms(2)] step_grows[OF lifecycle(2) assms(2)] by (simp add: remembers_def keeps_same)
next
  case (call uc digest mid q res)
  from discharge_frame[OF assms(2) call]
  have f: "closes (dc_kernel s) (dc_kernel s')" "keeps s s'" "dc_pins s' = dc_pins s" "dc_selectors s' = dc_selectors s"
    by (simp_all add: call_frame_def)
  show ?thesis using f closes_ok[OF f(1) assms(2)] closes_grows[OF f(1)] by (simp add: remembers_def)
qed (use assms(2) in \<open>simp_all add: remembers_def keeps_same grows_same pin_stays selector_stays\<close>)

lemma steps_remember:
  assumes "(retained_step expires)\<^sup>*\<^sup>* s s'" "kernel_ok (dc_kernel s)"
    and "select_first (\<lambda>r. ev_key r = key) (dc_events s) = Some row" "expires = ev_expires_at row"
  shows "kernel_ok (dc_kernel s') \<and> remembers s s' \<and> select_first (\<lambda>r. ev_key r = key) (dc_events s') = Some row"
  using assms(1)
proof (induction rule: rtranclp_induct)
  case base
  then show ?case using assms(2,3) by (simp add: remembers_def grows_same)
next
  case (step a b)
  then have st: "discharge_step a b" "dc_now a \<le> ev_expires_at row" using assms(4) by (simp_all add: retained_step_def)
  show ?case
    using step_remembers[OF st(1)] step.IH st(2) remembers_trans unfolding keeps_def by blast
qed

section \<open>A retry\<close>

lemma target_stays:
  assumes "target_in digest sels r q = Inr (ed, cd)"
    and "\<forall>sel x. resolve_selector sel sels = Some x \<longrightarrow> resolve_selector sel sels' = Some x"
  shows "target_in digest sels' r q = Inr (ed, cd)"
proof (cases "dq_target q")
  case (By_selector sel)
  then obtain x where "resolve_selector sel sels = Some x" using assms(1) by (auto simp: target_in_def split: option.splits)
  moreover from this have "resolve_selector sel sels' = Some x" using assms(2) by blast
  ultimately show ?thesis using assms(1) By_selector by (simp add: target_in_def)
qed (use assms(1) in \<open>simp add: target_in_def\<close>)

lemma authorized_stays:
  assumes "authorize_target pins t cd q = None"
    and "\<forall>i ed cd m. find_pin i ed cd pins = Some m \<longrightarrow> find_pin i ed cd pins' = Some m"
  shows "authorize_target pins' t cd q = None"
  using assms by (auto simp: authorize_target_def split: option.splits)

lemma retry_answered:
  assumes "get_mission mid (dc_kernel s1) = Some r" "target_in digest (dc_selectors s1) r q = Inr (ed, cd)"
    "settled_call digest r q s1 ed cd m rs" "select_first (\<lambda>x. ev_key x = event_key_of q mid ed cd) (dc_events s1) = Some row"
    and "kernel_ok (dc_kernel s2)" "remembers s1 s2"
    "select_first (\<lambda>x. ev_key x = event_key_of q mid ed cd) (dc_events s2) = Some row" "dc_now s2 \<le> ev_expires_at row"
  shows "\<exists>k3 m'. discharge uc digest mid q s2 = (s2\<lparr>dc_kernel := k3\<rparr>, Inr (m', rs)) \<and> m_id m' = m_id m \<and> closes (dc_kernel s2) k3"
proof -
  have later: "\<exists>y. get_mission i (dc_kernel s2) = Some y \<and> row_evolves x y" if "get_mission i (dc_kernel s1) = Some x" for i x
  proof -
    have "x \<in> set (missions (dc_kernel s1))" "m_id x = i" using get_in[OF that] by simp_all
    then obtain y where "y \<in> set (missions (dc_kernel s2))" "row_evolves x y"
      using assms(6) unfolding remembers_def grows_def list_all_iff list_ex_iff by blast
    then show ?thesis using get_current[OF ok_sound[OF assms(5)]] row_evolves_ids \<open>m_id x = i\<close> by metis
  qed
  obtain found where found: "get_mission mid (dc_kernel s2) = Some found" "row_evolves r found" using later[OF assms(1)] by blast
  have c: "content found = content r" using found(2) by (simp add: row_evolves_def)
  have ids: "m_id found = mid" "m_id r = mid" "m_issuer found = m_issuer r" using get_in found(1) assms(1) content_fields[OF c] by auto
  obtain k3 r3 where k3: "closes (dc_kernel s2) k3" "kernel_ok k3" "r3 \<in> set (missions k3)" "m_id r3 = mid" "m_issuer r3 = m_issuer found"
    and run: "discharge uc digest mid q s2 = (case target_in digest (dc_selectors s2) found q of
       Inl e \<Rightarrow> (s2\<lparr>dc_kernel := k3\<rparr>, Inl e)
     | Inr (ed, cd) \<Rightarrow> discharge_as uc digest r3 ed cd q (s2\<lparr>dc_kernel := k3\<rparr>))"
    by (rule discharge_runs[OF assms(5) found(1), of uc digest q])
  have "target_in digest (dc_selectors s2) found q = Inr (ed, cd)"
    using target_stays[OF assms(2)] assms(6) unfolding remembers_def target_cong[OF c] by blast
  then have run: "discharge uc digest mid q s2 = discharge_as uc digest r3 ed cd q (s2\<lparr>dc_kernel := k3\<rparr>)" using run by simp
  let ?key = "event_key_of q mid ed cd" and ?fp = "assertion_fingerprint digest mid ed cd q"
  obtain resolved where sc:
      "ev_stored row = \<lparr>se_fingerprint = ?fp, se_outcome = rs_outcome rs, se_prior_version = rs_prior_version rs,
        se_new_version = rs_new_version rs, se_resolved = resolved\<rparr>"
      "authorize_target (dc_pins s1) (case resolved of None \<Rightarrow> (mid, ed) | Some t \<Rightarrow> t) cd q = None"
      "rs_target rs = dq_target q" "rs_event_id rs = dq_event_id q" "\<exists>x. get_mission (m_id m) (dc_kernel s1) = Some x"
      "m_id m = (case resolved of None \<Rightarrow> mid | Some t \<Rightarrow> fst t)"
      "rs_forwarded_from rs = (if m_id m = mid then None else Some (m_issuer r, mid))"
    using assms(3,4) unfolding settled_call_def records_def ids by auto
  have auth: "authorize_target (dc_pins s2) (case resolved of None \<Rightarrow> (mid, ed) | Some t \<Rightarrow> t) cd q = None"
    using authorized_stays[OF sc(2)] assms(6) unfolding remembers_def by blast
  have live: "find_occurrence True ?key (clock k3) (dc_events s2) = (dc_events s2, Some (ev_stored row))"
    using assms(7,8) closes_now[OF k3(1)] by (simp add: find_occurrence_def)
  have rs: "replay_result q (ev_stored row) (if m_id m = mid then None else Some (m_issuer r, mid)) = rs"
    using sc(1,3,4,7) by (simp add: replay_result_def)
  let ?s = "s2\<lparr>dc_kernel := k3\<rparr>"
  have rep: "discharge uc digest mid q s2 = replay_discharge r3 ?fp (ev_stored row) q ?s"
    using run k3(4) live sc(1) auth by (simp add: discharge_as_def Let_def discharge_route_def)
  obtain y where "get_mission (m_id m) (dc_kernel s2) = Some y" using later sc(5) by blast
  then obtain z where z: "get_mission (m_id m) k3 = Some z" using evolves_get k3(1) unfolding closes_def by blast
  have "\<exists>m'. replay_discharge r3 ?fp (ev_stored row) q ?s = (?s, Inr (m', rs)) \<and> m_id m' = m_id m"
  proof (cases "m_id m = mid")
    case True
    then show ?thesis
      using sc(1,6) k3(4) rs by (auto simp: replay_discharge_def split: option.splits)
  next
    case False
    then obtain t where t: "resolved = Some t" "fst t = m_id m" using sc(6) by (cases resolved) auto
    have "m_id z = m_id m" using get_in[OF z] by simp
    then show ?thesis
      using sc(1) t False k3(4,5) rs z ids(3) by (auto simp: replay_discharge_def split: prod.split)
  qed
  then show ?thesis using rep k3(1) by auto
qed

text \<open>The record a call of the Mission finds, whether it is expired or not.\<close>

definition occurrence_row :: "(string \<Rightarrow> string) \<Rightarrow> string \<Rightarrow> discharge_request \<Rightarrow> entry_discharge \<Rightarrow> discharge_event_row option" where
  "occurrence_row digest mid q s =
     (case get_mission mid (dc_kernel s) of
        None \<Rightarrow> None
      | Some r \<Rightarrow>
          (case target_in digest (dc_selectors s) r q of
             Inl e \<Rightarrow> None
           | Inr (ed, cd) \<Rightarrow> select_first (\<lambda>x. ev_key x = event_key_of q mid ed cd) (dc_events s)))"

text \<open>
  C13. A call that is answered leaves a record of its occurrence. As long as the clock has not
  passed that record's expiry, the same assertion is answered with the same result, for the
  Mission it was resolved to the first time, and the retry writes nothing but the expiry the
  observation of its Mission materializes: whatever happened in between - any step of the
  kernel, other discharges with the deletions they make, new pins and selectors, new carryover
  tables.
\<close>

theorem discharge_replayed:
  assumes "kernel_ok (dc_kernel s)" "guarded uc (dc_kernel s)" "keyed ev_key (dc_events s)"
    and "discharge uc digest mid q s = (s1, Inr (m, rs))"
  shows "\<exists>row. occurrence_row digest mid q s1 = Some row \<and>
    (\<forall>s2. (retained_step (ev_expires_at row))\<^sup>*\<^sup>* s1 s2 \<longrightarrow> dc_now s2 \<le> ev_expires_at row \<longrightarrow>
       (\<exists>k3 m'. discharge uc digest mid q s2 = (s2\<lparr>dc_kernel := k3\<rparr>, Inr (m', rs)) \<and> m_id m' = m_id m \<and>
          closes (dc_kernel s2) k3))"
proof -
  obtain r ed cd where r: "get_mission mid (dc_kernel s) = Some r" "target_in digest (dc_selectors s) r q = Inr (ed, cd)"
    "settled_call digest r q s1 ed cd m rs" and s1: "kernel_ok (dc_kernel s1)" "closes (dc_kernel s) (dc_kernel s1)" "dc_pins s1 = dc_pins s"
    using discharge_exact[OF assms(1-4)] by auto
  have fr: "dc_selectors s1 = dc_selectors s" using discharge_frame[OF assms(1,4)] by (simp add: call_frame_def)
  obtain r1 where r1: "get_mission mid (dc_kernel s1) = Some r1" "row_evolves r r1"
    using evolves_get[OF _ r(1)] s1(2) by (auto simp: closes_def)
  have ids: "m_id r = mid" using get_in[OF r(1)] by simp
  have c1: "content r1 = content r" using r1(2) by (simp add: row_evolves_def)
  let ?key = "event_key_of q mid ed cd"
  obtain row where row: "select_first (\<lambda>x. ev_key x = ?key) (dc_events s1) = Some row"
    using r(3) unfolding settled_call_def records_def ids by blast
  have "occurrence_row digest mid q s1 = Some row"
    using r1(1) r(2) target_cong[OF c1] fr row by (simp add: occurrence_row_def)
  moreover have "\<exists>k3 m'. discharge uc digest mid q s2 = (s2\<lparr>dc_kernel := k3\<rparr>, Inr (m', rs)) \<and> m_id m' = m_id m \<and> closes (dc_kernel s2) k3"
    if "(retained_step (ev_expires_at row))\<^sup>*\<^sup>* s1 s2" "dc_now s2 \<le> ev_expires_at row" for s2
  proof (rule retry_answered[OF r1(1) _ _ row])
    show "target_in digest (dc_selectors s1) r1 q = Inr (ed, cd)" using r(2) target_cong[OF c1] fr by simp
    show "settled_call digest r1 q s1 ed cd m rs" using r(3) settled_cong[of r1 r] content_fields[OF c1] by simp
  qed (use steps_remember[OF that(1) s1(1) row refl] that(2) in simp_all)
  ultimately show ?thesis by blast
qed

section \<open>Inputs\<close>

text \<open>A parent and a child whose authority ends when the same condition fires.\<close>

definition completion :: json where
  "completion = JObj [(''event_type'', JStr ''done'')]"

definition root_task :: json where
  "root_task = JObj
     [(''type'', JStr ''mission_resource_access''), (''resource'', JStr ''https://a/''), (''resource_match'', JStr ''prefix''),
      (''actions'', jstrs [''read'']), (''constraints'', JObj [(''terminal_when'', JArr [completion])]),
      (''delegation'', JObj [(''max_depth'', JNum 2), (''children'', JObj [(''max_children'', JNum 3)])])]"

definition child_task :: json where
  "child_task = JObj
     [(''type'', JStr ''mission_resource_access''), (''resource'', JStr ''https://a/x''), (''actions'', jstrs [''read'']),
      (''constraints'', JObj [(''terminal_when'', JArr [completion])]),
      (''delegation'', JObj [(''max_depth'', JNum 1), (''children'', JObj [(''max_children'', JNum 1)])])]"

definition task_family :: kernel where
  "task_family = sample_start\<lparr>missions := [holder ''m1'' None root_task, holder ''m2'' (Some ''m1'') child_task]\<rparr>"

definition task_request :: discharge_request where
  "task_request =
     \<lparr>dq_target = By_digests (entry_digest (\<lambda>s. s) ''as'' root_task) (the (condition_digest (\<lambda>s. s) completion)),
      dq_authority = ''oracle'', dq_event_type = ''done'', dq_event_id = ''e1'', dq_evidence_ref = None,
      dq_evidence_digest = None, dq_observed_at = None\<rparr>"

definition task_store :: entry_discharge where
  "task_store =
     \<lparr>dc_kernel = task_family,
      dc_pins = [\<lparr>pin_mission = ''m1'', pin_entry = entry_digest (\<lambda>s. s) ''as'' root_task,
        pin_condition = the (condition_digest (\<lambda>s. s) completion),
        pin_mapping = \<lparr>mp_id = ''erp'', mp_version = ''1'', mp_event_types = Some [''done''], mp_principals = [''oracle'']\<rparr>\<rparr>],
      dc_selectors = [], dc_events = [], dc_carryover = None, dc_retention_ms = 1000\<rparr>"

lemma task_entries: "is_authority_entry plain_unicode root_task" "is_authority_entry plain_unicode child_task"
  "is_subset_entry plain_unicode child_task root_task"
  by code_simp+

lemma task_family_ok: "kernel_ok task_family" "guarded plain_unicode task_family"
proof -
  show "kernel_ok task_family" by (simp add: kernel_ok_defs sample_defs sample_dates task_family_def holder_def)
  show "guarded plain_unicode task_family" using task_entries by (simp add: guarded_def task_family_def holder_def)
qed

lemma task_family_clock: "apply_expiry (holder ''m1'' None root_task) task_family = (task_family, Inr (holder ''m1'' None root_task))"
proof -
  let ?m = "holder ''m1'' None root_task"
  have m: "?m \<in> set (missions task_family)" "m_state ?m \<noteq> Terminated" by (simp_all add: task_family_def holder_def sample_mission_def)
  have "observe_at n task_family 1000 False ?m = ?m" for n
    by (subst observe_at.simps)
      (simp add: Let_def observe_expiry_def due_by_def sample_dates sample_mission_def holder_def split: nat.split)
  then have "m_state (observe task_family ?m) \<noteq> Terminated"
    unfolding observe_def using m(2) by (simp add: task_family_def sample_start_def new_kernel_def)
  from apply_expiry_exact(2)[OF task_family_ok(1) m this] show ?thesis
    by (simp add: due_schedule_transition_def holder_def sample_mission_def)
qed

lemma task_target:
  "target_in (\<lambda>s. s) [] (holder ''m1'' None root_task) task_request =
     Inr (entry_digest (\<lambda>s. s) ''as'' root_task, the (condition_digest (\<lambda>s. s) completion))"
  by code_simp

lemma task_authorized:
  "authorize_target (dc_pins task_store) (''m1'', entry_digest (\<lambda>s. s) ''as'' root_task) (the (condition_digest (\<lambda>s. s) completion)) task_request = None"
  by (simp add: authorize_target_def find_pin_def pin_key_def task_store_def mapping_permits_def task_request_def)

lemma task_family_get: "get_mission ''m1'' task_family = Some (holder ''m1'' None root_task)"
  by (simp add: get_mission_def select_first_def task_family_def holder_def sample_mission_def)

lemma task_store_parts: "dc_kernel task_store = task_family" "dc_selectors task_store = []" "dc_events task_store = []"
    "dc_carryover task_store = None"
  by (simp_all add: task_store_def)

lemma task_discharged:
  "\<exists>s' m rs. discharge plain_unicode (\<lambda>s. s) ''m1'' task_request task_store = (s', Inr (m, rs)) \<and>
     rs_outcome rs = Discharged \<and> m_id m = ''m1'' \<and> list_all (\<lambda>r. dc_now s' \<le> ev_expires_at r) (dc_events s') \<and>
     dc_selectors s' = dc_selectors task_store \<and> dc_pins s' = dc_pins task_store"
proof -
  let ?r = "holder ''m1'' None root_task" and ?d = "[entry_digest (\<lambda>s. s) ''as'' root_task]"
  let ?cd = "the (condition_digest (\<lambda>s. s) completion)"
  have r: "?r \<in> set (missions task_family)" "m_state ?r = Active" "m_id ?r = ''m1''" "m_discharged ?r = []"
    "m_termination ?r = None"
    by (simp_all add: task_family_def holder_def sample_mission_def)
  obtain k1 k' where k: "commit_latch plain_unicode (\<lambda>s. s) ?r ?d task_family = Inr (k1, latched ?r ?d)"
    "propagate_latch plain_unicode (\<lambda>s. s) ?cd (latched ?r ?d) ?d k1 = (k', Inr ())" "closes task_family k'"
    using latch_discharge_exact[OF task_family_ok r(1), of "\<lambda>s. s" ?d ?cd] r(2) by auto
  have c1: "closes task_family k1"
    by (rule commit_latch_closes(1)[OF k(1) sound_keyed[OF ok_sound[OF task_family_ok(1)]] r(1)]) (simp add: r(2))
  have now: "clock k1 = 1000" "clock k' = 1000" "clock task_family = 1000"
    using k(3) c1 by (simp_all add: closes_def evolves_def task_family_def sample_start_def new_kernel_def)
  have ap: "\<exists>s' m rs. apply_discharge plain_unicode (\<lambda>s. s) ?r (hd ?d) ?cd key fp task_request None False task_store = (s', Inr (m, rs)) \<and>
     rs_outcome rs = Discharged \<and> m_id m = ''m1'' \<and> list_all (\<lambda>r. dc_now s' \<le> ev_expires_at r) (dc_events s') \<and>
     dc_selectors s' = dc_selectors task_store \<and> dc_pins s' = dc_pins task_store" for key fp
    using r k(1,2) now
    by (simp add: apply_discharge_def Let_def task_store_def record_outcome_def record_occurrence_def insert_or_ignore_def delete_where_def)
  have st: "task_store\<lparr>dc_kernel := task_family\<rparr> = task_store" "task_store\<lparr>dc_events := []\<rparr> = task_store"
    by (simp_all add: task_store_def)
  have rt: "carried_row_of None ?r = None" by (simp add: carried_row_of_def r(5))
  have d: "discharge plain_unicode (\<lambda>s. s) ''m1'' task_request task_store =
      discharge_as plain_unicode (\<lambda>s. s) ?r (hd ?d) ?cd task_request task_store"
    unfolding discharge_def task_store_parts task_family_get option.case task_family_clock prod.case sum.case st(1) task_target list.sel ..
  show ?thesis
    unfolding d discharge_as_def Let_def
    using ap task_authorized
    by (simp add: st task_store_parts rt find_occurrence_def discharge_route_def Let_def r(3))
qed

theorem discharge_exact_witness:
  "\<exists>s' m rs x. discharge plain_unicode (\<lambda>s. s) ''m1'' task_request task_store = (s', Inr (m, rs)) \<and>
     rs_new_version rs = rs_prior_version rs + 1 \<and> get_mission ''m1'' (dc_kernel s') = Some x \<and>
     entry_digest (\<lambda>s. s) ''as'' root_task \<in> set (m_discharged x)"
proof -
  obtain s' m rs where d: "discharge plain_unicode (\<lambda>s. s) ''m1'' task_request task_store = (s', Inr (m, rs))"
    "rs_outcome rs = Discharged" "m_id m = ''m1''"
    using task_discharged by blast
  have "new_outcome plain_unicode (\<lambda>s. s) (dc_pins task_store) task_request (dc_kernel s') ''m1''
      (entry_digest (\<lambda>s. s) ''as'' root_task) (the (condition_digest (\<lambda>s. s) completion)) m rs"
    using discharge_exact[OF _ _ _ d(1)] task_family_ok task_target task_family_get
    by (simp add: task_store_parts keyed_def find_occurrence_def)
  then show ?thesis
    using d by (auto simp: new_outcome_def outcome_holds_def)
qed

theorem discharge_replayed_witness:
  "\<exists>s1 m rs k2 m' s3. discharge plain_unicode (\<lambda>s. s) ''m1'' task_request task_store = (s1, Inr (m, rs)) \<and>
     transition ''m1'' Revoke None None (dc_kernel s1) = k2 \<and>
     discharge plain_unicode (\<lambda>s. s) ''m1'' task_request (s1\<lparr>dc_kernel := fst k2\<rparr>) = (s3, Inr (m', rs)) \<and> m_id m' = ''m1'' \<and>
     rs_outcome rs = Discharged"
proof -
  obtain s1 m rs where d: "discharge plain_unicode (\<lambda>s. s) ''m1'' task_request task_store = (s1, Inr (m, rs))"
    "rs_outcome rs = Discharged" "m_id m = ''m1''" "list_all (\<lambda>r. dc_now s1 \<le> ev_expires_at r) (dc_events s1)"
    "dc_selectors s1 = dc_selectors task_store" "dc_pins s1 = dc_pins task_store"
    using task_discharged by blast
  obtain k2 a where t: "transition ''m1'' Revoke None None (dc_kernel s1) = (k2, a)" by fastforce
  have st: "discharge_step s1 (s1\<lparr>dc_kernel := k2\<rparr>)" by (rule discharge_step.lifecycle[OF kernel_step.request[OF t]])
  have cl: "clock k2 = dc_now s1" using transition_closes[OF t] by (simp add: closes_def evolves_def)
  obtain row where row: "occurrence_row (\<lambda>s. s) ''m1'' task_request s1 = Some row"
    "\<forall>s2. (retained_step (ev_expires_at row))\<^sup>*\<^sup>* s1 s2 \<longrightarrow> dc_now s2 \<le> ev_expires_at row \<longrightarrow>
       (\<exists>k3 m'. discharge plain_unicode (\<lambda>s. s) ''m1'' task_request s2 = (s2\<lparr>dc_kernel := k3\<rparr>, Inr (m', rs)) \<and> m_id m' = m_id m \<and>
          closes (dc_kernel s2) k3)"
    using discharge_replayed[OF _ _ _ d(1)] task_family_ok by (auto simp: task_store_parts keyed_def)
  have "row \<in> set (dc_events s1)"
    using row(1) by (auto simp: occurrence_row_def dest: select_first_SomeD split: option.splits sum.splits prod.splits)
  then have live: "dc_now s1 \<le> ev_expires_at row" using d(4) by (simp add: list_all_iff)
  have "(retained_step (ev_expires_at row))\<^sup>*\<^sup>* s1 (s1\<lparr>dc_kernel := k2\<rparr>)"
    by (intro r_into_rtranclp) (simp add: retained_step_def st live)
  moreover have "dc_now (s1\<lparr>dc_kernel := k2\<rparr>) \<le> ev_expires_at row" using live cl by simp
  ultimately obtain k3 m' where "discharge plain_unicode (\<lambda>s. s) ''m1'' task_request (s1\<lparr>dc_kernel := k2\<rparr>) =
      (s1\<lparr>dc_kernel := k3\<rparr>, Inr (m', rs))" "m_id m' = m_id m"
    using row(2) by fastforce
  then show ?thesis using d t by auto
qed

end
