(* ===== verification/Spec2Isabelle.thy ===== *)
theory Spec2Isabelle
  imports Common_Constraints Lifecycle_Theorems Single_Use Merkle_Log Compensation Write_Reservations
    Operation_Contract Subset_Theorems Derivation_Theorems Discharge_Props
begin

text \<open>
  A verification development for the Mission-bound authorization reference
  implementation: an authorization server whose kernel keeps Missions (records of
  approved authority with a lifecycle), the vocabulary of authority that kernel and
  enforcement points share, and the single-use stores of the enforcement points.

  \<^bold>\<open>The program and its parts.\<close>  A \<^emph>\<open>Mission\<close> holds a set of approved entries
  (resources, actions, constraints).  The kernel
  (\<^verbatim>\<open>services/authorization-server/src/kernel\<close>) creates Missions and their children,
  moves them through \<open>Active\<close>, \<open>Suspended\<close> and \<open>Terminated\<close>, narrows their effective
  authority by containment and by entry discharge, derives tokens from them under a cap,
  and writes every commit to an outbox.  Authority is compared and matched by
  \<^verbatim>\<open>packages/mission-core\<close>; a running task is unwound by \<^verbatim>\<open>packages/orchestration\<close>; the
  enforcement point of the payment server consumes each authorization once
  (\<^verbatim>\<open>services/mcp-payments\<close>); the transparency service commits to its log by a Merkle
  tree (\<^verbatim>\<open>services/transparency\<close>).

  \<^bold>\<open>Values\<close> (\<^verbatim>\<open>packages/mission-core/src\<close>).
  \<^item> \<open>Prelude\<close>: tables of rows with the SQL statement shapes of the code, fuel-free list
    and option lemmas, the collection \<open>sql\<close>.
  \<^item> \<open>Json\<close>, \<open>Canonical_Json\<close>: \<^verbatim>\<open>canonicalize.ts\<close>; a number is a rational and is written as
    \<open>Number::toString\<close> writes a finite decimal; the canonical text determines the value up
    to the order of members.
  \<^item> \<open>Decimal_Amount\<close> (\<^verbatim>\<open>decimal-amount.ts\<close>), \<open>Rfc3339_Instant\<close>
    (\<^verbatim>\<open>rfc3339-instant.ts\<close>), \<open>A_Label\<close> (\<^verbatim>\<open>a-label.ts\<close>), \<open>Common_Constraints\<close>
    (\<^verbatim>\<open>common-constraints.ts\<close>): the constraint values, their subset and intersection.
  \<^item> \<open>Uri\<close>, \<open>Resource_Matching\<close>, \<open>Operation_Contract\<close> (\<^verbatim>\<open>operation-target.ts\<close>): the
    resource identifiers, the matcher, the operation contracts.
  \<^item> \<open>Entry_Rules\<close>, \<open>Authority_Subset\<close>, \<open>Subset_Laws\<close>, \<open>Subset_Theorems\<close>
    (\<^verbatim>\<open>authority-subset.ts\<close>): the entry guard, the subset rule, its refinement of what
    an entry admits, and the narrowing of a proposal to a ceiling.  The gates of child
    creation (\<open>may_create_child\<close>) read an absent \<open>max_child_depth\<close> as 1, the subset rule
    reads it as unbounded: the refinement states where the two agree.
  \<^item> \<open>Containment_Selector\<close> (\<^verbatim>\<open>containment-selector.ts\<close>), \<open>Narrowing_Declaration\<close>
    (\<^verbatim>\<open>narrowing-declaration.ts\<close>).

  \<^bold>\<open>The kernel\<close> (\<^verbatim>\<open>services/authorization-server/src/kernel\<close>).
  \<^item> \<open>Mission_Types\<close> (\<^verbatim>\<open>types.ts\<close>), \<open>Termination\<close> (\<^verbatim>\<open>termination.ts\<close>), \<open>Tombstones\<close>,
    \<open>Continuation_Store\<close>, \<open>Delegation_Families\<close>, \<open>Lifecycle_Outbox\<close>: the data and the
    stores, each with its own operations and invariants.
  \<^item> \<open>Kernel_State\<close>: the database as the record \<open>kernel\<close> (Mission rows, outbox,
    tombstones, continuations, delegation families, bound grants, clock) and the commit
    that touches several stores in one transaction (\<open>emitCommit\<close>).
  \<^item> \<open>Lifecycle\<close>: observation, expiry, transitions, the cascade to children, schedules,
    supersession, record creation (\<^verbatim>\<open>kernel.ts\<close>); the termination of a carried
    subtree with its two \<^verbatim>\<open>subtree_changed\<close> refusals (\<^verbatim>\<open>carryover.ts\<close>); the delegation
    families and continuation hops recorded for a live Mission
    (\<^verbatim>\<open>adapters/continuation-grant.ts\<close>).  The laws follow in \<open>Lifecycle_Laws\<close> (how a row may change),
    \<open>Lifecycle_Total\<close> (a state write succeeds), \<open>Lifecycle_Steps\<close> (soundness is kept),
    \<open>Lifecycle_Reach\<close>, \<open>Lifecycle_Props\<close> (the step relation \<open>kernel_step\<close> with one
    constructor per operation, those that record lineages and replacements included, and
    the contract of a request, \<open>refused_with\<close> and \<open>granted\<close>) and
    \<open>Lifecycle_Theorems\<close> (every reachable kernel).  Session anchors have no step: nothing
    in the sources roots or ends one outside the tests.
  \<^item> \<open>Containment\<close>, \<open>Containment_Laws\<close>, \<open>Containment_Children\<close>, \<open>Containment_Steps\<close>,
    \<open>Containment_Theorems\<close>: effective authority, the \<open>contain\<close> transition and its
    propagation.
  \<^item> \<open>Discharge_Latch\<close>, \<open>Discharge_Laws\<close>, \<open>Discharge\<close>, \<open>Discharge_Theorems\<close>,
    \<open>Discharge_Props\<close>: the latch a fired completion condition leaves on an entry, its
    propagation, the funnel with its pins, selectors and recorded occurrences, and the
    chain a carried Mission is followed along.  What may happen between a call and its
    retry is the step relation \<open>discharge_step\<close>.
  \<^item> \<open>Derivation\<close>, \<open>Derivation_Gate\<close>, \<open>Derivation_Theorems\<close>
    (\<^verbatim>\<open>derivation-reservations.ts\<close> and the gates of \<^verbatim>\<open>kernel.ts\<close>): what a token issuance
    passes, counts and reserves.

  \<^bold>\<open>Enforcement and execution.\<close>
  \<^item> \<open>Single_Use\<close> (\<^verbatim>\<open>packages/store/src/index.ts\<close>, \<^verbatim>\<open>mcp-payments/src/transaction.ts\<close>,
    \<^verbatim>\<open>txn-store.ts\<close>), \<open>Write_Reservations\<close> (\<^verbatim>\<open>write-reservations.ts\<close>).
  \<^item> \<open>Orchestration\<close>, \<open>Compensation\<close> (\<^verbatim>\<open>packages/orchestration/src\<close>).
  \<^item> \<open>Merkle_Log\<close> (\<^verbatim>\<open>services/transparency/src/merkle.ts\<close>).

  \<^bold>\<open>How code is rendered.\<close>  A row is a record, a table the list of its rows in insertion
  order, an SQL statement one of the shapes of \<open>Prelude\<close>.  An operation takes the state
  and returns it with its answer; a failure is \<open>Inl\<close> of an error, and a transaction that
  throws leaves the state of its start, while what was committed before the throw stays
  committed.  Strings are lists of characters below 256 (a UTF-8 text as its bytes).
  The clock is read once per operation, random identifiers are drawn from a counter in
  the state.  Parameters, with what is assumed of them named where they are used: the
  hash (\<open>digest\<close>, of which nothing is assumed: the property of the log names the
  collision instead), the Unicode
  tables of the runtime, the parsing of stored JSON text, the subscribers of the outbox
  and the effects that leave the process.

  \<^bold>\<open>Fuel.\<close>  The kernel's recursion over children is bounded by \<open>fuel_for\<close>, one more than
  the number of records: in every reachable kernel a parent is older than its children
  (\<open>sound\<close>), so a descent visits each record at most once and \<open>OutOfFuel\<close> never arises;
  the theorems that an operation answers are proved for this fuel.  The walk up the
  lineage and the carried chain use the same bound (a visited record is not visited
  again).  Observation is bounded by 65 levels as in the code.  A compensation order is
  computed with one more than the number of its steps, which bounds the depth of a
  dependency chain without repetition.

  \<^bold>\<open>The groups of lemmas.\<close>  A theory of definitions is followed by its laws: what every
  operation keeps of its state, what an operation answers on each branch, and the
  contracts between components as locales, each interpreted on the model's own
  operations.  The properties of the manifest carry a claim number in the text before
  them.

  \<^bold>\<open>Not modelled.\<close>  Input and output (HTTP adapters, the opening of databases and their
  schema migrations), signing and verification of tokens and their key rings, the
  wording of messages, the asynchronous sharing of in-flight promises, and the
  components the manifest lists as not modelled: the protocol adapters of the
  authorization server, the approval and progressive-disclosure workflows, the request
  handlers of the payment server, the signal transport, the AAuth services, the consoles
  and the demonstration data.
\<close>

end
